(* ===== verification/Prelude.thy ===== *)
theory Prelude
  imports Main "HOL-Library.Word"
begin

text \<open>
  Shared vocabulary of the development: the machine integer types of the C
  sources (src/Assignment3/Ass3/src/include/types.h), the wrap-around of the C
  operators on the types that are kept as natural numbers or integers, and the
  generic lemmas the component theories use.

  Addresses and lengths of the memory-management code are kept as \<^typ>\<open>nat\<close>
  with the reduction modulo \<open>2 ^ 64\<close> written out in every operator
  (\<open>add64\<close>, \<open>sub64\<close>), values of C type \<open>int\<close> are \<^typ>\<open>int\<close> with \<open>s32\<close> written
  out where an operator can leave the range, and bit patterns (page-table
  entries, protection flags, bitmaps, hash keys) are words.
\<close>

unbundle bit_operations_syntax

type_synonym u8 = "8 word"
type_synonym u32 = "32 word"
type_synonym u64 = "64 word"

named_theorems u64_simps \<open>removal of the wrap-around where the operands are small\<close>
named_theorems pte_simps \<open>reading back the fields of a page-table entry\<close>

subsection \<open>Unsigned 64-bit arithmetic on natural numbers\<close>

definition add64 :: "nat \<Rightarrow> nat \<Rightarrow> nat" where
  "add64 a b = (a + b) mod 2 ^ 64"

definition sub64 :: "nat \<Rightarrow> nat \<Rightarrow> nat" where
  "sub64 a b = (a + 2 ^ 64 - b mod 2 ^ 64) mod 2 ^ 64"

text \<open>The conversion of a C \<open>int\<close> to \<open>unsigned long\<close>: sign extension.\<close>

definition ext64 :: "int \<Rightarrow> nat" where
  "ext64 i = nat (i mod 2 ^ 64)"

text \<open>The value an \<open>int\<close> variable holds after the assignment of a wider result.\<close>

definition s32 :: "int \<Rightarrow> int" where
  "s32 i = (i + 2 ^ 31) mod 2 ^ 32 - 2 ^ 31"

lemma add64_small [u64_simps]: "a + b < 2 ^ 64 \<Longrightarrow> add64 a b = a + b"
  by (simp add: add64_def)

lemma sub64_small [u64_simps]: "b \<le> a \<Longrightarrow> a < 2 ^ 64 \<Longrightarrow> sub64 a b = a - b"
proof -
  assume ba: "b \<le> a" and a: "a < 2 ^ 64"
  then have "a + 2 ^ 64 - b mod 2 ^ 64 = (a - b) + 2 ^ 64" by simp
  with a show ?thesis by (simp add: sub64_def)
qed

lemma ext64_nonneg [u64_simps]: "0 \<le> i \<Longrightarrow> i < 2 ^ 64 \<Longrightarrow> ext64 i = nat i"
  by (simp add: ext64_def)

lemma s32_small [u64_simps]: "- (2 ^ 31) \<le> i \<Longrightarrow> i < 2 ^ 31 \<Longrightarrow> s32 i = i"
  by (simp add: s32_def)

lemma s32_range: "- (2 ^ 31) \<le> s32 i \<and> s32 i < 2 ^ 31"
proof -
  have "0 \<le> (i + 2 ^ 31) mod 2 ^ 32" "(i + 2 ^ 31) mod 2 ^ 32 < 2 ^ 32"
    by (rule pos_mod_sign, simp, rule pos_mod_bound, simp)
  then show ?thesis by (simp add: s32_def)
qed

lemma add64_less: "add64 a b < 2 ^ 64"
  by (simp add: add64_def)

end
