(* ===== verification/PhysMem.thy ===== *)
theory PhysMem
  imports Prelude
begin

text \<open>
  The physical page allocator of gemOS (src/Assignment3/Ass3/src/memory.c) and the
  per-frame reference counts (src/Assignment3/Ass3/src/page.c).  Physical memory
  is divided into three regions; each region has a page list with a bitmap, one
  bit per page.  The content of a frame is modelled as 512 words of 64 bits,
  which is how page tables and page copies use it; the bitmaps themselves are
  kept apart from the frames they are stored in.
\<close>

section \<open>Definitions\<close>

datatype region = OS_DS_REG | OS_PT_REG | USER_REG

abbreviation "PAGE_SIZE \<equiv> (4096 :: nat)"
abbreviation "REGION_OS_DS_START \<equiv> (0x800000 :: nat)"
abbreviation "REGION_OS_PT_START \<equiv> (0x2000000 :: nat)"
abbreviation "REGION_USER_START \<equiv> (0x6400000 :: nat)"
abbreviation "ENDMEM \<equiv> (0x20000000 :: nat)"

record page_list =
  pl_size :: nat
  free_pages :: nat
  last_free_pos :: nat
  start_address :: nat
  bitmap :: "nat \<Rightarrow> u32"

record kmem =
  pglists :: "region \<Rightarrow> page_list"
  phys :: "nat \<Rightarrow> nat \<Rightarrow> u64"
  refcount :: "nat \<Rightarrow> u8"
  user_reg_pages :: nat
  num_vm_area :: nat

subsection \<open>Reference counts\<close>

definition get_pfn_info_refcount :: "nat \<Rightarrow> kmem \<Rightarrow> u8" where
  "get_pfn_info_refcount pfn s = refcount s pfn"

definition set_pfn_info :: "nat \<Rightarrow> kmem \<Rightarrow> kmem" where
  "set_pfn_info pfn s = s\<lparr>refcount := (refcount s)(pfn := 1)\<rparr>"

definition reset_pfn_info :: "nat \<Rightarrow> kmem \<Rightarrow> kmem" where
  "reset_pfn_info pfn s = s\<lparr>refcount := (refcount s)(pfn := 0)\<rparr>"

definition increment_pfn_info_refcount :: "nat \<Rightarrow> kmem \<Rightarrow> kmem" where
  "increment_pfn_info_refcount pfn s = s\<lparr>refcount := (refcount s)(pfn := refcount s pfn + 1)\<rparr>"

definition decrement_pfn_info_refcount :: "nat \<Rightarrow> kmem \<Rightarrow> kmem" where
  "decrement_pfn_info_refcount pfn s = s\<lparr>refcount := (refcount s)(pfn := refcount s pfn - 1)\<rparr>"

subsection \<open>Bitmaps\<close>

definition pgl_bmap_set :: "(nat \<Rightarrow> u32) \<Rightarrow> nat \<Rightarrow> nat \<Rightarrow> u32" where
  "pgl_bmap_set bm i =
     (let lword = i div 32; b = i - lword * 32 in bm(lword := bm lword OR push_bit b 1))"

definition pgl_bmap_clear :: "(nat \<Rightarrow> u32) \<Rightarrow> nat \<Rightarrow> nat \<Rightarrow> u32" where
  "pgl_bmap_clear bm i =
     (let lword = i div 32; b = i - lword * 32
      in bm(lword := bm lword XOR push_bit b (drop_bit b (bm lword) AND 1)))"

fun bmap_set_upto :: "(nat \<Rightarrow> u32) \<Rightarrow> nat \<Rightarrow> nat \<Rightarrow> u32" where
  "bmap_set_upto bm 0 = bm"
| "bmap_set_upto bm (Suc n) = pgl_bmap_set (bmap_set_upto bm n) n"

text \<open>\<open>init_pagelist\<close> does not clear the bitmap: \<open>bm\<close> is what the memory holds at boot.\<close>

definition init_pagelist :: "nat \<Rightarrow> nat \<Rightarrow> (nat \<Rightarrow> u32) \<Rightarrow> page_list" where
  "init_pagelist start end bm =
     (let size = (end - start) div 4096;
          bytes = size div 8;
          pages_to_reserve = (if (bytes div 4096) * 4096 = bytes then bytes div 4096
                              else bytes div 4096 + 1)
      in \<lparr>pl_size = size, free_pages = size - pages_to_reserve,
          last_free_pos = pages_to_reserve div 32, start_address = start,
          bitmap = bmap_set_upto bm pages_to_reserve\<rparr>)"

definition init_pagelists :: "(region \<Rightarrow> nat \<Rightarrow> u32) \<Rightarrow> region \<Rightarrow> page_list" where
  "init_pagelists bms r =
     (case r of
        OS_DS_REG \<Rightarrow> init_pagelist REGION_OS_DS_START REGION_OS_PT_START (bms r)
      | OS_PT_REG \<Rightarrow> init_pagelist REGION_OS_PT_START REGION_USER_START (bms r)
      | USER_REG \<Rightarrow> init_pagelist REGION_USER_START ENDMEM (bms r))"

subsection \<open>Allocation and release\<close>

text \<open>The loop over the full words of the bitmap.\<close>

function skip_full :: "(nat \<Rightarrow> u32) \<Rightarrow> nat \<Rightarrow> nat \<Rightarrow> nat" where
  "skip_full bm size_in_u32 pos =
     (if bm pos = 0xffffffff \<and> pos < size_in_u32 then skip_full bm size_in_u32 (pos + 1) else pos)"
  by pat_completeness auto
termination by (relation "measure (\<lambda>(bm, n, pos). n - pos)") auto

declare skip_full.simps [simp del]

text \<open>\<open>for(bit=0; bit<32; ++bit) if(!is_set(*scanner, bit)) break;\<close>\<close>

function first_clear :: "u32 \<Rightarrow> nat \<Rightarrow> nat" where
  "first_clear x b = (if b < 32 \<and> bit x b then first_clear x (b + 1) else b)"
  by pat_completeness auto
termination by (relation "measure (\<lambda>(x, b). 32 - b)") auto

declare first_clear.simps [simp del]

definition get_free_page :: "page_list \<Rightarrow> nat \<times> page_list" where
  "get_free_page pgl =
     (let size_in_u32 = pl_size pgl div 2 ^ 8;
          pos1 = skip_full (bitmap pgl) size_in_u32 (last_free_pos pgl);
          pos = (if pos1 \<ge> size_in_u32 then 0 else pos1);
          pfn = pos * 32 + first_clear (bitmap pgl pos) 0
      in ((pfn + start_address pgl div 4096) mod 2 ^ 32,
          pgl\<lparr>last_free_pos := pos, bitmap := pgl_bmap_set (bitmap pgl) pfn,
              free_pages := free_pages pgl - 1\<rparr>))"

definition os_pfn_alloc :: "region \<Rightarrow> kmem \<Rightarrow> nat \<times> kmem" where
  "os_pfn_alloc r s =
     (if free_pages (pglists s r) = 0 then (0, s)
      else let (pfn, pgl) = get_free_page (pglists s r);
               s1 = s\<lparr>pglists := (pglists s)(r := pgl)\<rparr>;
               s2 = (if r = OS_PT_REG then s1\<lparr>phys := (phys s1)(pfn := (\<lambda>_. 0))\<rparr> else s1);
               s3 = (if r = USER_REG
                     then (set_pfn_info pfn s2)\<lparr>user_reg_pages := add64 (user_reg_pages s2) 1\<rparr>
                     else s2)
           in (pfn, s3))"

definition os_page_free :: "region \<Rightarrow> nat \<Rightarrow> kmem \<Rightarrow> kmem" where
  "os_page_free r paddress s =
     (let pgl = pglists s r;
          pfn = (sub64 paddress (start_address pgl) div 4096) mod 2 ^ 32
      in if paddress \<le> start_address pgl \<or>
            paddress \<ge> start_address pgl + (pl_size pgl * 4096) mod 2 ^ 32 then s
         else s\<lparr>pglists := (pglists s)(r := pgl\<lparr>bitmap := pgl_bmap_clear (bitmap pgl) pfn,
                                                 free_pages := free_pages pgl + 1\<rparr>)\<rparr>)"

definition os_pfn_free :: "region \<Rightarrow> nat \<Rightarrow> kmem \<Rightarrow> kmem" where
  "os_pfn_free r pfn s =
     (let s1 = os_page_free r ((pfn * 4096) mod 2 ^ 64) s
      in if r = USER_REG
         then (reset_pfn_info pfn s1)\<lparr>user_reg_pages := sub64 (user_reg_pages s1) 1\<rparr>
         else s1)"

definition get_free_pages_region :: "region \<Rightarrow> kmem \<Rightarrow> nat" where
  "get_free_pages_region r s = free_pages (pglists s r)"

section \<open>The abstract view: the set of allocated pages\<close>

definition bm_bit :: "(nat \<Rightarrow> u32) \<Rightarrow> nat \<Rightarrow> bool" where
  "bm_bit bm i = bit (bm (i div 32)) (i mod 32)"

lemma bm_bit_set: "bm_bit (pgl_bmap_set bm i) j = (j = i \<or> bm_bit bm j)"
proof -
  have "i - i div 32 * 32 = i mod 32" by (simp add: minus_div_mult_eq_mod)
  moreover have "j = i \<longleftrightarrow> j div 32 = i div 32 \<and> j mod 32 = i mod 32"
    by (metis div_mult_mod_eq)
  ultimately show ?thesis
    by (auto simp: bm_bit_def pgl_bmap_set_def Let_def bit_or_iff bit_push_bit_iff bit_1_iff
        bit_exp_iff)
qed

lemma bm_bit_clear: "bm_bit (pgl_bmap_clear bm i) j = (j \<noteq> i \<and> bm_bit bm j)"
proof -
  have "i - i div 32 * 32 = i mod 32" by (simp add: minus_div_mult_eq_mod)
  moreover have "j = i \<longleftrightarrow> j div 32 = i div 32 \<and> j mod 32 = i mod 32"
    by (metis div_mult_mod_eq)
  ultimately show ?thesis
    by (auto simp: bm_bit_def pgl_bmap_clear_def Let_def bit_xor_iff bit_push_bit_iff bit_and_iff
        bit_drop_bit_eq bit_1_iff bit_exp_iff)
qed

lemma full_word_iff: "(x :: u32) = 0xffffffff \<longleftrightarrow> (\<forall>b < 32. bit x b)"
proof -
  have "(0xffffffff :: u32) = - 1" by simp
  then show ?thesis
    by (simp add: bit_eq_iff)
qed

lemma skip_full_bounds: "pos \<le> n \<Longrightarrow> pos \<le> skip_full bm n pos \<and> skip_full bm n pos \<le> n"
proof (induction bm n pos rule: skip_full.induct)
  case (1 bm n pos)
  then show ?case by (subst (1 2) skip_full.simps) force
qed

lemma skip_full_stop: "skip_full bm n pos < n \<Longrightarrow> bm (skip_full bm n pos) \<noteq> 0xffffffff"
proof (induction bm n pos rule: skip_full.induct)
  case (1 bm n pos)
  then show ?case
    by (subst skip_full.simps, subst (asm) (2) skip_full.simps) (auto split: if_splits)
qed

lemma skip_full_le: "pos \<le> w \<Longrightarrow> w < n \<Longrightarrow> bm w \<noteq> 0xffffffff \<Longrightarrow> skip_full bm n pos \<le> w"
proof (induction bm n pos rule: skip_full.induct)
  case (1 bm n pos)
  show ?case
  proof (cases "bm pos = 0xffffffff")
    case True
    with 1 show ?thesis by (subst skip_full.simps) (cases "pos = w", auto)
  next
    case False
    with 1 show ?thesis by (subst skip_full.simps) simp
  qed
qed

lemma skip_full_all: "(\<And>w. pos \<le> w \<Longrightarrow> w < n \<Longrightarrow> bm w = 0xffffffff) \<Longrightarrow> n \<le> skip_full bm n pos"
proof (induction bm n pos rule: skip_full.induct)
  case (1 bm n pos)
  then show ?case by (subst skip_full.simps) (cases "n \<le> pos", auto)
qed

lemma first_clear_found: "c < 32 \<Longrightarrow> \<not> bit x c \<Longrightarrow> b \<le> c \<Longrightarrow>
  first_clear x b < 32 \<and> \<not> bit x (first_clear x b) \<and> first_clear x b \<le> c"
proof (induction x b rule: first_clear.induct)
  case (1 x b)
  show ?case
  proof (cases "b < 32 \<and> bit x b")
    case True
    with 1 have "b + 1 \<le> c" by (metis Suc_eq_plus1 le_neq_implies_less less_eq_Suc_le)
    with 1 True show ?thesis by (simp add: first_clear.simps [of x b])
  next
    case False
    with 1 show ?thesis by (auto simp: first_clear.simps [of x b])
  qed
qed

lemma first_clear_full: "b \<le> 32 \<Longrightarrow> \<forall>c < 32. bit x c \<Longrightarrow> first_clear x b = 32"
proof (induction x b rule: first_clear.induct)
  case (1 x b)
  then show ?case
    by (cases "b < 32") (simp_all add: first_clear.simps [of x b] first_clear.simps [of x 32])
qed

text \<open>The pages of the region in use, by index, and the invariant of a page list.\<close>

definition in_use :: "page_list \<Rightarrow> nat set" where
  "in_use pgl = {i. i < pl_size pgl \<and> bm_bit (bitmap pgl) i}"

definition pgl_ok :: "page_list \<Rightarrow> bool" where
  "pgl_ok pgl \<longleftrightarrow>
     256 \<le> pl_size pgl \<and> pl_size pgl < 2 ^ 20 \<and>
     0 < start_address pgl \<and> start_address pgl mod 4096 = 0 \<and> start_address pgl < 2 ^ 40 \<and>
     free_pages pgl + card (in_use pgl) = pl_size pgl"

text \<open>A word with a free page where the allocator looks for one.\<close>

definition has_room :: "page_list \<Rightarrow> bool" where
  "has_room pgl \<longleftrightarrow>
     (\<exists>w. last_free_pos pgl \<le> w \<and> w < pl_size pgl div 2 ^ 8 \<and> bitmap pgl w \<noteq> 0xffffffff) \<or>
     bitmap pgl 0 \<noteq> 0xffffffff"

lemma in_use_finite [simp]: "finite (in_use pgl)"
  by (rule finite_subset [of _ "{..<pl_size pgl}"]) (auto simp: in_use_def)

definition scan_word :: "page_list \<Rightarrow> nat" where
  "scan_word pgl =
     (let n = pl_size pgl div 2 ^ 8; p = skip_full (bitmap pgl) n (last_free_pos pgl)
      in if p \<ge> n then 0 else p)"

definition page_index :: "page_list \<Rightarrow> nat" where
  "page_index pgl = scan_word pgl * 32 + first_clear (bitmap pgl (scan_word pgl)) 0"

lemma get_free_page_eq:
  "get_free_page pgl =
     ((page_index pgl + start_address pgl div 4096) mod 2 ^ 32,
      pgl\<lparr>last_free_pos := scan_word pgl, bitmap := pgl_bmap_set (bitmap pgl) (page_index pgl),
          free_pages := free_pages pgl - 1\<rparr>)"
  by (simp add: get_free_page_def page_index_def scan_word_def Let_def)

lemma scan_word_room: "has_room pgl \<Longrightarrow> bitmap pgl (scan_word pgl) \<noteq> 0xffffffff"
proof -
  assume room: "has_room pgl"
  let ?n = "pl_size pgl div 2 ^ 8"
  let ?p = "skip_full (bitmap pgl) ?n (last_free_pos pgl)"
  show ?thesis
  proof (cases "?p < ?n")
    case True
    with skip_full_stop show ?thesis by (simp add: scan_word_def Let_def)
  next
    case False
    then have "\<not> (\<exists>w. last_free_pos pgl \<le> w \<and> w < ?n \<and> bitmap pgl w \<noteq> 0xffffffff)"
      using skip_full_le [of "last_free_pos pgl" _ ?n "bitmap pgl"] by force
    with room False show ?thesis by (auto simp: has_room_def scan_word_def)
  qed
qed

lemma page_index_fresh:
  assumes "has_room pgl" "256 \<le> pl_size pgl"
  shows "page_index pgl < pl_size pgl \<and> \<not> bm_bit (bitmap pgl) (page_index pgl)"
proof -
  let ?w = "scan_word pgl" and ?b = "first_clear (bitmap pgl (scan_word pgl)) 0"
  from scan_word_room [OF assms(1)] obtain c where "c < 32" "\<not> bit (bitmap pgl ?w) c"
    unfolding full_word_iff by blast
  then have b: "?b < 32" "\<not> bit (bitmap pgl ?w) ?b" using first_clear_found by blast+
  have "?w < pl_size pgl div 2 ^ 8"
    using assms(2) by (auto simp: scan_word_def Let_def)
  with b show ?thesis by (auto simp: page_index_def bm_bit_def)
qed

lemma page_index_full:
  assumes "\<not> has_room pgl"
  shows "scan_word pgl = 0 \<and> page_index pgl = 32"
proof -
  have "pl_size pgl div 2 ^ 8 \<le> skip_full (bitmap pgl) (pl_size pgl div 2 ^ 8) (last_free_pos pgl)"
    using assms by (intro skip_full_all) (auto simp: has_room_def)
  then have "scan_word pgl = 0" by (simp add: scan_word_def)
  moreover have "first_clear (bitmap pgl 0) 0 = 32"
    using assms by (intro first_clear_full) (auto simp: has_room_def full_word_iff)
  ultimately show ?thesis by (simp add: page_index_def)
qed

subsection \<open>Allocation and release on the abstract view\<close>

abbreviation first_pfn :: "region \<Rightarrow> kmem \<Rightarrow> nat" where
  "first_pfn r s \<equiv> start_address (pglists s r) div 4096"

definition used_frames :: "region \<Rightarrow> kmem \<Rightarrow> nat set" where
  "used_frames r s = (\<lambda>i. first_pfn r s + i) ` in_use (pglists s r)"

definition kmem_ok :: "kmem \<Rightarrow> bool" where
  "kmem_ok s \<longleftrightarrow> (\<forall>r. pgl_ok (pglists s r))"

definition room :: "region \<Rightarrow> kmem \<Rightarrow> bool" where
  "room r s \<longleftrightarrow> free_pages (pglists s r) \<noteq> 0 \<and> has_room (pglists s r)"

lemma os_pfn_alloc_sel [simp]:
  "refcount (snd (os_pfn_alloc OS_PT_REG s)) = refcount s"
  "refcount (snd (os_pfn_alloc OS_DS_REG s)) = refcount s"
  "phys (snd (os_pfn_alloc USER_REG s)) = phys s"
  "phys (snd (os_pfn_alloc OS_DS_REG s)) = phys s"
  by (simp_all add: os_pfn_alloc_def Let_def set_pfn_info_def split: prod.split)

lemma pgl_after_alloc:
  assumes "pgl_ok pgl" "has_room pgl" "free_pages pgl \<noteq> 0" "get_free_page pgl = (pfn, pgl')"
  shows "pfn = start_address pgl div 4096 + page_index pgl \<and> page_index pgl \<notin> in_use pgl \<and>
         in_use pgl' = insert (page_index pgl) (in_use pgl) \<and> pgl_ok pgl' \<and>
         start_address pgl' = start_address pgl \<and> pl_size pgl' = pl_size pgl"
proof -
  have fresh: "page_index pgl < pl_size pgl" "\<not> bm_bit (bitmap pgl) (page_index pgl)"
    using page_index_fresh assms by (auto simp: pgl_ok_def)
  have "start_address pgl div 4096 < 2 ^ 28"
    using assms(1) by (intro less_mult_imp_div_less) (simp add: pgl_ok_def)
  with fresh(1) assms(1) have "page_index pgl + start_address pgl div 4096 < 2 ^ 32"
    by (simp add: pgl_ok_def)
  then have pfn: "pfn = start_address pgl div 4096 + page_index pgl"
    using assms(4) by (simp add: get_free_page_eq)
  have pgl': "pgl' = pgl\<lparr>last_free_pos := scan_word pgl,
      bitmap := pgl_bmap_set (bitmap pgl) (page_index pgl), free_pages := free_pages pgl - 1\<rparr>"
    using assms(4) by (simp add: get_free_page_eq)
  then have use: "in_use pgl' = insert (page_index pgl) (in_use pgl)"
    using fresh(1) by (auto simp: in_use_def bm_bit_set)
  have "page_index pgl \<notin> in_use pgl" using fresh(2) by (simp add: in_use_def)
  with use pgl' assms(1,3) have "pgl_ok pgl'" by (auto simp: pgl_ok_def)
  with pfn use pgl' fresh(2) show ?thesis by (simp add: in_use_def)
qed

lemma pglists_os_pfn_alloc:
  "pglists (snd (os_pfn_alloc r s)) =
     (if free_pages (pglists s r) = 0 then pglists s
      else (pglists s)(r := snd (get_free_page (pglists s r))))"
  by (simp add: os_pfn_alloc_def Let_def set_pfn_info_def split: prod.split)

lemma fst_os_pfn_alloc:
  "fst (os_pfn_alloc r s) =
     (if free_pages (pglists s r) = 0 then 0 else fst (get_free_page (pglists s r)))"
  by (simp add: os_pfn_alloc_def Let_def split: prod.split)

lemma os_pfn_alloc_fresh:
  assumes "kmem_ok s" "room r s" "os_pfn_alloc r s = (pfn, s')"
  shows "pfn \<notin> used_frames r s \<and> used_frames r s' = insert pfn (used_frames r s) \<and> kmem_ok s' \<and>
         (\<forall>r'. r' \<noteq> r \<longrightarrow> used_frames r' s' = used_frames r' s)"
proof -
  let ?pgl = "pglists s r"
  obtain pgl' where g: "get_free_page ?pgl = (pfn, pgl')"
    using assms(2,3) fst_os_pfn_alloc [of r s] by (cases "get_free_page ?pgl") (auto simp: room_def)
  have p: "pglists s' = (pglists s)(r := pgl')"
    using assms(2,3) g pglists_os_pfn_alloc [of r s] by (simp add: room_def)
  have "pfn = first_pfn r s + page_index ?pgl \<and> page_index ?pgl \<notin> in_use ?pgl \<and>
      in_use pgl' = insert (page_index ?pgl) (in_use ?pgl) \<and> pgl_ok pgl' \<and>
      start_address pgl' = start_address ?pgl \<and> pl_size pgl' = pl_size ?pgl"
    using assms g by (intro pgl_after_alloc) (auto simp: kmem_ok_def room_def)
  with p assms(1) show ?thesis
    by (auto simp: used_frames_def kmem_ok_def)
qed

lemma pglists_os_pfn_free:
  "pglists (os_pfn_free r pfn s) = pglists (os_page_free r ((pfn * 4096) mod 2 ^ 64) s)"
  by (simp add: os_pfn_free_def Let_def reset_pfn_info_def)

lemma os_page_free_at:
  assumes bounds: "pl_size (pglists s r) < 2 ^ 20" "start_address (pglists s r) < 2 ^ 40"
    "start_address (pglists s r) mod 4096 = 0" and i: "0 < i" "i < pl_size (pglists s r)"
  shows "pglists (os_pfn_free r (first_pfn r s + i) s) =
           (pglists s)(r := (pglists s r)\<lparr>bitmap := pgl_bmap_clear (bitmap (pglists s r)) i,
                                         free_pages := free_pages (pglists s r) + 1\<rparr>)"
proof -
  let ?pgl = "pglists s r"
  from bounds(3) have st: "first_pfn r s * 4096 = start_address ?pgl"
    by (simp add: dvd_div_mult_self mod_eq_0_iff_dvd)
  have addr: "(first_pfn r s + i) * 4096 = start_address ?pgl + i * 4096"
    using st by (simp add: add_mult_distrib)
  have small: "start_address ?pgl + i * 4096 < 2 ^ 64" "i * 4096 < 2 ^ 32"
    "pl_size ?pgl * 4096 < 2 ^ 32" using bounds i(2) by simp_all
  then have sub: "sub64 (start_address ?pgl + i * 4096) (start_address ?pgl) = i * 4096"
    by (simp add: sub64_small)
  have e: "((first_pfn r s + i) * 4096) mod 2 ^ 64 = start_address ?pgl + i * 4096"
    unfolding addr using small(1) by (rule mod_less)
  have "pglists (os_page_free r (start_address ?pgl + i * 4096) s) =
      (pglists s)(r := ?pgl\<lparr>bitmap := pgl_bmap_clear (bitmap ?pgl) i, free_pages := free_pages ?pgl + 1\<rparr>)"
    using small(2,3) i by (simp add: os_page_free_def Let_def sub)
  then show ?thesis unfolding pglists_os_pfn_free e .
qed

lemma os_page_free_index:
  assumes "pgl_ok (pglists s r)" "0 < i" "i < pl_size (pglists s r)"
  shows "pglists (os_pfn_free r (first_pfn r s + i) s) =
           (pglists s)(r := (pglists s r)\<lparr>bitmap := pgl_bmap_clear (bitmap (pglists s r)) i,
                                         free_pages := free_pages (pglists s r) + 1\<rparr>)"
  using assms by (intro os_page_free_at) (simp_all add: pgl_ok_def)

lemma os_pfn_free_used:
  assumes "kmem_ok s" "pfn \<in> used_frames r s" "pfn \<noteq> first_pfn r s"
  shows "used_frames r (os_pfn_free r pfn s) = used_frames r s - {pfn} \<and>
         kmem_ok (os_pfn_free r pfn s) \<and>
         (\<forall>r'. r' \<noteq> r \<longrightarrow> used_frames r' (os_pfn_free r pfn s) = used_frames r' s)"
proof -
  let ?pgl = "pglists s r"
  from assms obtain i where i: "pfn = first_pfn r s + i" "i \<in> in_use ?pgl" "0 < i"
    by (auto simp: used_frames_def)
  let ?pgl' = "?pgl\<lparr>bitmap := pgl_bmap_clear (bitmap ?pgl) i, free_pages := free_pages ?pgl + 1\<rparr>"
  have p: "pglists (os_pfn_free r pfn s) = (pglists s)(r := ?pgl')"
    using os_page_free_index [of s r i] i assms(1) by (auto simp: kmem_ok_def in_use_def)
  have use: "in_use ?pgl' = in_use ?pgl - {i}"
    by (auto simp: in_use_def bm_bit_clear)
  have "card (in_use ?pgl) = Suc (card (in_use ?pgl - {i}))"
    using i(2) by (intro card.remove) simp_all
  moreover have "pgl_ok ?pgl" using assms(1) by (simp add: kmem_ok_def)
  ultimately have "pgl_ok ?pgl'" using use by (simp add: pgl_ok_def)
  with assms(1) p have ok: "kmem_ok (os_pfn_free r pfn s)" by (simp add: kmem_ok_def)
  have "used_frames r (os_pfn_free r pfn s) = (\<lambda>j. first_pfn r s + j) ` (in_use ?pgl - {i})"
    using p use by (simp add: used_frames_def)
  also have "\<dots> = used_frames r s - {pfn}"
    using i(1) by (auto simp: used_frames_def)
  finally show ?thesis using ok p by (simp add: used_frames_def)
qed

section \<open>The interface of a frame allocator\<close>

text \<open>
  What the users of the allocator rely on, for one region.  The laws hold while
  there is room where the allocator looks for it.
\<close>

locale frame_allocator =
  fixes alloc :: "'s \<Rightarrow> nat \<times> 's"
    and free :: "nat \<Rightarrow> 's \<Rightarrow> 's"
    and used :: "'s \<Rightarrow> nat set"
    and freeable :: "nat \<Rightarrow> 's \<Rightarrow> bool"
    and avail :: "'s \<Rightarrow> bool"
    and inv :: "'s \<Rightarrow> bool"
  assumes alloc_fresh: "inv s \<Longrightarrow> avail s \<Longrightarrow> alloc s = (f, s') \<Longrightarrow> f \<notin> used s"
    and alloc_used: "inv s \<Longrightarrow> avail s \<Longrightarrow> alloc s = (f, s') \<Longrightarrow> used s' = insert f (used s)"
    and alloc_inv: "inv s \<Longrightarrow> avail s \<Longrightarrow> alloc s = (f, s') \<Longrightarrow> inv s'"
    and free_used: "inv s \<Longrightarrow> f \<in> used s \<Longrightarrow> freeable f s \<Longrightarrow> used (free f s) = used s - {f}"
    and free_inv: "inv s \<Longrightarrow> f \<in> used s \<Longrightarrow> freeable f s \<Longrightarrow> inv (free f s)"
begin

primrec alloc_many :: "nat \<Rightarrow> 's \<Rightarrow> nat list \<times> 's" where
  "alloc_many 0 s = ([], s)"
| "alloc_many (Suc n) s = (let (f, s1) = alloc s; (fs, s2) = alloc_many n s1 in (f # fs, s2))"

primrec avail_many :: "nat \<Rightarrow> 's \<Rightarrow> bool" where
  "avail_many 0 s = True"
| "avail_many (Suc n) s = (avail s \<and> avail_many n (snd (alloc s)))"

lemma alloc_many_fresh:
  assumes "inv s" "avail_many n s" "alloc_many n s = (fs, s')"
  shows "distinct fs \<and> set fs \<inter> used s = {} \<and> used s' = set fs \<union> used s \<and> inv s' \<and> length fs = n"
  using assms
proof (induction n arbitrary: s fs)
  case 0
  then show ?case by simp
next
  case (Suc n)
  obtain f s1 where a: "alloc s = (f, s1)" by (cases "alloc s")
  obtain fs1 where m: "alloc_many n s1 = (fs1, s')" "fs = f # fs1"
    using Suc.prems(3) a by (auto split: prod.splits)
  have s1: "inv s1" "used s1 = insert f (used s)" "f \<notin> used s"
    using Suc.prems a alloc_inv alloc_used alloc_fresh by auto
  have "avail_many n s1" using Suc.prems(2) a by simp
  with Suc.IH [OF s1(1) _ m(1)] s1 m(2) show ?case by auto
qed

lemma free_alloc:
  assumes "inv s" "avail s" "alloc s = (f, s')" "freeable f s'"
  shows "used (free f s') = used s \<and> inv (free f s')"
  using assms alloc_inv [OF assms(1-3)] alloc_used [OF assms(1-3)] alloc_fresh [OF assms(1-3)]
    free_used [of s' f] free_inv [of s' f] by auto

end

interpretation frames: frame_allocator "os_pfn_alloc r" "os_pfn_free r" "used_frames r"
  "\<lambda>f s. f \<noteq> first_pfn r s" "room r" kmem_ok for r
  by unfold_locales (use os_pfn_alloc_fresh os_pfn_free_used in blast)+

section \<open>Properties\<close>

lemma bm_bit_set_upto: "bm_bit (bmap_set_upto bm n) i = (i < n \<or> bm_bit bm i)"
  by (induction n) (auto simp: bm_bit_set less_Suc_eq)

lemma init_pagelist_ok:
  assumes "start mod 4096 = 0" "0 < start" "start < 2 ^ 40"
    "256 \<le> (end - start) div 4096" "(end - start) div 4096 < 2 ^ 20"
  shows "pgl_ok (init_pagelist start end (\<lambda>_. 0))"
proof -
  define sz where "sz = (end - start) div 4096"
  define res where "res = (if (sz div 8 div 4096) * 4096 = sz div 8 then sz div 8 div 4096
                           else sz div 8 div 4096 + 1)"
  have "sz div 8 div 4096 \<le> sz div 8" by simp
  then have "sz div 8 div 4096 < sz" using assms(4) unfolding sz_def by linarith
  then have le: "res \<le> sz" by (simp add: res_def)
  have eq: "init_pagelist start end (\<lambda>_. 0) =
      \<lparr>pl_size = sz, free_pages = sz - res, last_free_pos = res div 32, start_address = start,
       bitmap = bmap_set_upto (\<lambda>_. 0) res\<rparr>"
    by (simp add: init_pagelist_def Let_def res_def sz_def)
  have "in_use (init_pagelist start end (\<lambda>_. 0)) = {..<res}"
    using le unfolding eq by (auto simp: in_use_def bm_bit_set_upto) (simp_all add: bm_bit_def)
  with le assms show ?thesis
    unfolding eq by (simp add: pgl_ok_def flip: sz_def)
qed

text \<open>
  The page lists that \<open>init_pagelists\<close> builds over zeroed memory satisfy the
  allocator's invariant in all three regions: the number of free pages is the
  number of clear bits.
\<close>

theorem init_pagelists_ok: "pgl_ok (init_pagelists (\<lambda>_ _. 0) r)"
  by (cases r) (simp_all add: init_pagelists_def init_pagelist_ok)

text \<open>
  C23. A page allocation in a region where the allocator still finds a free bit
  returns a frame that was not in use, marks exactly that frame as used, leaves
  the other regions alone and keeps the accounting invariant.  A page for a page
  table comes back zeroed, a user page with reference count 1 and counted in the
  statistics.  Nothing else changes: no other frame has its content or its reference
  count touched, and a page of another kind keeps both.
\<close>

theorem os_pfn_alloc_correct:
  assumes "kmem_ok s" "room r s" "os_pfn_alloc r s = (pfn, s')"
  shows "pfn \<notin> used_frames r s \<and> used_frames r s' = insert pfn (used_frames r s) \<and> kmem_ok s' \<and>
         (\<forall>r'. r' \<noteq> r \<longrightarrow> used_frames r' s' = used_frames r' s) \<and>
         (\<forall>r'. r' \<noteq> r \<longrightarrow> pglists s' r' = pglists s r') \<and>
         phys s' = (if r = OS_PT_REG then (phys s)(pfn := (\<lambda>_. 0)) else phys s) \<and>
         refcount s' = (if r = USER_REG then (refcount s)(pfn := 1) else refcount s) \<and>
         user_reg_pages s' = (if r = USER_REG then add64 (user_reg_pages s) 1 else user_reg_pages s) \<and>
         num_vm_area s' = num_vm_area s"
proof -
  have "(\<forall>r'. r' \<noteq> r \<longrightarrow> pglists s' r' = pglists s r') \<and>
      phys s' = (if r = OS_PT_REG then (phys s)(pfn := (\<lambda>_. 0)) else phys s) \<and>
      refcount s' = (if r = USER_REG then (refcount s)(pfn := 1) else refcount s) \<and>
      user_reg_pages s' = (if r = USER_REG then add64 (user_reg_pages s) 1 else user_reg_pages s) \<and>
      num_vm_area s' = num_vm_area s"
    using assms(2,3)
    by (auto simp: os_pfn_alloc_def Let_def set_pfn_info_def room_def split: prod.splits)
  with os_pfn_alloc_fresh [OF assms] show ?thesis by blast
qed

definition boot_mem :: kmem where
  "boot_mem = \<lparr>pglists = init_pagelists (\<lambda>_ _. 0), phys = (\<lambda>_ _. 0), refcount = (\<lambda>_. 0),
               user_reg_pages = 0, num_vm_area = 0\<rparr>"

lemma boot_mem_ok: "kmem_ok boot_mem"
proof -
  have "pgl_ok (init_pagelists (\<lambda>_ _. 0) r)" for r
    by (cases r) (simp_all add: init_pagelists_def init_pagelist_ok)
  then show ?thesis by (simp add: kmem_ok_def boot_mem_def)
qed

lemma boot_mem_user:
  "pglists boot_mem USER_REG =
     \<lparr>pl_size = 0x19C00, free_pages = 0x19BFC, last_free_pos = 0, start_address = 0x6400000,
      bitmap = bmap_set_upto (\<lambda>_. 0) 4\<rparr>"
  by (simp add: boot_mem_def init_pagelists_def init_pagelist_def)

lemma boot_bitmap: "bmap_set_upto (\<lambda>_. 0) 4 0 = 15"
proof -
  have "(4 :: nat) = Suc (Suc (Suc (Suc 0)))" by simp
  then show ?thesis by (simp only: bmap_set_upto.simps) (simp add: pgl_bmap_set_def Let_def)
qed

lemma first_clear_15: "first_clear 15 0 = 4"
  by (simp add: first_clear.simps)

lemma boot_mem_room: "room USER_REG boot_mem"
  by (simp add: room_def boot_mem_user has_room_def boot_bitmap)

lemma boot_mem_alloc: "fst (os_pfn_alloc USER_REG boot_mem) = 0x6404"
  by (simp add: fst_os_pfn_alloc boot_mem_user get_free_page_def skip_full.simps [of _ _ 0]
      first_clear_15 boot_bitmap)

theorem os_pfn_alloc_correct_witness:
  "0x6404 \<notin> used_frames USER_REG boot_mem \<and>
   0x6404 \<in> used_frames USER_REG (snd (os_pfn_alloc USER_REG boot_mem)) \<and>
   refcount (snd (os_pfn_alloc USER_REG boot_mem)) 0x6404 = 1"
  using os_pfn_alloc_correct [OF boot_mem_ok boot_mem_room prod.collapse [symmetric]]
  unfolding boot_mem_alloc by simp

text \<open>
  Freeing the frame that an allocation returned restores the set of used
  frames and the invariant.  (The first frame of a region holds its bitmap and
  is never handed out; \<open>os_page_free\<close> refuses to free it.)
\<close>

theorem os_pfn_free_alloc:
  assumes "kmem_ok s" "room r s" "os_pfn_alloc r s = (pfn, s')" "pfn \<noteq> first_pfn r s'"
  shows "used_frames r (os_pfn_free r pfn s') = used_frames r s \<and> kmem_ok (os_pfn_free r pfn s')"
  using assms by (rule frames.free_alloc)

theorem os_pfn_free_alloc_witness:
  "used_frames USER_REG (os_pfn_free USER_REG 0x6404 (snd (os_pfn_alloc USER_REG boot_mem))) =
   used_frames USER_REG boot_mem"
proof -
  have "first_pfn USER_REG (snd (os_pfn_alloc USER_REG boot_mem)) = 0x6400"
    by (simp add: pglists_os_pfn_alloc boot_mem_user get_free_page_def Let_def)
  then have "fst (os_pfn_alloc USER_REG boot_mem) \<noteq> first_pfn USER_REG (snd (os_pfn_alloc USER_REG boot_mem))"
    by (simp add: boot_mem_alloc)
  from os_pfn_free_alloc [OF boot_mem_ok boot_mem_room prod.collapse [symmetric] this]
  show ?thesis unfolding boot_mem_alloc by simp
qed

text \<open>
  C24. The allocator hands out a page twice.  \<open>get_free_page\<close> scans only
  \<open>size >> 8\<close> words of the bitmap, one eighth of it.  When these words and word 0
  are full it returns the page with index 32 whatever its state: a frame that is
  in use, although \<open>free_pages\<close> is not 0.
\<close>

theorem os_pfn_alloc_double:
  assumes "kmem_ok s" "free_pages (pglists s r) \<noteq> 0" "\<not> has_room (pglists s r)"
    and "32 \<in> in_use (pglists s r)"
  shows "fst (os_pfn_alloc r s) \<in> used_frames r s \<and>
         used_frames r (snd (os_pfn_alloc r s)) = used_frames r s"
proof -
  let ?pgl = "pglists s r"
  have idx: "page_index ?pgl = 32" using page_index_full assms(3) by blast
  have "first_pfn r s < 2 ^ 28"
    using assms(1) by (intro less_mult_imp_div_less) (simp add: kmem_ok_def pgl_ok_def)
  then have "fst (os_pfn_alloc r s) = first_pfn r s + 32"
    using assms(2) by (simp add: fst_os_pfn_alloc get_free_page_eq idx)
  moreover have "in_use (snd (get_free_page ?pgl)) = in_use ?pgl"
    using assms(4) by (auto simp: get_free_page_eq idx in_use_def bm_bit_set)
  ultimately show ?thesis
    using assms(2,4) by (simp add: used_frames_def pglists_os_pfn_alloc get_free_page_eq)
qed

definition full_mem :: kmem where
  "full_mem = boot_mem\<lparr>pglists := (\<lambda>r. \<lparr>pl_size = 512, free_pages = 448, last_free_pos = 0,
       start_address = 0x800000, bitmap = (\<lambda>w. if w < 2 then 0xffffffff else 0)\<rparr>)\<rparr>"

lemma full_mem_in_use: "in_use (pglists full_mem r) = {..<64}"
proof -
  have "\<forall>b < 32. bit (0xffffffff :: u32) b" using full_word_iff by blast
  then show ?thesis
    by (auto simp: in_use_def full_mem_def bm_bit_def div_less_iff_less_mult split: if_splits)
qed

theorem os_pfn_alloc_double_witness:
  "fst (os_pfn_alloc USER_REG full_mem) \<in> used_frames USER_REG full_mem"
proof -
  have "kmem_ok full_mem"
    unfolding kmem_ok_def pgl_ok_def full_mem_in_use by (simp add: full_mem_def)
  moreover have "32 \<in> in_use (pglists full_mem USER_REG)" by (simp add: full_mem_in_use)
  ultimately show ?thesis
    using os_pfn_alloc_double [of full_mem USER_REG] by (simp add: full_mem_def has_room_def)
qed

end
