(* ===== verification/PageTable.thy ===== *)
theory PageTable
  imports PhysMem
begin

text \<open>
  The four-level page tables and the functions that walk and change them:
  \<open>get_pte\<close>, \<open>pfn_unmap\<close>, \<open>change_permissions\<close> and \<open>alloc_pfn\<close> of
  src/Assignment3/Ass3/src/mmap.c, \<open>get_user_pte\<close>, \<open>do_unmap_user\<close> and
  \<open>install_page_table\<close> of entry.c, \<open>install_ptable\<close> and \<open>map_physical_page\<close> of
  context.c.  A pointer to a page-table entry is a frame and an index; the
  invalidation of a TLB entry has no counterpart in the model.
\<close>

section \<open>Definitions\<close>

type_synonym ptep = "nat \<times> nat"

definition rd :: "kmem \<Rightarrow> ptep \<Rightarrow> u64" where
  "rd s p = phys s (fst p) (snd p)"

definition wr :: "kmem \<Rightarrow> ptep \<Rightarrow> u64 \<Rightarrow> kmem" where
  "wr s p v = s\<lparr>phys := (phys s)(fst p := (phys s (fst p))(snd p := v))\<rparr>"

text \<open>\<open>(addr & PGD_MASK) >> PGD_SHIFT\<close> and the same for the other three levels.\<close>

definition pgd_index :: "nat \<Rightarrow> nat" where
  "pgd_index addr = drop_bit 39 (addr AND 0xff8000000000)"

definition pud_index :: "nat \<Rightarrow> nat" where
  "pud_index addr = drop_bit 30 (addr AND 0x7fc0000000)"

definition pmd_index :: "nat \<Rightarrow> nat" where
  "pmd_index addr = drop_bit 21 (addr AND 0x3fe00000)"

definition pte_index :: "nat \<Rightarrow> nat" where
  "pte_index addr = drop_bit 12 (addr AND 0x1ff000)"

text \<open>
  \<open>(*entry >> PTE_SHIFT) & 0xFFFFFFFF\<close>, \<open>(*entry & FLAG_MASK) >> PAGE_SHIFT\<close> and
  \<open>(pfn << PTE_SHIFT) | flags\<close>.
\<close>

definition pte_pfn :: "u64 \<Rightarrow> nat" where
  "pte_pfn e = unat (drop_bit 12 e AND 0xFFFFFFFF)"

definition pte_frame :: "u64 \<Rightarrow> nat" where
  "pte_frame e = unat (drop_bit 12 (e AND 0x3ffffffff000))"

definition mk_pte :: "nat \<Rightarrow> u64 \<Rightarrow> u64" where
  "mk_pte pfn flags = push_bit 12 (of_nat pfn) OR flags"

text \<open>
  One level of the walk of \<open>get_pte\<close>: \<open>None\<close> is the jump to \<open>out\<close>.  The check of the
  third level also tests \<open>(*entry & 0x80) == 1\<close>.
\<close>

definition walk :: "kmem \<Rightarrow> ptep \<Rightarrow> nat option" where
  "walk s p =
     (let e = rd s p in if e AND 0x1 = 0 \<or> e AND 0x4 = 0 then None else Some (pte_pfn e))"

definition walk_pmd :: "kmem \<Rightarrow> ptep \<Rightarrow> nat option" where
  "walk_pmd s p =
     (let e = rd s p
      in if e AND 0x1 = 0 \<or> e AND 0x4 = 0 \<or> e AND 0x80 = 1 then None else Some (pte_pfn e))"

definition get_pte :: "kmem \<Rightarrow> nat \<Rightarrow> nat \<Rightarrow> ptep option" where
  "get_pte s pgd addr =
     (case walk s (pgd, pgd_index addr) of
        None \<Rightarrow> None
      | Some pud \<Rightarrow>
          (case walk s (pud, pud_index addr) of
             None \<Rightarrow> None
           | Some pmd \<Rightarrow>
               (case walk_pmd s (pmd, pmd_index addr) of
                  None \<Rightarrow> None
                | Some pt \<Rightarrow>
                    (let e = rd s (pt, pte_index addr)
                     in if e AND 0x1 = 0 \<or> e AND 0x4 = 0 then None
                        else Some (pt, pte_index addr)))))"

text \<open>\<open>get_user_pte\<close> with \<open>dump = 0\<close> runs the same checks in the same order.\<close>

definition get_user_pte :: "kmem \<Rightarrow> nat \<Rightarrow> nat \<Rightarrow> ptep option" where
  "get_user_pte s pgd addr = get_pte s pgd addr"

definition pfn_unmap :: "kmem \<Rightarrow> nat \<Rightarrow> nat \<Rightarrow> kmem" where
  "pfn_unmap s pgd addr =
     (case get_pte s pgd addr of
        None \<Rightarrow> s
      | Some p \<Rightarrow>
          (let pfn = pte_pfn (rd s p);
               s1 = (if get_pfn_info_refcount pfn s = 1 then os_pfn_free USER_REG pfn s
                     else decrement_pfn_info_refcount pfn s)
           in wr s1 p 0))"

definition ac_flags :: "u64 \<Rightarrow> u64" where
  "ac_flags prot = 0x5 OR (prot AND 0x2)"

definition change_permissions :: "kmem \<Rightarrow> nat \<Rightarrow> nat \<Rightarrow> u64 \<Rightarrow> kmem" where
  "change_permissions s pgd addr prot =
     (case get_pte s pgd addr of
        None \<Rightarrow> s
      | Some p \<Rightarrow>
          (let pfn = pte_pfn (rd s p)
           in if get_pfn_info_refcount pfn s = 1
              then wr s p (push_bit 3 (drop_bit 3 (rd s p)) OR ac_flags prot)
              else s))"

text \<open>One level of a walk that allocates the missing table.\<close>

definition walk_alloc :: "kmem \<Rightarrow> ptep \<Rightarrow> u64 \<Rightarrow> nat \<times> kmem" where
  "walk_alloc s p flags =
     (if rd s p AND 0x1 \<noteq> 0 then (pte_pfn (rd s p), s)
      else let (pfn, s1) = os_pfn_alloc OS_PT_REG s in (pfn, wr s1 p (mk_pte pfn flags)))"

definition walk_install :: "kmem \<Rightarrow> nat \<Rightarrow> nat \<Rightarrow> u64 \<Rightarrow> u64 \<Rightarrow> kmem" where
  "walk_install s pgd addr table_flags page_flags =
     (let (pud, s1) = walk_alloc s (pgd, pgd_index addr) table_flags;
          (pmd, s2) = walk_alloc s1 (pud, pud_index addr) table_flags;
          (pt, s3) = walk_alloc s2 (pmd, pmd_index addr) table_flags;
          (pfn, s4) = os_pfn_alloc USER_REG s3
      in wr s4 (pt, pte_index addr) (mk_pte pfn page_flags))"

definition alloc_pfn :: "kmem \<Rightarrow> nat \<Rightarrow> nat \<Rightarrow> u64 \<Rightarrow> kmem" where
  "alloc_pfn s pgd addr prot = walk_install s pgd addr 0x7 (ac_flags prot)"

definition install_page_table :: "kmem \<Rightarrow> nat \<Rightarrow> nat \<Rightarrow> u64 \<Rightarrow> kmem" where
  "install_page_table s pgd addr error_code =
     walk_install s pgd addr (ac_flags error_code) (ac_flags error_code)"

definition do_unmap_user :: "kmem \<Rightarrow> nat \<Rightarrow> nat \<Rightarrow> int \<times> kmem" where
  "do_unmap_user s pgd addr =
     (case get_user_pte s pgd addr of
        None \<Rightarrow> (-1, s)
      | Some p \<Rightarrow> (0, wr (os_pfn_free USER_REG (pte_pfn (rd s p)) s) p 0))"

text \<open>
  \<open>map_physical_page\<close> tests the whole entry against 0 and takes the frame with
  \<open>FLAG_MASK\<close>; \<open>base\<close> is the address of the top table, here its frame.
\<close>

definition next_table :: "kmem \<Rightarrow> ptep \<Rightarrow> nat \<times> kmem" where
  "next_table s p =
     (if rd s p = 0 then
        (let (pfn, s1) = os_pfn_alloc OS_PT_REG s;
             s2 = wr s1 p (mk_pte pfn 0x7)
         in (pfn, s2\<lparr>phys := (phys s2)(pfn := (\<lambda>_. 0))\<rparr>))
      else (pte_frame (rd s p), s))"

definition map_physical_page :: "kmem \<Rightarrow> nat \<Rightarrow> nat \<Rightarrow> u32 \<Rightarrow> nat \<Rightarrow> nat \<times> kmem" where
  "map_physical_page s base addr access_flags upfn =
     (let (pud, s1) = next_table s (base, pgd_index addr);
          (pmd, s2) = next_table s1 (pud, pud_index addr);
          (pt, s3) = next_table s2 (pmd, pmd_index addr);
          (upfn', s4) = (if upfn = 0 then os_pfn_alloc USER_REG s3 else (upfn, s3));
          s5 = wr s4 (pt, pte_index addr) (mk_pte upfn' 0x5);
          s6 = (if access_flags AND 2 \<noteq> 0
                then wr s5 (pt, pte_index addr) (rd s5 (pt, pte_index addr) OR 0x2) else s5)
      in (upfn', s6))"

record mm_segment =
  seg_start :: nat
  seg_end :: nat
  next_free :: nat
  seg_flags :: u32

definition install_ptable :: "kmem \<Rightarrow> nat \<Rightarrow> mm_segment \<Rightarrow> nat \<Rightarrow> nat \<Rightarrow> nat \<times> kmem" where
  "install_ptable s base mm address upfn =
     map_physical_page s base (if address = 0 then seg_start mm else address) (seg_flags mm) upfn"

section \<open>Reading and writing entries\<close>

lemma rd_wr: "rd (wr s p v) q = (if q = p then v else rd s q)"
  by (cases p; cases q) (auto simp: rd_def wr_def)

lemma rd_wr_same [simp]: "rd (wr s p v) p = v"
  by (simp add: rd_wr)

lemma wr_sel [simp]:
  "pglists (wr s p v) = pglists s" "refcount (wr s p v) = refcount s"
  "user_reg_pages (wr s p v) = user_reg_pages s" "num_vm_area (wr s p v) = num_vm_area s"
  by (simp_all add: wr_def)

lemma rd_cong: "phys s = phys s' \<Longrightarrow> rd s p = rd s' p"
  by (simp add: rd_def)

lemma and_drop_mask: "drop_bit n (addr AND push_bit n (mask k)) = (addr div 2 ^ n) mod 2 ^ k"
  for addr :: nat
  by (simp add: drop_bit_and drop_bit_push_bit flip: take_bit_eq_mask)
    (simp add: take_bit_eq_mod drop_bit_eq_div)

lemma index_eqs [pte_simps]:
  "pgd_index addr = (addr div 2 ^ 39) mod 512" "pud_index addr = (addr div 2 ^ 30) mod 512"
  "pmd_index addr = (addr div 2 ^ 21) mod 512" "pte_index addr = (addr div 2 ^ 12) mod 512"
  using and_drop_mask [of 39 addr 9] and_drop_mask [of 30 addr 9] and_drop_mask [of 21 addr 9]
    and_drop_mask [of 12 addr 9]
  by (simp_all add: pgd_index_def pud_index_def pmd_index_def pte_index_def push_bit_eq_mult mask_eq_exp_minus_1)

text \<open>An entry made of a frame number and flag bits gives both back.\<close>

lemma bit_mk_pte:
  "bit (mk_pte pfn flags) n \<longleftrightarrow> n < 64 \<and> (12 \<le> n \<and> bit pfn (n - 12) \<or> bit flags n)"
  by (auto simp: mk_pte_def bit_or_iff bit_push_bit_iff bit_of_nat_iff possible_bit_def
      dest: bit_imp_le_length)

lemma nat_high_clear: "a < 2 ^ k \<Longrightarrow> k \<le> n \<Longrightarrow> \<not> bit a n" for a :: nat
  by (metis bit_take_bit_iff linorder_not_le take_bit_nat_eq_self_iff)

lemma flags_high_clear: "flags < 2 ^ 12 \<Longrightarrow> 12 \<le> n \<Longrightarrow> \<not> bit flags n" for flags :: u64
  using nat_high_clear [of "unat flags" 12 n]
  by (simp add: word_less_nat_alt bit_unsigned_iff)

lemma pte_pfn_mk [pte_simps]:
  assumes "pfn < 2 ^ 32" "flags < 2 ^ 12"
  shows "pte_pfn (mk_pte pfn flags) = pfn"
proof (rule bit_eqI)
  fix n
  have m: "(0xFFFFFFFF :: u64) = mask 32" by (simp add: mask_eq_exp_minus_1)
  show "bit (pte_pfn (mk_pte pfn flags)) n = bit pfn n"
    using nat_high_clear [OF assms(1), of n] flags_high_clear [OF assms(2), of "12 + n"]
    unfolding pte_pfn_def m
    by (cases "n < 32") (auto simp: bit_unsigned_iff bit_and_iff bit_drop_bit_eq bit_mk_pte bit_mask_iff)
qed

lemma mk_pte_and [pte_simps]:
  assumes "m < 2 ^ 12"
  shows "mk_pte pfn flags AND m = flags AND m"
  by (rule bit_eqI)
    (use flags_high_clear [OF assms] in \<open>auto simp: bit_and_iff bit_mk_pte not_le [symmetric]\<close>)

lemma ac_flags_small [simp]: "ac_flags prot < 2 ^ 12"
proof -
  have "ac_flags prot \<le> 7"
  proof -
    have "0x5 OR (prot AND 0x2) = (0x5 OR (prot AND 0x2)) AND (7 :: u64)"
      by (rule bit_eqI) (auto simp: bit_and_iff bit_or_iff bit_numeral_rec split: nat.splits)
    then show ?thesis unfolding ac_flags_def by (metis word_and_le1)
  qed
  then show ?thesis by (rule le_less_trans) simp
qed

lemma ac_flags_bits [pte_simps]:
  "ac_flags prot AND 1 = 1" "ac_flags prot AND 4 = 4" "ac_flags prot AND 2 = prot AND 2"
  by (rule bit_eqI, auto simp: ac_flags_def bit_and_iff bit_or_iff bit_numeral_rec bit_1_iff
      split: nat.splits)+

section \<open>Unmapping\<close>

text \<open>A write of 0 into any entry never makes a page appear.\<close>

lemma walk_wr0: "walk (wr s p 0) q = (if q = p then None else walk s q)"
  by (simp add: walk_def rd_wr)

lemma walk_pmd_wr0: "walk_pmd (wr s p 0) q = (if q = p then None else walk_pmd s q)"
  by (simp add: walk_pmd_def rd_wr)

lemma get_pte_wr0: "get_pte s pgd a = None \<Longrightarrow> get_pte (wr s p 0) pgd a = None"
  by (auto simp: get_pte_def walk_wr0 walk_pmd_wr0 rd_wr Let_def split: option.splits if_splits)

lemma get_pte_cong:
  assumes "phys s = phys s'"
  shows "get_pte s pgd a = get_pte s' pgd a"
proof -
  have rd: "rd s = rd s'" using assms by (simp add: rd_def fun_eq_iff)
  then have w: "walk s = walk s'" "walk_pmd s = walk_pmd s'"
    by (simp_all add: walk_def walk_pmd_def fun_eq_iff)
  show ?thesis unfolding get_pte_def rd w ..
qed

lemma phys_free [simp]:
  "phys (os_pfn_free r pfn s) = phys s" "phys (decrement_pfn_info_refcount pfn s) = phys s"
  "phys (increment_pfn_info_refcount pfn s) = phys s" "phys (set_pfn_info pfn s) = phys s"
  by (simp_all add: os_pfn_free_def os_page_free_def reset_pfn_info_def Let_def
      decrement_pfn_info_refcount_def increment_pfn_info_refcount_def set_pfn_info_def)

lemma get_pte_SomeD:
  "get_pte s pgd a = Some p \<Longrightarrow>
   snd p = pte_index a \<and> rd s p AND 1 \<noteq> 0 \<and> rd s p AND 4 \<noteq> 0"
  by (auto simp: get_pte_def Let_def split: option.splits if_splits)

lemma get_pte_wr0_same:
  assumes "get_pte s pgd a = Some p"
  shows "get_pte (wr s p 0) pgd a = None"
  using assms
  by (auto simp: get_pte_def walk_wr0 walk_pmd_wr0 rd_wr Let_def split: option.splits if_splits)

lemma get_pte_pfn_unmap:
  assumes "a' = a \<or> get_pte s pgd a' = None"
  shows "get_pte (pfn_unmap s pgd a) pgd a' = None"
proof (cases "get_pte s pgd a")
  case None
  with assms show ?thesis by (auto simp: pfn_unmap_def)
next
  case (Some p)
  let ?s1 = "if get_pfn_info_refcount (pte_pfn (rd s p)) s = 1
             then os_pfn_free USER_REG (pte_pfn (rd s p)) s
             else decrement_pfn_info_refcount (pte_pfn (rd s p)) s"
  have ph: "phys ?s1 = phys s" by simp
  have "get_pte ?s1 pgd a' = get_pte s pgd a'" by (rule get_pte_cong) (rule ph)
  moreover have "get_pte ?s1 pgd a = Some p"
    using Some get_pte_cong [OF ph] by simp
  ultimately have "get_pte (wr ?s1 p 0) pgd a' = None"
    using assms get_pte_wr0 get_pte_wr0_same by metis
  with Some show ?thesis by (simp add: pfn_unmap_def Let_def)
qed

section \<open>Mapping\<close>

text \<open>
  The part of a path that exists consists of different frames of the page-table
  region, mapped for user mode; \<open>is\<close> are the indices of the levels still to walk.
\<close>

fun path_from :: "kmem \<Rightarrow> nat \<Rightarrow> nat set \<Rightarrow> nat list \<Rightarrow> bool" where
  "path_from s t seen [] \<longleftrightarrow> t \<in> used_frames OS_PT_REG s \<and> t \<notin> seen"
| "path_from s t seen (i # is) \<longleftrightarrow>
     t \<in> used_frames OS_PT_REG s \<and> t \<notin> seen \<and>
     (rd s (t, i) AND 1 \<noteq> 0 \<longrightarrow>
        rd s (t, i) AND 4 \<noteq> 0 \<and> path_from s (pte_pfn (rd s (t, i))) (insert t seen) is)"

definition path_ok :: "kmem \<Rightarrow> nat \<Rightarrow> nat \<Rightarrow> bool" where
  "path_ok s pgd addr = path_from s pgd {} [pgd_index addr, pud_index addr, pmd_index addr]"

text \<open>Room for \<open>n\<close> page tables.\<close>

primrec pt_room :: "nat \<Rightarrow> kmem \<Rightarrow> bool" where
  "pt_room 0 s = True"
| "pt_room (Suc n) s = (room OS_PT_REG s \<and> pt_room n (snd (os_pfn_alloc OS_PT_REG s)))"

lemma word_and_0x80_neq_1: "(e :: u64) AND 0x80 \<noteq> 1"
proof
  assume "e AND 0x80 = 1"
  then have "bit (e AND 0x80) 0 = bit (1 :: u64) 0" by simp
  then show False by (simp add: bit_and_iff)
qed

text \<open>The huge-page test of the third level never fires.\<close>

lemma walk_pmd_eq_walk: "walk_pmd s p = walk s p"
  by (simp add: walk_pmd_def walk_def word_and_0x80_neq_1)

lemma path_from_used: "path_from s t seen is \<Longrightarrow> t \<in> used_frames OS_PT_REG s \<and> t \<notin> seen"
  by (cases "is") simp_all

lemma path_from_blank:
  "t \<in> used_frames OS_PT_REG s \<Longrightarrow> t \<notin> seen \<Longrightarrow> \<forall>j. rd s (t, j) = 0 \<Longrightarrow> path_from s t seen is"
  by (cases "is") simp_all

lemma pt_room_cong: "pglists s = pglists s' \<Longrightarrow> pt_room n s = pt_room n s'"
proof (induction n arbitrary: s s')
  case (Suc n)
  have "pglists (snd (os_pfn_alloc OS_PT_REG s)) = pglists (snd (os_pfn_alloc OS_PT_REG s'))"
    using Suc.prems by (simp add: pglists_os_pfn_alloc)
  with Suc.IH [OF this] Suc.prems show ?case by (simp add: room_def)
qed simp

lemma pt_room_Suc: "pt_room (Suc n) s \<Longrightarrow> pt_room n s"
  by (induction n arbitrary: s) auto

lemma pt_room_add: "pt_room (n + k) s \<Longrightarrow> pt_room n s"
  by (induction k) (auto dest: pt_room_Suc simp del: pt_room.simps)

lemma os_pfn_alloc_bound: "fst (os_pfn_alloc r s) < 2 ^ 32"
  by (simp add: fst_os_pfn_alloc get_free_page_def Let_def)

lemma used_frames_cong: "pglists s = pglists s' \<Longrightarrow> used_frames r s = used_frames r s'"
  by (simp add: used_frames_def)

lemma kmem_ok_cong: "pglists s = pglists s' \<Longrightarrow> kmem_ok s = kmem_ok s'"
  by (simp add: kmem_ok_def)

lemma phys_os_pt_alloc:
  "room OS_PT_REG s \<Longrightarrow> phys (snd (os_pfn_alloc OS_PT_REG s)) =
     (phys s)(fst (os_pfn_alloc OS_PT_REG s) := (\<lambda>_. 0))"
  by (simp add: os_pfn_alloc_def room_def Let_def split: prod.split)

text \<open>One allocating step of a walk: the next table is there afterwards.\<close>

lemma walk_alloc_step:
  assumes inv: "kmem_ok s" "path_from s t seen (i # is)" "seen \<subseteq> used_frames OS_PT_REG s"
    and room: "pt_room (Suc n) s"
    and flags: "flags < 2 ^ 12" "flags AND 1 \<noteq> 0" "flags AND 4 \<noteq> 0"
    and step: "walk_alloc s (t, i) flags = (q, s')"
  shows "kmem_ok s' \<and> path_from s' q (insert t seen) is \<and>
         insert t seen \<subseteq> used_frames OS_PT_REG s' \<and> pt_room n s' \<and> walk s' (t, i) = Some q \<and>
         (\<forall>t' j. t' \<in> seen \<longrightarrow> rd s' (t', j) = rd s (t', j)) \<and>
         pglists s' USER_REG = pglists s USER_REG"
proof (cases "rd s (t, i) AND 1 = 0")
  case False
  with step have "s' = s" "q = pte_pfn (rd s (t, i))" by (auto simp: walk_alloc_def)
  with inv False room show ?thesis by (auto simp: walk_def pt_room_Suc)
next
  case True
  obtain s1 where a: "os_pfn_alloc OS_PT_REG s = (q, s1)" and s': "s' = wr s1 (t, i) (mk_pte q flags)"
    using step True by (auto simp: walk_alloc_def split: prod.splits)
  have r: "room OS_PT_REG s" using room by simp
  have fresh: "q \<notin> used_frames OS_PT_REG s" "used_frames OS_PT_REG s1 = insert q (used_frames OS_PT_REG s)"
    "kmem_ok s1" using os_pfn_alloc_fresh [OF inv(1) r a] by auto
  have t: "t \<in> used_frames OS_PT_REG s" "t \<notin> seen" using inv(2) by auto
  have ph: "phys s1 = (phys s)(q := (\<lambda>_. 0))" using phys_os_pt_alloc [OF r] a by simp
  have used': "used_frames OS_PT_REG s' = insert q (used_frames OS_PT_REG s)"
    using fresh(2) s' used_frames_cong [of s' s1] by simp
  have ok: "kmem_ok s'" using fresh(3) s' kmem_ok_cong [of s' s1] by simp
  have qn: "q \<notin> insert t seen" using fresh(1) t inv(3) by auto
  have blank: "\<forall>j. rd s' (q, j) = 0" using qn ph s' by (simp add: rd_wr) (simp add: rd_def)
  have path: "path_from s' q (insert t seen) is"
    using used' qn blank by (intro path_from_blank) auto
  have old: "rd s' (t', j) = rd s (t', j)" if "t' \<in> seen" for t' j
  proof -
    have "t' \<noteq> q" "t' \<noteq> t" using that qn t by auto
    then show ?thesis using ph s' by (simp add: rd_wr) (simp add: rd_def)
  qed
  have "q < 2 ^ 32" using os_pfn_alloc_bound [of OS_PT_REG s] a by simp
  then have w: "walk s' (t, i) = Some q"
    using s' flags by (simp add: walk_def pte_simps)
  have "pt_room n s1" using room a by simp
  then have rm: "pt_room n s'" using s' pt_room_cong [of s' s1] by simp
  have "pglists s' USER_REG = pglists s USER_REG"
    using s' pglists_os_pfn_alloc [of OS_PT_REG s] a by auto
  with ok path used' old w rm t(1) inv(3) show ?thesis by auto
qed

lemma walk_install_get_pte:
  assumes "kmem_ok s" "path_ok s pgd addr" "pt_room 3 s"
    and tf: "tf < 2 ^ 12" "tf AND 1 \<noteq> 0" "tf AND 4 \<noteq> 0"
    and pf: "pf < 2 ^ 12" "pf AND 1 \<noteq> 0" "pf AND 4 \<noteq> 0"
  shows "\<exists>p. get_pte (walk_install s pgd addr tf pf) pgd addr = Some p \<and>
             rd (walk_install s pgd addr tf pf) p = mk_pte (fst (os_pfn_alloc USER_REG s)) pf"
proof -
  obtain pud s1 where w1: "walk_alloc s (pgd, pgd_index addr) tf = (pud, s1)" by fastforce
  obtain pmd s2 where w2: "walk_alloc s1 (pud, pud_index addr) tf = (pmd, s2)" by fastforce
  obtain pt s3 where w3: "walk_alloc s2 (pmd, pmd_index addr) tf = (pt, s3)" by fastforce
  obtain pfn s4 where a: "os_pfn_alloc USER_REG s3 = (pfn, s4)" by fastforce
  let ?s = "wr s4 (pt, pte_index addr) (mk_pte pfn pf)"
  have eq: "walk_install s pgd addr tf pf = ?s"
    by (simp add: walk_install_def w1 w2 w3 a)
  have p0: "path_from s pgd {} [pgd_index addr, pud_index addr, pmd_index addr]"
    using assms(2) by (simp add: path_ok_def)
  have r0: "pt_room (Suc (Suc (Suc 0))) s" using assms(3) by (simp add: numeral_3_eq_3)
  note s1 = walk_alloc_step [OF assms(1) p0 _ r0 tf w1, simplified]
  then have k1: "kmem_ok s1" "path_from s1 pud {pgd} [pud_index addr, pmd_index addr]"
    "{pgd} \<subseteq> used_frames OS_PT_REG s1" "pt_room (Suc (Suc 0)) s1"
    by simp_all
  note s2 = walk_alloc_step [OF k1 tf w2]
  then have k2: "kmem_ok s2" "path_from s2 pmd {pud, pgd} [pmd_index addr]"
    "{pud, pgd} \<subseteq> used_frames OS_PT_REG s2" "pt_room (Suc 0) s2" by simp_all
  note s3 = walk_alloc_step [OF k2 tf w3]
  have pt: "pt \<notin> {pmd, pud, pgd}" using s3 by simp
  have d2: "pmd \<notin> {pud, pgd}" "pud \<noteq> pgd" using k2(2) k1(2) by simp_all
  have user: "pglists s3 USER_REG = pglists s USER_REG" using s1 s2 s3 by simp
  have pfn: "pfn = fst (os_pfn_alloc USER_REG s)"
    using a user fst_os_pfn_alloc [of USER_REG s3] fst_os_pfn_alloc [of USER_REG s] by simp
  have ph: "phys s4 = phys s3" using os_pfn_alloc_sel(3) [of s3] a by simp
  have keep: "rd ?s (x, j) = rd s3 (x, j)" if "x \<noteq> pt" for x j
    using that ph by (simp add: rd_wr) (simp add: rd_def)
  have "rd ?s (pgd, pgd_index addr) = rd s1 (pgd, pgd_index addr)"
    "rd ?s (pud, pud_index addr) = rd s2 (pud, pud_index addr)"
    "rd ?s (pmd, pmd_index addr) = rd s3 (pmd, pmd_index addr)"
    using keep pt s2 s3 by auto
  then have "walk ?s (pgd, pgd_index addr) = Some pud" "walk ?s (pud, pud_index addr) = Some pmd"
    "walk ?s (pmd, pmd_index addr) = Some pt"
    using s1 s2 s3 by (auto simp: walk_def)
  moreover have "rd ?s (pt, pte_index addr) = mk_pte pfn pf" by simp
  ultimately show ?thesis
    unfolding eq pfn [symmetric] using pf
    by (intro exI [of _ "(pt, pte_index addr)"]) (simp add: get_pte_def walk_pmd_eq_walk pte_simps)
qed

text \<open>
  A way to see that tables can be allocated: the bits from \<open>c\<close> on of the first word of the
  bitmap are clear.
\<close>

definition spare :: "nat \<Rightarrow> page_list \<Rightarrow> bool" where
  "spare c pgl \<longleftrightarrow>
     last_free_pos pgl = 0 \<and> 256 \<le> pl_size pgl \<and>
     (\<forall>b. c \<le> b \<and> b < 32 \<longrightarrow> \<not> bit (bitmap pgl 0) b)"

lemma spare_alloc:
  assumes "spare c pgl" "c < 32"
  shows "has_room pgl \<and> spare (Suc c) (snd (get_free_page pgl))"
proof -
  have clear: "\<not> bit (bitmap pgl 0) c" using assms by (simp add: spare_def)
  then have nf: "bitmap pgl 0 \<noteq> 0xffffffff" using assms(2) full_word_iff by blast
  have w: "scan_word pgl = 0"
    using assms(1) nf by (simp add: scan_word_def spare_def skip_full.simps [of _ _ 0])
  have le: "first_clear (bitmap pgl 0) 0 \<le> c"
    using first_clear_found [OF assms(2) clear] by simp
  have "bit (pgl_bmap_set (bitmap pgl) (page_index pgl) 0) b =
      (b = first_clear (bitmap pgl 0) 0 \<or> bit (bitmap pgl 0) b)" if "b < 32" for b
    using bm_bit_set [of "bitmap pgl" "page_index pgl" b] that
    by (simp add: bm_bit_def page_index_def w)
  with assms(1) le nf show ?thesis
    by (auto simp: spare_def get_free_page_eq w has_room_def)
qed

lemma spare_pt_room:
  "spare c (pglists s OS_PT_REG) \<Longrightarrow> n + c \<le> 32 \<Longrightarrow> n \<le> free_pages (pglists s OS_PT_REG) \<Longrightarrow>
   pt_room n s"
proof (induction n arbitrary: c s)
  case (Suc n)
  let ?s = "snd (os_pfn_alloc OS_PT_REG s)"
  have sp: "has_room (pglists s OS_PT_REG)" "spare (Suc c) (snd (get_free_page (pglists s OS_PT_REG)))"
    using spare_alloc [OF Suc.prems(1)] Suc.prems(2) by auto
  have p: "pglists ?s OS_PT_REG = snd (get_free_page (pglists s OS_PT_REG))"
    using Suc.prems(3) by (simp add: pglists_os_pfn_alloc)
  then have "n \<le> free_pages (pglists ?s OS_PT_REG)"
    using Suc.prems(3) by (simp add: get_free_page_eq)
  with Suc.IH [of "Suc c" ?s] sp p Suc.prems show ?case by (simp add: room_def)
qed simp

end
