(* ===== verification/VMArea.thy ===== *)
theory VMArea
  imports Prelude
begin

text \<open>
  The list of virtual memory areas of a process and the decisions the three
  system calls \<open>mmap\<close>, \<open>munmap\<close> and \<open>mprotect\<close> of gemOS take on it
  (src/Assignment3/Ass3/src/mmap.c).  The C code keeps the areas in a linked
  list that belongs to one process; it is modelled as a list of records, and a
  traversal pointer \<open>curr\<close> as a split of the list.  Every allocation and
  deallocation of a list node also moves the counter \<open>stats->num_vm_area\<close>: the
  operations return the change of that counter.  The effect of the system calls
  on the page tables is in the theory \<open>Mmap\<close>.
\<close>

section \<open>Definitions\<close>

abbreviation MMAP_AREA_START :: nat where "MMAP_AREA_START \<equiv> 0x180200000"
abbreviation MMAP_AREA_END :: nat where "MMAP_AREA_END \<equiv> 0x7FE000000"

record vm_area =
  vm_start :: nat
  vm_end :: nat
  access_flags :: u32

definition new_area :: "nat \<Rightarrow> nat \<Rightarrow> u32 \<Rightarrow> vm_area" where
  "new_area s len prot = \<lparr>vm_start = s, vm_end = add64 s len, access_flags = prot\<rparr>"

text \<open>
  The rounding of \<open>length\<close> to whole pages, in C \<open>int\<close> arithmetic: \<open>>>\<close> is the
  arithmetic shift, the result is stored in an \<open>int\<close> again.
\<close>

definition round_length :: "int \<Rightarrow> int" where
  "round_length len =
     (if (len div 4096) * 4096 \<noteq> len then s32 ((len div 4096 + 1) * 4096) else len)"

text \<open>
  Outcome of a search for a place: an early \<open>return -1\<close>, a search loop that ended
  without a decision, or the new list, the returned address and the change of
  \<open>num_vm_area\<close>.
\<close>

datatype vres = VFail | VNone | VDone "vm_area list" nat int

definition vcons :: "vm_area \<Rightarrow> vres \<Rightarrow> vres" where
  "vcons c r = (case r of VDone vs ret d \<Rightarrow> VDone (c # vs) ret d | VFail \<Rightarrow> VFail | VNone \<Rightarrow> VNone)"

definition vappend :: "vm_area list \<Rightarrow> vres \<Rightarrow> vres" where
  "vappend pre r = foldr vcons pre r"

subsection \<open>mmap without a hint address\<close>

text \<open>One round of the search loop: the gap between the areas \<open>t\<close> and \<open>n\<close>.\<close>

definition gap_step :: "u32 \<Rightarrow> nat \<Rightarrow> nat \<Rightarrow> vm_area \<Rightarrow> vm_area \<Rightarrow> vm_area list \<Rightarrow> vres" where
  "gap_step prot len cnt t n rest =
     (if add64 (vm_end t) len < vm_start n then
        (if access_flags t = prot then
           VDone (t\<lparr>vm_end := add64 (vm_end t) len\<rparr> # n # rest)
                 (sub64 (add64 (vm_end t) len) len) 0
         else if cnt \<ge> 128 then VFail
         else VDone (t # new_area (vm_end t) len prot # n # rest) (vm_end t) 1)
      else if add64 (vm_end t) len = vm_start n then
        (if prot = access_flags t \<and> prot = access_flags n then
           VDone (t\<lparr>vm_end := vm_end n\<rparr> # rest) (vm_end t) (-1)
         else if prot = access_flags t then
           VDone (t\<lparr>vm_end := vm_start n\<rparr> # n # rest) (sub64 (vm_start n) len) 0
         else if prot = access_flags n then
           VDone (t # n\<lparr>vm_start := vm_end t\<rparr> # rest) (vm_end t) 0
         else if cnt \<ge> 128 then VFail
         else VDone (t # new_area (vm_end t) len prot # n # rest) (vm_end t) 1)
      else VNone)"

fun fill_gaps :: "u32 \<Rightarrow> nat \<Rightarrow> nat \<Rightarrow> vm_area list \<Rightarrow> vres" where
  "fill_gaps prot len cnt (t # n # rest) =
     (case gap_step prot len cnt t n rest of
        VNone \<Rightarrow> vcons t (fill_gaps prot len cnt (n # rest))
      | r \<Rightarrow> r)"
| "fill_gaps prot len cnt vs = VNone"

text \<open>After the loop \<open>temp\<close> is the last area: extend it or put a new area after it.\<close>

definition grow_last :: "u32 \<Rightarrow> nat \<Rightarrow> nat \<Rightarrow> vm_area \<Rightarrow> vres" where
  "grow_last prot len cnt t =
     (if access_flags t = prot then
        VDone [t\<lparr>vm_end := add64 (vm_end t) len\<rparr>] (sub64 (add64 (vm_end t) len) len) 0
      else if cnt \<ge> 128 then VFail
      else VDone [t, new_area (vm_end t) len prot] (vm_end t) 1)"

fun extend_last :: "u32 \<Rightarrow> nat \<Rightarrow> nat \<Rightarrow> vm_area list \<Rightarrow> vres" where
  "extend_last prot len cnt [] = VNone"
| "extend_last prot len cnt [t] =
     (if add64 (vm_end t) len > MMAP_AREA_END then VFail else grow_last prot len cnt t)"
| "extend_last prot len cnt (t # n # rest) = vcons t (extend_last prot len cnt (n # rest))"

text \<open>The space between the start of the mmap area and the first area.\<close>

definition place_front :: "u32 \<Rightarrow> nat \<Rightarrow> nat \<Rightarrow> vm_area \<Rightarrow> vm_area list \<Rightarrow> vres" where
  "place_front prot len cnt t rest =
     (if vm_start t > add64 len MMAP_AREA_START then
        (if cnt \<ge> 128 then VFail
         else VDone (new_area MMAP_AREA_START len prot # t # rest) MMAP_AREA_START 1)
      else if vm_start t = add64 len MMAP_AREA_START then
        (if access_flags t = prot then
           VDone (t\<lparr>vm_start := sub64 (vm_start t) len\<rparr> # rest) MMAP_AREA_START 0
         else if cnt \<ge> 128 then VFail
         else VDone (new_area MMAP_AREA_START len prot # t # rest) MMAP_AREA_START 1)
      else VNone)"

definition map_nohint :: "u32 \<Rightarrow> nat \<Rightarrow> nat \<Rightarrow> vm_area list \<Rightarrow> vres" where
  "map_nohint prot len cnt vs =
     (case vs of
        [] \<Rightarrow> (if add64 MMAP_AREA_START len > MMAP_AREA_END then VFail
               else VDone [new_area MMAP_AREA_START len prot] MMAP_AREA_START 1)
      | t # rest \<Rightarrow>
          (case place_front prot len cnt t rest of
             VNone \<Rightarrow> (case fill_gaps prot len cnt vs of
                         VNone \<Rightarrow> extend_last prot len cnt vs
                       | r \<Rightarrow> r)
           | r \<Rightarrow> r))"

subsection \<open>mmap with a hint address\<close>

text \<open>
  Outcome of the walk to the hint address: decided, \<open>flag = 1\<close> with \<open>curr\<close> the
  head of the second list (\<open>NULL\<close> when that list is empty), or the last area
  reached with \<open>flag = 0\<close>.
\<close>

datatype hres = HDone vres | HFlag "vm_area list" "vm_area list" | HLast "vm_area list" vm_area

definition hint_head :: "nat \<Rightarrow> u32 \<Rightarrow> nat \<Rightarrow> nat \<Rightarrow> vm_area \<Rightarrow> vm_area list \<Rightarrow> hres" where
  "hint_head addr prot len cnt c rest =
     (if add64 addr len < vm_start c then
        (if cnt \<ge> 128 then HDone VFail
         else HDone (VDone (new_area addr len prot # c # rest) addr 1))
      else if add64 addr len = vm_start c then
        (if access_flags c = prot then
           HDone (VDone (c\<lparr>vm_start := sub64 (vm_start c) len\<rparr> # rest)
                        (sub64 (vm_start c) len) 0)
         else if cnt \<ge> 128 then HDone VFail
         else HDone (VDone (new_area addr len prot # c # rest) addr 1))
      else HFlag [] (c # rest))"

text \<open>One round of the loop when the hint lies in the gap between \<open>c\<close> and \<open>n\<close>.\<close>

definition hint_gap :: "nat \<Rightarrow> u32 \<Rightarrow> nat \<Rightarrow> nat \<Rightarrow> vm_area \<Rightarrow> vm_area \<Rightarrow> vm_area list \<Rightarrow> vres" where
  "hint_gap addr prot len cnt c n rest =
     (if add64 addr len < vm_start n then
        (if cnt \<ge> 128 then VFail
         else VDone (c # new_area addr len prot # n # rest) addr 1)
      else if add64 addr len = vm_start n then
        (if access_flags n = prot then
           VDone (c # n\<lparr>vm_start := sub64 (vm_start n) len\<rparr> # rest) (sub64 (vm_start n) len) 0
         else if cnt \<ge> 128 then VFail
         else VDone (c # new_area addr len prot # n # rest) addr 1)
      else VNone)"

fun hint_scan :: "nat \<Rightarrow> u32 \<Rightarrow> nat \<Rightarrow> nat \<Rightarrow> vm_area list \<Rightarrow> vm_area list \<Rightarrow> hres" where
  "hint_scan addr prot len cnt pre (c # n # rest) =
     (if vm_start c \<le> addr \<and> addr < vm_end c then HFlag pre (c # n # rest)
      else if addr = vm_end c then
        (case gap_step prot len cnt c n rest of
           VNone \<Rightarrow> HFlag pre (c # n # rest)
         | r \<Rightarrow> HDone (vappend pre r))
      else if vm_end c < addr \<and> addr < vm_start n then
        (case hint_gap addr prot len cnt c n rest of
           VNone \<Rightarrow> HFlag (pre @ [c]) (n # rest)
         | r \<Rightarrow> HDone (vappend pre r))
      else hint_scan addr prot len cnt (pre @ [c]) (n # rest))"
| "hint_scan addr prot len cnt pre [c] = HLast pre c"
| "hint_scan addr prot len cnt pre [] = HFlag pre []"

text \<open>The last area is reached and \<open>flag\<close> is still 0.\<close>

definition hint_tail :: "nat \<Rightarrow> u32 \<Rightarrow> nat \<Rightarrow> nat \<Rightarrow> vm_area list \<Rightarrow> vm_area \<Rightarrow> hres" where
  "hint_tail addr prot len cnt pre c =
     (if add64 addr len > MMAP_AREA_END then HFlag (pre @ [c]) []
      else if vm_start c \<le> addr \<and> addr < vm_end c then HFlag pre [c]
      else if addr = vm_end c then
        (if access_flags c = prot then
           HDone (vappend pre (VDone [c\<lparr>vm_end := add64 (vm_end c) len\<rparr>] (vm_start c) 0))
         else if cnt \<ge> 128 then HDone VFail
         else HDone (vappend pre (VDone [c, new_area (vm_end c) len prot] (vm_end c) 1)))
      else if cnt \<ge> 128 then HDone VFail
      else HDone (vappend pre (VDone [c, new_area addr len prot] addr 1)))"

text \<open>
  The hint address is taken.  First the gaps from \<open>curr\<close> on and the space after
  the last area, then the space in front of the first area, then the gaps below
  the hint.
\<close>

definition fallback_grow :: "u32 \<Rightarrow> nat \<Rightarrow> nat \<Rightarrow> vm_area list \<Rightarrow> vm_area list \<Rightarrow> vres" where
  "fallback_grow prot len cnt pre suf =
     (if suf \<noteq> [] \<and> add64 (vm_end (last suf)) len \<le> MMAP_AREA_END
      then vappend (pre @ butlast suf) (grow_last prot len cnt (last suf))
      else VNone)"

fun fill_gaps_below :: "nat \<Rightarrow> u32 \<Rightarrow> nat \<Rightarrow> nat \<Rightarrow> vm_area list \<Rightarrow> vres" where
  "fill_gaps_below addr prot len cnt (t # n # rest) =
     (if vm_end t < addr then
        (case gap_step prot len cnt t n rest of
           VNone \<Rightarrow> vcons t (fill_gaps_below addr prot len cnt (n # rest))
         | r \<Rightarrow> r)
      else VFail)"
| "fill_gaps_below addr prot len cnt vs = VNone"

definition fallback_wrap :: "nat \<Rightarrow> u32 \<Rightarrow> nat \<Rightarrow> nat \<Rightarrow> vm_area list \<Rightarrow> vres" where
  "fallback_wrap addr prot len cnt vs =
     (case vs of
        [] \<Rightarrow> VFail
      | c # rest \<Rightarrow>
          (case place_front prot len cnt c rest of
             VNone \<Rightarrow> (case fill_gaps_below addr prot len cnt vs of
                         VNone \<Rightarrow> extend_last prot len cnt vs
                       | r \<Rightarrow> r)
           | r \<Rightarrow> r))"

definition hint_fallback :: "nat \<Rightarrow> u32 \<Rightarrow> nat \<Rightarrow> nat \<Rightarrow> bool \<Rightarrow> vm_area list \<Rightarrow> vm_area list \<Rightarrow> vres" where
  "hint_fallback addr prot len cnt fixed pre suf =
     (if fixed then VFail
      else (case vappend pre (fill_gaps prot len cnt suf) of
              VNone \<Rightarrow>
                (case fallback_grow prot len cnt pre suf of
                   VNone \<Rightarrow> fallback_wrap addr prot len cnt (pre @ suf)
                 | r \<Rightarrow> r)
            | r \<Rightarrow> r))"

definition map_hint :: "nat \<Rightarrow> u32 \<Rightarrow> nat \<Rightarrow> nat \<Rightarrow> bool \<Rightarrow> vm_area list \<Rightarrow> vres" where
  "map_hint addr prot len cnt fixed vs =
     (case vs of
        [] \<Rightarrow>
          (if add64 addr len > MMAP_AREA_END then
             (if add64 MMAP_AREA_START len > MMAP_AREA_END then VFail
              else VDone [new_area MMAP_AREA_START len prot] MMAP_AREA_START 1)
           else VDone [new_area addr len prot] addr 1)
      | c # rest \<Rightarrow>
          (case (if addr < vm_start c then hint_head addr prot len cnt c rest
                 else hint_scan addr prot len cnt [] vs) of
             HDone r \<Rightarrow> r
           | HFlag pre suf \<Rightarrow> hint_fallback addr prot len cnt fixed pre suf
           | HLast pre l \<Rightarrow>
               (case hint_tail addr prot len cnt pre l of
                  HDone r \<Rightarrow> r
                | HFlag pre' suf' \<Rightarrow> hint_fallback addr prot len cnt fixed pre' suf'
                | HLast _ _ \<Rightarrow> VNone)))"

text \<open>
  The whole decision of \<open>vm_area_map\<close>, the arguments as the system call passes
  them: \<open>addr\<close> is a \<open>u64\<close>, \<open>length\<close> an \<open>int\<close>.
\<close>

definition vm_area_place :: "nat \<Rightarrow> int \<Rightarrow> u32 \<Rightarrow> bool \<Rightarrow> vm_area list \<Rightarrow> vres" where
  "vm_area_place addr len prot fixed vs =
     (if addr \<noteq> 0 \<and> \<not> (addr \<ge> MMAP_AREA_START \<and> addr \<le> MMAP_AREA_END) then VFail
      else if addr \<noteq> 0 \<and> fixed \<and>
              \<not> (addr \<ge> MMAP_AREA_START \<and> add64 addr (ext64 len) \<le> MMAP_AREA_END) then VFail
      else let l = ext64 (round_length len); cnt = length vs in
        if addr = 0 then map_nohint prot l cnt vs else map_hint addr prot l cnt fixed vs)"

subsection \<open>munmap\<close>

text \<open>
  The two phases of the loop: before the range has started (\<open>flag = 0\<close>) and after
  (\<open>flag = 1\<close>); \<open>e\<close> is \<open>addr + length\<close>.  \<open>None\<close> is the early \<open>return -1\<close> at the limit
  of 128 areas.
\<close>

fun unmap_started :: "nat \<Rightarrow> vm_area list \<Rightarrow> vm_area list \<times> int" where
  "unmap_started e [] = ([], 0)"
| "unmap_started e (c # r) =
     (if vm_start c \<ge> e then (c # r, 0)
      else if vm_end c > e then (c\<lparr>vm_start := e\<rparr> # r, 0)
      else if vm_end c = e then (r, -1)
      else (let (r', d) = unmap_started e r in (r', d - 1)))"

fun unmap_scan :: "nat \<Rightarrow> nat \<Rightarrow> nat \<Rightarrow> vm_area list \<Rightarrow> (vm_area list \<times> int) option" where
  "unmap_scan addr e cnt [] = Some ([], 0)"
| "unmap_scan addr e cnt (c # r) =
     (if vm_start c \<ge> addr then
        (if e \<le> vm_start c then Some (c # r, 0)
         else if e < vm_end c then Some (c\<lparr>vm_start := e\<rparr> # r, 0)
         else (let (r', d) = unmap_started e r in Some (r', d - 1)))
      else if addr > vm_start c \<and> addr < vm_end c then
        (if e < vm_end c then
           (if cnt = 128 then None
            else Some (c\<lparr>vm_end := addr\<rparr> #
                       \<lparr>vm_start = e, vm_end = vm_end c, access_flags = access_flags c\<rparr> # r, 1))
         else (let (r', d) = unmap_started e r in Some (c\<lparr>vm_end := addr\<rparr> # r', d)))
      else map_option (\<lambda>(r', d). (c # r', d)) (unmap_scan addr e cnt r))"

subsection \<open>mprotect\<close>

text \<open>Is the range covered by areas without a hole?  \<open>flag = 1\<close> and \<open>flag = 0\<close> part.\<close>

fun contig_started :: "nat \<Rightarrow> nat \<Rightarrow> vm_area list \<Rightarrow> bool" where
  "contig_started e prev_end [] = True"
| "contig_started e prev_end (c # r) =
     (if vm_start c \<noteq> prev_end then False
      else if e \<le> vm_end c then True
      else if r = [] \<and> e > vm_end c then False
      else contig_started e (vm_end c) r)"

fun contig :: "nat \<Rightarrow> nat \<Rightarrow> vm_area list \<Rightarrow> bool" where
  "contig addr e [] = True"
| "contig addr e (c # r) =
     (if addr \<ge> vm_start c \<and> addr < vm_end c then
        (if e \<le> vm_end c then True else contig_started e (vm_end c) r)
      else if r = [] \<or> addr < vm_start (hd r) then False
      else contig addr e r)"

text \<open>The number of areas the range meets, and the checks against the limit of 128.\<close>

fun prot_span :: "nat \<Rightarrow> nat \<Rightarrow> vm_area list \<Rightarrow> nat" where
  "prot_span addr e [] = 0"
| "prot_span addr e (c # r) =
     (if addr < vm_start c then
        (if e > vm_start c \<and> e \<le> vm_end c then 1
         else if e \<ge> vm_end c then 1 + prot_span addr e r
         else prot_span addr e r)
      else if addr \<ge> vm_start c \<and> addr < vm_end c then
        (if e \<le> vm_end c then 1 else 1 + prot_span addr e r)
      else prot_span addr e r)"

fun limit_one :: "nat \<Rightarrow> nat \<Rightarrow> u32 \<Rightarrow> nat \<Rightarrow> vm_area option \<Rightarrow> vm_area list \<Rightarrow> bool" where
  "limit_one addr e prot cnt prev [] = True"
| "limit_one addr e prot cnt prev (c # r) =
     (if addr = vm_start c then
        (if e = vm_end c then True
         else if access_flags c = prot \<or>
                 (case prev of None \<Rightarrow> False | Some p \<Rightarrow> prot = access_flags p) then True
         else if cnt \<ge> 128 then False
         else limit_one addr e prot cnt (Some c) r)
      else if addr > vm_start c \<and> addr < vm_end c then
        (if e = vm_end c then
           (if access_flags c = prot \<or>
               (case r of [] \<Rightarrow> False | n # _ \<Rightarrow> prot = access_flags n) then True
            else if cnt \<ge> 128 then False
            else limit_one addr e prot cnt (Some c) r)
         else if access_flags c = prot then True
         else if cnt \<ge> 127 then False
         else limit_one addr e prot cnt (Some c) r)
      else limit_one addr e prot cnt (Some c) r)"

text \<open>\<open>None\<close> is the dereference of a null \<open>curr->vm_next\<close>.\<close>

fun limit_two :: "nat \<Rightarrow> nat \<Rightarrow> u32 \<Rightarrow> nat \<Rightarrow> vm_area list \<Rightarrow> bool option" where
  "limit_two addr e prot cnt [] = Some True"
| "limit_two addr e prot cnt (c # r) =
     (if addr = vm_start c then Some True
      else if addr > vm_start c \<and> addr < vm_end c then
        (case r of
           [] \<Rightarrow> None
         | n # _ \<Rightarrow>
             (if e = vm_end n then Some True
              else if access_flags c = prot \<or> access_flags n = prot then Some True
              else if cnt \<ge> 128 then Some False
              else limit_two addr e prot cnt r))
      else limit_two addr e prot cnt r)"

definition limit_check :: "nat \<Rightarrow> nat \<Rightarrow> u32 \<Rightarrow> vm_area list \<Rightarrow> bool option" where
  "limit_check addr e prot vs =
     (let cnt = length vs; span = prot_span addr e vs in
      if span = 1 then Some (limit_one addr e prot cnt None vs)
      else if span = 2 then limit_two addr e prot cnt vs
      else Some True)"

text \<open>\<open>if(curr->access_flags != prot) curr->access_flags = prot;\<close>\<close>

definition set_prot :: "u32 \<Rightarrow> vm_area \<Rightarrow> vm_area" where
  "set_prot prot c = (if access_flags c \<noteq> prot then c\<lparr>access_flags := prot\<rparr> else c)"

fun protect_started :: "nat \<Rightarrow> u32 \<Rightarrow> vm_area list \<Rightarrow> vm_area list \<times> int" where
  "protect_started e prot [] = ([], 0)"
| "protect_started e prot (c # r) =
     (if e < vm_end c then
        (if access_flags c \<noteq> prot then
           (\<lparr>vm_start = vm_start c, vm_end = e, access_flags = prot\<rparr> # c\<lparr>vm_start := e\<rparr> # r, 1)
         else (c # r, 0))
      else if e = vm_end c then (set_prot prot c # r, 0)
      else (let (r', d) = protect_started e prot r in (set_prot prot c # r', d)))"

fun protect_scan :: "nat \<Rightarrow> nat \<Rightarrow> u32 \<Rightarrow> vm_area list \<Rightarrow> vm_area list \<times> int" where
  "protect_scan addr e prot [] = ([], 0)"
| "protect_scan addr e prot (c # r) =
     (if addr = vm_start c then
        (if e < vm_end c then
           (if access_flags c \<noteq> prot then
              (\<lparr>vm_start = addr, vm_end = e, access_flags = prot\<rparr> # c\<lparr>vm_start := e\<rparr> # r, 1)
            else (c # r, 0))
         else if e = vm_end c then (set_prot prot c # r, 0)
         else (let (r', d) = protect_started e prot r in (set_prot prot c # r', d)))
      else if addr > vm_start c \<and> addr < vm_end c then
        (if e < vm_end c then
           (if access_flags c \<noteq> prot then
              (c\<lparr>vm_end := addr\<rparr> # \<lparr>vm_start = addr, vm_end = e, access_flags = prot\<rparr> #
               \<lparr>vm_start = e, vm_end = vm_end c, access_flags = access_flags c\<rparr> # r, 2)
            else (c # r, 0))
         else if e = vm_end c then
           (if access_flags c \<noteq> prot then
              (c\<lparr>vm_end := addr\<rparr> # \<lparr>vm_start = addr, vm_end = vm_end c, access_flags = prot\<rparr> # r, 1)
            else (c # r, 0))
         else if access_flags c \<noteq> prot then
           (let (r', d) = protect_started e prot
                            (\<lparr>vm_start = addr, vm_end = vm_end c, access_flags = prot\<rparr> # r)
            in (c\<lparr>vm_end := addr\<rparr> # r', d + 1))
         else (let (r', d) = protect_started e prot r in (c # r', d)))
      else (let (r', d) = protect_scan addr e prot r in (c # r', d)))"

fun merge_areas :: "vm_area list \<Rightarrow> vm_area list \<times> int" where
  "merge_areas (p # c # r) =
     (if vm_end p = vm_start c \<and> access_flags p = access_flags c then
        (let (r', d) = merge_areas (p\<lparr>vm_end := vm_end c\<rparr> # r) in (r', d - 1))
      else (let (r', d) = merge_areas (c # r) in (p # r', d)))"
| "merge_areas vs = (vs, 0)"

text \<open>
  The whole decision of \<open>vm_area_mprotect\<close> on the list: a fault, \<open>return -1\<close>, the
  early \<open>return 0\<close> for an empty range, or the new list.
\<close>

datatype mres = MFault | MFail | MNop | MDone "vm_area list" int

definition vm_area_protect :: "nat \<Rightarrow> int \<Rightarrow> u32 \<Rightarrow> vm_area list \<Rightarrow> mres" where
  "vm_area_protect addr len prot vs =
     (if \<not> (addr \<ge> MMAP_AREA_START \<and> add64 addr (ext64 len) \<le> MMAP_AREA_END) then MFail
      else let l = round_length len; e = add64 addr (ext64 l) in
        if l = 0 then MNop
        else case vs of
          [] \<Rightarrow> MFail
        | c # _ \<Rightarrow>
            (if addr < vm_start c then MFail
             else if \<not> contig addr e vs then MFail
             else case limit_check addr e prot vs of
               None \<Rightarrow> MFault
             | Some False \<Rightarrow> MFail
             | Some True \<Rightarrow>
                 (let (vs1, d1) = protect_scan addr e prot vs; (vs2, d2) = merge_areas vs1
                  in MDone vs2 (d1 + d2))))"

subsection \<open>The checks of the page-fault handler\<close>

text \<open>The loop that rejects an address in a gap or past the last area.\<close>

fun fault_mapped :: "nat \<Rightarrow> vm_area list \<Rightarrow> bool" where
  "fault_mapped addr (c # n # r) =
     (if addr \<ge> vm_end c \<and> addr < vm_start n then False else fault_mapped addr (n # r))"
| "fault_mapped addr [c] = (\<not> addr \<ge> vm_end c)"
| "fault_mapped addr [] = True"

fun fault_writable :: "nat \<Rightarrow> vm_area list \<Rightarrow> bool" where
  "fault_writable addr [] = True"
| "fault_writable addr (c # r) =
     (if addr \<ge> vm_start c \<and> addr < vm_end c \<and> access_flags c AND 2 = 0 then False
      else fault_writable addr r)"

definition vm_area_fault_ok :: "nat \<Rightarrow> u64 \<Rightarrow> vm_area list \<Rightarrow> bool" where
  "vm_area_fault_ok addr error_code vs =
     (if \<not> (addr \<ge> MMAP_AREA_START \<and> addr < MMAP_AREA_END) then False
      else if error_code AND 1 \<noteq> 0 then False
      else case vs of
        [] \<Rightarrow> False
      | c # _ \<Rightarrow>
          (if addr < vm_start c then False
           else if \<not> fault_mapped addr vs then False
           else if error_code AND 2 \<noteq> 0 then fault_writable addr vs
           else True))"

section \<open>The abstract view: a map from addresses to protection flags\<close>

text \<open>
  \<open>prot_at vs a\<close> is the protection of address \<open>a\<close>, or \<open>None\<close> where nothing is
  mapped.  \<open>vma_wf lo vs\<close> is the invariant of the list: the areas are not empty,
  sorted, disjoint and lie between \<open>lo\<close> and the end of the mmap area.
\<close>

fun prot_at :: "vm_area list \<Rightarrow> nat \<Rightarrow> u32 option" where
  "prot_at [] a = None"
| "prot_at (v # vs) a =
     (if vm_start v \<le> a \<and> a < vm_end v then Some (access_flags v) else prot_at vs a)"

fun vma_wf :: "nat \<Rightarrow> vm_area list \<Rightarrow> bool" where
  "vma_wf lo [] = True"
| "vma_wf lo (v # vs) =
     (lo \<le> vm_start v \<and> vm_start v < vm_end v \<and> vm_end v \<le> MMAP_AREA_END \<and>
      vma_wf (vm_end v) vs)"

lemma vma_wf_mono: "vma_wf lo vs \<Longrightarrow> lo' \<le> lo \<Longrightarrow> vma_wf lo' vs"
  by (cases vs) auto

lemma prot_at_below: "vma_wf lo vs \<Longrightarrow> a < lo \<Longrightarrow> prot_at vs a = None"
  by (induction vs arbitrary: lo) auto

lemma prot_at_beyond: "vma_wf lo vs \<Longrightarrow> MMAP_AREA_END \<le> a \<Longrightarrow> prot_at vs a = None"
  by (induction vs arbitrary: lo) auto

lemma prot_at_append:
  "prot_at (xs @ ys) a = (case prot_at xs a of None \<Rightarrow> prot_at ys a | Some p \<Rightarrow> Some p)"
  by (induction xs) auto

lemma new_area_sel [simp]:
  "vm_start (new_area s len prot) = s" "vm_end (new_area s len prot) = add64 s len"
  "access_flags (new_area s len prot) = prot"
  by (simp_all add: new_area_def)

section \<open>mmap\<close>

text \<open>
  What a decision of mmap must be: the new list is well formed, the chosen range
  was free, afterwards it has the requested protection and nothing else changed,
  and the node counter moves with the list, upwards only below the limit.
\<close>

definition placed_at :: "u32 \<Rightarrow> nat \<Rightarrow> nat \<Rightarrow> nat \<Rightarrow> vm_area list \<Rightarrow> vm_area list \<Rightarrow> nat \<Rightarrow> int \<Rightarrow> bool" where
  "placed_at prot len cnt lo vs vs' ret d \<longleftrightarrow>
     vma_wf lo vs' \<and> lo \<le> ret \<and> ret + len \<le> MMAP_AREA_END \<and>
     (\<forall>a. ret \<le> a \<and> a < ret + len \<longrightarrow> prot_at vs a = None) \<and>
     (\<forall>a. prot_at vs' a = (if ret \<le> a \<and> a < ret + len then Some prot else prot_at vs a)) \<and>
     int (length vs') = int (length vs) + d \<and> d \<le> 1 \<and> (d = 1 \<longrightarrow> cnt < 128)"

definition placed :: "u32 \<Rightarrow> nat \<Rightarrow> nat \<Rightarrow> nat \<Rightarrow> vm_area list \<Rightarrow> vres \<Rightarrow> bool" where
  "placed prot len cnt lo vs r =
     (case r of VDone vs' ret d \<Rightarrow> placed_at prot len cnt lo vs vs' ret d | _ \<Rightarrow> True)"

lemma placed_simps [simp]:
  "placed prot len cnt lo vs VFail" "placed prot len cnt lo vs VNone"
  "placed prot len cnt lo vs (VDone vs' ret d) = placed_at prot len cnt lo vs vs' ret d"
  by (simp_all add: placed_def)

lemma vcons_simps [simp]:
  "vcons c VFail = VFail" "vcons c VNone = VNone" "vcons c (VDone vs ret d) = VDone (c # vs) ret d"
  by (simp_all add: vcons_def)

lemma vcons_eq_VNone [simp]: "(vcons c r = VNone) = (r = VNone)"
  by (cases r) simp_all

lemma vappend_simps [simp]:
  "vappend [] r = r" "vappend (c # cs) r = vcons c (vappend cs r)"
  by (simp_all add: vappend_def)

lemma vappend_append: "vappend (xs @ ys) r = vappend xs (vappend ys r)"
  by (induction xs) simp_all

lemma vappend_VNone [simp]: "(vappend cs r = VNone) = (r = VNone)"
  by (induction cs) simp_all

lemma placed_cons:
  assumes "placed prot len cnt (vm_end t) vs r" "vma_wf lo (t # vs)"
  shows "placed prot len cnt lo (t # vs) (vcons t r)"
  using assms by (cases r) (auto simp: placed_at_def)

lemma placed_append:
  assumes "vma_wf lo (pre @ vs)"
    "\<And>lo'. lo \<le> lo' \<Longrightarrow> vma_wf lo' vs \<Longrightarrow> placed prot len cnt lo' vs r"
  shows "placed prot len cnt lo (pre @ vs) (vappend pre r)"
  using assms
proof (induction pre arbitrary: lo)
  case Nil
  then show ?case by simp
next
  case (Cons c pre)
  from Cons.prems(1) have wf: "vma_wf (vm_end c) (pre @ vs)" and "lo \<le> vm_end c" by auto
  then have "placed prot len cnt (vm_end c) (pre @ vs) (vappend pre r)"
    by (intro Cons.IH) (auto intro: Cons.prems(2))
  with Cons.prems(1) show ?case by (simp add: placed_cons)
qed

lemma gap_step_placed:
  assumes "vma_wf lo (t # n # rest)" "0 < len" "len \<le> 2 ^ 31"
  shows "placed prot len cnt lo (t # n # rest) (gap_step prot len cnt t n rest)"
proof -
  have "add64 (vm_end t) len = vm_end t + len"
    using assms by (intro add64_small) simp
  then show ?thesis
    using assms
    by (auto simp: gap_step_def placed_at_def u64_simps prot_at_below)
qed

lemma gap_step_ret:
  assumes "gap_step prot len cnt t n rest = VDone vs' ret d"
    "vm_end t \<le> MMAP_AREA_END" "len \<le> 2 ^ 31"
  shows "ret = vm_end t"
proof -
  have "add64 (vm_end t) len = vm_end t + len"
    using assms by (intro add64_small) simp
  with assms show ?thesis
    by (auto simp: gap_step_def sub64_small split: if_splits)
qed

lemma placed_orelse:
  assumes "placed prot len cnt lo vs r" "r = VNone \<Longrightarrow> placed prot len cnt lo vs r'"
  shows "placed prot len cnt lo vs
           (case r of VFail \<Rightarrow> VFail | VNone \<Rightarrow> r' | VDone vs' ret d \<Rightarrow> VDone vs' ret d)"
  using assms by (cases r) simp_all

lemma fill_gaps_placed:
  assumes "vma_wf lo vs" "0 < len" "len \<le> 2 ^ 31"
  shows "placed prot len cnt lo vs (fill_gaps prot len cnt vs)"
  using assms
proof (induction prot len cnt vs arbitrary: lo rule: fill_gaps.induct)
  case (1 prot len cnt t n rest)
  show ?case
    unfolding fill_gaps.simps
    by (intro placed_orelse gap_step_placed placed_cons) (use 1 in simp_all)
qed simp_all

lemma fill_gaps_below_placed:
  assumes "vma_wf lo vs" "0 < len" "len \<le> 2 ^ 31"
  shows "placed prot len cnt lo vs (fill_gaps_below addr prot len cnt vs)"
  using assms
proof (induction addr prot len cnt vs arbitrary: lo rule: fill_gaps_below.induct)
  case (1 addr prot len cnt t n rest)
  show ?case
  proof (cases "vm_end t < addr")
    case True
    with 1 have "placed prot len cnt lo (t # n # rest)
        (case gap_step prot len cnt t n rest of VFail \<Rightarrow> VFail
         | VNone \<Rightarrow> vcons t (fill_gaps_below addr prot len cnt (n # rest))
         | VDone vs' ret d \<Rightarrow> VDone vs' ret d)"
      by (intro placed_orelse gap_step_placed placed_cons) simp_all
    with True show ?thesis by simp
  qed simp
qed simp_all

lemma grow_last_placed:
  assumes "vma_wf lo [t]" "0 < len" "len \<le> 2 ^ 31" "add64 (vm_end t) len \<le> MMAP_AREA_END"
  shows "placed prot len cnt lo [t] (grow_last prot len cnt t)"
proof -
  have "add64 (vm_end t) len = vm_end t + len"
    using assms by (intro add64_small) simp
  with assms show ?thesis
    by (auto simp: grow_last_def placed_at_def sub64_small)
qed

lemma extend_last_placed:
  assumes "vma_wf lo vs" "0 < len" "len \<le> 2 ^ 31"
  shows "placed prot len cnt lo vs (extend_last prot len cnt vs)"
  using assms
proof (induction prot len cnt vs arbitrary: lo rule: extend_last.induct)
  case (2 prot len cnt t)
  then show ?case by (auto intro!: grow_last_placed)
next
  case (3 prot len cnt t n rest)
  then show ?case by (auto intro!: placed_cons)
qed simp

lemma place_front_placed:
  assumes "vma_wf MMAP_AREA_START (t # rest)" "0 < len" "len \<le> 2 ^ 31"
  shows "placed prot len cnt MMAP_AREA_START (t # rest) (place_front prot len cnt t rest)"
proof -
  have "add64 len MMAP_AREA_START = MMAP_AREA_START + len"
    "add64 MMAP_AREA_START len = MMAP_AREA_START + len"
    using assms by (simp_all add: add64_small)
  with assms show ?thesis
    by (auto simp: place_front_def placed_at_def sub64_small prot_at_below)
qed

lemma map_nohint_placed:
  assumes "vma_wf MMAP_AREA_START vs" "0 < len" "len \<le> 2 ^ 31" "length vs = cnt"
  shows "placed prot len cnt MMAP_AREA_START vs (map_nohint prot len cnt vs)"
proof (cases vs)
  case Nil
  have "add64 MMAP_AREA_START len = MMAP_AREA_START + len"
    using assms by (simp add: add64_small)
  with Nil assms show ?thesis by (auto simp: map_nohint_def placed_at_def)
next
  case (Cons t rest)
  have "placed prot len cnt MMAP_AREA_START (t # rest)
     (case place_front prot len cnt t rest of VFail \<Rightarrow> VFail
      | VNone \<Rightarrow> (case fill_gaps prot len cnt (t # rest) of VFail \<Rightarrow> VFail
                  | VNone \<Rightarrow> extend_last prot len cnt (t # rest)
                  | VDone vs' ret d \<Rightarrow> VDone vs' ret d)
      | VDone vs' ret d \<Rightarrow> VDone vs' ret d)"
    by (intro placed_orelse place_front_placed fill_gaps_placed extend_last_placed)
      (use assms Cons in simp_all)
  then show ?thesis by (simp add: map_nohint_def Cons)
qed

subsection \<open>With a hint address\<close>

definition here :: "nat \<Rightarrow> vres \<Rightarrow> bool" where
  "here addr r = (case r of VDone vs ret d \<Rightarrow> ret = addr | _ \<Rightarrow> True)"

lemma here_simps [simp]:
  "here addr VFail" "here addr VNone" "here addr (VDone vs ret d) = (ret = addr)"
  by (simp_all add: here_def)

lemma here_vcons [simp]: "here addr (vcons c r) = here addr r"
  by (cases r) simp_all

lemma here_vappend [simp]: "here addr (vappend pre r) = here addr r"
  by (induction pre) simp_all

lemma hint_gap_placed:
  assumes "vma_wf lo (c # n # rest)" "0 < len" "len \<le> 2 ^ 31" "vm_end c < addr" "addr < vm_start n"
  shows "placed prot len cnt lo (c # n # rest) (hint_gap addr prot len cnt c n rest) \<and>
         here addr (hint_gap addr prot len cnt c n rest)"
proof -
  have "add64 addr len = addr + len"
    using assms by (intro add64_small) simp
  with assms show ?thesis
    by (auto simp: hint_gap_def placed_at_def sub64_small prot_at_below)
qed

lemma hint_head_placed:
  assumes "vma_wf lo (c # rest)" "0 < len" "len \<le> 2 ^ 31" "lo \<le> addr" "addr < vm_start c"
  shows "case hint_head addr prot len cnt c rest of
           HDone r \<Rightarrow> placed prot len cnt lo (c # rest) r \<and> here addr r
         | HFlag p s \<Rightarrow> p @ s = c # rest
         | HLast p l \<Rightarrow> False"
proof -
  have "add64 addr len = addr + len"
    using assms by (intro add64_small) simp
  with assms show ?thesis
    by (auto simp: hint_head_def placed_at_def sub64_small prot_at_below)
qed

lemma gap_step_here:
  assumes "vm_end t \<le> MMAP_AREA_END" "len \<le> 2 ^ 31"
  shows "here (vm_end t) (gap_step prot len cnt t n rest)"
  using gap_step_ret [OF _ assms] by (cases "gap_step prot len cnt t n rest") auto

lemma vma_wf_append:
  "vma_wf lo (xs @ ys) \<Longrightarrow> vma_wf lo xs \<and> (\<exists>lo'. lo \<le> lo' \<and> vma_wf lo' ys)"
proof (induction xs arbitrary: lo)
  case Nil
  then show ?case by auto
next
  case (Cons c xs)
  from Cons.prems have "vma_wf (vm_end c) (xs @ ys)" and le: "lo \<le> vm_end c" by auto
  then obtain lo' where "vma_wf (vm_end c) xs" "vm_end c \<le> lo'" "vma_wf lo' ys"
    using Cons.IH by blast
  with Cons.prems le show ?case by (auto intro!: exI [of _ lo'])
qed

definition scan_ok :: "nat \<Rightarrow> u32 \<Rightarrow> nat \<Rightarrow> nat \<Rightarrow> nat \<Rightarrow> vm_area list \<Rightarrow> hres \<Rightarrow> bool" where
  "scan_ok addr prot len cnt lo vs h =
     (case h of
        HDone r \<Rightarrow> placed prot len cnt lo vs r \<and> here addr r
      | HFlag p s \<Rightarrow> p @ s = vs
      | HLast p l \<Rightarrow> p @ [l] = vs \<and> vm_start l \<le> addr)"

lemma scan_ok_simps [simp]:
  "scan_ok addr prot len cnt lo vs (HDone r) = (placed prot len cnt lo vs r \<and> here addr r)"
  "scan_ok addr prot len cnt lo vs (HFlag p s) = (p @ s = vs)"
  "scan_ok addr prot len cnt lo vs (HLast p l) = (p @ [l] = vs \<and> vm_start l \<le> addr)"
  by (simp_all add: scan_ok_def)

lemma scan_ok_orelse:
  assumes "placed prot len cnt lo vs (vappend pre r)" "here addr r"
    "r = VNone \<Longrightarrow> scan_ok addr prot len cnt lo vs h"
  shows "scan_ok addr prot len cnt lo vs
           (case r of VFail \<Rightarrow> HDone (vappend pre VFail) | VNone \<Rightarrow> h
            | VDone vs' ret d \<Rightarrow> HDone (vappend pre (VDone vs' ret d)))"
  using assms by (cases r) simp_all

lemma hint_scan_ok:
  assumes "vma_wf lo (pre @ suf)" "0 < len" "len \<le> 2 ^ 31" "suf \<noteq> []" "vm_start (hd suf) \<le> addr"
  shows "scan_ok addr prot len cnt lo (pre @ suf) (hint_scan addr prot len cnt pre suf)"
  using assms
proof (induction addr prot len cnt pre suf rule: hint_scan.induct)
  case (1 addr prot len cnt pre c n rest)
  from 1(2) obtain lo' where wf: "vma_wf lo' (c # n # rest)" using vma_wf_append by blast
  have gs: "placed prot len cnt lo (pre @ c # n # rest) (vappend pre (gap_step prot len cnt c n rest))"
    using 1(2-4) by (intro placed_append gap_step_placed) auto
  have hg: "placed prot len cnt lo (pre @ c # n # rest) (vappend pre (hint_gap addr prot len cnt c n rest))"
    if "vm_end c < addr" "addr < vm_start n"
    using 1(2-4) that by (intro placed_append conjunct1 [OF hint_gap_placed]) auto
  consider (inside) "vm_start c \<le> addr" "addr < vm_end c" | (adj) "addr = vm_end c"
    | (gap) "vm_end c < addr" "addr < vm_start n" | (later) "vm_end c < addr" "vm_start n \<le> addr"
    using 1(6) by force
  then show ?case
  proof cases
    case inside
    then show ?thesis by simp
  next
    case adj
    have "here addr (gap_step prot len cnt c n rest)"
      using gap_step_here [of c len prot cnt n rest] wf 1(4) adj by simp
    with gs have "scan_ok addr prot len cnt lo (pre @ c # n # rest)
        (case gap_step prot len cnt c n rest of VFail \<Rightarrow> HDone (vappend pre VFail)
         | VNone \<Rightarrow> HFlag pre (c # n # rest)
         | VDone vs' ret d \<Rightarrow> HDone (vappend pre (VDone vs' ret d)))"
      by (rule scan_ok_orelse) simp
    with adj show ?thesis by simp
  next
    case gap
    have "here addr (hint_gap addr prot len cnt c n rest)"
      using hint_gap_placed [OF wf 1(3,4) gap] by blast
    with hg [OF gap] have "scan_ok addr prot len cnt lo (pre @ c # n # rest)
        (case hint_gap addr prot len cnt c n rest of VFail \<Rightarrow> HDone (vappend pre VFail)
         | VNone \<Rightarrow> HFlag (pre @ [c]) (n # rest)
         | VDone vs' ret d \<Rightarrow> HDone (vappend pre (VDone vs' ret d)))"
      by (rule scan_ok_orelse) simp
    with gap show ?thesis by simp
  next
    case later
    with 1 show ?thesis by simp
  qed
qed simp_all

text \<open>
  The result of \<open>map_hint\<close>: as \<open>placed\<close>, except that the returned address can be
  the start of the last area instead of the start \<open>m\<close> of the new range.
\<close>

definition hint_placed :: "nat \<Rightarrow> u32 \<Rightarrow> nat \<Rightarrow> nat \<Rightarrow> nat \<Rightarrow> vm_area list \<Rightarrow> vres \<Rightarrow> bool" where
  "hint_placed addr prot len cnt lo vs r =
     (case r of
        VDone vs' ret d \<Rightarrow>
          (\<exists>m. placed_at prot len cnt lo vs vs' m d \<and>
               (ret = m \<or>
                m = addr \<and> vs \<noteq> [] \<and> addr = vm_end (last vs) \<and>
                access_flags (last vs) = prot \<and> ret = vm_start (last vs)))
      | _ \<Rightarrow> True)"

lemma hint_placed_simps [simp]:
  "hint_placed addr prot len cnt lo vs VFail" "hint_placed addr prot len cnt lo vs VNone"
  by (simp_all add: hint_placed_def)

lemma placed_hint_placed: "placed prot len cnt lo vs r \<Longrightarrow> hint_placed addr prot len cnt lo vs r"
  by (cases r) (auto simp: hint_placed_def)

lemma place_front_hint [simp]: "place_front prot len cnt c rest = VDone vs' ret d \<Longrightarrow> ret = MMAP_AREA_START"
  by (auto simp: place_front_def split: if_splits)

lemma vma_wf_snocD: "vma_wf lo (pre @ [c]) \<Longrightarrow> vm_start c < vm_end c \<and> vm_end c \<le> MMAP_AREA_END"
  using vma_wf_append [of lo pre "[c]"] by auto

lemma placed_tail:
  assumes "vma_wf lo (pre @ [c])" "0 < len" "vm_end c \<le> m" "m + len \<le> MMAP_AREA_END"
    "cnt < 128"
  shows "placed prot len cnt lo (pre @ [c]) (vappend pre (VDone [c, new_area m len prot] m 1))"
  using assms(1)
proof (rule placed_append)
  fix lo' assume "vma_wf lo' [c]"
  with assms show "placed prot len cnt lo' [c] (VDone [c, new_area m len prot] m 1)"
    by (auto simp: placed_at_def add64_small)
qed

lemma placed_tail_grow:
  assumes "vma_wf lo (pre @ [c])" "0 < len" "vm_end c + len \<le> MMAP_AREA_END" "access_flags c = prot"
  shows "placed prot len cnt lo (pre @ [c])
           (vappend pre (VDone [c\<lparr>vm_end := add64 (vm_end c) len\<rparr>] (vm_end c) 0))"
  using assms(1)
proof (rule placed_append)
  fix lo' assume "vma_wf lo' [c]"
  with assms show "placed prot len cnt lo' [c]
      (VDone [c\<lparr>vm_end := add64 (vm_end c) len\<rparr>] (vm_end c) 0)"
    by (auto simp: placed_at_def add64_small)
qed

lemma vappend_VDone: "vappend pre (VDone vs ret d) = VDone (pre @ vs) ret d"
  by (induction pre) simp_all

lemma hint_tail_placed:
  assumes "vma_wf lo (pre @ [c])" "0 < len" "len \<le> 2 ^ 31" "vm_start c \<le> addr" "addr \<le> MMAP_AREA_END"
  shows "case hint_tail addr prot len cnt pre c of
           HDone r \<Rightarrow> hint_placed addr prot len cnt lo (pre @ [c]) r
         | HFlag p s \<Rightarrow> p @ s = pre @ [c]
         | HLast p l \<Rightarrow> False"
proof -
  have add: "add64 addr len = addr + len"
    using assms by (intro add64_small) simp
  note tail = placed_tail [OF assms(1,2), THEN placed_hint_placed]
  have "hint_placed addr prot len cnt lo (pre @ [c])
      (vappend pre (VDone [c\<lparr>vm_end := add64 (vm_end c) len\<rparr>] (vm_start c) 0))"
    if "addr = vm_end c" "access_flags c = prot" "addr + len \<le> MMAP_AREA_END"
    using placed_tail_grow [OF assms(1,2), of prot cnt] that
    by (auto simp: hint_placed_def vappend_VDone)
  with assms add tail show ?thesis
    by (auto simp: hint_tail_def)
qed

lemma fallback_grow_placed:
  assumes "vma_wf lo (pre @ suf)" "0 < len" "len \<le> 2 ^ 31"
  shows "placed prot len cnt lo (pre @ suf) (fallback_grow prot len cnt pre suf)"
proof (cases "suf \<noteq> [] \<and> add64 (vm_end (last suf)) len \<le> MMAP_AREA_END")
  case True
  then have split: "(pre @ butlast suf) @ [last suf] = pre @ suf" by simp
  then have wf: "vma_wf lo ((pre @ butlast suf) @ [last suf])" using assms(1) by metis
  then have "placed prot len cnt lo ((pre @ butlast suf) @ [last suf])
      (vappend (pre @ butlast suf) (grow_last prot len cnt (last suf)))"
    by (intro placed_append [OF wf] grow_last_placed) (use assms(2,3) True in simp_all)
  with True show ?thesis unfolding split by (simp add: fallback_grow_def)
next
  case False
  then show ?thesis by (auto simp: fallback_grow_def)
qed

lemma fallback_wrap_placed:
  assumes "vma_wf MMAP_AREA_START vs" "0 < len" "len \<le> 2 ^ 31"
  shows "placed prot len cnt MMAP_AREA_START vs (fallback_wrap addr prot len cnt vs)"
proof (cases vs)
  case Nil
  then show ?thesis by (simp add: fallback_wrap_def)
next
  case (Cons c rest)
  have "placed prot len cnt MMAP_AREA_START (c # rest)
     (case place_front prot len cnt c rest of VFail \<Rightarrow> VFail
      | VNone \<Rightarrow> (case fill_gaps_below addr prot len cnt (c # rest) of VFail \<Rightarrow> VFail
                  | VNone \<Rightarrow> extend_last prot len cnt (c # rest)
                  | VDone vs' ret d \<Rightarrow> VDone vs' ret d)
      | VDone vs' ret d \<Rightarrow> VDone vs' ret d)"
    by (intro placed_orelse place_front_placed fill_gaps_below_placed extend_last_placed)
      (use assms Cons in simp_all)
  then show ?thesis by (simp add: fallback_wrap_def Cons)
qed

lemma hint_fallback_placed:
  assumes "vma_wf MMAP_AREA_START (pre @ suf)" "0 < len" "len \<le> 2 ^ 31"
  shows "placed prot len cnt MMAP_AREA_START (pre @ suf)
           (hint_fallback addr prot len cnt fixed pre suf)"
proof (cases fixed)
  case True
  then show ?thesis by (simp add: hint_fallback_def)
next
  case False
  have "placed prot len cnt MMAP_AREA_START (pre @ suf)
     (case vappend pre (fill_gaps prot len cnt suf) of VFail \<Rightarrow> VFail
      | VNone \<Rightarrow> (case fallback_grow prot len cnt pre suf of VFail \<Rightarrow> VFail
                  | VNone \<Rightarrow> fallback_wrap addr prot len cnt (pre @ suf)
                  | VDone vs' ret d \<Rightarrow> VDone vs' ret d)
      | VDone vs' ret d \<Rightarrow> VDone vs' ret d)"
    by (intro placed_orelse placed_append fill_gaps_placed fallback_grow_placed
        fallback_wrap_placed) (use assms in simp_all)
  with False show ?thesis by (simp add: hint_fallback_def)
qed

lemma hint_walk_ok:
  assumes "vma_wf MMAP_AREA_START (c # rest)" "0 < len" "len \<le> 2 ^ 31" "MMAP_AREA_START \<le> addr"
  shows "scan_ok addr prot len cnt MMAP_AREA_START (c # rest)
           (if addr < vm_start c then hint_head addr prot len cnt c rest
            else hint_scan addr prot len cnt [] (c # rest))"
proof (cases "addr < vm_start c")
  case True
  then show ?thesis
    using hint_head_placed [of MMAP_AREA_START c rest len addr prot cnt] assms
    by (auto simp: scan_ok_def split: hres.splits)
next
  case False
  then show ?thesis
    using hint_scan_ok [of MMAP_AREA_START "[]" "c # rest" len addr prot cnt] assms by simp
qed

text \<open>With \<open>MAP_FIXED\<close> no other place than the requested one is chosen.\<close>

lemma map_hint_fixed:
  assumes "vma_wf MMAP_AREA_START vs" "0 < len" "len \<le> 2 ^ 31"
    "MMAP_AREA_START \<le> addr" "addr + len \<le> MMAP_AREA_END"
    and "map_hint addr prot len cnt True vs = VDone vs' ret d"
  shows "ret = addr \<or> vs \<noteq> [] \<and> addr = vm_end (last vs) \<and> ret = vm_start (last vs)"
proof (cases vs)
  case Nil
  have "add64 addr len = addr + len" using assms by (simp add: add64_small)
  with Nil assms show ?thesis by (auto simp: map_hint_def)
next
  case (Cons c rest)
  define h where "h = (if addr < vm_start c then hint_head addr prot len cnt c rest
            else hint_scan addr prot len cnt [] (c # rest))"
  have scan: "scan_ok addr prot len cnt MMAP_AREA_START vs h"
    unfolding h_def Cons using assms unfolding Cons by (intro hint_walk_ok) simp_all
  have m: "map_hint addr prot len cnt True vs =
      (case h of HDone r \<Rightarrow> r | HFlag p s \<Rightarrow> VFail
       | HLast p l \<Rightarrow> (case hint_tail addr prot len cnt p l of HDone r \<Rightarrow> r | _ \<Rightarrow> VFail))"
    unfolding Cons by (auto simp: map_hint_def h_def hint_fallback_def hint_tail_def split: hres.split)
  have tail: "ret = addr \<or> addr = vm_end l \<and> ret = vm_start l"
    if "hint_tail addr prot len cnt p l = HDone (VDone vs' ret d)" for p l
    using that by (auto simp: hint_tail_def vappend_VDone split: if_splits)
  show ?thesis
  proof (cases h)
    case (HDone r)
    with scan m assms(6) show ?thesis by auto
  next
    case (HFlag p s)
    with m assms(6) show ?thesis by simp
  next
    case (HLast p l)
    with scan have "vs = p @ [l]" by simp
    with HLast m assms(6) tail show ?thesis by (auto split: hres.splits)
  qed
qed

lemma map_hint_placed:
  assumes "vma_wf MMAP_AREA_START vs" "0 < len" "len \<le> 2 ^ 31" "length vs = cnt"
    "MMAP_AREA_START \<le> addr" "addr \<le> MMAP_AREA_END"
  shows "hint_placed addr prot len cnt MMAP_AREA_START vs (map_hint addr prot len cnt fixed vs)"
proof (cases vs)
  case Nil
  have "add64 addr len = addr + len" "add64 MMAP_AREA_START len = MMAP_AREA_START + len"
    using assms by (simp_all add: add64_small)
  with Nil assms show ?thesis
    by (auto simp: map_hint_def hint_placed_def placed_at_def)
next
  case (Cons c rest)
  define h where "h = (if addr < vm_start c then hint_head addr prot len cnt c rest
            else hint_scan addr prot len cnt [] (c # rest))"
  have scan: "scan_ok addr prot len cnt MMAP_AREA_START vs h"
    unfolding h_def Cons using assms unfolding Cons by (intro hint_walk_ok) simp_all
  have fb: "hint_placed addr prot len cnt MMAP_AREA_START vs (hint_fallback addr prot len cnt fixed p s)"
    if "p @ s = vs" for p s
    using hint_fallback_placed [of p s] assms that by (blast intro: placed_hint_placed)
  have eq: "map_hint addr prot len cnt fixed vs =
      (case h of HDone r \<Rightarrow> r | HFlag p s \<Rightarrow> hint_fallback addr prot len cnt fixed p s
       | HLast p l \<Rightarrow> (case hint_tail addr prot len cnt p l of HDone r \<Rightarrow> r
                       | HFlag p s \<Rightarrow> hint_fallback addr prot len cnt fixed p s
                       | HLast _ _ \<Rightarrow> VNone))"
    using Cons by (simp add: map_hint_def h_def)
  show ?thesis
  proof (cases h)
    case (HDone r)
    with scan eq show ?thesis by (simp add: placed_hint_placed)
  next
    case (HFlag p s)
    with scan eq fb show ?thesis by simp
  next
    case (HLast p l)
    with scan have pl: "p @ [l] = vs" "vm_start l \<le> addr" by simp_all
    then have wf: "vma_wf MMAP_AREA_START (p @ [l])" using assms(1) by simp
    have tl: "case hint_tail addr prot len cnt p l of
           HDone r \<Rightarrow> hint_placed addr prot len cnt MMAP_AREA_START vs r
         | HFlag p s \<Rightarrow> p @ s = vs | HLast p l \<Rightarrow> False"
      using hint_tail_placed [OF wf assms(2,3) pl(2) assms(6), of prot cnt] unfolding pl(1) .
    show ?thesis
      using HLast eq fb tl by (cases "hint_tail addr prot len cnt p l") simp_all
  qed
qed

lemma round_length_bounds:
  assumes "0 < len" "len \<le> 2 ^ 31 - 4096"
  shows "0 < round_length len \<and> round_length len \<le> 2 ^ 31 - 4096 \<and> len \<le> round_length len \<and>
         round_length len < len + 4096 \<and> round_length len mod 4096 = 0"
proof -
  have d: "len div 4096 * 4096 \<le> len" "len < len div 4096 * 4096 + 4096" "0 \<le> len div 4096"
    using assms by (simp_all add: pos_imp_zdiv_nonneg_iff)
  then have "len div 4096 \<le> 524287" using assms by simp
  moreover have "len div 4096 \<noteq> 524287 \<or> len div 4096 * 4096 = len"
    using assms d by auto
  ultimately have "(len div 4096) * 4096 \<noteq> len \<Longrightarrow> (len div 4096 + 1) * 4096 < 2 ^ 31" by simp
  then have s: "(len div 4096) * 4096 \<noteq> len \<Longrightarrow>
      s32 ((len div 4096 + 1) * 4096) = (len div 4096 + 1) * 4096"
    using d by (intro s32_small) simp_all
  have m: "len mod 4096 = len - len div 4096 * 4096"
    by (rule minus_div_mult_eq_mod [symmetric])
  show ?thesis
    using assms d s m by (auto simp: round_length_def)
qed

lemma extend_last_neq_VNone: "vs \<noteq> [] \<Longrightarrow> extend_last prot len cnt vs \<noteq> VNone"
  by (induction prot len cnt vs rule: extend_last.induct) (auto simp: grow_last_def)

lemma map_nohint_neq_VNone: "map_nohint prot len cnt vs \<noteq> VNone"
  using extend_last_neq_VNone [of vs prot len cnt]
  by (auto simp: map_nohint_def split: list.splits vres.splits)

lemma hint_fallback_neq_VNone: "hint_fallback addr prot len cnt fixed pre suf \<noteq> VNone"
proof -
  have "fallback_wrap addr prot len cnt vs \<noteq> VNone" for vs
    using extend_last_neq_VNone [of vs prot len cnt]
    by (auto simp: fallback_wrap_def split: list.splits vres.splits)
  then show ?thesis
    by (auto simp: hint_fallback_def split: vres.splits)
qed

section \<open>munmap\<close>

lemma unmap_started_ok:
  assumes "vma_wf lo vs" "lo \<le> e" "unmap_started e vs = (vs', d)"
  shows "vma_wf e vs' \<and> (\<forall>a. prot_at vs' a = (if a < e then None else prot_at vs a)) \<and>
         int (length vs') = int (length vs) + d \<and> d \<le> 0"
  using assms
proof (induction e vs arbitrary: lo vs' d rule: unmap_started.induct)
  case (1 e)
  then show ?case by simp
next
  case (2 e c r)
  show ?case
  proof (cases "vm_end c < e")
    case True
    then obtain r' d' where r': "unmap_started e r = (r', d')" "vs' = r'" "d = d' - 1"
      using 2(2,4) by (auto split: prod.splits)
    have IH: "vma_wf e r' \<and> (\<forall>a. prot_at r' a = (if a < e then None else prot_at r a)) \<and>
         int (length r') = int (length r) + d' \<and> d' \<le> 0"
      using 2(1) [of "vm_end c" r' d'] 2(2) True r'(1) by simp
    with r' True 2(2) show ?thesis by (auto simp: prot_at_below)
  next
    case False
    with 2(2-4) show ?thesis
      by (auto simp: prot_at_below split: if_splits)
  qed
qed

lemma unmap_scan_ok:
  assumes "vma_wf lo vs" "addr \<le> e" "unmap_scan addr e cnt vs = Some (vs', d)"
  shows "vma_wf lo vs' \<and>
         (\<forall>a. prot_at vs' a = (if addr \<le> a \<and> a < e then None else prot_at vs a)) \<and>
         int (length vs') = int (length vs) + d \<and> d \<le> 1 \<and> (d = 1 \<longrightarrow> cnt \<noteq> 128)"
  using assms
proof (induction addr e cnt vs arbitrary: lo vs' d rule: unmap_scan.induct)
  case (1 addr e cnt)
  then show ?case by simp
next
  case (2 addr e cnt c r)
  have wf: "vma_wf (vm_end c) r" "vm_start c < vm_end c" "vm_end c \<le> MMAP_AREA_END" "lo \<le> vm_start c"
    using 2(2) by simp_all
  obtain r' d' where st: "unmap_started e r = (r', d')" by (cases "unmap_started e r")
  have sok: "vm_end c \<le> e \<Longrightarrow> vma_wf e r' \<and>
      (\<forall>a. prot_at r' a = (if a < e then None else prot_at r a)) \<and>
      int (length r') = int (length r) + d' \<and> d' \<le> 0"
    using unmap_started_ok [OF wf(1) _ st] by simp
  have below: "\<And>a. a < vm_end c \<Longrightarrow> prot_at r a = None"
    using prot_at_below [OF wf(1)] .
  consider (inside) "addr \<le> vm_start c" | (cut) "vm_start c < addr" "addr < vm_end c"
    | (later) "vm_end c \<le> addr" by linarith
  then show ?case
  proof cases
    case inside
    show ?thesis
    proof (cases "e < vm_end c")
      case True
      with inside 2(2-4) below show ?thesis by (auto split: if_splits)
    next
      case False
      with inside 2(2,3,4) wf st have "vs' = r'" "d = d' - 1" by auto
      with sok False inside wf below show ?thesis
        by (auto intro: vma_wf_mono [of e])
    qed
  next
    case cut
    show ?thesis
    proof (cases "e < vm_end c")
      case True
      with cut 2(2-4) wf below show ?thesis by (auto split: if_splits)
    next
      case False
      with cut 2(2,3,4) wf st have "vs' = c\<lparr>vm_end := addr\<rparr> # r'" "d = d'" by auto
      with sok False cut wf below show ?thesis
        by (auto intro: vma_wf_mono [of e])
    qed
  next
    case later
    then obtain r1 d1 where r1: "unmap_scan addr e cnt r = Some (r1, d1)" "vs' = c # r1" "d = d1"
      using 2(4) wf by auto
    with 2(1) [of "vm_end c" r1 d1] 2(3) later wf show ?thesis by auto
  qed
qed

section \<open>mprotect\<close>

lemma set_prot_sel [simp]:
  "vm_start (set_prot prot c) = vm_start c" "vm_end (set_prot prot c) = vm_end c"
  "access_flags (set_prot prot c) = prot"
  by (simp_all add: set_prot_def)

lemma merge_areas_ok:
  assumes "vma_wf lo vs" "merge_areas vs = (vs', d)"
  shows "vma_wf lo vs' \<and> (\<forall>a. prot_at vs' a = prot_at vs a) \<and>
         int (length vs') = int (length vs) + d \<and> d \<le> 0"
  using assms
proof (induction vs arbitrary: lo vs' d rule: merge_areas.induct)
  case (1 p c r)
  show ?case
  proof (cases "vm_end p = vm_start c \<and> access_flags p = access_flags c")
    case True
    obtain r1 d1 where r1: "merge_areas (p\<lparr>vm_end := vm_end c\<rparr> # r) = (r1, d1)"
      by (cases "merge_areas (p\<lparr>vm_end := vm_end c\<rparr> # r)")
    have "vma_wf lo (p\<lparr>vm_end := vm_end c\<rparr> # r)" using 1(3) True by auto
    from 1(1) [OF True this r1] 1(3,4) True r1 show ?thesis by auto
  next
    case False
    obtain r1 d1 where r1: "merge_areas (c # r) = (r1, d1)" by (cases "merge_areas (c # r)")
    with False 1(4) have "vs' = p # r1" "d = d1" by auto
    with 1(2) [OF False _ r1, of "vm_end p"] 1(3) show ?thesis by auto
  qed
qed auto

definition reprot :: "nat \<Rightarrow> nat \<Rightarrow> u32 \<Rightarrow> vm_area list \<Rightarrow> vm_area list \<Rightarrow> bool" where
  "reprot addr e prot vs vs' \<longleftrightarrow>
     (\<forall>a. prot_at vs' a =
            (if addr \<le> a \<and> a < e \<and> prot_at vs a \<noteq> None then Some prot else prot_at vs a))"

lemma protect_started_ok:
  assumes "vma_wf lo vs" "lo < e" "contig_started e lo vs" "protect_started e prot vs = (vs', d)"
  shows "vma_wf lo vs' \<and> reprot 0 e prot vs vs' \<and> int (length vs') = int (length vs) + d \<and>
         0 \<le> d \<and> d \<le> 1"
  using assms
proof (induction e prot vs arbitrary: lo vs' d rule: protect_started.induct)
  case (1 e prot)
  then show ?case by (simp add: reprot_def)
next
  case (2 e prot c r)
  have wf: "vma_wf (vm_end c) r" "vm_start c < vm_end c" "vm_end c \<le> MMAP_AREA_END" "vm_start c = lo"
    using 2(2,4) by (auto split: if_splits)
  have below: "\<And>a. a < vm_end c \<Longrightarrow> prot_at r a = None"
    using prot_at_below [OF wf(1)] .
  show ?case
  proof (cases "vm_end c < e")
    case True
    then obtain r1 d1 where r1: "protect_started e prot r = (r1, d1)" "vs' = set_prot prot c # r1" "d = d1"
      using 2(5) by (auto split: prod.splits)
    have "contig_started e (vm_end c) r" using 2(4) True by (auto split: if_splits)
    with 2(1) [of "vm_end c" r1 d1] True wf r1 show ?thesis by (auto simp: reprot_def)
  next
    case False
    with 2(3,5) wf below show ?thesis by (auto simp: reprot_def split: if_splits)
  qed
qed

lemma protect_scan_ok:
  assumes "vma_wf lo vs" "addr < e" "contig addr e vs" "protect_scan addr e prot vs = (vs', d)"
  shows "vma_wf lo vs' \<and> reprot addr e prot vs vs' \<and> int (length vs') = int (length vs) + d"
  using assms
proof (induction addr e prot vs arbitrary: lo vs' d rule: protect_scan.induct)
  case (1 addr e prot)
  then show ?case by (simp add: reprot_def)
next
  case (2 addr e prot c r)
  have wf: "vma_wf (vm_end c) r" "vm_start c < vm_end c" "vm_end c \<le> MMAP_AREA_END" "lo \<le> vm_start c"
    using 2(2) by simp_all
  have below: "\<And>a. a < vm_end c \<Longrightarrow> prot_at r a = None"
    using prot_at_below [OF wf(1)] .
  obtain r1 d1 where st: "protect_started e prot r = (r1, d1)" by (cases "protect_started e prot r")
  have sok: "vma_wf (vm_end c) r1 \<and> reprot 0 e prot r r1 \<and> int (length r1) = int (length r) + d1"
    if "vm_end c < e" "vm_start c \<le> addr" "addr < vm_end c"
    using protect_started_ok [OF wf(1) that(1) _ st] 2(4) that by simp
  consider (first) "addr = vm_start c" | (cut) "vm_start c < addr" "addr < vm_end c"
    | (later) "vm_end c \<le> addr" | (before) "addr < vm_start c" by linarith
  then show ?case
  proof cases
    case first
    show ?thesis
    proof (cases "vm_end c < e")
      case True
      with first wf 2(5) st have "vs' = set_prot prot c # r1" "d = d1" by auto
      with sok first True wf below show ?thesis by (auto simp: reprot_def)
    next
      case False
      with first 2(3,5) wf below show ?thesis by (auto simp: reprot_def split: if_splits)
    qed
  next
    case cut
    show ?thesis
    proof (cases "vm_end c < e")
      case True
      have "vs' = (if access_flags c \<noteq> prot
          then c\<lparr>vm_end := addr\<rparr> # \<lparr>vm_start = addr, vm_end = vm_end c, access_flags = prot\<rparr> # r1
          else c # r1)" "d = (if access_flags c \<noteq> prot then d1 + 1 else d1)"
        using True cut wf 2(5) st by (auto simp: set_prot_def)
      with sok cut True wf below show ?thesis by (auto simp: reprot_def)
    next
      case False
      with cut 2(3,5) wf below show ?thesis by (auto simp: reprot_def split: if_splits)
    qed
  next
    case later
    then have c: "contig addr e r" using 2(4) by (auto split: if_splits)
    obtain r2 d2 where r2: "protect_scan addr e prot r = (r2, d2)" "vs' = c # r2" "d = d2"
      using 2(5) later wf by (auto split: prod.splits)
    with 2(1) [of "vm_end c" r2 d2] 2(3) c later wf show ?thesis by (auto simp: reprot_def)
  next
    case before
    then have c: "contig addr e r" and "r \<noteq> []" "vm_start (hd r) \<le> addr"
      using 2(4) by (auto split: if_splits)
    with wf before have False by (cases r) auto
    then show ?thesis ..
  qed
qed

lemma contig_started_mapped:
  assumes "vma_wf lo vs" "contig_started e lo vs" "vs \<noteq> []" "lo \<le> a" "a < e"
  shows "prot_at vs a \<noteq> None"
  using assms
proof (induction e lo vs rule: contig_started.induct)
  case (2 e lo c r)
  then show ?case by (cases r) (auto split: if_splits)
qed simp

text \<open>A range that passes the check is mapped, or it starts in the last area.\<close>

lemma contig_mapped:
  assumes "vma_wf lo vs" "contig addr e vs" "vs \<noteq> []" "addr \<le> a" "a < e"
  shows "prot_at vs a \<noteq> None \<or> (vm_start (last vs) \<le> addr \<and> addr < vm_end (last vs))"
  using assms
proof (induction addr e vs arbitrary: lo rule: contig.induct)
  case (2 addr e c r)
  show ?case
  proof (cases "vm_start c \<le> addr \<and> addr < vm_end c")
    case True
    then show ?thesis
      using 2 contig_started_mapped [of "vm_end c" r e a] by (cases r) (auto split: if_splits)
  next
    case False
    with 2(1) [of "vm_end c"] 2(2-) show ?thesis by (auto split: if_splits)
  qed
qed simp

lemma limit_two_after: "vma_wf lo vs \<Longrightarrow> addr < lo \<Longrightarrow> limit_two addr e prot cnt vs \<noteq> None"
  by (induction vs arbitrary: lo) auto

lemma limit_two_span: "vma_wf lo vs \<Longrightarrow> limit_two addr e prot cnt vs = None \<Longrightarrow> prot_span addr e vs = 1"
proof (induction vs arbitrary: lo)
  case (Cons c r)
  show ?case
  proof (cases "vm_start c < addr \<and> addr < vm_end c")
    case True
    then have "r = []"
      using Cons.prems limit_two_after [of "vm_end c" r addr e prot cnt]
      by (auto split: list.splits if_splits)
    with True show ?thesis by auto
  next
    case False
    then have "vm_start c < addr" "vm_end c \<le> addr"
      using Cons.prems limit_two_after [of "vm_end c" r addr e prot cnt]
      by (auto split: if_splits)
    with Cons.IH [of "vm_end c"] Cons.prems False show ?thesis by auto
  qed
qed simp

lemma limit_check_no_fault: "vma_wf lo vs \<Longrightarrow> limit_check addr e prot vs \<noteq> None"
  using limit_two_span [of lo vs addr e prot "length vs"]
  by (cases "limit_two addr e prot (length vs) vs") (auto simp: limit_check_def Let_def)

section \<open>Page faults\<close>

lemma fault_mapped_iff:
  "vma_wf lo vs \<Longrightarrow> vs \<noteq> [] \<Longrightarrow> vm_start (hd vs) \<le> addr \<Longrightarrow>
   fault_mapped addr vs \<longleftrightarrow> prot_at vs addr \<noteq> None"
proof (induction addr vs arbitrary: lo rule: fault_mapped.induct)
  case (1 addr c n r)
  show ?case
  proof (cases "vm_start n \<le> addr")
    case True
    with 1 show ?thesis by fastforce
  next
    case False
    have "fault_mapped addr (n # r)"
      using False 1(2) by (induction r arbitrary: n) fastforce+
    with False 1 show ?thesis by (auto simp: prot_at_below)
  qed
qed auto

lemma fault_writable_iff:
  "vma_wf lo vs \<Longrightarrow>
   fault_writable addr vs \<longleftrightarrow> (\<forall>p. prot_at vs addr = Some p \<longrightarrow> p AND 2 \<noteq> 0)"
proof (induction vs arbitrary: lo)
  case (Cons c r)
  have "addr < vm_end c \<Longrightarrow> prot_at r addr = None"
    using Cons.prems by (auto intro: prot_at_below)
  with Cons show ?case by auto
qed simp

section \<open>The whole decision of mmap\<close>

text \<open>
  On every path the decision is right; the returned address is the start \<open>m\<close> of the
  new range except on one path, where it is the start of the last area.
\<close>

lemma vm_area_place_ok:
  assumes "vma_wf MMAP_AREA_START vs" "0 < len" "len \<le> 2 ^ 31 - 4096"
    and "vm_area_place addr len prot fixed vs = VDone vs' ret d"
  shows "\<exists>m. placed_at prot (nat (round_length len)) (length vs) MMAP_AREA_START vs vs' m d \<and>
             (ret = m \<or>
              m = addr \<and> vs \<noteq> [] \<and> addr = vm_end (last vs) \<and>
              access_flags (last vs) = prot \<and> ret = vm_start (last vs))"
proof -
  let ?l = "nat (round_length len)"
  have l: "0 < ?l" "?l \<le> 2 ^ 31" "ext64 (round_length len) = ?l"
    using round_length_bounds [OF assms(2,3)] by (auto simp: ext64_nonneg)
  show ?thesis
  proof (cases "addr = 0")
    case True
    with assms(4) l have "map_nohint prot ?l (length vs) vs = VDone vs' ret d"
      by (simp add: vm_area_place_def)
    with map_nohint_placed [OF assms(1) l(1,2) refl, of prot] show ?thesis by auto
  next
    case False
    with assms(4) l have h: "map_hint addr prot ?l (length vs) fixed vs = VDone vs' ret d"
      and a: "MMAP_AREA_START \<le> addr" "addr \<le> MMAP_AREA_END"
      by (auto simp: vm_area_place_def Let_def split: if_splits)
    from map_hint_placed [OF assms(1) l(1,2) refl a, of prot fixed] h show ?thesis
      by (simp add: hint_placed_def)
  qed
qed

lemma prot_at_last:
  assumes "vma_wf lo vs" "vs \<noteq> []" "vm_start (last vs) \<le> a" "a < vm_end (last vs)"
  shows "prot_at vs a = Some (access_flags (last vs))"
  using assms
proof (induction vs arbitrary: lo)
  case (Cons v vs)
  show ?case
  proof (cases "vs = []")
    case False
    then have "prot_at vs a = Some (access_flags (last vs))" using Cons by auto
    moreover have "\<not> a < vm_end v"
      using calculation prot_at_below [of "vm_end v" vs a] Cons.prems(1) by auto
    ultimately show ?thesis using False by simp
  qed (use Cons in simp)
qed simp

text \<open>The range that was free is not the range of the last area.\<close>

lemma placed_at_not_last_start:
  assumes "vma_wf MMAP_AREA_START vs" "placed_at prot l cnt lo vs vs' m d" "vs \<noteq> []" "0 < l"
  shows "m \<noteq> vm_start (last vs)"
proof
  assume m: "m = vm_start (last vs)"
  have vs: "vs = butlast vs @ [last vs]" using assms(3) by simp
  then have "vm_start (last vs) < vm_end (last vs)" using vma_wf_snocD assms(1) by metis
  then have "prot_at [last vs] m \<noteq> None" using m by simp
  then have "prot_at vs m \<noteq> None" using prot_at_append [of "butlast vs" "[last vs]" m] vs
    by (auto split: option.splits)
  then show False using assms(2,4) by (auto simp: placed_at_def)
qed

lemma vm_area_place_fixed:
  assumes "vma_wf MMAP_AREA_START vs" "0 < len" "len \<le> 2 ^ 31 - 4096" "addr \<noteq> 0" "addr mod 4096 = 0"
    and "vm_area_place addr len prot True vs = VDone vs' ret d"
  shows "ret = addr \<or> vs \<noteq> [] \<and> addr = vm_end (last vs) \<and> ret = vm_start (last vs)"
proof -
  let ?l = "nat (round_length len)"
  note b = round_length_bounds [OF assms(2,3)]
  have l: "0 < ?l" "?l \<le> 2 ^ 31" "ext64 (round_length len) = ?l" "ext64 len = nat len"
    using b assms(2,3) by (auto simp: ext64_nonneg)
  have h: "map_hint addr prot ?l (length vs) True vs = VDone vs' ret d"
    and a: "MMAP_AREA_START \<le> addr" "addr \<le> MMAP_AREA_END" "add64 addr (nat len) \<le> MMAP_AREA_END"
    using assms(4,6) l by (auto simp: vm_area_place_def Let_def split: if_splits)
  have "addr + nat len < 2 ^ 64" using a(2) assms(3) by simp
  then have "addr + nat len \<le> MMAP_AREA_END" using a(3) by (simp add: add64_small)
  then have "int addr + len \<le> int MMAP_AREA_END" using assms(2) by linarith
  moreover obtain q r where "round_length len = 4096 * r" "int addr = 4096 * q"
    using b assms(5) by (metis dvd_def dvd_eq_mod_eq_0 int_dvd_int_iff of_nat_numeral)
  moreover from calculation have "q + r < 8380417" using b by simp
  ultimately have "int addr + round_length len \<le> int MMAP_AREA_END" by simp
  then have "addr + ?l \<le> MMAP_AREA_END" using b by linarith
  with map_hint_fixed [OF assms(1) l(1,2) a(1) _ h] show ?thesis by blast
qed

end
