(* ===== verification/ExecCtx.thy ===== *)
theory ExecCtx
  imports PageTable VMArea
begin

text \<open>
  The execution context of a process: \<open>struct exec_context\<close>, \<open>struct user_regs\<close> and
  the enumerations of src/Assignment3/Ass3/src/include/context.h and schedule.h.
  The list of virtual memory areas, a pointer in C, is a field of the context.
\<close>

datatype process_state = UNUSED | NEW | READY | RUNNING | WAITING | EXITING

datatype mm_seg = MM_SEG_CODE | MM_SEG_RODATA | MM_SEG_DATA | MM_SEG_STACK

datatype signal = SIGSEGV | SIGFPE | SIGALRM

record user_regs =
  r15 :: u64
  r14 :: u64
  r13 :: u64
  r12 :: u64
  r11 :: u64
  r10 :: u64
  r9 :: u64
  r8 :: u64
  rbp :: u64
  rdi :: u64
  rsi :: u64
  rdx :: u64
  rcx :: u64
  rbx :: u64
  rax :: u64
  entry_rip :: u64
  entry_cs :: u64
  entry_rflags :: u64
  entry_rsp :: u64
  entry_ss :: u64

record exec_context =
  pid :: nat
  ppid :: nat
  ctx_type :: nat
  ctx_state :: process_state
  used_mem :: nat
  pgd :: nat
  os_stack_pfn :: nat
  os_rsp :: nat
  mms :: "mm_seg \<Rightarrow> mm_segment"
  vm_areas :: "vm_area list"
  ctx_name :: string
  regs :: user_regs
  pending_signal_bitmap :: u32
  sighandlers :: "signal \<Rightarrow> u64"
  ticks_to_sleep :: u32
  alarm_config_time :: u32
  ticks_to_alarm :: u32

definition zero_regs :: user_regs where
  "zero_regs = \<lparr>r15 = 0, r14 = 0, r13 = 0, r12 = 0, r11 = 0, r10 = 0, r9 = 0, r8 = 0, rbp = 0,
     rdi = 0, rsi = 0, rdx = 0, rcx = 0, rbx = 0, rax = 0, entry_rip = 0, entry_cs = 0,
     entry_rflags = 0, entry_rsp = 0, entry_ss = 0\<rparr>"

text \<open>A slot of the process table as \<open>init_swapper\<close> leaves it: all bytes 0.\<close>

definition zero_ctx :: exec_context where
  "zero_ctx = \<lparr>pid = 0, ppid = 0, ctx_type = 0, ctx_state = UNUSED, used_mem = 0, pgd = 0,
     os_stack_pfn = 0, os_rsp = 0,
     mms = (\<lambda>_. \<lparr>seg_start = 0, seg_end = 0, next_free = 0, seg_flags = 0\<rparr>), vm_areas = [],
     ctx_name = '''', regs = zero_regs, pending_signal_bitmap = 0, sighandlers = (\<lambda>_. 0),
     ticks_to_sleep = 0, alarm_config_time = 0, ticks_to_alarm = 0\<rparr>"

end
