(* ===== verification/MapPage.thy ===== *)
theory MapPage
  imports ExecCtx
begin

text \<open>
  \<open>map_physical_page\<close> of src/Assignment3/Ass3/src/context.c in depth: which entry it
  makes and which frames it leaves alone.  The walk over the three upper levels is
  a recursion over the list of indices, for the code that reads (\<open>resolve\<close>) and for the
  code that allocates missing tables (\<open>tables_alloc\<close>).
\<close>

section \<open>The walk as a recursion over indices\<close>

definition levels :: "nat \<Rightarrow> nat list" where
  "levels addr = [pgd_index addr, pud_index addr, pmd_index addr]"

fun resolve :: "kmem \<Rightarrow> nat \<Rightarrow> nat list \<Rightarrow> nat option" where
  "resolve s t [] = Some t"
| "resolve s t (i # is) = (case walk s (t, i) of None \<Rightarrow> None | Some q \<Rightarrow> resolve s q is)"

fun tables_alloc :: "kmem \<Rightarrow> nat \<Rightarrow> nat list \<Rightarrow> nat \<times> kmem" where
  "tables_alloc s t [] = (t, s)"
| "tables_alloc s t (i # is) = (case next_table s (t, i) of (q, s1) \<Rightarrow> tables_alloc s1 q is)"

text \<open>The existing tables on the path of the indices \<open>is\<close> from table \<open>t\<close>.\<close>

fun path_set :: "kmem \<Rightarrow> nat \<Rightarrow> nat list \<Rightarrow> nat set" where
  "path_set s t [] = {t}"
| "path_set s t (i # is) =
     insert t (if rd s (t, i) AND 1 \<noteq> 0 then path_set s (pte_pfn (rd s (t, i))) is else {})"

text \<open>
  Every existing entry of the path is 0 or present, and the two ways in which the code
  takes a frame number from an entry agree on it.
\<close>

fun clean_from :: "kmem \<Rightarrow> nat \<Rightarrow> nat list \<Rightarrow> bool" where
  "clean_from s t [] = True"
| "clean_from s t (i # is) \<longleftrightarrow>
     rd s (t, i) = 0 \<or>
     rd s (t, i) AND 1 \<noteq> 0 \<and> pte_frame (rd s (t, i)) = pte_pfn (rd s (t, i)) \<and>
     clean_from s (pte_pfn (rd s (t, i))) is"

lemma get_pte_resolve:
  "get_pte s base a =
     (case resolve s base (levels a) of
        None \<Rightarrow> None
      | Some pt \<Rightarrow> if rd s (pt, pte_index a) AND 1 = 0 \<or> rd s (pt, pte_index a) AND 4 = 0 then None
                   else Some (pt, pte_index a))"
  by (simp add: get_pte_def levels_def walk_pmd_eq_walk Let_def split: option.split)

lemma path_ok_levels: "path_ok s base a = path_from s base {} (levels a)"
  by (simp only: path_ok_def levels_def)

lemma map_physical_page_tables:
  "map_physical_page s base addr access upfn =
     (case tables_alloc s base (levels addr) of
        (pt, s3) \<Rightarrow>
          (let (upfn', s4) = (if upfn = 0 then os_pfn_alloc USER_REG s3 else (upfn, s3));
               s5 = wr s4 (pt, pte_index addr) (mk_pte upfn' 5);
               s6 = (if access AND 2 \<noteq> 0
                     then wr s5 (pt, pte_index addr) (rd s5 (pt, pte_index addr) OR 2) else s5)
           in (upfn', s6)))"
proof -
  obtain pud s1 where 1: "next_table s (base, pgd_index addr) = (pud, s1)" by fastforce
  obtain pmd s2 where 2: "next_table s1 (pud, pud_index addr) = (pmd, s2)" by fastforce
  obtain pt s3 where 3: "next_table s2 (pmd, pmd_index addr) = (pt, s3)" by fastforce
  have "tables_alloc s base (levels addr) = (pt, s3)" by (simp add: levels_def 1 2 3)
  then show ?thesis by (simp add: map_physical_page_def 1 2 3)
qed

lemma path_from_path_set: "path_from s t seen is \<Longrightarrow> path_set s t is \<inter> seen = {}"
proof (induction "is" arbitrary: t seen)
  case (Cons i "is")
  then have "rd s (t, i) AND 1 \<noteq> 0 \<Longrightarrow> path_set s (pte_pfn (rd s (t, i))) is \<inter> insert t seen = {}"
    by simp
  with Cons.prems show ?case by auto
qed simp

lemma path_from_set_used: "path_from s t seen is \<Longrightarrow> path_set s t is \<subseteq> used_frames OS_PT_REG s"
  by (induction "is" arbitrary: t seen) auto

lemma resolve_in_path_set: "resolve s t is = Some q \<Longrightarrow> q \<in> path_set s t is"
  by (induction "is" arbitrary: t) (auto simp: walk_def Let_def split: option.splits if_splits)

lemma resolve_cong:
  "\<forall>x \<in> path_set s t is. phys s' x = phys s x \<Longrightarrow> resolve s' t is = resolve s t is"
proof (induction "is" arbitrary: t)
  case (Cons i "is")
  then have "rd s' (t, i) = rd s (t, i)" by (simp add: rd_def)
  then have w: "walk s' (t, i) = walk s (t, i)" by (simp add: walk_def)
  show ?case
  proof (cases "walk s (t, i)")
    case (Some q)
    then have "path_set s q is \<subseteq> path_set s t (i # is)"
      by (auto simp: walk_def Let_def split: if_splits)
    with Cons w Some show ?thesis by auto
  qed (simp add: w)
qed simp

lemma get_pte_path_cong:
  assumes "\<forall>x \<in> path_set s base (levels a). phys s' x = phys s x"
  shows "get_pte s' base a = get_pte s base a"
proof -
  have "rd s' (pt, j) = rd s (pt, j)" if "resolve s base (levels a) = Some pt" for pt j
    using resolve_in_path_set [OF that] assms by (simp add: rd_def)
  then show ?thesis
    by (auto simp: get_pte_resolve resolve_cong [OF assms] split: option.split)
qed

section \<open>One level\<close>

lemma next_table_step:
  assumes inv: "kmem_ok s" "path_from s t seen (i # is)" "clean_from s t (i # is)"
    and room: "room OS_PT_REG s" and step: "next_table s (t, i) = (q, s')"
  shows "next_table s (t, i) = walk_alloc s (t, i) 7 \<and> refcount s' = refcount s \<and>
         (\<forall>x. x \<noteq> t \<and> x \<noteq> q \<longrightarrow> phys s' x = phys s x) \<and>
         (if rd s (t, i) = 0
          then q \<notin> used_frames OS_PT_REG s \<and> (\<forall>j. rd s' (q, j) = 0) \<and> q \<in> used_frames OS_PT_REG s'
          else s' = s \<and> q = pte_pfn (rd s (t, i)))"
proof (cases "rd s (t, i) = 0")
  case True
  obtain s1 where a: "os_pfn_alloc OS_PT_REG s = (q, s1)"
    and s': "s' = (wr s1 (t, i) (mk_pte q 7))\<lparr>phys := (phys (wr s1 (t, i) (mk_pte q 7)))(q := (\<lambda>_. 0))\<rparr>"
    using step True by (auto simp: next_table_def Let_def split: prod.splits)
  have fresh: "q \<notin> used_frames OS_PT_REG s" "used_frames OS_PT_REG s1 = insert q (used_frames OS_PT_REG s)"
    using os_pfn_alloc_fresh [OF inv(1) room a] by auto
  have t: "t \<in> used_frames OS_PT_REG s" using inv(2) by simp
  have ne: "q \<noteq> t" using t fresh(1) by auto
  have ph: "phys s1 = (phys s)(q := (\<lambda>_. 0))" using phys_os_pt_alloc [OF room] a by simp
  have "s' = wr s1 (t, i) (mk_pte q 7)"
    using ne ph by (simp add: s' wr_def fun_upd_twist)
  moreover have "walk_alloc s (t, i) 7 = (q, wr s1 (t, i) (mk_pte q 7))"
    using True a by (simp add: walk_alloc_def)
  ultimately have eq: "next_table s (t, i) = walk_alloc s (t, i) 7" using step by simp
  have "refcount s' = refcount s" using s' a os_pfn_alloc_sel(1) [of s] by simp
  moreover have "\<forall>x. x \<noteq> t \<and> x \<noteq> q \<longrightarrow> phys s' x = phys s x" using ph by (simp add: s' wr_def)
  moreover have "\<forall>j. rd s' (q, j) = 0" by (simp add: s' rd_def)
  moreover have "q \<in> used_frames OS_PT_REG s'"
    using fresh(2) used_frames_cong [of s' s1] s' by simp
  ultimately show ?thesis using eq fresh(1) True by simp
next
  case False
  then have "s' = s" "q = pte_frame (rd s (t, i))" using step by (auto simp: next_table_def)
  with False inv(3) step show ?thesis by (auto simp: walk_alloc_def next_table_def)
qed

lemma tables_alloc_ok:
  assumes "kmem_ok s" "path_from s t seen is" "clean_from s t is" "seen \<subseteq> used_frames OS_PT_REG s"
    "pt_room (length is) s" "tables_alloc s t is = (q, s')"
  shows "kmem_ok s' \<and> resolve s' t is = Some q \<and> refcount s' = refcount s \<and>
         used_frames OS_PT_REG s \<subseteq> used_frames OS_PT_REG s' \<and> q \<in> used_frames OS_PT_REG s' \<and>
         pglists s' USER_REG = pglists s USER_REG \<and>
         (q \<in> path_set s t is \<or> q \<notin> used_frames OS_PT_REG s) \<and> (is \<noteq> [] \<longrightarrow> q \<noteq> t) \<and>
         path_set s' t is \<inter> used_frames OS_PT_REG s \<subseteq> path_set s t is \<and>
         path_from s' t seen is \<and>
         (\<forall>x. x \<notin> path_set s t is \<and> (x \<in> used_frames OS_PT_REG s \<or> x \<notin> used_frames OS_PT_REG s')
              \<longrightarrow> phys s' x = phys s x)"
  using assms
proof (induction "is" arbitrary: s t seen)
  case Nil
  then show ?case by auto
next
  case (Cons i "is")
  obtain q1 s1 where n: "next_table s (t, i) = (q1, s1)" by fastforce
  have r: "room OS_PT_REG s" using Cons.prems(5) by simp
  note st = next_table_step [OF Cons.prems(1-3) r n]
  have w: "walk_alloc s (t, i) 7 = (q1, s1)" using st n by simp
  have seven: "(7 :: u64) < 2 ^ 12" "(7 :: u64) AND 1 \<noteq> 0" "(7 :: u64) AND 4 \<noteq> 0" by simp_all
  have rm: "pt_room (Suc (length is)) s" using Cons.prems(5) by simp
  note ws = walk_alloc_step [OF Cons.prems(1,2,4) rm seven w]
  have t: "t \<in> used_frames OS_PT_REG s" "t \<notin> seen" using Cons.prems(2) by auto
  have old: "rd s (t, i) \<noteq> 0 \<Longrightarrow> s1 = s \<and> q1 = pte_pfn (rd s (t, i)) \<and> rd s (t, i) AND 1 \<noteq> 0"
    using st Cons.prems(3) by auto
  have new: "rd s (t, i) = 0 \<Longrightarrow> q1 \<notin> used_frames OS_PT_REG s \<and> path_set s1 q1 is = {q1} \<and>
      clean_from s1 q1 is"
    using st by (cases "is") auto
  have cl: "clean_from s1 q1 is" using old new Cons.prems(3) by (cases "rd s (t, i) = 0") auto
  have u1: "used_frames OS_PT_REG s \<subseteq> used_frames OS_PT_REG s1"
  proof (cases "rd s (t, i) = 0")
    case True
    then obtain s2 where "os_pfn_alloc OS_PT_REG s = (q1, s2)" "s1 = wr s2 (t, i) (mk_pte q1 7)"
      using w by (auto simp: walk_alloc_def split: prod.splits)
    with os_pfn_alloc_fresh [OF Cons.prems(1) r] used_frames_cong [of s1 s2] show ?thesis by auto
  qed (use old in simp)
  have t1: "tables_alloc s1 q1 is = (q, s')" using Cons.prems(6) n by simp
  note ih = Cons.IH [of s1 q1 "insert t seen", OF _ _ cl _ _ t1]
  then have IH: "kmem_ok s'" "resolve s' q1 is = Some q" "refcount s' = refcount s1"
    "used_frames OS_PT_REG s1 \<subseteq> used_frames OS_PT_REG s'" "q \<in> used_frames OS_PT_REG s'"
    "pglists s' USER_REG = pglists s1 USER_REG"
    "q \<in> path_set s1 q1 is \<or> q \<notin> used_frames OS_PT_REG s1"
    "path_set s' q1 is \<inter> used_frames OS_PT_REG s1 \<subseteq> path_set s1 q1 is"
    "path_from s' q1 (insert t seen) is"
    "\<And>x. x \<notin> path_set s1 q1 is \<Longrightarrow> x \<in> used_frames OS_PT_REG s1 \<or> x \<notin> used_frames OS_PT_REG s' \<Longrightarrow>
       phys s' x = phys s1 x"
    using ws by auto
  have dis: "path_set s1 q1 is \<inter> insert t seen = {}" using ws path_from_path_set by blast
  have "phys s' t = phys s1 t" using IH(10) [of t] dis t u1 by auto
  then have rt: "rd s' (t, i) = rd s1 (t, i)" by (simp add: rd_def)
  then have wt: "walk s' (t, i) = Some q1" using ws by (simp add: walk_def)
  then have bits: "rd s' (t, i) AND 1 \<noteq> 0" "rd s' (t, i) AND 4 \<noteq> 0" "pte_pfn (rd s' (t, i)) = q1"
    by (auto simp: walk_def Let_def split: if_splits)
  have ps: "path_set s1 q1 is \<inter> used_frames OS_PT_REG s \<subseteq> path_set s t (i # is)"
    using old new by (cases "rd s (t, i) = 0") auto
  have "q \<noteq> t"
    using IH(7) dis t u1 by auto
  moreover have "q \<in> path_set s t (i # is) \<or> q \<notin> used_frames OS_PT_REG s"
    using IH(7) ps u1 by auto
  moreover have "phys s' x = phys s x"
    if "x \<notin> path_set s t (i # is)" "x \<in> used_frames OS_PT_REG s \<or> x \<notin> used_frames OS_PT_REG s'" for x
  proof -
    have q1: "q1 \<in> used_frames OS_PT_REG s1" using ws path_from_used by blast
    have "x \<notin> path_set s1 q1 is"
      using that ps path_from_set_used [of s1 q1 "insert t seen" "is"] ws IH(4) by blast
    moreover have "x \<noteq> t" using that by auto
    moreover have "x \<noteq> q1" using calculation(1) by (cases "is") auto
    ultimately show ?thesis
      using IH(10) [of x] st that u1 by auto
  qed
  moreover have "path_set s' t (i # is) \<inter> used_frames OS_PT_REG s \<subseteq> path_set s t (i # is)"
  proof -
    have eq: "path_set s' t (i # is) = insert t (path_set s' q1 is)" using bits by simp
    have "t \<in> path_set s t (i # is)" by simp
    then show ?thesis unfolding eq
    proof (intro subsetI)
      fix x assume x: "x \<in> insert t (path_set s' q1 is) \<inter> used_frames OS_PT_REG s"
      show "x \<in> path_set s t (i # is)"
      proof (cases "x = t")
        case False
        with x IH(8) u1 have "x \<in> path_set s1 q1 is \<inter> used_frames OS_PT_REG s" by blast
        with ps show ?thesis by blast
      qed simp
    qed
  qed
  moreover have "path_from s' t seen (i # is)"
    using IH(9) bits t IH(4) u1 by auto
  ultimately show ?case
    using IH(1-6) wt st ws u1 by auto
qed

section \<open>Tables that are not on the path\<close>

lemma path_cong:
  assumes "\<forall>x \<in> path_set s t is. phys s' x = phys s x" "pglists s' OS_PT_REG = pglists s OS_PT_REG"
  shows "path_from s' t seen is = path_from s t seen is" "clean_from s' t is = clean_from s t is"
    "path_set s' t is = path_set s t is"
proof -
  have u: "used_frames OS_PT_REG s' = used_frames OS_PT_REG s"
    using assms(2) by (simp add: used_frames_def)
  have "path_from s' t seen is = path_from s t seen is \<and> clean_from s' t is = clean_from s t is \<and>
      path_set s' t is = path_set s t is"
    using assms(1)
  proof (induction "is" arbitrary: t seen)
    case Nil
    then show ?case by (simp add: u)
  next
    case (Cons i "is")
    have r: "rd s' (t, i) = rd s (t, i)" using Cons.prems by (simp add: rd_def)
    have "rd s (t, i) = 0 \<Longrightarrow> rd s (t, i) AND 1 = 0" by simp
    then show ?case
      using Cons.IH [of "pte_pfn (rd s (t, i))"] Cons.prems by (auto simp: r u split: if_splits)
  qed
  then show "path_from s' t seen is = path_from s t seen is" "clean_from s' t is = clean_from s t is"
    "path_set s' t is = path_set s t is" by simp_all
qed

text \<open>The same when more frames have become page tables.\<close>

lemma path_alloc:
  assumes "\<forall>x \<in> path_set s t is. phys s' x = phys s x" "path_from s t seen is"
    and "used_frames OS_PT_REG s \<subseteq> used_frames OS_PT_REG s'"
  shows "path_from s' t seen is \<and> path_set s' t is = path_set s t is"
  using assms(1,2)
proof (induction "is" arbitrary: t seen)
  case Nil
  then show ?case using assms(3) by auto
next
  case (Cons i "is")
  have r: "rd s' (t, i) = rd s (t, i)" using Cons.prems by (simp add: rd_def)
  show ?case
    using Cons.IH [of "pte_pfn (rd s (t, i))" "insert t seen"] Cons.prems assms(3)
    by (auto simp: r split: if_splits)
qed

lemma resolve_wr_last:
  "path_from s t seen is \<Longrightarrow> resolve s t is = Some q \<Longrightarrow> resolve (wr s (q, j) v) t is = Some q"
proof (induction "is" arbitrary: t seen)
  case (Cons i "is")
  then obtain q1 where q1: "walk s (t, i) = Some q1" "resolve s q1 is = Some q"
    by (auto split: option.splits)
  have p: "path_from s q1 (insert t seen) is"
    using Cons.prems(1) q1(1) by (auto simp: walk_def Let_def split: if_splits)
  have "q \<noteq> t" using resolve_in_path_set [OF q1(2)] path_from_path_set [OF p] by auto
  then have "walk (wr s (q, j) v) (t, i) = Some q1" using q1(1) by (simp add: walk_def rd_wr)
  with Cons.IH [OF p q1(2)] show ?case by simp
qed simp

lemma path_from_wr_last:
  "path_from s t seen is \<Longrightarrow> resolve s t is = Some q \<Longrightarrow> path_from (wr s (q, j) v) t seen is"
proof (induction "is" arbitrary: t seen)
  case Nil
  then show ?case by (simp add: used_frames_def)
next
  case (Cons i "is")
  then obtain q1 where q1: "walk s (t, i) = Some q1" "resolve s q1 is = Some q"
    by (auto split: option.splits)
  have p: "path_from s q1 (insert t seen) is" "t \<in> used_frames OS_PT_REG s" "t \<notin> seen"
    "pte_pfn (rd s (t, i)) = q1" "rd s (t, i) AND 4 \<noteq> 0"
    using Cons.prems(1) q1(1) by (auto simp: walk_def Let_def split: if_splits)
  have "q \<noteq> t" using resolve_in_path_set [OF q1(2)] path_from_path_set [OF p(1)] by auto
  with Cons.IH [OF p(1) q1(2)] p show ?case by (simp add: rd_wr used_frames_def)
qed

lemma path_set_wr_last:
  "path_from s t seen is \<Longrightarrow> resolve s t is = Some q \<Longrightarrow> path_set (wr s (q, j) v) t is = path_set s t is"
proof (induction "is" arbitrary: t seen)
  case (Cons i "is")
  then obtain q1 where q1: "walk s (t, i) = Some q1" "resolve s q1 is = Some q"
    by (auto split: option.splits)
  have p: "path_from s q1 (insert t seen) is" "pte_pfn (rd s (t, i)) = q1"
    using Cons.prems(1) q1(1) by (auto simp: walk_def Let_def split: if_splits)
  have "q \<noteq> t" using resolve_in_path_set [OF q1(2)] path_from_path_set [OF p(1)] by auto
  with Cons.IH [OF p(1) q1(2)] p show ?case by (simp add: rd_wr)
qed simp

lemma get_pte_wr_last:
  assumes "path_from s base {} (levels a)" "resolve s base (levels a) = Some pt"
    and "v AND 1 \<noteq> 0" "v AND 4 \<noteq> 0"
  shows "get_pte (wr s (pt, pte_index a) v) base a = Some (pt, pte_index a)"
  using resolve_wr_last [OF assms(1,2)] assms(3,4) by (simp add: get_pte_resolve)

lemma mk_pte_or2: "mk_pte pfn 5 OR 2 = mk_pte pfn 7"
proof -
  have "(5 :: u64) OR 2 = 7" by simp
  then show ?thesis by (simp add: mk_pte_def or.assoc)
qed

lemma wr_wr: "wr (wr s p v) p w = wr s p w"
  by (simp add: wr_def)

lemma map_physical_page_ok:
  assumes "kmem_ok s" "path_ok s base a" "clean_from s base (levels a)" "pt_room 3 s"
    and "upfn \<noteq> 0" "map_physical_page s base a access upfn = (r, s')"
  shows "r = upfn \<and> kmem_ok s' \<and> refcount s' = refcount s \<and>
    used_frames OS_PT_REG s \<subseteq> used_frames OS_PT_REG s' \<and>
    pglists s' USER_REG = pglists s USER_REG \<and>
    (\<exists>pt. get_pte s' base a = Some (pt, pte_index a) \<and> resolve s' base (levels a) = Some pt \<and>
          path_from s' base {} (levels a) \<and>
          rd s' (pt, pte_index a) = mk_pte upfn (if access AND 2 \<noteq> 0 then 7 else 5) \<and>
          pt \<in> used_frames OS_PT_REG s' \<and>
          (pt \<in> path_set s base (levels a) \<or> pt \<notin> used_frames OS_PT_REG s)) \<and>
    (\<forall>x. x \<notin> path_set s base (levels a) \<and> (x \<in> used_frames OS_PT_REG s \<or> x \<notin> used_frames OS_PT_REG s')
         \<longrightarrow> phys s' x = phys s x)"
proof -
  let ?L = "levels a"
  obtain pt s3 where t: "tables_alloc s base ?L = (pt, s3)" by fastforce
  define fl :: u64 where "fl = (if access AND 2 \<noteq> 0 then 7 else 5)"
  have eq: "r = upfn" "s' = wr s3 (pt, pte_index a) (mk_pte upfn fl)"
    using assms(5,6) t
    by (auto simp: map_physical_page_tables mk_pte_or2 fl_def wr_wr Let_def split: if_splits)
  have pf: "path_from s base {} ?L" using assms(2) by (simp add: path_ok_def levels_def)
  have rm: "pt_room (length ?L) s" using assms(4) by (simp add: levels_def numeral_3_eq_3)
  note k = tables_alloc_ok [OF assms(1) pf assms(3) _ rm t, simplified]
  have fl: "fl AND 1 \<noteq> 0" "fl AND 4 \<noteq> 0" "fl < 2 ^ 12" by (simp_all add: fl_def)
  have v: "mk_pte upfn fl AND 1 \<noteq> 0" "mk_pte upfn fl AND 4 \<noteq> 0" using fl by (simp_all add: mk_pte_and)
  have ph: "phys s' x = phys s3 x" if "x \<noteq> pt" for x using that by (simp add: eq wr_def)
  have u: "used_frames OS_PT_REG s' = used_frames OS_PT_REG s3" by (simp add: eq used_frames_def)
  have path: "path_from s' base {} ?L"
  proof -
    have "path_from s3 base {} ?L" "resolve s3 base ?L = Some pt" using k by simp_all
    then show ?thesis unfolding eq by (rule path_from_wr_last)
  qed
  have "get_pte s' base a = Some (pt, pte_index a)" "resolve s' base ?L = Some pt"
    unfolding eq using k v by (auto intro: get_pte_wr_last resolve_wr_last)
  moreover have "phys s' x = phys s x"
    if "x \<notin> path_set s base ?L" "x \<in> used_frames OS_PT_REG s \<or> x \<notin> used_frames OS_PT_REG s'" for x
  proof -
    have "x \<noteq> pt" using that k u by auto
    then show ?thesis using that k u ph by auto
  qed
  ultimately show ?thesis
    using k u path eq(1) kmem_ok_cong [of s' s3] fl_def by (auto simp: eq)
qed

lemma pt_room_next_table: "pt_room (Suc n) s \<Longrightarrow> pt_room n (snd (next_table s p))"
proof (cases "rd s p = 0")
  case True
  assume room: "pt_room (Suc n) s"
  obtain q s1 where a: "os_pfn_alloc OS_PT_REG s = (q, s1)" by fastforce
  then have "pt_room n s1" using room by simp
  moreover have "pglists (snd (next_table s p)) = pglists s1"
    using True a by (simp add: next_table_def Let_def)
  ultimately show ?thesis using pt_room_cong by blast
qed (simp add: next_table_def pt_room_Suc del: pt_room.simps)

lemma pt_room_tables_alloc: "pt_room (length is + n) s \<Longrightarrow> pt_room n (snd (tables_alloc s t is))"
proof (induction "is" arbitrary: s t)
  case (Cons i "is")
  obtain q s1 where a: "next_table s (t, i) = (q, s1)" by fastforce
  have "pt_room (length is + n) s1"
    using pt_room_next_table [of "length is + n" s "(t, i)"] Cons.prems a by simp
  with Cons.IH a show ?case by simp
qed simp

lemma pt_room_map_page:
  assumes "pt_room (3 + n) s" "upfn \<noteq> 0"
  shows "pt_room n (snd (map_physical_page s base a access upfn))"
proof -
  obtain pt s3 where t: "tables_alloc s base (levels a) = (pt, s3)" by fastforce
  have "pt_room n s3"
    using pt_room_tables_alloc [of "levels a" n s base] assms(1) unfolding t
    by (simp add: levels_def numeral_3_eq_3)
  moreover have "pglists (snd (map_physical_page s base a access upfn)) = pglists s3"
    using assms(2) t by (simp add: map_physical_page_tables Let_def)
  ultimately show ?thesis using pt_room_cong by blast
qed

end
