(* ===== verification/Mmap.thy ===== *)
theory Mmap
  imports ExecCtx
begin

text \<open>
  The handlers \<open>vm_area_map\<close>, \<open>vm_area_unmap\<close>, \<open>vm_area_mprotect\<close> and
  \<open>vm_area_pagefault\<close> of src/Assignment3/Ass3/src/mmap.c on the whole state: the
  decision on the list of areas (theory \<open>VMArea\<close>), the node counter and the page
  tables (theory \<open>PageTable\<close>).
\<close>

section \<open>Definitions\<close>

text \<open>
  The addresses of \<open>for(i = lo; i < hi; i += 4096)\<close>.  In all calls \<open>hi\<close> is at most
  \<open>2 ^ 64 - 4096\<close>, so the increment does not wrap.
\<close>

function pages :: "nat \<Rightarrow> nat \<Rightarrow> nat list" where
  "pages lo hi = (if lo < hi then lo # pages (lo + 4096) hi else [])"
  by pat_completeness auto
termination by (relation "measure (\<lambda>(lo, hi). hi - lo)") auto

declare pages.simps [simp del]

text \<open>\<open>stats->num_vm_area\<close> after \<open>d\<close> more allocations than deallocations of nodes.\<close>

definition count_areas :: "int \<Rightarrow> kmem \<Rightarrow> kmem" where
  "count_areas d s = s\<lparr>num_vm_area := nat ((int (num_vm_area s) + d) mod 2 ^ 64)\<rparr>"

definition vm_area_map ::
  "kmem \<Rightarrow> exec_context \<Rightarrow> nat \<Rightarrow> int \<Rightarrow> u32 \<Rightarrow> u32 \<Rightarrow> int \<times> exec_context \<times> kmem" where
  "vm_area_map s current addr len prot flags =
     (case vm_area_place addr len prot (flags AND 1 \<noteq> 0) (vm_areas current) of
        VDone vs ret d \<Rightarrow>
          (let s1 = count_areas d s;
               s2 = (if flags AND 2 \<noteq> 0
                     then fold (\<lambda>i t. alloc_pfn t (pgd current) i (ucast prot))
                            (pages ret (add64 ret (ext64 (round_length len)))) s1
                     else s1)
           in (int ret, current\<lparr>vm_areas := vs\<rparr>, s2))
      | _ \<Rightarrow> (-1, current, s))"

definition vm_area_unmap ::
  "kmem \<Rightarrow> exec_context \<Rightarrow> nat \<Rightarrow> int \<Rightarrow> int \<times> exec_context \<times> kmem" where
  "vm_area_unmap s current addr len =
     (if addr \<noteq> 0 \<and> \<not> (addr \<ge> MMAP_AREA_START \<and> add64 addr (ext64 len) \<le> MMAP_AREA_END)
      then (-1, current, s)
      else let e = add64 addr (ext64 (round_length len)) in
        if vm_areas current = [] then (0, current, s)
        else case unmap_scan addr e (length (vm_areas current)) (vm_areas current) of
          None \<Rightarrow> (-1, current, s)
        | Some (vs, d) \<Rightarrow>
            (0, current\<lparr>vm_areas := vs\<rparr>,
             fold (\<lambda>i t. pfn_unmap t (pgd current) i) (pages addr e) (count_areas d s)))"

text \<open>
  The last loop of \<open>vm_area_mprotect\<close> calls \<open>change_permissions\<close> with \<open>addr\<close>, not
  with the loop variable.  \<open>None\<close> is the null dereference.
\<close>

definition vm_area_mprotect ::
  "kmem \<Rightarrow> exec_context \<Rightarrow> nat \<Rightarrow> int \<Rightarrow> u32 \<Rightarrow> (int \<times> exec_context \<times> kmem) option" where
  "vm_area_mprotect s current addr len prot =
     (case vm_area_protect addr len prot (vm_areas current) of
        MFault \<Rightarrow> None
      | MFail \<Rightarrow> Some (-1, current, s)
      | MNop \<Rightarrow> Some (0, current, s)
      | MDone vs d \<Rightarrow>
          Some (0, current\<lparr>vm_areas := vs\<rparr>,
                fold (\<lambda>i t. change_permissions t (pgd current) addr (ucast prot))
                  (pages addr (add64 addr (ext64 (round_length len)))) (count_areas d s)))"

definition vm_area_pagefault :: "kmem \<Rightarrow> exec_context \<Rightarrow> nat \<Rightarrow> u64 \<Rightarrow> int \<times> kmem" where
  "vm_area_pagefault s current addr error_code =
     (if vm_area_fault_ok addr error_code (vm_areas current)
      then (1, walk_install s (pgd current) addr 0x7 (ac_flags error_code))
      else (-1, s))"

text \<open>\<open>vm_area_dump\<close>: one line per area, its bounds and its R, W and X flags.\<close>

definition vm_area_line :: "vm_area \<Rightarrow> nat \<times> nat \<times> string" where
  "vm_area_line v =
     (vm_start v, vm_end v,
      (if access_flags v AND 1 \<noteq> 0 then ''R '' else ''_ '') @
      (if access_flags v AND 2 \<noteq> 0 then ''W '' else ''_ '') @
      (if access_flags v AND 4 \<noteq> 0 then ''X'' else ''_''))"

definition vm_area_dump :: "vm_area list \<Rightarrow> int \<Rightarrow> (nat \<times> nat \<times> string) list" where
  "vm_area_dump vs details = (if details = 0 then [] else map vm_area_line vs)"

section \<open>Lemmas\<close>

lemma pages_iff: "a \<in> set (pages lo hi) \<longleftrightarrow> a < hi \<and> (\<exists>k. a = lo + k * 4096)"
proof (induction lo hi rule: pages.induct)
  case (1 lo hi)
  show ?case
  proof (cases "lo < hi")
    case True
    have "(a = lo \<or> (\<exists>k. a = lo + 4096 + k * 4096)) = (\<exists>k. a = lo + k * 4096)" (is "?l = ?r")
    proof
      assume ?r
      then obtain k where "a = lo + k * 4096" ..
      then show ?l by (cases k) auto
    next
      assume ?l
      then show ?r by (metis add.assoc add.right_neutral mult_0 mult_Suc)
    qed
    with 1 True show ?thesis by (auto simp: pages.simps [of lo hi])
  next
    case False
    then show ?thesis by (auto simp: pages.simps [of lo hi])
  qed
qed

lemma count_areas_sel [simp]:
  "phys (count_areas d s) = phys s" "pglists (count_areas d s) = pglists s"
  "refcount (count_areas d s) = refcount s"
  by (simp_all add: count_areas_def)

lemma fold_pfn_unmap:
  "a \<in> set is \<or> get_pte s base a = None \<Longrightarrow>
   get_pte (fold (\<lambda>i t. pfn_unmap t base i) is s) base a = None"
proof (induction "is" arbitrary: s)
  case (Cons i "is")
  then have "a \<in> set is \<or> get_pte (pfn_unmap s base i) base a = None"
    using get_pte_pfn_unmap by auto
  then show ?case by (simp add: Cons.IH)
qed simp

text \<open>Only the entry of \<open>addr\<close> can be changed by \<open>change_permissions\<close>.\<close>

lemma change_permissions_other:
  "get_pte s base addr \<noteq> Some q \<Longrightarrow> rd (change_permissions s base addr prot) q = rd s q"
  by (auto simp: change_permissions_def Let_def rd_wr split: option.splits)

text \<open>
  \<open>change_permissions\<close> moves no table and no page: the frame number and the present
  and user bits of the entry it rewrites stay.
\<close>

lemma flag_bits_kept:
  "(push_bit 3 (drop_bit 3 e) OR ac_flags prot) AND 1 = 1"
  "(push_bit 3 (drop_bit 3 e) OR ac_flags prot) AND 4 = 4" for e :: u64
  by (rule bit_eqI, auto simp: ac_flags_def bit_and_iff bit_or_iff bit_push_bit_iff bit_drop_bit_eq
      bit_numeral_rec bit_1_iff split: nat.splits)+

lemma drop12_kept: "drop_bit 12 (push_bit 3 (drop_bit 3 e) OR ac_flags prot) = drop_bit 12 e" for e :: u64
proof (rule bit_eqI)
  fix n
  have "\<not> bit (ac_flags prot) (12 + n)" by (rule flags_high_clear [OF ac_flags_small]) simp
  then show "bit (drop_bit 12 (push_bit 3 (drop_bit 3 e) OR ac_flags prot)) n = bit (drop_bit 12 e) n"
    by (auto simp: bit_or_iff bit_push_bit_iff bit_drop_bit_eq dest: bit_imp_le_length)
qed

lemma pte_pfn_kept: "pte_pfn (push_bit 3 (drop_bit 3 e) OR ac_flags prot) = pte_pfn e"
  unfolding pte_pfn_def drop12_kept ..

lemma walk_change:
  assumes "rd s p AND 1 \<noteq> 0" "rd s p AND 4 \<noteq> 0"
  shows "walk (wr s p (push_bit 3 (drop_bit 3 (rd s p)) OR ac_flags prot)) q = walk s q"
  using assms by (simp add: walk_def rd_wr flag_bits_kept pte_pfn_kept)

lemma get_pte_change_permissions:
  "get_pte (change_permissions s base addr prot) base' a = get_pte s base' a"
proof (cases "get_pte s base addr")
  case None
  then show ?thesis by (simp add: change_permissions_def)
next
  case (Some p)
  note bits = get_pte_SomeD [OF Some]
  let ?s = "wr s p (push_bit 3 (drop_bit 3 (rd s p)) OR ac_flags prot)"
  have w: "walk ?s = walk s" using bits walk_change by blast
  have r: "(rd ?s q AND 1 = 0 \<or> rd ?s q AND 4 = 0) = (rd s q AND 1 = 0 \<or> rd s q AND 4 = 0)" for q
    using bits by (simp add: rd_wr flag_bits_kept)
  have "get_pte ?s base' a = get_pte s base' a"
    unfolding get_pte_def walk_pmd_eq_walk w Let_def r ..
  with Some show ?thesis by (simp add: change_permissions_def Let_def)
qed

lemma fold_change_permissions_get_pte:
  "get_pte (fold (\<lambda>i t. change_permissions t base addr prot) is s) base' a = get_pte s base' a"
  by (induction "is" arbitrary: s) (simp_all add: get_pte_change_permissions)

lemma fold_change_permissions_other:
  "get_pte s base addr \<noteq> Some q \<Longrightarrow>
   rd (fold (\<lambda>i t. change_permissions t base addr prot) is s) q = rd s q"
proof (induction "is" arbitrary: s)
  case (Cons i "is")
  then have "get_pte (change_permissions s base addr prot) base addr \<noteq> Some q"
    by (simp add: get_pte_change_permissions)
  with Cons show ?case by (simp add: change_permissions_other)
qed simp

lemma int_count_areas:
  assumes "int (num_vm_area s) + d = int n" "n < 2 ^ 64"
  shows "num_vm_area (count_areas d s) = n"
  using assms by (simp add: count_areas_def)

lemma vm_area_fault_ok_iff:
  assumes "vma_wf MMAP_AREA_START vs" "error_code AND 1 = 0"
  shows "vm_area_fault_ok addr error_code vs \<longleftrightarrow>
      (\<exists>p. prot_at vs addr = Some p \<and> (error_code AND 2 \<noteq> 0 \<longrightarrow> p AND 2 \<noteq> 0))"
proof (cases vs)
  case (Cons c r)
  have b: "prot_at vs addr = None" if "addr < vm_start c"
  proof -
    have "vma_wf (vm_start c) vs" using assms(1) Cons by simp
    then show ?thesis using that by (rule prot_at_below)
  qed
  have m: "fault_mapped addr vs \<longleftrightarrow> prot_at vs addr \<noteq> None" if "\<not> addr < vm_start c"
    using fault_mapped_iff [OF assms(1)] that Cons by simp
  show ?thesis
    using prot_at_below [OF assms(1), of addr] prot_at_beyond [OF assms(1), of addr] b m
      fault_writable_iff [OF assms(1), of addr] assms(2) Cons
    by (auto simp: vm_area_fault_ok_def simp del: prot_at.simps fault_mapped.simps fault_writable.simps)
qed (simp add: vm_area_fault_ok_def)

lemma num_vm_area_pfn_unmap [simp]: "num_vm_area (pfn_unmap s base a) = num_vm_area s"
  by (simp add: pfn_unmap_def Let_def os_pfn_free_def os_page_free_def reset_pfn_info_def
      decrement_pfn_info_refcount_def split: option.split)

lemma num_vm_area_fold_unmap [simp]:
  "num_vm_area (fold (\<lambda>i t. pfn_unmap t base i) is s) = num_vm_area s"
  by (induction "is" arbitrary: s) simp_all

section \<open>The effect of the handlers on the list of areas and its counter\<close>

lemma vma_wf_length: "vma_wf lo vs \<Longrightarrow> length vs \<le> MMAP_AREA_END"
proof -
  have "vma_wf lo vs \<Longrightarrow> vs \<noteq> [] \<Longrightarrow> length vs + lo \<le> MMAP_AREA_END"
  proof (induction vs arbitrary: lo)
    case (Cons v vs)
    then show ?case by (cases vs) fastforce+
  qed simp
  then show "vma_wf lo vs \<Longrightarrow> length vs \<le> MMAP_AREA_END" by (cases vs) fastforce+
qed

text \<open>The counter moves with the list; \<open>n\<close> are the areas of the other processes.\<close>

lemma count_areas_length:
  assumes "num_vm_area s = n + length vs" "int (length vs') = int (length vs) + d" "vma_wf lo vs'"
    and "n < 2 ^ 63"
  shows "num_vm_area (count_areas d s) = n + length vs'"
  using assms vma_wf_length [OF assms(3)] by (intro int_count_areas) auto

lemma num_vm_area_alloc [simp]: "num_vm_area (snd (os_pfn_alloc r s)) = num_vm_area s"
  by (simp add: os_pfn_alloc_def Let_def set_pfn_info_def split: prod.split)

lemma num_vm_area_walk_alloc: "num_vm_area (snd (walk_alloc s p flags)) = num_vm_area s"
  using num_vm_area_alloc [of OS_PT_REG s]
  by (cases "os_pfn_alloc OS_PT_REG s") (simp add: walk_alloc_def)

lemma num_vm_area_walk_install [simp]: "num_vm_area (walk_install s base a tf pf) = num_vm_area s"
proof -
  obtain pud s1 where w1: "walk_alloc s (base, pgd_index a) tf = (pud, s1)" by fastforce
  obtain pmd s2 where w2: "walk_alloc s1 (pud, pud_index a) tf = (pmd, s2)" by fastforce
  obtain pt s3 where w3: "walk_alloc s2 (pmd, pmd_index a) tf = (pt, s3)" by fastforce
  obtain pfn s4 where w4: "os_pfn_alloc USER_REG s3 = (pfn, s4)" by fastforce
  have "num_vm_area s4 = num_vm_area s"
    using num_vm_area_walk_alloc [of s "(base, pgd_index a)" tf]
      num_vm_area_walk_alloc [of s1 "(pud, pud_index a)" tf]
      num_vm_area_walk_alloc [of s2 "(pmd, pmd_index a)" tf] num_vm_area_alloc [of USER_REG s3]
    by (simp add: w1 w2 w3 w4)
  then show ?thesis by (simp add: walk_install_def w1 w2 w3 w4)
qed

lemma num_vm_area_fold_alloc [simp]:
  "num_vm_area (fold (\<lambda>i t. alloc_pfn t base i prot) is s) = num_vm_area s"
  by (induction "is" arbitrary: s) (simp_all add: alloc_pfn_def)

lemma num_vm_area_fold_change [simp]:
  "num_vm_area (fold (\<lambda>i t. change_permissions t base addr prot) is s) = num_vm_area s"
proof -
  have "num_vm_area (change_permissions t base addr prot) = num_vm_area t" for t
    by (simp add: change_permissions_def Let_def split: option.split)
  then show ?thesis by (induction "is" arbitrary: s) simp_all
qed

lemma vm_area_map_effect:
  assumes "vma_wf MMAP_AREA_START (vm_areas current)" "0 < len" "len \<le> 2 ^ 31 - 4096"
    and "vm_area_map s current addr len prot flags = (ret, current', s')" "ret \<noteq> -1"
  shows "\<exists>m d. placed_at prot (nat (round_length len)) (length (vm_areas current)) MMAP_AREA_START
                 (vm_areas current) (vm_areas current') m d \<and>
               num_vm_area s' = num_vm_area (count_areas d s) \<and>
               (ret = int m \<or>
                m = addr \<and> vm_areas current \<noteq> [] \<and> addr = vm_end (last (vm_areas current)) \<and>
                access_flags (last (vm_areas current)) = prot \<and>
                ret = int (vm_start (last (vm_areas current))))"
proof -
  obtain vs r d where v: "vm_area_place addr len prot (flags AND 1 \<noteq> 0) (vm_areas current) = VDone vs r d"
    using assms(4,5) by (auto simp: vm_area_map_def Let_def split: vres.splits)
  from vm_area_place_ok [OF assms(1-3) v] show ?thesis
    using assms(4) v by (fastforce simp: vm_area_map_def Let_def split: if_splits)
qed

lemma vm_area_map_fail:
  "vm_area_map s current addr len prot flags = (-1, current', s') \<Longrightarrow> current' = current \<and> s' = s"
  by (auto simp: vm_area_map_def Let_def split: vres.splits)

lemma range_end:
  assumes "0 < len" "len \<le> 2 ^ 31 - 4096" "addr < 2 ^ 40"
  shows "add64 addr (ext64 (round_length len)) = addr + nat (round_length len)" "0 < nat (round_length len)"
proof -
  note r = round_length_bounds [OF assms(1,2)]
  then have "ext64 (round_length len) = nat (round_length len)" by (intro ext64_nonneg) simp_all
  then show "add64 addr (ext64 (round_length len)) = addr + nat (round_length len)"
    unfolding \<open>ext64 _ = _\<close> using assms(3) r by (intro add64_small) (simp; linarith)
  show "0 < nat (round_length len)" using r by simp
qed

lemma vm_area_unmap_fail:
  "vm_area_unmap s current addr len = (-1, current', s') \<Longrightarrow> current' = current \<and> s' = s"
  unfolding vm_area_unmap_def Let_def by (auto split: if_splits option.splits)

lemma vm_area_unmap_effect:
  assumes "vma_wf MMAP_AREA_START (vm_areas current)"
    and "0 < len" "len \<le> 2 ^ 31 - 4096" "addr < 2 ^ 40"
    and "vm_area_unmap s current addr len = (ret, current', s')"
    and "e = addr + nat (round_length len)"
  shows "ret = -1 \<and> current' = current \<and> s' = s \<or>
         ret = 0 \<and> vma_wf MMAP_AREA_START (vm_areas current') \<and>
         (\<forall>a. prot_at (vm_areas current') a =
                (if addr \<le> a \<and> a < e then None else prot_at (vm_areas current) a)) \<and>
         (\<exists>d. int (length (vm_areas current')) = int (length (vm_areas current)) + d \<and>
              d \<le> 1 \<and> (d = 1 \<longrightarrow> length (vm_areas current) \<noteq> 128) \<and>
              (num_vm_area s' = num_vm_area (count_areas d s) \<or> d = 0 \<and> s' = s))"
proof (cases "vm_areas current = []")
  case True
  with assms(5) show ?thesis by (auto simp: vm_area_unmap_def Let_def split: if_splits)
next
  case False
  note e = range_end(1) [OF assms(2-4), folded assms(6)]
  show ?thesis
  proof (cases "ret = -1")
    case True
    with assms(5) show ?thesis using vm_area_unmap_fail by blast
  next
    case ret: False
    from False ret assms(5) e obtain d where sc:
      "unmap_scan addr e (length (vm_areas current)) (vm_areas current) = Some (vm_areas current', d)"
      and s': "s' = fold (\<lambda>i t. pfn_unmap t (pgd current) i) (pages addr e) (count_areas d s)" "ret = 0"
      by (auto simp: vm_area_unmap_def Let_def split: if_splits option.splits)
    have le: "addr \<le> e" using assms(6) by simp
    from unmap_scan_ok [OF assms(1) le sc] s' show ?thesis by auto
  qed
qed

lemma vm_area_unmap_ptes:
  assumes "0 < len" "len \<le> 2 ^ 31 - 4096" "addr < 2 ^ 40" "vm_areas current \<noteq> []"
    and "vm_area_unmap s current addr len = (0, current', s')"
    and "addr + k * 4096 < addr + nat (round_length len)"
  shows "get_pte s' (pgd current) (addr + k * 4096) = None"
proof -
  obtain t where "s' = fold (\<lambda>i t. pfn_unmap t (pgd current) i)
      (pages addr (addr + nat (round_length len))) t"
    using assms(4,5) by (auto simp: vm_area_unmap_def Let_def range_end(1) [OF assms(1-3)]
        split: if_splits option.splits)
  then show ?thesis using assms(6) by (auto simp: pages_iff intro!: fold_pfn_unmap)
qed

lemma vm_area_mprotect_effect:
  assumes "vma_wf MMAP_AREA_START (vm_areas current)"
    and "0 < len" "len \<le> 2 ^ 31 - 4096" "addr < 2 ^ 40"
    and "e = addr + nat (round_length len)"
  shows "\<exists>ret current' s'.
           vm_area_mprotect s current addr len prot = Some (ret, current', s') \<and>
           (ret = -1 \<and> current' = current \<and> s' = s \<or>
            ret = 0 \<and> vma_wf MMAP_AREA_START (vm_areas current') \<and>
            (\<forall>a. prot_at (vm_areas current') a =
                   (if addr \<le> a \<and> a < e \<and> prot_at (vm_areas current) a \<noteq> None then Some prot
                    else prot_at (vm_areas current) a)) \<and>
            (\<exists>d. int (length (vm_areas current')) = int (length (vm_areas current)) + d \<and>
                 num_vm_area s' = num_vm_area (count_areas d s)))"
proof -
  let ?vs = "vm_areas current"
  note e = range_end(1) [OF assms(2-4), folded assms(5)]
  have lt: "addr < e" using assms(5) range_end(2) [OF assms(2-4)] by simp
  have r: "0 < round_length len" using round_length_bounds [OF assms(2,3)] by simp
  obtain b where lim: "limit_check addr e prot ?vs = Some b"
    using limit_check_no_fault [OF assms(1), of addr e prot] by auto
  obtain vs1 d1 where ps: "protect_scan addr e prot ?vs = (vs1, d1)" by fastforce
  obtain vs2 d2 where ma: "merge_areas vs1 = (vs2, d2)" by fastforce
  have "vm_area_protect addr len prot ?vs = MFail \<or>
      contig addr e ?vs \<and> vm_area_protect addr len prot ?vs = MDone vs2 (d1 + d2)"
    using lim ps ma r
    by (cases b; cases ?vs)
      (simp_all add: vm_area_protect_def Let_def e del: contig.simps protect_scan.simps)
  then consider (fail) "vm_area_protect addr len prot ?vs = MFail"
    | (ok) "contig addr e ?vs" "vm_area_protect addr len prot ?vs = MDone vs2 (d1 + d2)"
    by blast
  then show ?thesis
  proof cases
    case fail
    then show ?thesis by (simp add: vm_area_mprotect_def)
  next
    case ok
    have "vma_wf MMAP_AREA_START vs1" "reprot addr e prot ?vs vs1"
      "int (length vs1) = int (length ?vs) + d1"
      using protect_scan_ok [OF assms(1) lt ok(1) ps] by auto
    then have "vma_wf MMAP_AREA_START vs2" "reprot addr e prot ?vs vs2"
      "int (length vs2) = int (length ?vs) + (d1 + d2)"
      using merge_areas_ok [OF _ ma] by (auto simp: reprot_def)
    with ok(2) show ?thesis by (auto simp: vm_area_mprotect_def reprot_def)
  qed
qed

section \<open>Properties\<close>

text \<open>
  C1. Correctness of \<open>mmap\<close>, on every one of its paths (with and without hint,
  with and without \<open>MAP_FIXED\<close>).  From a well-formed list and for a positive
  length, a call either fails with -1 and changes nothing, or it keeps the list
  well formed; the mapped range \<open>[m, m + length)\<close>, the length rounded to whole
  pages, was free and lies in the mmap area; afterwards exactly that range has
  the requested protection and every other address keeps its own; the list grows
  only below the limit of 128 areas.  The returned address is \<open>m\<close> except on one
  path, where it is the start of the last area.  With \<open>MAP_FIXED\<close> and an aligned
  address the range is the requested one.
\<close>

theorem vm_area_map_correct:
  assumes "vma_wf MMAP_AREA_START (vm_areas current)" "0 < len" "len \<le> 2 ^ 31 - 4096"
    and "vm_area_map s current addr len prot flags = (ret, current', s')"
  shows "ret = -1 \<and> current' = current \<and> s' = s \<or>
         (\<exists>m d. placed_at prot (nat (round_length len)) (length (vm_areas current)) MMAP_AREA_START
                  (vm_areas current) (vm_areas current') m d \<and>
                num_vm_area s' = num_vm_area (count_areas d s) \<and>
                (ret = int m \<or>
                 m = addr \<and> vm_areas current \<noteq> [] \<and> addr = vm_end (last (vm_areas current)) \<and>
                 access_flags (last (vm_areas current)) = prot \<and>
                 ret = int (vm_start (last (vm_areas current)))) \<and>
                (flags AND 1 \<noteq> 0 \<and> addr \<noteq> 0 \<and> addr mod 4096 = 0 \<longrightarrow> m = addr))"
proof (cases "ret = -1")
  case True
  with assms(4) vm_area_map_fail show ?thesis by blast
next
  case False
  obtain m d where md: "placed_at prot (nat (round_length len)) (length (vm_areas current)) MMAP_AREA_START
      (vm_areas current) (vm_areas current') m d" "num_vm_area s' = num_vm_area (count_areas d s)"
    and ret: "ret = int m \<or> m = addr \<and> vm_areas current \<noteq> [] \<and> addr = vm_end (last (vm_areas current)) \<and>
        access_flags (last (vm_areas current)) = prot \<and> ret = int (vm_start (last (vm_areas current)))"
    using vm_area_map_effect [OF assms(1-4) False] by blast
  have "m = addr" if f: "flags AND 1 \<noteq> 0" "addr \<noteq> 0" "addr mod 4096 = 0"
  proof -
    obtain vs r d' where v: "vm_area_place addr len prot True (vm_areas current) = VDone vs r d'"
      "ret = int r"
      using assms(4) False f(1) by (auto simp: vm_area_map_def Let_def split: vres.splits)
    from vm_area_place_fixed [OF assms(1-3) f(2,3) v(1)] show ?thesis
    proof
      assume "r = addr"
      with ret v(2) show ?thesis by auto
    next
      assume last: "vm_areas current \<noteq> [] \<and> addr = vm_end (last (vm_areas current)) \<and>
          r = vm_start (last (vm_areas current))"
      with ret v(2) consider "m = addr" | "m = vm_start (last (vm_areas current))" by auto
      then show ?thesis
        using placed_at_not_last_start [OF assms(1) md(1)] last range_end(2) [OF assms(2,3), of 0]
        by auto
    qed
  qed
  with md ret show ?thesis by (intro disjI2 exI [of _ m] exI [of _ d]) simp
qed

theorem vm_area_map_correct_witness:
  "\<exists>c s'. vm_area_map boot_mem zero_ctx 0x180300000 5000 3 1 = (0x180300000, c, s') \<and>
          prot_at (vm_areas c) 0x180301fff = Some 3 \<and> prot_at (vm_areas c) 0x180302000 = None"
proof -
  obtain c s' where v: "vm_area_map boot_mem zero_ctx 0x180300000 5000 3 1 = (0x180300000, c, s')"
    by (simp add: vm_area_map_def vm_area_place_def map_hint_def Let_def round_length_def
        s32_def ext64_def add64_def zero_ctx_def)
  have r: "nat (round_length 5000) = 8192" by (simp add: round_length_def s32_def)
  have z: "vm_areas zero_ctx = []" by (simp add: zero_ctx_def)
  from vm_area_map_correct [OF _ _ _ v] have "prot_at (vm_areas c) 0x180301fff = Some 3"
    "prot_at (vm_areas c) 0x180302000 = None"
    by (auto simp: r z placed_at_def)
  with v show ?thesis by blast
qed

text \<open>
  C9. Correctness of \<open>munmap\<close>.  For a range in the mmap area, a call that returns 0
  on a well-formed list leaves a well-formed list in which exactly the addresses
  of the range (its length rounded to whole pages) have lost their mapping; the
  list is no longer than 128 areas if it was before, and no page of the range
  has a page-table entry any more.
\<close>

theorem vm_area_unmap_correct:
  assumes "vma_wf MMAP_AREA_START (vm_areas current)" "vm_areas current \<noteq> []"
    and "0 < len" "len \<le> 2 ^ 31 - 4096" "addr < 2 ^ 40"
    and "vm_area_unmap s current addr len = (0, current', s')"
    and "e = addr + nat (round_length len)"
  shows "vma_wf MMAP_AREA_START (vm_areas current') \<and>
         (\<forall>a. prot_at (vm_areas current') a =
                (if addr \<le> a \<and> a < e then None else prot_at (vm_areas current) a)) \<and>
         (length (vm_areas current) \<le> 128 \<longrightarrow> length (vm_areas current') \<le> 128) \<and>
         (\<forall>k. addr + k * 4096 < e \<longrightarrow> get_pte s' (pgd current) (addr + k * 4096) = None)"
proof -
  have "get_pte s' (pgd current) (addr + k * 4096) = None" if "addr + k * 4096 < e" for k
    using vm_area_unmap_ptes [OF assms(3-5,2,6)] that assms(7) by simp
  with vm_area_unmap_effect [OF assms(1,3-5,6,7)] show ?thesis by auto
qed

definition one_area_ctx :: exec_context where
  "one_area_ctx = zero_ctx\<lparr>pgd := 1,
     vm_areas := [\<lparr>vm_start = 0x180200000, vm_end = 0x180204000, access_flags = 3\<rparr>]\<rparr>"

lemma one_area_ctx_sel [simp]:
  "vm_areas one_area_ctx = [\<lparr>vm_start = 0x180200000, vm_end = 0x180204000, access_flags = 3\<rparr>]"
  "pgd one_area_ctx = 1"
  by (simp_all add: one_area_ctx_def zero_ctx_def)

theorem vm_area_unmap_correct_witness:
  "prot_at (vm_areas (fst (snd (vm_area_unmap boot_mem one_area_ctx 0x180201000 4096)))) 0x180201800 = None"
proof -
  have scan: "unmap_scan 0x180201000 0x180202000 (Suc 0) (vm_areas one_area_ctx) =
      Some ([\<lparr>vm_start = 0x180200000, vm_end = 0x180201000, access_flags = 3\<rparr>,
             \<lparr>vm_start = 0x180202000, vm_end = 0x180204000, access_flags = 3\<rparr>], 1)"
    by simp
  have r: "round_length 4096 = 4096" by (simp add: round_length_def)
  let ?r = "vm_area_unmap boot_mem one_area_ctx 0x180201000 4096"
  have "fst ?r = 0"
    using scan by (simp add: vm_area_unmap_def r ext64_def add64_def)
  then have eq: "?r = (0, fst (snd ?r), snd (snd ?r))" by (metis prod.collapse)
  have "\<forall>a. prot_at (vm_areas (fst (snd ?r))) a =
      (if 0x180201000 \<le> a \<and> a < 0x180202000 then None else prot_at (vm_areas one_area_ctx) a)"
    using vm_area_unmap_correct [OF _ _ _ _ _ eq refl] by (simp add: r)
  then show ?thesis by simp
qed

text \<open>
  C10. Correctness of \<open>mprotect\<close> on the list of areas.  On a well-formed list and
  for a positive length the handler does not fault; if it returns 0 the list is
  well formed again, every mapped address of the range has the new protection,
  every other address keeps its own, and no mapping appears or disappears.
\<close>

theorem vm_area_mprotect_correct:
  assumes "vma_wf MMAP_AREA_START (vm_areas current)"
    and "0 < len" "len \<le> 2 ^ 31 - 4096" "addr < 2 ^ 40"
    and "e = addr + nat (round_length len)"
  shows "\<exists>ret current' s'.
           vm_area_mprotect s current addr len prot = Some (ret, current', s') \<and>
           (ret = -1 \<and> current' = current \<and> s' = s \<or>
            ret = 0 \<and> vma_wf MMAP_AREA_START (vm_areas current') \<and>
            (\<forall>a. prot_at (vm_areas current') a =
                   (if addr \<le> a \<and> a < e \<and> prot_at (vm_areas current) a \<noteq> None then Some prot
                    else prot_at (vm_areas current) a)))"
  using vm_area_mprotect_effect [OF assms] by fastforce

theorem vm_area_mprotect_correct_witness:
  "\<exists>current' s'. vm_area_mprotect boot_mem one_area_ctx 0x180201000 4096 1 = Some (0, current', s') \<and>
     prot_at (vm_areas current') 0x180201800 = Some 1 \<and>
     prot_at (vm_areas current') 0x180203000 = Some 3"
proof -
  have r: "round_length 4096 = 4096" by (simp add: round_length_def)
  have "vm_area_protect 0x180201000 4096 1 (vm_areas one_area_ctx) \<noteq> MFail"
    by (simp add: vm_area_protect_def Let_def r ext64_def add64_def limit_check_def split: prod.split)
  then have "\<forall>c s'. vm_area_mprotect boot_mem one_area_ctx 0x180201000 4096 1 \<noteq> Some (-1, c, s')"
    by (auto simp: vm_area_mprotect_def split: mres.split)
  then show ?thesis
    using vm_area_mprotect_correct [of one_area_ctx 4096 "0x180201000" _ boot_mem 1, OF _ _ _ _ refl]
    by (fastforce simp: r)
qed

text \<open>
  C25. The page tables after \<open>mprotect\<close>.  The last loop of the handler calls
  \<open>change_permissions\<close> with the start of the range in every round.  Therefore, whatever
  the length of the range and whatever the tables look like, every word of memory
  except the entry of the first page keeps its value, so every other page keeps its
  permission bits; and every address is translated through the same entry as before.
\<close>

theorem vm_area_mprotect_first_page_only:
  assumes "vm_area_mprotect s current addr len prot = Some (ret, current', s')"
  shows "(\<forall>q. get_pte s (pgd current) addr \<noteq> Some q \<longrightarrow> rd s' q = rd s q) \<and>
         (\<forall>a. get_pte s' (pgd current) a = get_pte s (pgd current) a)"
proof -
  have ph: "get_pte (count_areas d s) b x = get_pte s b x" "rd (count_areas d s) = rd s" for b x d
    by (rule get_pte_cong, simp) (simp add: rd_def fun_eq_iff)
  show ?thesis
    using assms
    by (auto simp: vm_area_mprotect_def ph fold_change_permissions_get_pte
        fold_change_permissions_other split: mres.splits)
qed

text \<open>Two mapped pages, both writable.\<close>

definition two_page_mem :: kmem where
  "two_page_mem = boot_mem\<lparr>phys := (\<lambda>f i.
      if f = 1 \<and> i = 0 then mk_pte 2 7 else if f = 2 \<and> i = 6 then mk_pte 3 7
      else if f = 3 \<and> i = 1 then mk_pte 4 7 else if f = 4 \<and> i = 0 then mk_pte 50 7
      else if f = 4 \<and> i = 1 then mk_pte 51 7 else 0), refcount := (\<lambda>_. 1)\<rparr>"

lemma two_page_mem_pte:
  "get_pte two_page_mem 1 0x180201000 = Some (4, 1)" "rd two_page_mem (4, 1) = mk_pte 51 7"
  by (simp_all add: get_pte_def walk_pmd_eq_walk walk_def rd_def two_page_mem_def pte_simps Let_def)

theorem vm_area_mprotect_first_page_only_witness:
  "\<exists>c s'. vm_area_mprotect two_page_mem one_area_ctx 0x180200000 0x4000 1 = Some (0, c, s') \<and>
          prot_at (vm_areas c) 0x180201000 = Some 1 \<and> rd s' (4, 1) = mk_pte 51 7"
proof -
  have r: "round_length 0x4000 = 0x4000" by (simp add: round_length_def)
  obtain c s' where m: "vm_area_mprotect two_page_mem one_area_ctx 0x180200000 0x4000 1 = Some (0, c, s')"
    "vm_areas c = [\<lparr>vm_start = 0x180200000, vm_end = 0x180204000, access_flags = 1\<rparr>]"
    by (simp add: vm_area_mprotect_def vm_area_protect_def Let_def r ext64_def add64_def limit_check_def
        set_prot_def)
  have "rd s' (4, 1) = rd two_page_mem (4, 1)"
    using vm_area_mprotect_first_page_only [OF m(1)] get_pte_SomeD [of two_page_mem _ "0x180200000" "(4, 1)"]
    by (auto simp: pte_simps)
  with m show ?thesis by (simp add: two_page_mem_pte del: One_nat_def)
qed


text \<open>A kernel after boot with one page table, empty, for the process.\<close>

definition pt_mem :: kmem where
  "pt_mem = snd (os_pfn_alloc OS_PT_REG boot_mem)"

definition pt_base :: nat where
  "pt_base = fst (os_pfn_alloc OS_PT_REG boot_mem)"

lemma boot_mem_spare: "spare 4 (pglists boot_mem OS_PT_REG)"
  "free_pages (pglists boot_mem OS_PT_REG) = 0x43ff"
  by (simp_all add: spare_def boot_mem_def init_pagelists_def init_pagelist_def pgl_bmap_set_def bit_1_iff)

lemma pt_mem_props: "kmem_ok pt_mem" "pt_room 3 pt_mem" "path_ok pt_mem pt_base addr"
proof -
  have "pt_room (Suc 3) boot_mem" using boot_mem_spare by (intro spare_pt_room) auto
  then have r: "room OS_PT_REG boot_mem" and "pt_room 3 pt_mem"
    unfolding pt_mem_def pt_room.simps by blast+
  then show "pt_room 3 pt_mem" by simp
  note fr = os_pfn_alloc_fresh [OF boot_mem_ok r prod.collapse [symmetric], folded pt_mem_def pt_base_def]
  then show "kmem_ok pt_mem" by simp
  have "rd pt_mem (pt_base, j) = 0" for j
    using phys_os_pt_alloc [OF r] by (simp add: pt_mem_def pt_base_def rd_def)
  then show "path_ok pt_mem pt_base addr"
    using fr by (auto simp: path_ok_def intro!: path_from_blank)
qed


end
