(* ===== verification/CFork.thy ===== *)
theory CFork
  imports MapPage Mmap
begin

text \<open>
  Copying an address space: \<open>copy_mm\<close> and \<open>copy_os_pts\<close> of
  src/Assignment3/Ass3/src/context.c, \<open>cfork_copy_mm\<close>, \<open>vfork_copy_mm\<close>,
  \<open>handle_cow_fault\<close> and \<open>vfork_exit_handle\<close> of cfork.c.  \<open>None\<close> is a write through a
  null pointer.  The copy of a context shares the list of areas in \<open>fork\<close> and
  \<open>vfork\<close>; the model copies its value, so it describes the two lists up to the
  first later call that changes one of them.
\<close>

section \<open>Definitions\<close>

primrec ofold :: "('a \<Rightarrow> 's \<Rightarrow> 's option) \<Rightarrow> 'a list \<Rightarrow> 's \<Rightarrow> 's option" where
  "ofold f [] s = Some s"
| "ofold f (x # xs) s = (case f x s of None \<Rightarrow> None | Some s' \<Rightarrow> ofold f xs s')"

text \<open>
  The addresses of \<open>for(vaddr = hi; vaddr >= lo; vaddr -= PAGE_SIZE)\<close>, and the value
  of \<open>vaddr\<close> after that loop.  The lowest stack address is far above 4096, so the
  subtraction does not wrap.
\<close>

function pages_down :: "nat \<Rightarrow> nat \<Rightarrow> nat list" where
  "pages_down hi lo = (if lo \<le> hi \<and> 4096 \<le> hi then hi # pages_down (hi - 4096) lo else [])"
  by pat_completeness auto
termination by (relation "measure fst") auto

function below :: "nat \<Rightarrow> nat \<Rightarrow> nat" where
  "below hi lo = (if lo \<le> hi \<and> 4096 \<le> hi then below (hi - 4096) lo else hi)"
  by pat_completeness auto
termination by (relation "measure fst") auto

declare pages_down.simps [simp del] below.simps [simp del]

text \<open>\<open>memcpy\<close> of a page and \<open>bzero\<close> of a page.\<close>

definition copy_frame :: "nat \<Rightarrow> nat \<Rightarrow> kmem \<Rightarrow> kmem" where
  "copy_frame dst src s = s\<lparr>phys := (phys s)(dst := phys s src)\<rparr>"

definition zero_frame :: "nat \<Rightarrow> kmem \<Rightarrow> kmem" where
  "zero_frame f s = s\<lparr>phys := (phys s)(f := (\<lambda>_. 0))\<rparr>"

definition copy_os_pts :: "nat \<Rightarrow> nat \<Rightarrow> kmem \<Rightarrow> kmem" where
  "copy_os_pts src dst s =
     (if rd s (src, 0) = 0 \<or> rd s (dst, 0) = 0 then s
      else let src' = pte_frame (rd s (src, 0)); dst' = pte_frame (rd s (dst, 0))
           in fold (\<lambda>i t. wr t (dst', i) (rd t (src', i))) [0..<4] s)"

text \<open>
  One page of the loops of \<open>cfork_copy_mm\<close>: the page becomes read-only in the parent,
  the child gets the same entry, and the frame one more reference.
\<close>

definition share_page :: "nat \<Rightarrow> nat \<Rightarrow> mm_segment \<Rightarrow> nat \<Rightarrow> kmem \<Rightarrow> kmem option" where
  "share_page child parent seg vaddr s =
     (case get_user_pte s parent vaddr of
        None \<Rightarrow> Some s
      | Some p \<Rightarrow>
          (let s1 = wr s p (push_bit 2 (drop_bit 2 (rd s p)) OR 1);
               s2 = snd (install_ptable s1 child seg vaddr (pte_frame (rd s1 p)))
           in case get_user_pte s2 child vaddr of
                None \<Rightarrow> None
              | Some q \<Rightarrow>
                  (let s3 = wr s2 q (rd s2 p)
                   in Some (increment_pfn_info_refcount (pte_pfn (rd s3 p)) s3))))"

text \<open>One page that is copied into a new frame.\<close>

definition copy_page :: "nat \<Rightarrow> nat \<Rightarrow> mm_segment \<Rightarrow> nat \<Rightarrow> kmem \<Rightarrow> kmem" where
  "copy_page child parent seg vaddr s =
     (case get_user_pte s parent vaddr of
        None \<Rightarrow> s
      | Some p \<Rightarrow>
          (let (pfn, s1) = install_ptable s child seg vaddr 0
           in copy_frame pfn (pte_frame (rd s1 p)) s1))"

text \<open>One page of \<open>copy_mm\<close> that is shared without a reference count.\<close>

definition link_page :: "nat \<Rightarrow> nat \<Rightarrow> mm_segment \<Rightarrow> nat \<Rightarrow> kmem \<Rightarrow> kmem" where
  "link_page child parent seg vaddr s =
     (case get_user_pte s parent vaddr of
        None \<Rightarrow> s
      | Some p \<Rightarrow> snd (install_ptable s child seg vaddr (pte_frame (rd s p))))"

definition seg_pages :: "mm_segment \<Rightarrow> nat list" where
  "seg_pages seg = pages (seg_start seg) (next_free seg)"

definition stack_pages :: "mm_segment \<Rightarrow> nat list" where
  "stack_pages seg = pages_down (seg_end seg - 4096) (next_free seg)"

definition copy_areas :: "vm_area list \<Rightarrow> vm_area list" where
  "copy_areas vs =
     map (\<lambda>v. \<lparr>vm_start = vm_start v, vm_end = vm_end v, access_flags = access_flags v\<rparr>) vs"

definition cfork_copy_mm ::
  "kmem \<Rightarrow> exec_context \<Rightarrow> exec_context \<Rightarrow> (exec_context \<times> kmem) option" where
  "cfork_copy_mm s child parent =
     (let s1 = count_areas (int (length (vm_areas parent))) s;
          (cpgd, s2) = os_pfn_alloc OS_PT_REG s1;
          s3 = zero_frame cpgd s2;
          share = share_page cpgd (pgd parent);
          code = mms child MM_SEG_CODE; rodata = mms child MM_SEG_RODATA;
          data = mms child MM_SEG_DATA; stack = mms child MM_SEG_STACK
      in case ofold (share code) (seg_pages code) s3 of None \<Rightarrow> None | Some s4 \<Rightarrow>
         (case ofold (share rodata) (seg_pages rodata) s4 of None \<Rightarrow> None | Some s5 \<Rightarrow>
          (case ofold (share data) (seg_pages data) s5 of None \<Rightarrow> None | Some s6 \<Rightarrow>
           (let s7 = fold (copy_page cpgd (pgd parent) stack) (stack_pages stack) s6
            in case ofold (\<lambda>v. ofold (share stack) (pages (vm_start v) (vm_end v)))
                      (vm_areas parent) s7 of None \<Rightarrow> None | Some s8 \<Rightarrow>
               Some (child\<lparr>vm_areas := copy_areas (vm_areas parent), pgd := cpgd\<rparr>,
                     copy_os_pts (pgd parent) cpgd s8)))))"

definition copy_mm :: "kmem \<Rightarrow> exec_context \<Rightarrow> exec_context \<Rightarrow> exec_context \<times> kmem" where
  "copy_mm s child parent =
     (let (cpgd, s1) = os_pfn_alloc OS_PT_REG s;
          s2 = zero_frame cpgd s1;
          code = mms parent MM_SEG_CODE; rodata = mms parent MM_SEG_RODATA;
          data = mms parent MM_SEG_DATA; stack = mms parent MM_SEG_STACK;
          s3 = fold (link_page cpgd (pgd parent) code) (seg_pages code) s2;
          s4 = fold (link_page cpgd (pgd parent) rodata) (seg_pages rodata) s3;
          s5 = fold (copy_page cpgd (pgd parent) data) (seg_pages data) s4;
          s6 = fold (copy_page cpgd (pgd parent) stack) (stack_pages stack) s5
      in (child\<lparr>pgd := cpgd\<rparr>, copy_os_pts (pgd parent) cpgd s6))"

text \<open>
  \<open>vfork_copy_mm\<close>: the child runs on the parent's page tables with its stack moved
  down by \<open>offset\<close>.  The result is the child, the parent and the memory.
\<close>

definition stack_offset :: "mm_segment \<Rightarrow> nat" where
  "stack_offset seg = seg_end seg - below (seg_end seg - 4096) (next_free seg)"

definition move_page :: "nat \<Rightarrow> nat \<Rightarrow> mm_segment \<Rightarrow> nat \<Rightarrow> nat \<Rightarrow> kmem \<Rightarrow> kmem" where
  "move_page child parent seg offset vaddr s =
     (case get_user_pte s parent vaddr of
        None \<Rightarrow> s
      | Some p \<Rightarrow>
          (case get_user_pte s child (sub64 vaddr offset) of
             Some q \<Rightarrow> copy_frame (pte_frame (rd s q)) (pte_frame (rd s p)) s
           | None \<Rightarrow>
               (let (pfn, s1) = install_ptable s child seg (sub64 vaddr offset) 0
                in copy_frame pfn (pte_frame (rd s1 p)) s1)))"

definition vfork_copy_mm ::
  "kmem \<Rightarrow> exec_context \<Rightarrow> exec_context \<Rightarrow> exec_context \<times> exec_context \<times> kmem" where
  "vfork_copy_mm s child parent =
     (let parent' = parent\<lparr>ctx_state := WAITING\<rparr>;
          seg = mms child MM_SEG_STACK;
          offset = stack_offset seg;
          s1 = fold (move_page (pgd child) (pgd parent) seg offset) (stack_pages seg) s;
          child' = child\<lparr>regs := (regs child)\<lparr>entry_rsp := entry_rsp (regs parent) - of_nat offset,
                                               rbp := rbp (regs parent) - of_nat offset\<rparr>,
                         mms := (mms child)(MM_SEG_STACK := seg\<lparr>next_free := sub64 (next_free seg) offset\<rparr>)\<rparr>
      in (child', parent', s1))"

definition cow_in_area :: "nat \<Rightarrow> vm_area list \<Rightarrow> bool" where
  "cow_in_area cr2 vs = list_ex (\<lambda>v. cr2 \<ge> vm_start v \<and> cr2 < vm_end v) vs"

definition cow_in_data :: "nat \<Rightarrow> mm_segment \<Rightarrow> bool" where
  "cow_in_data cr2 seg = list_ex (\<lambda>vaddr. cr2 \<ge> vaddr \<and> cr2 < vaddr + 4096) (seg_pages seg)"

definition handle_cow_fault :: "kmem \<Rightarrow> exec_context \<Rightarrow> nat \<Rightarrow> (int \<times> kmem) option" where
  "handle_cow_fault s current cr2 =
     (if \<not> cow_in_area cr2 (vm_areas current) \<and> \<not> cow_in_data cr2 (mms current MM_SEG_DATA)
      then Some (-1, s)
      else if \<not> fault_writable cr2 (vm_areas current) then Some (-1, s)
      else case get_user_pte s (pgd current) cr2 of
        None \<Rightarrow> None
      | Some p \<Rightarrow>
          (let pfn = pte_pfn (rd s p)
           in if get_pfn_info_refcount pfn s = 1
              then Some (1, wr s p (push_bit 2 (drop_bit 2 (rd s p)) OR 3))
              else let s1 = decrement_pfn_info_refcount pfn s;
                       (new, s2) = os_pfn_alloc USER_REG s1;
                       s3 = copy_frame new (pte_frame (rd s2 p)) s2
                   in Some (1, wr s3 p (mk_pte new 7))))"

text \<open>\<open>vfork_exit_handle\<close> on the parent's context.\<close>

definition vfork_exit_handle :: "exec_context \<Rightarrow> exec_context \<Rightarrow> exec_context" where
  "vfork_exit_handle ctx parent =
     (if pgd parent \<noteq> pgd ctx then parent
      else parent\<lparr>ctx_state := READY,
                  mms := (mms parent)(MM_SEG_DATA := mms ctx MM_SEG_DATA),
                  vm_areas := vm_areas ctx\<rparr>)"

section \<open>Lemmas\<close>

subsection \<open>The flag bits of a shared entry\<close>

text \<open>\<open>((e >> 2) << 2) | b\<close> for \<open>b < 4\<close> replaces the two low bits by \<open>b\<close>.\<close>

lemma low2_bits:
  assumes "b < (4 :: u64)"
  shows "bit (push_bit 2 (drop_bit 2 e) OR b) n = (if n < 2 then bit b n else bit (e :: u64) n)"
proof -
  have "unat b < 2 ^ 2" using assms by (simp add: word_less_nat_alt)
  then have "2 \<le> n \<Longrightarrow> \<not> bit b n" using nat_high_clear [of "unat b" 2 n] by (simp add: bit_unsigned_iff)
  moreover have "2 \<le> n \<Longrightarrow> Suc (Suc (n - 2)) = n" by simp
  ultimately show ?thesis
    by (cases "n < 2")
      (auto simp: bit_or_iff bit_push_bit_iff bit_drop_bit_eq not_less dest: bit_imp_le_length)
qed

lemma low2_fields:
  assumes "b < (4 :: u64)"
  shows "pte_pfn (push_bit 2 (drop_bit 2 e) OR b) = pte_pfn e"
    "pte_frame (push_bit 2 (drop_bit 2 e) OR b) = pte_frame e"
    "(push_bit 2 (drop_bit 2 e) OR b) AND 4 = e AND 4"
    "(push_bit 2 (drop_bit 2 e) OR b) AND 1 = b AND 1"
    "(push_bit 2 (drop_bit 2 e) OR b) AND 2 = b AND 2"
proof -
  let ?v = "push_bit 2 (drop_bit 2 e) OR b"
  note b = low2_bits [OF assms, of e]
  have "drop_bit 12 ?v = drop_bit 12 e"
    by (rule bit_eqI) (simp add: bit_drop_bit_eq b del: drop_bit_or)
  then show "pte_pfn ?v = pte_pfn e" by (simp add: pte_pfn_def)
  have "\<not> bit (0x3ffffffff000 :: u64) n" if "n < 2" for n
    using that by (cases n) (auto simp: bit_numeral_rec less_Suc_eq)
  then have "?v AND 0x3ffffffff000 = e AND 0x3ffffffff000"
    by (intro bit_eqI) (simp add: bit_and_iff b)
  then show "pte_frame ?v = pte_frame e" by (simp add: pte_frame_def)
  have "(4 :: u64) = push_bit 2 1" by simp
  then have "bit (4 :: u64) n \<Longrightarrow> \<not> n < 2" for n by (simp only: bit_push_bit_iff) auto
  then show "?v AND 4 = e AND 4" by (intro bit_eqI) (auto simp: bit_and_iff b)
  have "bit (2 :: u64) n \<Longrightarrow> n < 2" for n by (auto simp: bit_2_iff)
  then show "?v AND 2 = b AND 2" by (intro bit_eqI) (auto simp: bit_and_iff b)
  show "?v AND 1 = b AND 1" by (rule bit_eqI) (auto simp: bit_and_iff b bit_1_iff)
qed

subsection \<open>Frames of different regions\<close>

definition region_frames :: "region \<Rightarrow> kmem \<Rightarrow> nat set" where
  "region_frames r s = (\<lambda>i. first_pfn r s + i) ` {..<pl_size (pglists s r)}"

definition regions_apart :: "kmem \<Rightarrow> bool" where
  "regions_apart s \<longleftrightarrow> region_frames OS_PT_REG s \<inter> region_frames USER_REG s = {}"

lemma used_in_region: "used_frames r s \<subseteq> region_frames r s"
  by (auto simp: used_frames_def region_frames_def in_use_def)

lemma region_frames_alloc: "region_frames r (snd (os_pfn_alloc r' s)) = region_frames r s"
  by (simp add: region_frames_def pglists_os_pfn_alloc get_free_page_eq)

lemma user_alloc_not_table:
  assumes "kmem_ok s" "regions_apart s" "room USER_REG s" "x \<in> used_frames OS_PT_REG s"
  shows "fst (os_pfn_alloc USER_REG s) \<noteq> x"
proof -
  have "fst (os_pfn_alloc USER_REG s) \<in> used_frames USER_REG (snd (os_pfn_alloc USER_REG s))"
    using os_pfn_alloc_fresh [OF assms(1,3) prod.collapse [symmetric]] by auto
  then have "fst (os_pfn_alloc USER_REG s) \<in> region_frames USER_REG s"
    using used_in_region [of USER_REG] region_frames_alloc by blast
  then show ?thesis using assms(2,4) used_in_region [of OS_PT_REG s] by (auto simp: regions_apart_def)
qed

lemma region_frames_wr [simp]: "region_frames r (wr s p v) = region_frames r s"
  by (simp add: region_frames_def)

lemma region_frames_next_table: "region_frames r (snd (next_table s p)) = region_frames r s"
proof (cases "rd s p = 0")
  case True
  obtain pfn s1 where a: "os_pfn_alloc OS_PT_REG s = (pfn, s1)" by fastforce
  have "region_frames r s1 = region_frames r s" using region_frames_alloc [of r OS_PT_REG s] a by simp
  with True a show ?thesis by (simp add: next_table_def Let_def region_frames_def)
qed (simp add: next_table_def)

lemma region_frames_tables_alloc: "region_frames r (snd (tables_alloc s t is)) = region_frames r s"
proof (induction "is" arbitrary: s t)
  case (Cons i "is")
  obtain q s1 where n: "next_table s (t, i) = (q, s1)" by fastforce
  with Cons [of s1 q] region_frames_next_table [of r s "(t, i)"] show ?case by simp
qed simp

lemma region_frames_map_page:
  "upfn \<noteq> 0 \<Longrightarrow> region_frames r (snd (map_physical_page s base a access upfn)) = region_frames r s"
  using region_frames_tables_alloc [of r s base "levels a"]
  by (cases "tables_alloc s base (levels a)") (simp add: map_physical_page_tables Let_def)

subsection \<open>The checks of the copy-on-write fault\<close>

lemma cow_in_area_iff: "cow_in_area cr2 vs \<longleftrightarrow> prot_at vs cr2 \<noteq> None"
  by (induction vs) (auto simp: cow_in_area_def)

lemma cow_in_data_iff:
  assumes "seg_start seg \<le> next_free seg" "(next_free seg - seg_start seg) mod 4096 = 0"
  shows "cow_in_data cr2 seg \<longleftrightarrow> seg_start seg \<le> cr2 \<and> cr2 < next_free seg"
proof
  assume "cow_in_data cr2 seg"
  then obtain k where k: "seg_start seg + k * 4096 < next_free seg"
    "seg_start seg + k * 4096 \<le> cr2" "cr2 < seg_start seg + k * 4096 + 4096"
    by (auto simp: cow_in_data_def list_ex_iff seg_pages_def pages_iff)
  obtain m where m: "next_free seg - seg_start seg = m * 4096" using assms(2) by (auto elim: dvdE)
  with k(1) have "k < m" by simp
  then have "(k + 1) * 4096 \<le> m * 4096" by simp
  with k m assms(1) show "seg_start seg \<le> cr2 \<and> cr2 < next_free seg" by simp
next
  assume c: "seg_start seg \<le> cr2 \<and> cr2 < next_free seg"
  let ?k = "(cr2 - seg_start seg) div 4096"
  have "?k * 4096 \<le> cr2 - seg_start seg" "cr2 - seg_start seg < ?k * 4096 + 4096" by simp_all
  with c have "seg_start seg + ?k * 4096 \<le> cr2" "cr2 < seg_start seg + ?k * 4096 + 4096" by linarith+
  then show "cow_in_data cr2 seg"
    using c by (auto simp: cow_in_data_def list_ex_iff seg_pages_def pages_iff
        intro!: bexI [of _ "seg_start seg + ?k * 4096"])
qed

definition cow_allowed :: "exec_context \<Rightarrow> nat \<Rightarrow> bool" where
  "cow_allowed current cr2 \<longleftrightarrow>
     (case prot_at (vm_areas current) cr2 of
        Some prot \<Rightarrow> prot AND 2 \<noteq> 0
      | None \<Rightarrow> seg_start (mms current MM_SEG_DATA) \<le> cr2 \<and> cr2 < next_free (mms current MM_SEG_DATA))"

definition data_aligned :: "exec_context \<Rightarrow> bool" where
  "data_aligned c \<longleftrightarrow>
     (let seg = mms c MM_SEG_DATA
      in seg_start seg \<le> next_free seg \<and> (next_free seg - seg_start seg) mod 4096 = 0)"

lemma cow_checks:
  assumes "vma_wf MMAP_AREA_START (vm_areas current)" "data_aligned current"
  shows "(\<not> (\<not> cow_in_area cr2 (vm_areas current) \<and> \<not> cow_in_data cr2 (mms current MM_SEG_DATA)) \<and>
          fault_writable cr2 (vm_areas current)) = cow_allowed current cr2"
  using fault_writable_iff [OF assms(1), of cr2] assms(2)
  by (auto simp: cow_allowed_def cow_in_area_iff cow_in_data_iff data_aligned_def Let_def
      split: option.splits)

text \<open>The memory after the copy of a shared frame \<open>f\<close> for the entry in table \<open>pt\<close>.\<close>

lemma cow_copy:
  assumes ok: "kmem_ok s" "regions_apart s" "room USER_REG s" "f \<in> used_frames USER_REG s"
    and path: "path_from s base {} (levels a)" "resolve s base (levels a) = Some pt"
    and step: "os_pfn_alloc USER_REG (decrement_pfn_info_refcount f s) = (f', s2)"
      "s' = wr (copy_frame f' f s2) (pt, pte_index a) (mk_pte f' 7)"
  shows "get_pte s' base a = Some (pt, pte_index a) \<and>
         f' \<notin> used_frames USER_REG s \<and> f' \<in> used_frames USER_REG s' \<and> phys s2 = phys s \<and>
         phys s' f' = phys s f \<and> refcount s' = (refcount s)(f := refcount s f - 1, f' := 1) \<and>
         (\<forall>x. x \<noteq> pt \<and> x \<noteq> f' \<longrightarrow> phys s' x = phys s x)"
proof -
  let ?s1 = "decrement_pfn_info_refcount f s" and ?s3 = "copy_frame f' f s2"
  have s1: "pglists ?s1 = pglists s" "phys ?s1 = phys s" "refcount ?s1 = (refcount s)(f := refcount s f - 1)"
    by (simp_all add: decrement_pfn_info_refcount_def)
  have k1: "kmem_ok ?s1" "room USER_REG ?s1" using ok s1 by (simp_all add: kmem_ok_def room_def)
  have fr: "f' \<notin> used_frames USER_REG s" "used_frames USER_REG s2 = insert f' (used_frames USER_REG s)"
    using os_pfn_alloc_fresh [OF k1 step(1)] used_frames_cong [of ?s1 s] s1 by auto
  have ra: "regions_apart ?s1" using ok(2) s1 by (simp add: regions_apart_def region_frames_def)
  have nt: "f' \<notin> used_frames OS_PT_REG s"
    using user_alloc_not_table [OF k1(1) ra k1(2)] step(1) used_frames_cong [of ?s1 s] s1 by fastforce
  have ph2: "phys s2 = phys s" using step(1) os_pfn_alloc_sel(3) [of ?s1] s1 by simp
  have ff: "f' \<noteq> f" using fr(1) ok(4) by auto
  have rc2: "refcount s2 = (refcount s)(f := refcount s f - 1, f' := 1)"
    using step(1) k1(2) s1 by (auto simp: os_pfn_alloc_def room_def set_pfn_info_def Let_def split: prod.splits)
  have keep: "\<forall>x \<in> path_set s base (levels a). phys ?s3 x = phys s x"
    using path_from_set_used [OF path(1)] nt ph2 by (auto simp: copy_frame_def)
  have pg: "pglists ?s3 OS_PT_REG = pglists s OS_PT_REG"
    using step(1) pglists_os_pfn_alloc [of USER_REG ?s1] s1 by (simp add: copy_frame_def)
  have "path_from ?s3 base {} (levels a)" "resolve ?s3 base (levels a) = Some pt"
    using path_cong(1) [OF keep pg] resolve_cong [OF keep] path by simp_all
  then have "get_pte s' base a = Some (pt, pte_index a)"
    unfolding step(2) by (intro get_pte_wr_last) (simp_all add: mk_pte_and)
  moreover have "pt \<noteq> f'" using resolve_in_path_set [OF path(2)] path_from_set_used [OF path(1)] nt by auto
  moreover have "f' \<in> used_frames USER_REG s'"
    using fr(2) by (simp add: used_frames_def step(2) copy_frame_def)
  ultimately show ?thesis
    using ph2 ff rc2 fr(1) by (simp add: step(2) wr_def copy_frame_def)
qed

lemma below_stack:
  assumes "4096 \<le> lo"
  shows "below (lo + k * 4096 - 4096) lo = lo - 4096"
proof (induction k)
  case 0
  have "\<not> lo \<le> lo - 4096" using assms by simp
  then show ?case by (simp add: below.simps [of "lo - 4096" lo])
next
  case (Suc k)
  have "below (lo + k * 4096) lo = below (lo + k * 4096 - 4096) lo"
    using assms by (simp add: below.simps [of "lo + k * 4096" lo])
  with Suc show ?case by simp
qed

section \<open>Properties\<close>

text \<open>
  C12. Copy-on-write fault.  The fault is granted exactly if the address lies in a
  writable area, or in no area and in the used part of the data segment.  A frame
  with one reference becomes writable in place.  A shared frame keeps its content
  and loses one reference; the faulting process gets a frame that was free, with
  the same content and one reference, mapped writable at the address.  No frame
  but the new one and the page table of the entry changes.
\<close>

theorem handle_cow_fault_correct:
  assumes "vma_wf MMAP_AREA_START (vm_areas current)" "data_aligned current"
    and "kmem_ok s" "regions_apart s" "path_ok s (pgd current) cr2" "room USER_REG s"
    and "get_pte s (pgd current) cr2 = Some p" "pte_frame (rd s p) = f" "pte_pfn (rd s p) = f"
    and "f \<in> used_frames USER_REG s"
  shows "if \<not> cow_allowed current cr2 then handle_cow_fault s current cr2 = Some (-1, s)
         else \<exists>s'. handle_cow_fault s current cr2 = Some (1, s') \<and>
           get_pte s' (pgd current) cr2 = Some p \<and>
           (if refcount s f = 1
            then rd s' p AND 2 \<noteq> 0 \<and> pte_pfn (rd s' p) = f \<and> refcount s' = refcount s \<and>
                 (\<forall>x. x \<noteq> fst p \<longrightarrow> phys s' x = phys s x)
            else \<exists>f'. f' \<notin> used_frames USER_REG s \<and> f' \<in> used_frames USER_REG s' \<and>
                 rd s' p = mk_pte f' 7 \<and> phys s' f' = phys s f \<and>
                 refcount s' = (refcount s)(f := refcount s f - 1, f' := 1) \<and>
                 (\<forall>x. x \<noteq> fst p \<and> x \<noteq> f' \<longrightarrow> phys s' x = phys s x))"
proof (cases "cow_allowed current cr2")
  case False
  with cow_checks [OF assms(1,2), of cr2] show ?thesis by (auto simp: handle_cow_fault_def)
next
  case True
  let ?b = "pgd current"
  have ok: "\<not> (\<not> cow_in_area cr2 (vm_areas current) \<and> \<not> cow_in_data cr2 (mms current MM_SEG_DATA))"
    "fault_writable cr2 (vm_areas current)"
    using True cow_checks [OF assms(1,2), of cr2] by auto
  obtain pt where p: "p = (pt, pte_index cr2)" and r: "resolve s ?b (levels cr2) = Some pt"
    and bits: "rd s p AND 1 \<noteq> 0" "rd s p AND 4 \<noteq> 0"
    using assms(7) by (auto simp: get_pte_resolve split: option.splits if_splits)
  have path: "path_from s ?b {} (levels cr2)" using assms(5) by (simp add: path_ok_def levels_def)
  show ?thesis
  proof (cases "refcount s f = 1")
    case one: True
    let ?v = "push_bit 2 (drop_bit 2 (rd s p)) OR (3 :: u64)"
    have v: "?v AND 1 \<noteq> 0" "?v AND 4 \<noteq> 0" "?v AND 2 \<noteq> 0" "pte_pfn ?v = f"
      using low2_fields [of 3 "rd s p"] bits assms(9) by simp_all
    have "get_pte (wr s p ?v) ?b cr2 = Some p"
      unfolding p using get_pte_wr_last [OF path r] v(1,2) p by simp
    moreover have "\<forall>x. x \<noteq> fst p \<longrightarrow> phys (wr s p ?v) x = phys s x" by (simp add: wr_def)
    moreover have "handle_cow_fault s current cr2 = Some (1, wr s p ?v)"
      using ok one assms(7,9)
      by (simp add: handle_cow_fault_def get_user_pte_def get_pfn_info_refcount_def del: not_not)
    ultimately show ?thesis using True one v by simp
  next
    case many: False
    obtain f' s2 where a: "os_pfn_alloc USER_REG (decrement_pfn_info_refcount f s) = (f', s2)" by fastforce
    define s' where "s' = wr (copy_frame f' f s2) (pt, pte_index cr2) (mk_pte f' 7)"
    note c = cow_copy [OF assms(3,4,6,10) path r a s'_def]
    then have rp: "pte_frame (rd s2 p) = f" using assms(8) by (simp add: rd_def)
    have h: "handle_cow_fault s current cr2 = Some (1, s')"
      using ok many assms(7,9) a rp
      by (simp add: handle_cow_fault_def get_user_pte_def get_pfn_info_refcount_def s'_def Let_def p
          del: not_not)
    have "rd s' p = mk_pte f' 7" by (simp add: s'_def p)
    with True many h c p show ?thesis by auto
  qed
qed

text \<open>
  A process with one writable page at \<open>0x180200000\<close>, whose frame has two references.
\<close>

definition user_mem :: kmem where
  "user_mem = snd (os_pfn_alloc USER_REG boot_mem)"

definition cow_base :: nat where
  "cow_base = fst (os_pfn_alloc OS_PT_REG user_mem)"

definition cow_mem :: kmem where
  "cow_mem = (snd (map_physical_page (snd (os_pfn_alloc OS_PT_REG user_mem)) cow_base 0x180200000 3 0x6404))
     \<lparr>refcount := (\<lambda>_. 2)\<rparr>"

lemma user_mem_props:
  "kmem_ok user_mem" "room OS_PT_REG user_mem" "pt_room 8 user_mem" "0x6404 \<in> used_frames USER_REG user_mem"
  "region_frames r user_mem = region_frames r boot_mem" "room USER_REG user_mem"
proof -
  note a = os_pfn_alloc_fresh [OF boot_mem_ok boot_mem_room prod.collapse [symmetric],
      folded user_mem_def, unfolded boot_mem_alloc]
  then show "kmem_ok user_mem" "0x6404 \<in> used_frames USER_REG user_mem" by auto
  show "region_frames r user_mem = region_frames r boot_mem"
    unfolding user_mem_def by (rule region_frames_alloc)
  have "pglists user_mem OS_PT_REG = pglists boot_mem OS_PT_REG"
    by (simp add: user_mem_def pglists_os_pfn_alloc)
  then have "pt_room 9 user_mem" using boot_mem_spare by (intro spare_pt_room) auto
  then show "pt_room 8 user_mem" "room OS_PT_REG user_mem"
    using pt_room_Suc [of 8 user_mem] pt_room.simps(2) [of 8 user_mem] by simp_all
  have "spare 4 (pglists boot_mem USER_REG)"
  proof -
    have "bmap_set_upto (\<lambda>_. 0) 4 0 = 15" by (rule boot_bitmap)
    moreover have "\<not> bit (15 :: u32) b" if "4 \<le> b" for b
      using that by (auto simp: bit_numeral_rec bit_1_iff split: nat.splits)
    ultimately show ?thesis by (simp add: spare_def boot_mem_user)
  qed
  then have "spare 5 (pglists user_mem USER_REG)"
    using spare_alloc [of 4] boot_mem_room by (simp add: user_mem_def pglists_os_pfn_alloc room_def)
  then have "has_room (pglists user_mem USER_REG)" using spare_alloc [of 5] by simp
  then show "room USER_REG user_mem"
    by (simp add: room_def user_mem_def pglists_os_pfn_alloc boot_mem_user get_free_page_eq)
qed

lemma pte_frame_mk:
  assumes "pfn < 2 ^ 32" "flags < 2 ^ 12"
  shows "pte_frame (mk_pte pfn flags) = pfn"
proof (rule bit_eqI)
  fix n
  have m: "(0x3ffffffff000 :: u64) = push_bit 12 (mask 34)"
    by (simp add: mask_eq_exp_minus_1 push_bit_eq_mult)
  show "bit (pte_frame (mk_pte pfn flags)) n = bit pfn n"
    using nat_high_clear [OF assms(1), of n] flags_high_clear [OF assms(2), of "12 + n"]
    unfolding pte_frame_def m
    by (cases "n < 32") (auto simp: bit_unsigned_iff bit_and_iff bit_drop_bit_eq bit_mk_pte bit_mask_iff
        bit_push_bit_iff)
qed

lemma boot_regions_apart: "regions_apart boot_mem"
proof -
  have "pl_size (pglists boot_mem OS_PT_REG) = 0x4400" "first_pfn OS_PT_REG boot_mem = 0x2000"
    "first_pfn USER_REG boot_mem = 0x6400"
    by (simp_all add: boot_mem_def init_pagelists_def init_pagelist_def)
  then show ?thesis by (auto simp: regions_apart_def region_frames_def)
qed

lemma cow_mem_props:
  "kmem_ok cow_mem" "regions_apart cow_mem" "path_ok cow_mem cow_base 0x180200000" "room USER_REG cow_mem"
  "\<exists>p. get_pte cow_mem cow_base 0x180200000 = Some p \<and> rd cow_mem p = mk_pte 0x6404 7"
  "0x6404 \<in> used_frames USER_REG cow_mem" "pt_room 4 cow_mem"
proof -
  define s1 where "s1 = snd (os_pfn_alloc OS_PT_REG user_mem)"
  note u = user_mem_props
  note fr = os_pfn_alloc_fresh [OF u(1,2) prod.collapse [symmetric], folded s1_def cow_base_def]
  have z: "rd s1 (cow_base, j) = 0" for j
    using phys_os_pt_alloc [OF u(2)] by (simp add: s1_def cow_base_def rd_def)
  have k: "kmem_ok s1" "path_ok s1 cow_base 0x180200000" "clean_from s1 cow_base (levels 0x180200000)"
    and rm: "pt_room 7 s1"
    using fr z pt_room.simps(2) [of 7 user_mem] u(3)
    by (auto simp: path_ok_def levels_def s1_def intro!: path_from_blank)
  have r3: "pt_room 3 s1" using pt_room_add [of 3 4 s1] rm by simp
  obtain r s2 where m: "map_physical_page s1 cow_base 0x180200000 3 0x6404 = (r, s2)" by fastforce
  have c: "cow_mem = s2\<lparr>refcount := (\<lambda>_. 2)\<rparr>" using m by (simp add: cow_mem_def s1_def)
  note ok = map_physical_page_ok [OF k r3 _ m, simplified]
  have ph: "phys cow_mem = phys s2" "pglists cow_mem = pglists s2" by (simp_all add: c)
  have rd: "rd cow_mem = rd s2" by (simp add: rd_def ph fun_eq_iff)
  show "kmem_ok cow_mem" using ok kmem_ok_cong [of cow_mem s2] ph by simp
  have "region_frames r' cow_mem = region_frames r' boot_mem" for r'
    using region_frames_map_page [of "0x6404" r' s1 cow_base "0x180200000" 3] m u(5) [of r']
      region_frames_alloc [of r' OS_PT_REG user_mem] ph
    by (simp add: region_frames_def s1_def)
  then show "regions_apart cow_mem" using boot_regions_apart by (simp add: regions_apart_def)
  have pf: "path_from s2 cow_base {} (levels 0x180200000)" using ok by blast
  have "path_from cow_mem cow_base {} (levels 0x180200000)"
    using path_cong(1) [of s2 cow_base "levels 0x180200000" cow_mem "{}"] ph pf by simp
  then show "path_ok cow_mem cow_base 0x180200000" by (simp add: path_ok_def levels_def)
  have up: "pglists cow_mem USER_REG = pglists user_mem USER_REG"
    using ok ph by (simp add: s1_def pglists_os_pfn_alloc)
  show "room USER_REG cow_mem" "0x6404 \<in> used_frames USER_REG cow_mem"
    using up u(4,6) by (simp_all add: room_def used_frames_def)
  show "pt_room 4 cow_mem"
    using pt_room_map_page [of 4 s1 "0x6404" cow_base "0x180200000" 3] rm m pt_room_cong [OF ph(2)] by simp
  show "\<exists>p. get_pte cow_mem cow_base 0x180200000 = Some p \<and> rd cow_mem p = mk_pte 0x6404 7"
    using ok get_pte_cong [of cow_mem s2] ph by (auto simp: rd)
qed

theorem handle_cow_fault_correct_witness:
  "\<exists>s' p f'. handle_cow_fault cow_mem (one_area_ctx\<lparr>pgd := cow_base\<rparr>) 0x180200000 = Some (1, s') \<and>
     get_pte s' cow_base 0x180200000 = Some p \<and> rd s' p = mk_pte f' 7 \<and> f' \<noteq> 0x6404 \<and>
     phys s' f' = phys cow_mem 0x6404 \<and> refcount s' 0x6404 = 1"
proof -
  let ?c = "one_area_ctx\<lparr>pgd := cow_base\<rparr>"
  obtain p where p: "get_pte cow_mem cow_base 0x180200000 = Some p" "rd cow_mem p = mk_pte 0x6404 7"
    using cow_mem_props(5) by blast
  have f: "pte_frame (rd cow_mem p) = 0x6404" "pte_pfn (rd cow_mem p) = 0x6404"
    using p by (simp_all add: pte_frame_mk pte_pfn_mk)
  have al: "data_aligned ?c" by (simp add: data_aligned_def one_area_ctx_def zero_ctx_def)
  have rc: "refcount cow_mem 0x6404 = 2" by (simp add: cow_mem_def)
  have ca: "cow_allowed ?c 0x180200000" by (simp add: cow_allowed_def)
  obtain s' f' where h: "handle_cow_fault cow_mem ?c 0x180200000 = Some (1, s')"
    "get_pte s' cow_base 0x180200000 = Some p" "f' \<notin> used_frames USER_REG cow_mem"
    "rd s' p = mk_pte f' 7" "phys s' f' = phys cow_mem 0x6404"
    "refcount s' = (refcount cow_mem)(0x6404 := refcount cow_mem 0x6404 - 1, f' := 1)"
    using handle_cow_fault_correct [OF _ al cow_mem_props(1,2) _ cow_mem_props(4), of "0x180200000" p "0x6404"]
      cow_mem_props(3,6) p(1) f rc ca by auto
  moreover have "f' \<noteq> 0x6404" using h(3) cow_mem_props(6) by auto
  moreover have "refcount s' 0x6404 = 1" using h(6) rc calculation(7) by simp
  ultimately show ?thesis by blast
qed

text \<open>
  C13. Sharing a page at \<open>cfork\<close>.  If the parent maps the address and the tables of
  the two processes are different frames, then afterwards parent and child map it
  with the same entry: the old frame, without write permission; the frame has one
  reference more; the content of no frame other than page tables changes; no null
  pointer is followed.
\<close>

theorem share_page_correct:
  assumes "kmem_ok s" "path_ok s child va" "clean_from s child (levels va)" "pt_room 3 s"
    and "path_ok s parent va" "path_set s child (levels va) \<inter> path_set s parent (levels va) = {}"
    and "get_pte s parent va = Some p" "pte_frame (rd s p) = f" "pte_pfn (rd s p) = f" "f \<noteq> 0" "va \<noteq> 0"
  shows "\<exists>s' q. share_page child parent seg va s = Some s' \<and> kmem_ok s' \<and>
           get_pte s' parent va = Some p \<and> get_pte s' child va = Some q \<and> q \<noteq> p \<and>
           rd s' q = rd s' p \<and> pte_pfn (rd s' p) = f \<and> rd s' p AND 2 = 0 \<and>
           refcount s' = (refcount s)(f := refcount s f + 1) \<and>
           (\<forall>x. x \<notin> used_frames OS_PT_REG s' \<longrightarrow> phys s' x = phys s x)"
proof -
  let ?L = "levels va"
  obtain pt where p: "p = (pt, pte_index va)" and r: "resolve s parent ?L = Some pt"
    and bits: "rd s p AND 1 \<noteq> 0" "rd s p AND 4 \<noteq> 0"
    using assms(7) by (auto simp: get_pte_resolve split: option.splits if_splits)
  define v where "v = push_bit 2 (drop_bit 2 (rd s p)) OR (1 :: u64)"
  have v: "v AND 1 \<noteq> 0" "v AND 4 \<noteq> 0" "v AND 2 = 0" "pte_pfn v = f" "pte_frame v = f"
    using low2_fields [of 1 "rd s p"] bits assms(8,9) by (simp_all add: v_def)
  have pp: "path_from s parent {} ?L" and pc: "path_from s child {} ?L"
    using assms(2,5) by (simp_all add: path_ok_levels)
  have ptn: "pt \<notin> path_set s child ?L" "pt \<in> used_frames OS_PT_REG s"
    using resolve_in_path_set [OF r] assms(6) path_from_set_used [OF pp] by auto
  define s1 where "s1 = wr s p v"
  have keep: "\<forall>x \<in> path_set s child ?L. phys s1 x = phys s x" using ptn(1) by (auto simp: s1_def wr_def p)
  have pg: "pglists s1 = pglists s" by (simp add: s1_def)
  note c1 = path_cong [OF keep, unfolded pg, OF refl]
  have u1: "used_frames OS_PT_REG s1 = used_frames OS_PT_REG s" using used_frames_cong [OF pg] .
  have k1: "kmem_ok s1" "path_ok s1 child va" "clean_from s1 child ?L" "pt_room 3 s1"
    using assms(1-4) kmem_ok_cong [OF pg] c1 pt_room_cong [OF pg] by (simp_all add: path_ok_levels)
  have p1: "path_from s1 parent {} ?L" "path_set s1 parent ?L = path_set s parent ?L"
    "get_pte s1 parent va = Some p"
    using path_from_wr_last [OF pp r] path_set_wr_last [OF pp r] get_pte_wr_last [OF pp r v(1,2)]
    by (simp_all add: s1_def p)
  obtain s2 where m: "map_physical_page s1 child va (seg_flags seg) f = (f, s2)"
    using map_physical_page_ok [OF k1 assms(10)] by (metis prod.collapse)
  note ok = map_physical_page_ok [OF k1 assms(10) m]
  then obtain ct where ct: "get_pte s2 child va = Some (ct, pte_index va)" "resolve s2 child ?L = Some ct"
    "path_from s2 child {} ?L" "ct \<in> path_set s1 child ?L \<or> ct \<notin> used_frames OS_PT_REG s1"
    "ct \<in> used_frames OS_PT_REG s2" by blast
  have same: "phys s2 x = phys s1 x" if "x \<in> path_set s parent ?L" for x
    using ok that assms(6) c1(3) path_from_set_used [OF pp] u1 by blast
  have ctp: "ct \<notin> path_set s parent ?L"
    using ct(4) assms(6) c1(3) path_from_set_used [OF pp] u1 by blast
  have rp: "rd s2 p = v"
    using same [OF resolve_in_path_set [OF r]] by (simp add: rd_def p s1_def wr_def)
  define s3 where "s3 = wr s2 (ct, pte_index va) v"
  have "\<forall>x \<in> path_set s1 parent ?L. phys s3 x = phys s1 x"
    using same ctp by (auto simp: p1(2) s3_def wr_def)
  then have g: "get_pte s3 parent va = Some p" using get_pte_path_cong p1(3) by simp
  have gc: "get_pte s3 child va = Some (ct, pte_index va)"
    unfolding s3_def by (rule get_pte_wr_last [OF ct(3,2) v(1,2)])
  have ne: "(ct, pte_index va) \<noteq> p" using ctp resolve_in_path_set [OF r] by (auto simp: p)
  then have rp3: "rd s3 p = v" using rp by (simp add: s3_def rd_wr)
  let ?s = "increment_pfn_info_refcount f s3"
  have ph: "phys ?s = phys s3" by simp
  have sh: "share_page child parent seg va s = Some ?s"
    using assms(7,11) v(4,5) m ct(1) rp rp3
    by (simp add: share_page_def get_user_pte_def install_ptable_def v_def [symmetric]
        s1_def [symmetric]) (simp add: s1_def Let_def s3_def [symmetric])
  have "\<forall>x. x \<notin> used_frames OS_PT_REG ?s \<longrightarrow> phys ?s x = phys s x"
  proof (intro allI impI)
    fix x assume "x \<notin> used_frames OS_PT_REG ?s"
    then have x: "x \<notin> used_frames OS_PT_REG s2"
      by (simp add: used_frames_def s3_def increment_pfn_info_refcount_def)
    then have "x \<noteq> ct" "x \<noteq> pt" "x \<notin> path_set s1 child ?L"
      using ct(5) ptn(2) ok u1 path_from_set_used [of s1 child "{}" ?L] c1(1) pc by auto
    then show "phys ?s x = phys s x" using ok x by (auto simp: s3_def wr_def s1_def p)
  qed
  moreover have "refcount ?s = (refcount s)(f := refcount s f + 1)"
    using ok by (simp add: increment_pfn_info_refcount_def s3_def s1_def)
  moreover have "kmem_ok ?s"
    using ok by (simp add: kmem_ok_def s3_def increment_pfn_info_refcount_def)
  moreover have "rd ?s = rd s3" by (simp add: rd_def fun_eq_iff)
  moreover have "rd s3 (ct, pte_index va) = v" by (simp add: s3_def)
  ultimately show ?thesis
    using sh g gc ne rp3 v(3,4) get_pte_cong [OF ph] by auto
qed

theorem share_page_correct_witness:
  "\<exists>child s s' p q. share_page child cow_base (mms zero_ctx MM_SEG_DATA) 0x180200000 s = Some s' \<and>
     get_pte s' cow_base 0x180200000 = Some p \<and> get_pte s' child 0x180200000 = Some q \<and>
     rd s' p = rd s' q \<and> pte_pfn (rd s' p) = 0x6404 \<and> rd s' p AND 2 = 0 \<and> refcount s' 0x6404 = 3"
proof -
  define s where "s = snd (os_pfn_alloc OS_PT_REG cow_mem)"
  define child where "child = fst (os_pfn_alloc OS_PT_REG cow_mem)"
  let ?a = "0x180200000 :: nat"
  note c = cow_mem_props
  have r: "room OS_PT_REG cow_mem" "pt_room 3 s"
    using pt_room.simps(2) [of 3 cow_mem] c(7) by (simp_all add: s_def)
  note fr = os_pfn_alloc_fresh [OF c(1) r(1) prod.collapse [symmetric], folded s_def child_def]
  have ph: "phys s = (phys cow_mem)(child := (\<lambda>_. 0))"
    using phys_os_pt_alloc [OF r(1)] by (simp add: s_def child_def)
  have z: "rd s (child, j) = 0" for j using ph by (simp add: rd_def)
  have ch: "path_ok s child ?a" "clean_from s child (levels ?a)" "path_set s child (levels ?a) = {child}"
    using fr z by (auto simp: path_ok_def levels_def intro!: path_from_blank)
  have pf: "path_from cow_mem cow_base {} (levels ?a)" using c(3) by (simp add: path_ok_levels)
  then have ps: "path_set cow_mem cow_base (levels ?a) \<subseteq> used_frames OS_PT_REG cow_mem"
    by (rule path_from_set_used)
  then have same: "\<forall>x \<in> path_set cow_mem cow_base (levels ?a). phys s x = phys cow_mem x"
    using fr ph by auto
  have path: "path_from s cow_base {} (levels ?a)" "path_set s cow_base (levels ?a) = path_set cow_mem cow_base (levels ?a)"
    using path_alloc [OF same pf] fr by auto
  obtain p where p: "get_pte cow_mem cow_base ?a = Some p" "rd cow_mem p = mk_pte 0x6404 7" using c(5) by blast
  have g: "get_pte s cow_base ?a = Some p" using get_pte_path_cong [OF same] p(1) by simp
  have "fst p \<in> path_set cow_mem cow_base (levels ?a)"
    using p(1) resolve_in_path_set by (auto simp: get_pte_resolve split: option.splits if_splits)
  then have rp: "rd s p = mk_pte 0x6404 7" using same p(2) by (simp add: rd_def)
  have dis: "path_set s child (levels ?a) \<inter> path_set s cow_base (levels ?a) = {}"
    using ch(3) path(2) ps fr by auto
  have rc: "refcount s 0x6404 = 2"
    using os_pfn_alloc_sel(1) [of cow_mem] by (simp add: s_def cow_mem_def)
  have "kmem_ok s" "path_ok s cow_base ?a" using fr path(1) by (simp_all add: path_ok_levels)
  from share_page_correct [OF this(1) ch(1,2) r(2) this(2) dis g, of "0x6404" "mms zero_ctx MM_SEG_DATA"]
  obtain s' q where "share_page child cow_base (mms zero_ctx MM_SEG_DATA) ?a s = Some s'" "get_pte s' cow_base ?a = Some p"
    "get_pte s' child ?a = Some q" "rd s' q = rd s' p" "pte_pfn (rd s' p) = 0x6404" "rd s' p AND 2 = 0"
    "refcount s' = (refcount s)(0x6404 := refcount s 0x6404 + 1)"
    by (auto simp: rp pte_frame_mk pte_pfn_mk)
  moreover have "refcount s' 0x6404 = 3" using calculation(7) rc by simp
  ultimately show ?thesis by metis
qed

text \<open>
  For a page-aligned stack the offset of a \<open>vfork\<close> child is the size of the parent's used
  stack and one page.
\<close>

lemma stack_offset_eq:
  assumes "next_free seg \<le> seg_end seg" "(seg_end seg - next_free seg) mod 4096 = 0" "4096 \<le> next_free seg"
  shows "stack_offset seg = seg_end seg - next_free seg + 4096"
proof -
  obtain k where k: "seg_end seg = next_free seg + k * 4096"
    using assms(1,2) by (metis add.commute dvd_def dvd_eq_mod_eq_0 le_add_diff_inverse mult.commute)
  have "below (seg_end seg - 4096) (next_free seg) = next_free seg - 4096"
    unfolding k by (rule below_stack [OF assms(3)])
  then show ?thesis using assms(1,3) by (simp add: stack_offset_def)
qed

text \<open>A context with a stack of two pages.\<close>

definition stack_ctx :: exec_context where
  "stack_ctx = zero_ctx\<lparr>mms := (mms zero_ctx)(MM_SEG_STACK := \<lparr>seg_start = 0x7ff000000,
     seg_end = 0x800000000, next_free = 0x7ffffe000, seg_flags = 3\<rparr>), regs := zero_regs\<lparr>entry_rsp := 0x7ffffe800\<rparr>\<rparr>"

end
