(* ===== verification/Sched.thy ===== *)
theory Sched
  imports CFork
begin

text \<open>
  The process table and the scheduler: src/Assignment3/Ass3/src/schedule.c and the
  operations of context.c on the table.  A pointer to a context is the number of its
  slot; \<open>None\<close> is a null dereference.  The registers saved at the interrupt are the
  field \<open>cpu\<close>; a word that a signal pushes on the user stack is recorded in \<open>pushes\<close>.
\<close>

section \<open>Definitions\<close>

abbreviation "MAX_PROCESSES \<equiv> (7 :: nat)"

record os =
  mem :: kmem
  ctxs :: "nat \<Rightarrow> exec_context"
  cur :: nat
  cpu :: user_regs
  pushes :: "(u64 \<times> u64) list"
  st_syscalls :: nat
  st_ticks :: nat
  st_context_switches :: nat
  st_num_processes :: nat
  st_page_faults :: nat
  st_cow_page_faults :: nat
  st_mmap_page_faults :: nat

definition upd_ctx :: "nat \<Rightarrow> (exec_context \<Rightarrow> exec_context) \<Rightarrow> os \<Rightarrow> os" where
  "upd_ctx n f s = s\<lparr>ctxs := (ctxs s)(n := f (ctxs s n))\<rparr>"

definition state_of :: "os \<Rightarrow> nat \<Rightarrow> process_state" where
  "state_of s n = ctx_state (ctxs s n)"

definition set_state :: "nat \<Rightarrow> process_state \<Rightarrow> os \<Rightarrow> os" where
  "set_state n st = upd_ctx n (\<lambda>c. c\<lparr>ctx_state := st\<rparr>)"

text \<open>The first unused slot gets its number as pid and the state \<open>NEW\<close>.\<close>

definition get_new_ctx :: "os \<Rightarrow> (nat \<times> os) option" where
  "get_new_ctx s =
     (case filter (\<lambda>n. state_of s n = UNUSED) [0..<MAX_PROCESSES] of
        [] \<Rightarrow> None
      | n # _ \<Rightarrow> Some (n, upd_ctx n (\<lambda>c. c\<lparr>pid := n, ctx_state := NEW\<rparr>) s))"

definition get_ctx_by_pid :: "nat \<Rightarrow> nat option" where
  "get_ctx_by_pid n = (if n \<ge> MAX_PROCESSES then None else Some n)"

text \<open>The loop of \<open>pick_next_context\<close>; \<open>c\<close> is \<open>ctx->pid\<close>, \<open>n\<close> the local \<open>pid\<close>.\<close>

partial_function (option) pick_loop :: "(nat \<Rightarrow> process_state) \<Rightarrow> nat \<Rightarrow> nat \<Rightarrow> nat option" where
  "pick_loop st c n =
     (if n = 0 then get_ctx_by_pid 0
      else case get_ctx_by_pid n of
        None \<Rightarrow> None
      | Some m \<Rightarrow>
          (if st m = READY then Some m
           else let n1 = n + 1; n2 = (if n1 = c + 1 then 0 else n1)
                in if n2 = MAX_PROCESSES then (if c = 0 then get_ctx_by_pid 0 else pick_loop st c 1)
                   else pick_loop st c n2))"

definition pick_next_context :: "os \<Rightarrow> nat \<Rightarrow> nat option" where
  "pick_next_context s ctx =
     (let c = pid (ctxs s ctx)
      in pick_loop (state_of s) c (if c + 1 = MAX_PROCESSES then 1 else c + 1))"

text \<open>
  \<open>invoke_sync_signal\<close> when a handler is registered or the signal is \<open>SIGALRM\<close>; the
  remaining case calls \<open>do_exit\<close> (theory \<open>Syscall\<close>).
\<close>

definition deliver_signal :: "signal \<Rightarrow> os \<Rightarrow> os" where
  "deliver_signal signo s =
     (let h = sighandlers (ctxs s (cur s)) signo
      in if h = 0 then s
         else s\<lparr>pushes := (entry_rsp (cpu s) - 8, entry_rip (cpu s)) # pushes s,
                cpu := (cpu s)\<lparr>entry_rsp := entry_rsp (cpu s) - 8, entry_rip := h\<rparr>\<rparr>)"

definition sleep_tick :: "exec_context \<Rightarrow> exec_context" where
  "sleep_tick c =
     (if ctx_state c = WAITING \<and> ticks_to_sleep c > 0
      then let c1 = c\<lparr>ticks_to_sleep := ticks_to_sleep c - 1\<rparr>
           in if ticks_to_sleep c1 = 0 then c1\<lparr>ctx_state := READY\<rparr> else c1
      else c)"

definition do_sleep_and_alarm_account :: "os \<Rightarrow> os" where
  "do_sleep_and_alarm_account s =
     (let s1 = fold (\<lambda>n. upd_ctx n sleep_tick) [0..<MAX_PROCESSES] s; c = cur s
      in if ticks_to_alarm (ctxs s1 c) > 0 then
           (let s2 = upd_ctx c (\<lambda>x. x\<lparr>ticks_to_alarm := ticks_to_alarm x - 1\<rparr>) s1
            in if ticks_to_alarm (ctxs s2 c) = 0
               then upd_ctx c (\<lambda>x. x\<lparr>ticks_to_alarm := alarm_config_time x\<rparr>) (deliver_signal SIGALRM s2)
               else s2)
         else s1)"

text \<open>\<open>schedule\<close> loads the registers of the new context and does not return.\<close>

definition schedule :: "nat \<Rightarrow> os \<Rightarrow> os" where
  "schedule n s = set_state n RUNNING (s\<lparr>cpu := regs (ctxs s n), cur := n\<rparr>)"

definition handle_timer_tick :: "os \<Rightarrow> os option" where
  "handle_timer_tick s =
     (let c = cur s;
          s1 = do_sleep_and_alarm_account s;
          s2 = set_state c READY (s1\<lparr>st_ticks := add64 (st_ticks s1) 1\<rparr>)
      in case pick_next_context s2 c of
           None \<Rightarrow> None
         | Some n \<Rightarrow>
             Some (if n = c then s2
                   else let s3 = s2\<lparr>st_context_switches := add64 (st_context_switches s2) 1\<rparr>;
                            s4 = upd_ctx c (\<lambda>x. x\<lparr>regs := cpu s3\<rparr>) s3;
                            s5 = s4\<lparr>cpu := regs (ctxs s4 n), cur := n\<rparr>
                        in set_state n RUNNING s5))"

definition do_sleep :: "u32 \<Rightarrow> os \<Rightarrow> os option" where
  "do_sleep n s =
     (let c = cur s;
          s1 = upd_ctx c (\<lambda>x. x\<lparr>ticks_to_sleep := n, ctx_state := WAITING\<rparr>) s
      in map_option (\<lambda>m. schedule m s1) (pick_next_context s1 c))"

definition do_alarm :: "u32 \<Rightarrow> os \<Rightarrow> int \<times> os" where
  "do_alarm n s =
     (if n > 0 then (0, upd_ctx (cur s) (\<lambda>x. x\<lparr>alarm_config_time := n, ticks_to_alarm := n\<rparr>) s)
      else (-1, s))"

fun signal_of :: "int \<Rightarrow> signal option" where
  "signal_of signo =
     (if signo = 0 then Some SIGSEGV else if signo = 1 then Some SIGFPE
      else if signo = 2 then Some SIGALRM else None)"

definition do_signal :: "int \<Rightarrow> u64 \<Rightarrow> os \<Rightarrow> int \<times> os" where
  "do_signal signo handler s =
     (case signal_of signo of
        None \<Rightarrow> (-1, s)
      | Some sg \<Rightarrow> (0, upd_ctx (cur s) (\<lambda>x. x\<lparr>sighandlers := (sighandlers x)(sg := handler)\<rparr>) s))"

section \<open>The round robin order\<close>

text \<open>
  The slots in the order in which the loop looks at them, from \<open>n\<close> on, for the current
  process \<open>c\<close>; slot 0, the swapper, is the default.
\<close>

definition rr_from :: "nat \<Rightarrow> nat \<Rightarrow> nat list" where
  "rr_from c n = (if n \<le> c then [n..<c + 1] else [n..<MAX_PROCESSES] @ [1..<c + 1])"

definition rr_order :: "nat \<Rightarrow> nat list" where
  "rr_order c = [c + 1..<MAX_PROCESSES] @ [1..<c + 1]"

definition first_ready :: "(nat \<Rightarrow> process_state) \<Rightarrow> nat list \<Rightarrow> nat" where
  "first_ready st ns = (case filter (\<lambda>n. st n = READY) ns of [] \<Rightarrow> 0 | n # _ \<Rightarrow> n)"

lemma first_ready_Cons: "first_ready st (n # ns) = (if st n = READY then n else first_ready st ns)"
  by (simp add: first_ready_def)

lemma first_ready_Nil [simp]: "first_ready st [] = 0"
  by (simp add: first_ready_def)

lemma first_ready_in:
  "n \<in> set ns \<Longrightarrow> st n = READY \<Longrightarrow> first_ready st ns \<in> set ns \<and> st (first_ready st ns) = READY"
  by (induction ns) (auto simp: first_ready_Cons)

lemma pick_loop_eq:
  assumes "c < MAX_PROCESSES" "0 < n" "n < MAX_PROCESSES"
  shows "pick_loop st c n = Some (first_ready st (rr_from c n))"
  using assms(2,3)
proof (induction "length (rr_from c n)" arbitrary: n rule: less_induct)
  case less
  have g: "get_ctx_by_pid n = Some n" "get_ctx_by_pid 0 = Some 0"
    using less.prems by (simp_all add: get_ctx_by_pid_def)
  note unfold = pick_loop.simps [of st c n]
  consider (stop) "n = c" | (last) "n = 6" "n \<noteq> c" | (step) "n \<noteq> c" "n < 6"
    using less.prems by linarith
  then show ?case
  proof cases
    case stop
    then have "rr_from c n = [n]" by (simp add: rr_from_def)
    with stop less.prems g show ?thesis
      by (subst unfold) (simp add: first_ready_Cons pick_loop.simps [of st c 0])
  next
    case last
    then have rr: "rr_from c n = n # [1..<c + 1]" using assms(1) by (simp add: rr_from_def)
    show ?thesis
    proof (cases "c = 0")
      case True
      with last g rr show ?thesis by (subst unfold) (simp add: first_ready_Cons)
    next
      case False
      then have "rr_from c 1 = [1..<c + 1]" by (simp add: rr_from_def)
      with less.hyps [of 1] rr have "pick_loop st c 1 = Some (first_ready st [1..<c + 1])" by simp
      with False last g rr show ?thesis by (subst unfold) (simp add: first_ready_Cons)
    qed
  next
    case step
    have rr: "rr_from c n = n # rr_from c (n + 1)"
      using step less.prems by (auto simp: rr_from_def upt_conv_Cons)
    with less.hyps [of "n + 1"] step have "pick_loop st c (n + 1) = Some (first_ready st (rr_from c (n + 1)))"
      by simp
    with step less.prems g rr show ?thesis by (subst unfold) (simp add: first_ready_Cons)
  qed
qed

lemma pick_next_context_eq:
  assumes "pid (ctxs s ctx) < MAX_PROCESSES"
  shows "pick_next_context s ctx = Some (first_ready (state_of s) (rr_order (pid (ctxs s ctx))))"
proof -
  let ?c = "pid (ctxs s ctx)"
  have "rr_from ?c (if ?c + 1 = MAX_PROCESSES then 1 else ?c + 1) = rr_order ?c"
    using assms by (auto simp: rr_from_def rr_order_def)
  with assms show ?thesis
    by (auto simp: pick_next_context_def Let_def pick_loop_eq)
qed

text \<open>The distance of slot \<open>m\<close> from the slot after \<open>c\<close> on the circle of the slots 1 to 6.\<close>

definition rr_dist :: "nat \<Rightarrow> nat \<Rightarrow> nat" where
  "rr_dist c m = (m + 5 - c) mod 6"

lemma rr_order_sorted: "c < MAX_PROCESSES \<Longrightarrow> sorted_wrt (\<lambda>a b. rr_dist c a \<le> rr_dist c b) (rr_order c)"
proof -
  assume "c < MAX_PROCESSES"
  then consider "c = 0" | "c = 1" | "c = 2" | "c = 3" | "c = 4" | "c = 5" | "c = 6" by linarith
  then show ?thesis by cases (simp_all add: rr_order_def rr_dist_def upt_rec)
qed

lemma set_rr_order: "c < MAX_PROCESSES \<Longrightarrow> set (rr_order c) = {1..<MAX_PROCESSES}"
  by (auto simp: rr_order_def)

lemma first_ready_least:
  "sorted_wrt (\<lambda>a b. d a \<le> (d b :: nat)) ns \<Longrightarrow> m \<in> set ns \<Longrightarrow> st m = READY \<Longrightarrow> d (first_ready st ns) \<le> d m"
  by (induction ns) (auto simp: first_ready_Cons)

lemma first_ready_none: "\<forall>n \<in> set ns. st n \<noteq> READY \<Longrightarrow> first_ready st ns = 0"
  by (induction ns) (auto simp: first_ready_Cons)

section \<open>Sleeping\<close>

lemma upd_ctx_sel [simp]:
  "mem (upd_ctx n f s) = mem s" "cur (upd_ctx n f s) = cur s" "cpu (upd_ctx n f s) = cpu s"
  "ctxs (upd_ctx n f s) m = (if m = n then f (ctxs s n) else ctxs s m)"
  by (simp_all add: upd_ctx_def)

lemma set_state_sel [simp]:
  "mem (set_state n st s) = mem s" "cur (set_state n st s) = cur s" "cpu (set_state n st s) = cpu s"
  "ctxs (set_state n st s) m = (if m = n then (ctxs s n)\<lparr>ctx_state := st\<rparr> else ctxs s m)"
  by (simp_all add: set_state_def)

lemma fold_upd_ctx:
  "distinct ns \<Longrightarrow> ctxs (fold (\<lambda>n. upd_ctx n f) ns s) m = (if m \<in> set ns then f (ctxs s m) else ctxs s m)"
  by (induction ns arbitrary: s) auto

lemma fold_upd_ctx_sel [simp]:
  "mem (fold (\<lambda>n. upd_ctx n f) ns s) = mem s" "cur (fold (\<lambda>n. upd_ctx n f) ns s) = cur s"
  "cpu (fold (\<lambda>n. upd_ctx n f) ns s) = cpu s"
  by (induction ns arbitrary: s) auto

lemma deliver_signal_sel [simp]:
  "mem (deliver_signal g s) = mem s" "cur (deliver_signal g s) = cur s" "ctxs (deliver_signal g s) = ctxs s"
  by (simp_all add: deliver_signal_def Let_def)

text \<open>What the accounting does to a context: the sleep step, and the alarm of the current one.\<close>

lemma account_ctx:
  assumes "n < MAX_PROCESSES"
  shows "\<exists>a. ctxs (do_sleep_and_alarm_account s) n = (sleep_tick (ctxs s n))\<lparr>ticks_to_alarm := a\<rparr>"
proof -
  let ?f = "fold (\<lambda>n. upd_ctx n sleep_tick) [0..<MAX_PROCESSES] s"
  have f: "ctxs ?f n = sleep_tick (ctxs s n)"
    using assms fold_upd_ctx [of "[0..<MAX_PROCESSES]" sleep_tick s n] by simp
  have "\<exists>a. c = c\<lparr>ticks_to_alarm := a\<rparr>" for c :: exec_context
    by (rule exI [of _ "ticks_to_alarm c"]) simp
  then show ?thesis
    using f by (auto simp: do_sleep_and_alarm_account_def Let_def simp del: upt_rec_numeral)
qed

lemma account_sel [simp]:
  "cur (do_sleep_and_alarm_account s) = cur s" "mem (do_sleep_and_alarm_account s) = mem s"
  by (simp_all add: do_sleep_and_alarm_account_def Let_def del: upt_rec_numeral)

lemma account_sleep:
  assumes "n < MAX_PROCESSES" "ctx_state (ctxs s n) = WAITING" "ticks_to_sleep (ctxs s n) = t" "t > 0"
  shows "ticks_to_sleep (ctxs (do_sleep_and_alarm_account s) n) = t - 1"
    "ctx_state (ctxs (do_sleep_and_alarm_account s) n) = (if t = 1 then READY else WAITING)"
proof -
  obtain a where "ctxs (do_sleep_and_alarm_account s) n = (sleep_tick (ctxs s n))\<lparr>ticks_to_alarm := a\<rparr>"
    using account_ctx [OF assms(1)] by blast
  moreover have "(t - 1 = 0) = (t = 1)" by (metis diff_self eq_iff_diff_eq_0)
  ultimately show "ticks_to_sleep (ctxs (do_sleep_and_alarm_account s) n) = t - 1"
    "ctx_state (ctxs (do_sleep_and_alarm_account s) n) = (if t = 1 then READY else WAITING)"
    using assms by (simp_all add: sleep_tick_def Let_def)
qed

section \<open>Properties\<close>

text \<open>
  C26. The scheduler is round robin and always returns.  For a current process with
  a valid pid the loop ends; if one of the processes 1 to 6 is \<open>READY\<close> the next one is
  the \<open>READY\<close> process that comes first after the current one on the circle of pids
  (the current process itself is the last candidate), otherwise it is the swapper.
\<close>

theorem pick_next_context_correct:
  assumes "pid (ctxs s ctx) < MAX_PROCESSES"
  shows "\<exists>n. pick_next_context s ctx = Some n \<and>
           (if \<exists>m. 1 \<le> m \<and> m < MAX_PROCESSES \<and> state_of s m = READY
            then 1 \<le> n \<and> n < MAX_PROCESSES \<and> state_of s n = READY \<and>
                 (\<forall>m. 1 \<le> m \<and> m < MAX_PROCESSES \<and> state_of s m = READY \<longrightarrow>
                      rr_dist (pid (ctxs s ctx)) n \<le> rr_dist (pid (ctxs s ctx)) m)
            else n = 0)"
proof -
  let ?c = "pid (ctxs s ctx)" and ?n = "first_ready (state_of s) (rr_order (pid (ctxs s ctx)))"
  note set = set_rr_order [OF assms]
  have "1 \<le> ?n \<and> ?n < MAX_PROCESSES \<and> state_of s ?n = READY"
    if "1 \<le> m" "m < MAX_PROCESSES" "state_of s m = READY" for m
    using first_ready_in [of m "rr_order ?c" "state_of s"] that set by auto
  moreover have "rr_dist ?c ?n \<le> rr_dist ?c m"
    if "1 \<le> m" "m < MAX_PROCESSES" "state_of s m = READY" for m
    using first_ready_least [OF rr_order_sorted [OF assms], of m] that set by auto
  moreover have "?n = 0" if "\<not> (\<exists>m. 1 \<le> m \<and> m < MAX_PROCESSES \<and> state_of s m = READY)"
    using first_ready_none [of "rr_order ?c" "state_of s"] that set by auto
  ultimately show ?thesis using pick_next_context_eq [OF assms] by auto
qed

text \<open>
  C27. A sleeping process wakes at the right tick.  A process that waits for \<open>t > 0\<close>
  ticks is still waiting, with \<open>t - k\<close> ticks left, after \<open>k < t\<close> rounds of the
  accounting, and \<open>READY\<close> after \<open>t\<close> rounds.
\<close>

theorem sleep_wakes:
  assumes "n < MAX_PROCESSES" "ctx_state (ctxs s n) = WAITING" "ticks_to_sleep (ctxs s n) = t" "t > 0"
    and "k \<le> unat t"
  shows "ctx_state (ctxs ((do_sleep_and_alarm_account ^^ k) s) n) = (if k = unat t then READY else WAITING) \<and>
         ticks_to_sleep (ctxs ((do_sleep_and_alarm_account ^^ k) s) n) = t - of_nat k"
  using assms(5)
proof (induction k)
  case 0
  have "unat t \<noteq> 0" using assms(4) by (simp add: unat_gt_0)
  with assms show ?case by simp
next
  case (Suc k)
  let ?s = "(do_sleep_and_alarm_account ^^ k) s"
  have ih: "ctx_state (ctxs ?s n) = WAITING" "ticks_to_sleep (ctxs ?s n) = t - of_nat k"
    using Suc by auto
  have u: "unat (t - of_nat k) = unat t - k"
  proof -
    have k: "unat (of_nat k :: u32) = k" by (rule le_unat_uoi [of k t]) (use Suc.prems in simp)
    then have "of_nat k \<le> t" using Suc.prems by (simp add: word_le_nat_alt)
    then show ?thesis using k by (simp add: unat_sub)
  qed
  then have pos: "t - of_nat k > 0" using Suc.prems by (simp add: word_less_nat_alt)
  have one: "(t - of_nat k = 1) = (Suc k = unat t)" 
  proof -
    have "(t - of_nat k = 1) = (unat (t - of_nat k) = 1)" by (simp add: word_unat_eq_iff)
    also have "\<dots> = (Suc k = unat t)" using u Suc.prems by linarith
    finally show ?thesis .
  qed
  from account_sleep [OF assms(1) ih pos] show ?case by (auto simp: one)
qed

definition sleep_os :: os where
  "sleep_os = \<lparr>mem = boot_mem,
     ctxs = (\<lambda>n. if n = 0 then zero_ctx\<lparr>ctx_state := READY\<rparr>
                 else if n = 2 then zero_ctx\<lparr>pid := 2, ctx_state := WAITING, ticks_to_sleep := 3\<rparr>
                 else if n = 4 then zero_ctx\<lparr>pid := 4, ctx_state := RUNNING\<rparr>
                 else if n = 5 then zero_ctx\<lparr>pid := 5, ctx_state := READY\<rparr>
                 else zero_ctx\<lparr>pid := n\<rparr>),
     cur = 4, cpu = zero_regs, pushes = [], st_syscalls = 0, st_ticks = 0, st_context_switches = 0,
     st_num_processes = 3, st_page_faults = 0, st_cow_page_faults = 0, st_mmap_page_faults = 0\<rparr>"

theorem pick_next_context_correct_witness:
  "pick_next_context sleep_os 4 = Some 5"
proof -
  have st: "state_of sleep_os m = READY \<longleftrightarrow> m = 0 \<or> m = 5" for m
    by (simp add: state_of_def sleep_os_def zero_ctx_def)
  have p: "pid (ctxs sleep_os 4) = 4" by (simp add: sleep_os_def)
  have ex: "\<exists>m. 1 \<le> m \<and> m < MAX_PROCESSES \<and> state_of sleep_os m = READY"
    by (rule exI [of _ 5]) (simp add: st)
  obtain n where n: "pick_next_context sleep_os 4 = Some n" "1 \<le> n" "state_of sleep_os n = READY"
    using pick_next_context_correct [of sleep_os 4] p ex by auto
  with st show ?thesis by auto
qed

theorem sleep_wakes_witness:
  "ctx_state (ctxs ((do_sleep_and_alarm_account ^^ 2) sleep_os) 2) = WAITING \<and>
   ctx_state (ctxs ((do_sleep_and_alarm_account ^^ 3) sleep_os) 2) = READY"
proof -
  have c: "ctx_state (ctxs sleep_os 2) = WAITING" "ticks_to_sleep (ctxs sleep_os 2) = 3"
    by (simp_all add: sleep_os_def)
  show ?thesis
    using sleep_wakes [of 2 sleep_os 3 2] sleep_wakes [of 2 sleep_os 3 3] c by simp
qed

end
