(* ===== verification/Syscall.thy ===== *)
theory Syscall
  imports Sched
begin

text \<open>
  The system calls and exceptions of src/Assignment3/Ass3/src/entry.c on the whole
  state.  A call returns a value (\<open>Run\<close>), shuts the system down (\<open>Halt\<close>, the call of
  \<open>do_cleanup\<close>) or does not return: it follows a null pointer or a loop does not end
  (\<open>Crash\<close>).
\<close>

section \<open>Definitions\<close>

datatype outcome = Run int os | Halt os | Crash

definition do_exit :: "os \<Rightarrow> outcome" where
  "do_exit s =
     (let c = cur s
      in case get_ctx_by_pid (ppid (ctxs s c)) of
           None \<Rightarrow> Crash
         | Some p \<Rightarrow>
             (let s1 = upd_ctx p (vfork_exit_handle (ctxs s c)) s;
                  s2 = s1\<lparr>mem := os_pfn_free OS_PT_REG (os_stack_pfn (ctxs s1 c)) (mem s1)\<rparr>;
                  s3 = set_state c UNUSED s2;
                  s4 = s3\<lparr>st_num_processes := sub64 (st_num_processes s3) 1\<rparr>
              in if list_all (\<lambda>n. state_of s4 n = UNUSED) [1..<MAX_PROCESSES] then Halt s4
                 else case pick_next_context s4 c of
                        None \<Rightarrow> Crash
                      | Some n \<Rightarrow> Run 0 (schedule n s4)))"

definition invoke_sync_signal :: "signal \<Rightarrow> os \<Rightarrow> outcome" where
  "invoke_sync_signal signo s =
     (if sighandlers (ctxs s (cur s)) signo = 0 \<and> signo \<noteq> SIGALRM then do_exit s
      else Run 0 (deliver_signal signo s))"

definition setup_child_context :: "nat \<Rightarrow> os \<Rightarrow> os" where
  "setup_child_context n s =
     (let (pfn, m) = os_pfn_alloc OS_PT_REG (mem s);
          s1 = upd_ctx n (\<lambda>c. c\<lparr>os_stack_pfn := pfn, os_rsp := pfn * 4096 + 4096, ctx_state := READY\<rparr>)
                 (s\<lparr>mem := m\<rparr>)
      in s1\<lparr>st_num_processes := add64 (st_num_processes s1) 1\<rparr>)"

text \<open>\<open>*new_ctx = *ctx\<close>, the new pid and the parent's pid.\<close>

definition child_of :: "nat \<Rightarrow> exec_context \<Rightarrow> exec_context" where
  "child_of n p = p\<lparr>pid := n, ppid := pid p\<rparr>"

definition do_fork :: "os \<Rightarrow> outcome" where
  "do_fork s =
     (case get_new_ctx s of
        None \<Rightarrow> Crash
      | Some (n, s1) \<Rightarrow>
          (let p = ctxs s1 (cur s); (child, m) = copy_mm (mem s1) (child_of n p) p
           in Run (int n) (setup_child_context n (s1\<lparr>mem := m, ctxs := (ctxs s1)(n := child)\<rparr>))))"

definition do_cfork :: "os \<Rightarrow> outcome" where
  "do_cfork s =
     (case get_new_ctx s of
        None \<Rightarrow> Crash
      | Some (n, s1) \<Rightarrow>
          (let p = ctxs s1 (cur s)
           in case cfork_copy_mm (mem s1) (child_of n p) p of
                None \<Rightarrow> Crash
              | Some (child, m) \<Rightarrow>
                  Run (int n) (setup_child_context n (s1\<lparr>mem := m, ctxs := (ctxs s1)(n := child)\<rparr>))))"

definition do_vfork :: "os \<Rightarrow> outcome" where
  "do_vfork s =
     (case get_new_ctx s of
        None \<Rightarrow> Crash
      | Some (n, s1) \<Rightarrow>
          (let p = ctxs s1 (cur s); (child, p', m) = vfork_copy_mm (mem s1) (child_of n p) p;
               s2 = setup_child_context n (s1\<lparr>mem := m, ctxs := (ctxs s1)(cur s := p', n := child)\<rparr>);
               s3 = upd_ctx (cur s) (\<lambda>c. c\<lparr>regs := (regs c)\<lparr>rax := of_nat n\<rparr>\<rparr>) s2
           in Run (int n) (schedule n s3)))"

fun dec :: "nat \<Rightarrow> string" where
  "dec n = (if n < 10 then [char_of (48 + n)] else dec (n div 10) @ [char_of (48 + n mod 10)])"

definition do_clone :: "u64 \<Rightarrow> u64 \<Rightarrow> os \<Rightarrow> outcome" where
  "do_clone th_func user_stack s =
     (case get_new_ctx s of
        None \<Rightarrow> Crash
      | Some (n, s1) \<Rightarrow>
          (let p = ctxs s1 (cur s); (pfn, m) = os_pfn_alloc OS_PT_REG (mem s1)
           in Run 0 (upd_ctx n
                (\<lambda>c. c\<lparr>ctx_type := ctx_type p, ctx_state := READY, used_mem := used_mem p, pgd := pgd p,
                       os_stack_pfn := pfn, os_rsp := (pfn + 1) * 4096, mms := mms p,
                       regs := (regs p)\<lparr>entry_rip := th_func, entry_rsp := user_stack, rbp := user_stack\<rparr>,
                       pending_signal_bitmap := pending_signal_bitmap p,
                       ticks_to_alarm := ticks_to_alarm p, ticks_to_sleep := ticks_to_sleep p,
                       alarm_config_time := alarm_config_time p, sighandlers := sighandlers p,
                       ctx_name := take 64 (ctx_name p) @ dec (pid p + 1)\<rparr>)
                (s1\<lparr>mem := m\<rparr>))))"

text \<open>\<open>MAP_RD\<close> is 0 and selects the read-only data segment, \<open>MAP_WR\<close> is 1.\<close>

definition expand_segment :: "int \<Rightarrow> mm_seg option" where
  "expand_segment segment_t =
     (if segment_t = 0 then Some MM_SEG_RODATA else if segment_t = 1 then Some MM_SEG_DATA else None)"

definition do_expand :: "exec_context \<Rightarrow> nat \<Rightarrow> int \<Rightarrow> int \<times> exec_context" where
  "do_expand ctx sz segment_t =
     (if sz > 1024 then (0, ctx)
      else case expand_segment segment_t of
        None \<Rightarrow> (0, ctx)
      | Some g \<Rightarrow>
          (let seg = mms ctx g
           in if add64 (next_free seg) (sz * 4096) > seg_end seg then (0, ctx)
              else (int (next_free seg),
                    ctx\<lparr>mms := (mms ctx)(g := seg\<lparr>next_free := add64 (next_free seg) (sz * 4096)\<rparr>)\<rparr>)))"

definition do_shrink :: "kmem \<Rightarrow> exec_context \<Rightarrow> nat \<Rightarrow> int \<Rightarrow> int \<times> exec_context \<times> kmem" where
  "do_shrink s ctx sz segment_t =
     (if sz > 1024 then (0, ctx, s)
      else case expand_segment segment_t of
        None \<Rightarrow> (0, ctx, s)
      | Some g \<Rightarrow>
          (let seg = mms ctx g; nf = sub64 (next_free seg) (sz * 4096)
           in if nf < seg_start seg then (0, ctx, s)
              else (int nf, ctx\<lparr>mms := (mms ctx)(g := seg\<lparr>next_free := nf\<rparr>)\<rparr>,
                    fold (\<lambda>a t. snd (do_unmap_user t (pgd ctx) a)) (pages nf (add64 nf (sz * 4096))) s)))"

text \<open>\<open>do_write\<close>: the value returned; the text itself goes to the console.\<close>

definition do_write :: "kmem \<Rightarrow> exec_context \<Rightarrow> nat \<Rightarrow> nat \<Rightarrow> int" where
  "do_write s ctx address len =
     (if len > 1024 then -1
      else if get_user_pte s (pgd ctx) address = None \<or>
              address div 4096 \<noteq> add64 address len div 4096 \<and>
              get_user_pte s (pgd ctx) (add64 address len) = None then -1
      else int len)"

text \<open>
  The loop that grows the stack down to the page of the fault: the new \<open>next_free\<close> and
  the memory.
\<close>

partial_function (option) grow_stack :: "kmem \<Rightarrow> nat \<Rightarrow> u64 \<Rightarrow> nat \<Rightarrow> nat \<Rightarrow> (nat \<times> kmem) option" where
  "grow_stack s base error_code nf page =
     (if nf = page then Some (nf, s)
      else let nf' = sub64 nf 4096
           in grow_stack (install_page_table s base nf' error_code) base error_code nf' page)"

definition sig_exit :: "os \<Rightarrow> outcome" where
  "sig_exit s = invoke_sync_signal SIGSEGV s"

definition do_page_fault :: "u64 \<Rightarrow> nat \<Rightarrow> os \<Rightarrow> outcome" where
  "do_page_fault error_code cr2 s0 =
     (let s = s0\<lparr>st_page_faults := add64 (st_page_faults s0) 1\<rparr>;
          c = ctxs s (cur s); base = pgd c;
          data = mms c MM_SEG_DATA; rodata = mms c MM_SEG_RODATA; stack = mms c MM_SEG_STACK
      in if error_code = 0x7 then
           (let s1 = s\<lparr>st_cow_page_faults := add64 (st_cow_page_faults s) 1\<rparr>
            in case handle_cow_fault (mem s1) c cr2 of
                 None \<Rightarrow> Crash
               | Some (result, m) \<Rightarrow>
                   (if result > 0 then Run 0 (s1\<lparr>mem := m\<rparr>) else sig_exit (s1\<lparr>mem := m\<rparr>)))
         else if error_code AND 0x1 \<noteq> 0 then sig_exit s
         else if cr2 \<ge> seg_start data \<and> cr2 \<le> seg_end data then
           (if cr2 < next_free data
            then Run 0 (s\<lparr>mem := install_page_table (mem s) base cr2 error_code\<rparr>) else sig_exit s)
         else if cr2 \<ge> seg_start rodata \<and> cr2 \<le> seg_end rodata then
           (if cr2 < next_free rodata \<and> error_code AND 0x2 = 0
            then Run 0 (s\<lparr>mem := install_page_table (mem s) base cr2 error_code\<rparr>) else sig_exit s)
         else if cr2 \<ge> seg_start stack \<and> cr2 \<le> seg_end stack then
           (if cr2 < next_free stack then
              (case grow_stack (mem s) base error_code (next_free stack) (cr2 div 4096 * 4096) of
                 None \<Rightarrow> Crash
               | Some (nf, m) \<Rightarrow>
                   Run 0 (upd_ctx (cur s) (\<lambda>x. x\<lparr>mms := (mms x)(MM_SEG_STACK := stack\<lparr>next_free := nf\<rparr>)\<rparr>)
                            (s\<lparr>mem := install_page_table m base nf error_code\<rparr>)))
            else sig_exit s)
         else if cr2 \<ge> MMAP_AREA_START \<and> cr2 \<le> MMAP_AREA_END then
           (let s1 = s\<lparr>st_mmap_page_faults := add64 (st_mmap_page_faults s) 1\<rparr>;
                (result, m) = vm_area_pagefault (mem s1) c cr2 error_code
            in if result > 0 then Run 0 (s1\<lparr>mem := m\<rparr>) else sig_exit (s1\<lparr>mem := m\<rparr>))
         else sig_exit s)"

definition do_div_by_zero :: "os \<Rightarrow> outcome" where
  "do_div_by_zero s = invoke_sync_signal SIGFPE s"

text \<open>
  The dispatcher.  The parameters are 64-bit registers; the conversions are those of
  the handlers' parameter types.
\<close>

definition int_param :: "nat \<Rightarrow> int" where
  "int_param p = s32 (int p)"

definition with_ctx :: "os \<Rightarrow> int \<times> exec_context \<times> kmem \<Rightarrow> outcome" where
  "with_ctx s r = (case r of (ret, c, m) \<Rightarrow> Run ret (s\<lparr>mem := m, ctxs := (ctxs s)(cur s := c)\<rparr>))"

definition do_syscall :: "nat \<Rightarrow> nat \<Rightarrow> nat \<Rightarrow> nat \<Rightarrow> nat \<Rightarrow> os \<Rightarrow> outcome" where
  "do_syscall k p1 p2 p3 p4 s0 =
     (let s = (upd_ctx (cur s0) (\<lambda>x. x\<lparr>regs := cpu s0\<rparr>) s0)\<lparr>st_syscalls := add64 (st_syscalls s0) 1\<rparr>;
          current = ctxs s (cur s)
      in if k = 1 then do_exit s
         else if k = 2 then Run (int (pid current)) s
         else if k = 3 then Run (do_write (mem s) current p1 p2) s
         else if k = 4 then (case do_expand current p1 (int_param p2) of (r, c) \<Rightarrow> with_ctx s (r, c, mem s))
         else if k = 5 then with_ctx s (do_shrink (mem s) current p1 (int_param p2))
         else if k = 6 then (case do_alarm (of_nat p1) s of (r, s') \<Rightarrow> Run r s')
         else if k = 7 then (case do_sleep (of_nat p1) s of None \<Rightarrow> Crash | Some s' \<Rightarrow> Run 0 s')
         else if k = 8 then (case do_signal (int_param p1) (of_nat p2) s of (r, s') \<Rightarrow> Run r s')
         else if k = 9 then do_clone (of_nat p1) (of_nat p2) s
         else if k = 10 then do_fork s
         else if k \<in> {11, 12, 13} then Run 0 s
         else if k = 14 then
           Run (case get_user_pte (mem s) (pgd current) p1 of None \<Rightarrow> 0 | Some (f, i) \<Rightarrow> int (f * 4096 + i * 8)) s
         else if k = 15 then do_cfork s
         else if k = 16 then
           with_ctx s (vm_area_map (mem s) current p1 (int_param p2) (of_nat p3) (of_nat p4))
         else if k = 17 then with_ctx s (vm_area_unmap (mem s) current p1 (int_param p2))
         else if k = 18 then
           (case vm_area_mprotect (mem s) current p1 (int_param p2) (of_nat p3) of
              None \<Rightarrow> Crash | Some r \<Rightarrow> with_ctx s r)
         else if k = 19 then Run 0 s
         else if k = 20 then do_vfork s
         else Run (-1) s)"

section \<open>The states of the process table\<close>

text \<open>
  The steps of the system: a timer tick, and the calls and faults of a process other
  than the swapper, which runs only the halt loop of the kernel.
\<close>

inductive os_step :: "os \<Rightarrow> os \<Rightarrow> bool" where
  tick: "handle_timer_tick s = Some s' \<Longrightarrow> os_step s s'"
| syscall: "cur s \<noteq> 0 \<Longrightarrow> do_syscall k p1 p2 p3 p4 s = Run ret s' \<Longrightarrow> os_step s s'"
| fault: "cur s \<noteq> 0 \<Longrightarrow> do_page_fault error_code cr2 s = Run ret s' \<Longrightarrow> os_step s s'"
| div_by_zero: "cur s \<noteq> 0 \<Longrightarrow> do_div_by_zero s = Run ret s' \<Longrightarrow> os_step s s'"

definition os_inv :: "os \<Rightarrow> bool" where
  "os_inv s \<longleftrightarrow>
     cur s < MAX_PROCESSES \<and> (\<forall>n < MAX_PROCESSES. pid (ctxs s n) < MAX_PROCESSES) \<and>
     (\<forall>n < MAX_PROCESSES. state_of s n = RUNNING \<longrightarrow> n = cur s) \<and>
     state_of s 0 \<in> {READY, RUNNING} \<and> state_of s (cur s) \<in> {READY, RUNNING}"

text \<open>The state between the moment the current process stops and the next one starts.\<close>

definition idle_inv :: "os \<Rightarrow> bool" where
  "idle_inv s \<longleftrightarrow>
     (\<forall>n < MAX_PROCESSES. pid (ctxs s n) < MAX_PROCESSES \<and> state_of s n \<noteq> RUNNING) \<and> state_of s 0 = READY"

lemma os_inv_cong:
  assumes "os_inv s" "cur s' = cur s"
    and "\<And>n. pid (ctxs s' n) = pid (ctxs s n) \<and> ctx_state (ctxs s' n) = ctx_state (ctxs s n)"
  shows "os_inv s'"
  using assms by (simp add: os_inv_def state_of_def)

lemma idle_pick:
  assumes "idle_inv s" "c < MAX_PROCESSES"
  shows "\<exists>n < MAX_PROCESSES. pick_next_context s c = Some n"
proof -
  have c: "pid (ctxs s c) < MAX_PROCESSES" using assms by (simp add: idle_inv_def)
  let ?n = "first_ready (state_of s) (rr_order (pid (ctxs s c)))"
  have "?n = 0 \<or> ?n \<in> set (rr_order (pid (ctxs s c)))"
    using first_ready_in [of _ "rr_order (pid (ctxs s c))" "state_of s"]
      first_ready_none [of "rr_order (pid (ctxs s c))" "state_of s"] by blast
  then have "?n < MAX_PROCESSES" using set_rr_order [OF c] by auto
  with pick_next_context_eq [OF c] show ?thesis by blast
qed

lemma idle_run:
  assumes "idle_inv s" "n < MAX_PROCESSES" "cur s' = n"
    and "\<And>m. pid (ctxs s' m) = pid (ctxs s m) \<and>
             ctx_state (ctxs s' m) = (if m = n then RUNNING else ctx_state (ctxs s m))"
  shows "os_inv s'"
  using assms by (auto simp: os_inv_def idle_inv_def state_of_def)

lemma schedule_inv: "idle_inv s \<Longrightarrow> n < MAX_PROCESSES \<Longrightarrow> os_inv (schedule n s)"
  by (rule idle_run) (auto simp: schedule_def)

lemma os_invD:
  assumes "os_inv s"
  shows "cur s < MAX_PROCESSES" "n < MAX_PROCESSES \<Longrightarrow> pid (ctxs s n) < MAX_PROCESSES"
    "n < MAX_PROCESSES \<Longrightarrow> n \<noteq> cur s \<Longrightarrow> ctx_state (ctxs s n) \<noteq> RUNNING"
    "ctx_state (ctxs s 0) \<in> {READY, RUNNING}" "ctx_state (ctxs s (cur s)) \<in> {READY, RUNNING}"
  using assms unfolding os_inv_def state_of_def by blast+

lemma swapper_ready: "os_inv s \<Longrightarrow> cur s \<noteq> 0 \<Longrightarrow> ctx_state (ctxs s 0) = READY"
  using os_invD(3) [of s 0] os_invD(4) [of s] by auto

lemma sleep_tick_state:
  "ctx_state (sleep_tick c) = RUNNING \<longleftrightarrow> ctx_state c = RUNNING"
  "ctx_state c \<in> {READY, RUNNING} \<Longrightarrow> sleep_tick c = c" "pid (sleep_tick c) = pid c"
  by (auto simp: sleep_tick_def Let_def)

lemma account_states:
  assumes "n < MAX_PROCESSES"
  shows "ctx_state (ctxs (do_sleep_and_alarm_account s) n) = ctx_state (sleep_tick (ctxs s n))"
    "pid (ctxs (do_sleep_and_alarm_account s) n) = pid (ctxs s n)"
  using account_ctx [OF assms, of s] by (auto simp: sleep_tick_state)

lemma tick_inv:
  assumes "os_inv s"
  shows "\<exists>s'. handle_timer_tick s = Some s' \<and> os_inv s'"
proof -
  define s2 where "s2 = set_state (cur s) READY
    ((do_sleep_and_alarm_account s)\<lparr>st_ticks := add64 (st_ticks (do_sleep_and_alarm_account s)) 1\<rparr>)"
  have cs: "ctx_state (ctxs s2 n) =
      (if n = cur s then READY else ctx_state (sleep_tick (ctxs s n)))" "pid (ctxs s2 n) = pid (ctxs s n)"
    if "n < MAX_PROCESSES" for n
    using account_states [OF that, of s] by (auto simp: s2_def)
  have cr: "cur s2 = cur s" by (simp add: s2_def)
  have z: "state_of s2 0 = READY"
  proof (cases "cur s = 0")
    case False
    with swapper_ready [OF assms] sleep_tick_state(2) [of "ctxs s 0"] cs(1) [of 0] show ?thesis
      by (simp add: state_of_def)
  qed (use cs(1) [of 0] in \<open>simp add: state_of_def\<close>)
  have "state_of s2 m \<noteq> RUNNING" if "m < MAX_PROCESSES" for m
    using cs(1) [OF that] os_invD(3) [OF assms that] sleep_tick_state(1) [of "ctxs s m"]
    by (cases "m = cur s") (simp_all add: state_of_def)
  then have idle: "idle_inv s2"
    using cs(2) z os_invD(2) [OF assms] by (simp add: idle_inv_def)
  obtain n where n: "n < MAX_PROCESSES" "pick_next_context s2 (cur s) = Some n"
    using idle_pick [OF idle os_invD(1) [OF assms]] by blast
  have "os_inv s2"
    using idle cr os_invD(1) [OF assms] cs(1) [of "cur s"]
    unfolding os_inv_def idle_inv_def by (simp add: state_of_def)
  moreover have "os_inv (set_state n RUNNING (s3\<lparr>cpu := x, cur := n\<rparr>))"
    if "s3 = upd_ctx (cur s) (\<lambda>c. c\<lparr>regs := y\<rparr>) (s2\<lparr>st_context_switches := k\<rparr>)" for s3 x y k
    by (rule idle_run [OF idle n(1)]) (auto simp: that)
  moreover have "handle_timer_tick s =
      (case pick_next_context s2 (cur s) of None \<Rightarrow> None
       | Some n \<Rightarrow> Some (if n = cur s then s2 else
           let s3 = s2\<lparr>st_context_switches := add64 (st_context_switches s2) 1\<rparr>;
               s4 = upd_ctx (cur s) (\<lambda>x. x\<lparr>regs := cpu s3\<rparr>) s3
           in set_state n RUNNING (s4\<lparr>cpu := regs (ctxs s4 n), cur := n\<rparr>)))"
    unfolding handle_timer_tick_def Let_def s2_def ..
  ultimately show ?thesis using n(2) by (simp add: Let_def)
qed

lemma exit_inv:
  assumes "os_inv s" "cur s \<noteq> 0" "do_exit s = Run ret s'"
  shows "os_inv s'"
proof -
  let ?c = "cur s"
  obtain p where p: "get_ctx_by_pid (ppid (ctxs s ?c)) = Some p"
    using assms(3) by (auto simp: do_exit_def Let_def split: option.splits)
  define s4 where "s4 = (let s1 = upd_ctx p (vfork_exit_handle (ctxs s ?c)) s;
      s2 = s1\<lparr>mem := os_pfn_free OS_PT_REG (os_stack_pfn (ctxs s1 ?c)) (mem s1)\<rparr>;
      s3 = set_state ?c UNUSED s2
    in s3\<lparr>st_num_processes := sub64 (st_num_processes s3) 1\<rparr>)"
  have cs: "ctx_state (ctxs s4 n) = (if n = ?c then UNUSED else if n = p \<and> pgd (ctxs s p) = pgd (ctxs s ?c)
      then READY else ctx_state (ctxs s n))" "pid (ctxs s4 n) = pid (ctxs s n)" for n
    by (auto simp: s4_def Let_def vfork_exit_handle_def)
  have "ctx_state (ctxs s4 n) \<noteq> RUNNING" if "n < MAX_PROCESSES" for n
    using cs(1) [of n] os_invD(3) [OF assms(1) that] by (auto split: if_splits)
  moreover have "ctx_state (ctxs s4 0) = READY"
    using cs(1) [of 0] swapper_ready [OF assms(1,2)] assms(2) by (auto split: if_splits)
  ultimately have idle: "idle_inv s4"
    using cs(2) os_invD(2) [OF assms(1)] by (simp add: idle_inv_def state_of_def)
  have "do_exit s = (if list_all (\<lambda>n. state_of s4 n = UNUSED) [1..<MAX_PROCESSES] then Halt s4
      else case pick_next_context s4 ?c of None \<Rightarrow> Crash | Some n \<Rightarrow> Run 0 (schedule n s4))"
    unfolding do_exit_def Let_def p option.case s4_def ..
  with assms(3) idle_pick [OF idle os_invD(1) [OF assms(1)]] obtain n where
    "n < MAX_PROCESSES" "s' = schedule n s4"
    by (auto split: if_splits option.splits)
  with schedule_inv [OF idle] show ?thesis by blast
qed

lemma signal_inv:
  assumes "os_inv s" "cur s \<noteq> 0" "invoke_sync_signal g s = Run ret s'"
  shows "os_inv s'"
proof (cases "sighandlers (ctxs s (cur s)) g = 0 \<and> g \<noteq> SIGALRM")
  case True
  with assms exit_inv show ?thesis by (simp add: invoke_sync_signal_def)
next
  case False
  then have "s' = deliver_signal g s" using assms(3) by (auto simp: invoke_sync_signal_def)
  then show ?thesis using assms(1) by (auto intro: os_inv_cong)
qed

lemma sleep_inv:
  assumes "os_inv s" "cur s \<noteq> 0" "do_sleep t s = Some s'"
  shows "os_inv s'"
proof -
  let ?s = "upd_ctx (cur s) (\<lambda>x. x\<lparr>ticks_to_sleep := t, ctx_state := WAITING\<rparr>) s"
  have "ctx_state (ctxs ?s n) \<noteq> RUNNING" if "n < MAX_PROCESSES" for n
    using os_invD(3) [OF assms(1) that] by simp
  then have idle: "idle_inv ?s"
    using os_invD(2) [OF assms(1)] swapper_ready [OF assms(1,2)] assms(2)
    by (simp add: idle_inv_def state_of_def)
  obtain n where n: "n < MAX_PROCESSES" "pick_next_context ?s (cur s) = Some n"
    using idle_pick [OF idle os_invD(1) [OF assms(1)]] by blast
  then have "s' = schedule n ?s" using assms(3) by (simp add: do_sleep_def Let_def)
  then show ?thesis using schedule_inv [OF idle n(1)] by simp
qed

lemma get_new_ctx_SomeD:
  assumes "get_new_ctx s = Some (n, s1)"
  shows "n < MAX_PROCESSES \<and> state_of s n = UNUSED \<and>
         s1 = upd_ctx n (\<lambda>c. c\<lparr>pid := n, ctx_state := NEW\<rparr>) s"
proof -
  let ?f = "filter (\<lambda>n. state_of s n = UNUSED) [0..<MAX_PROCESSES]"
  obtain ns where f: "?f = n # ns" and s1: "s1 = upd_ctx n (\<lambda>c. c\<lparr>pid := n, ctx_state := NEW\<rparr>) s"
    using assms unfolding get_new_ctx_def by (auto split: list.splits)
  have "n \<in> set ?f" unfolding f by simp
  then have "n < MAX_PROCESSES \<and> state_of s n = UNUSED" unfolding set_filter by simp
  with s1 show ?thesis by blast
qed

lemma unused_slot:
  assumes "os_inv s" "state_of s n = UNUSED"
  shows "n \<noteq> 0 \<and> n \<noteq> cur s"
proof (intro conjI notI)
  show False if "n = 0" using os_invD(4) [OF assms(1)] assms(2) that by (simp add: state_of_def)
  show False if "n = cur s" using os_invD(5) [OF assms(1)] assms(2) that by (simp add: state_of_def)
qed

text \<open>A new context in an unused slot.\<close>

lemma new_slot_inv:
  assumes "os_inv s" "n < MAX_PROCESSES" "state_of s n = UNUSED" "cur s' = cur s"
    and "\<And>m. m \<noteq> n \<Longrightarrow> pid (ctxs s' m) = pid (ctxs s m) \<and>
             ctx_state (ctxs s' m) = ctx_state (ctxs s m)"
    and "pid (ctxs s' n) < MAX_PROCESSES" "ctx_state (ctxs s' n) = READY"
  shows "os_inv s'"
proof -
  have ne: "n \<noteq> 0" "n \<noteq> cur s" using unused_slot [OF assms(1,3)] by simp_all
  have "pid (ctxs s' m) < MAX_PROCESSES" if "m < MAX_PROCESSES" for m
    using assms(5,6) os_invD(2) [OF assms(1) that] by (cases "m = n") auto
  moreover have "m = cur s" if "m < MAX_PROCESSES" "ctx_state (ctxs s' m) = RUNNING" for m
    using assms(5,7) os_invD(3) [OF assms(1) that(1)] that by (cases "m = n") auto
  moreover have "ctx_state (ctxs s' 0) = ctx_state (ctxs s 0)"
    "ctx_state (ctxs s' (cur s)) = ctx_state (ctxs s (cur s))"
    using assms(5) [of 0] assms(5) [of "cur s"] ne by auto
  ultimately show ?thesis
    using os_invD(1,4,5) [OF assms(1)] unfolding os_inv_def state_of_def assms(4) by metis
qed

lemma setup_child_sel:
  "cur (setup_child_context n s) = cur s"
  "ctx_state (ctxs (setup_child_context n s) m) = (if m = n then READY else ctx_state (ctxs s m))"
  "pid (ctxs (setup_child_context n s) m) = pid (ctxs s m)"
  by (simp_all add: setup_child_context_def Let_def split: prod.split)

lemma setup_child_fields:
  "\<exists>f r. ctxs (setup_child_context n s) =
     (ctxs s)(n := (ctxs s n)\<lparr>os_stack_pfn := f, os_rsp := r, ctx_state := READY\<rparr>)"
proof -
  obtain pfn m where "os_pfn_alloc OS_PT_REG (mem s) = (pfn, m)" by fastforce
  then show ?thesis
    by (intro exI [of _ pfn] exI [of _ "pfn * 4096 + 4096"])
      (simp add: setup_child_context_def Let_def upd_ctx_def)
qed

lemma filter_upt_first: "filter P [i..<j] = n # ns \<Longrightarrow> i \<le> m \<Longrightarrow> m < n \<Longrightarrow> \<not> P m"
proof (induction "j - i" arbitrary: i)
  case (Suc k)
  then have "[i..<j] = i # [Suc i..<j]" by (simp add: upt_conv_Cons)
  with Suc.hyps(1) [of "Suc i"] Suc.hyps(2) Suc.prems show ?case by (cases "P i"; cases "m = i") auto
qed simp

lemma get_new_ctx_first:
  assumes "\<not> (\<forall>n < MAX_PROCESSES. state_of s n \<noteq> UNUSED)"
  shows "\<exists>n s1. get_new_ctx s = Some (n, s1) \<and> (\<forall>m < n. state_of s m \<noteq> UNUSED)"
proof -
  let ?f = "filter (\<lambda>n. state_of s n = UNUSED) [0..<MAX_PROCESSES]"
  have "?f \<noteq> []" unfolding filter_empty_conv using assms by auto
  then obtain n ns where f: "?f = n # ns" by (cases ?f) auto
  then have "\<forall>m < n. state_of s m \<noteq> UNUSED" using filter_upt_first by blast
  then show ?thesis unfolding get_new_ctx_def f by auto
qed

lemma copy_mm_ctx: "fst (copy_mm m c p) = c\<lparr>pgd := fst (os_pfn_alloc OS_PT_REG m)\<rparr>"
  by (cases "os_pfn_alloc OS_PT_REG m") (simp add: copy_mm_def Let_def)

lemma copy_mm_pid: "pid (fst (copy_mm m c p)) = pid c"
  by (simp add: copy_mm_ctx)

lemma cfork_copy_mm_pid: "cfork_copy_mm m c p = Some (c', m') \<Longrightarrow> pid c' = pid c"
  by (auto simp: cfork_copy_mm_def Let_def split: prod.splits option.splits)

lemma fork_inv:
  assumes "os_inv s" "do_fork s = Run ret s'"
  shows "os_inv s'"
proof -
  obtain n s1 where g: "get_new_ctx s = Some (n, s1)"
    using assms(2) by (auto simp: do_fork_def split: option.splits)
  note g' = get_new_ctx_SomeD [OF g]
  obtain c m where cm: "copy_mm (mem s1) (child_of n (ctxs s1 (cur s))) (ctxs s1 (cur s)) = (c, m)"
    by fastforce
  have s': "s' = setup_child_context n (s1\<lparr>mem := m, ctxs := (ctxs s1)(n := c)\<rparr>)"
    using assms(2) g cm by (simp add: do_fork_def)
  have "pid c = n"
    using copy_mm_pid [of "mem s1" "child_of n (ctxs s1 (cur s))" "ctxs s1 (cur s)"] cm
    by (simp add: child_of_def)
  with g' show ?thesis
    by (intro new_slot_inv [OF assms(1), of n]) (auto simp: s' setup_child_sel)
qed

lemma cfork_inv:
  assumes "os_inv s" "do_cfork s = Run ret s'"
  shows "os_inv s'"
proof -
  obtain n s1 where g: "get_new_ctx s = Some (n, s1)"
    using assms(2) by (auto simp: do_cfork_def split: option.splits)
  note g' = get_new_ctx_SomeD [OF g]
  obtain c m where cm: "cfork_copy_mm (mem s1) (child_of n (ctxs s1 (cur s))) (ctxs s1 (cur s)) = Some (c, m)"
    and s': "s' = setup_child_context n (s1\<lparr>mem := m, ctxs := (ctxs s1)(n := c)\<rparr>)"
    using assms(2) g by (auto simp: do_cfork_def Let_def split: option.splits)
  have "pid c = n" using cfork_copy_mm_pid [OF cm] by (simp add: child_of_def)
  with g' show ?thesis
    by (intro new_slot_inv [OF assms(1), of n]) (auto simp: s' setup_child_sel)
qed

lemma clone_inv:
  assumes "os_inv s" "do_clone f u s = Run ret s'"
  shows "os_inv s'"
proof -
  obtain n s1 where g: "get_new_ctx s = Some (n, s1)"
    using assms(2) by (auto simp: do_clone_def split: option.splits)
  note g' = get_new_ctx_SomeD [OF g]
  obtain pfn m where a: "os_pfn_alloc OS_PT_REG (mem s1) = (pfn, m)" by fastforce
  show ?thesis
    using assms(2) g a g'
    by (intro new_slot_inv [OF assms(1), of n]) (auto simp: do_clone_def Let_def)
qed

lemma vfork_inv:
  assumes "os_inv s" "cur s \<noteq> 0" "do_vfork s = Run ret s'"
  shows "os_inv s'"
proof -
  let ?c = "cur s"
  obtain n s1 where g: "get_new_ctx s = Some (n, s1)"
    using assms(3) by (auto simp: do_vfork_def split: option.splits)
  note g' = get_new_ctx_SomeD [OF g]
  have ne: "n \<noteq> 0" "n \<noteq> ?c" using unused_slot [OF assms(1), of n] g' by simp_all
  obtain c p m where v: "vfork_copy_mm (mem s1) (child_of n (ctxs s1 ?c)) (ctxs s1 ?c) = (c, p, m)"
    by (metis prod_cases3)
  then have cp: "pid c = n" "pid p = pid (ctxs s ?c)" "ctx_state p = WAITING"
    using g' ne by (auto simp: vfork_copy_mm_def child_of_def Let_def)
  define s2 where "s2 = setup_child_context n (s1\<lparr>mem := m, ctxs := (ctxs s1)(?c := p, n := c)\<rparr>)"
  define s3 where "s3 = upd_ctx ?c (\<lambda>x. x\<lparr>regs := (regs x)\<lparr>rax := of_nat n\<rparr>\<rparr>) s2"
  have s': "s' = schedule n s3"
    using assms(3) g v by (simp add: do_vfork_def Let_def s2_def s3_def)
  have cs: "ctx_state (ctxs s3 k) = (if k = n then READY else if k = ?c then WAITING else ctx_state (ctxs s k))"
    "pid (ctxs s3 k) = (if k = n then n else pid (ctxs s k))" for k
    using cp g' ne by (auto simp: s3_def s2_def setup_child_sel)
  have "ctx_state (ctxs s3 k) \<noteq> RUNNING" if "k < MAX_PROCESSES" for k
    using cs(1) [of k] os_invD(3) [OF assms(1) that] by simp
  moreover have "pid (ctxs s3 k) < MAX_PROCESSES" if "k < MAX_PROCESSES" for k
    using cs(2) [of k] os_invD(2) [OF assms(1) that] g' by simp
  ultimately have "idle_inv s3"
    using cs(1) [of 0] ne(1) assms(2) swapper_ready [OF assms(1,2)] by (simp add: idle_inv_def state_of_def)
  with schedule_inv g' s' show ?thesis by blast
qed

text \<open>Calls that change the current context only, and neither its pid nor its state.\<close>

lemma with_ctx_inv:
  assumes "os_inv s" "with_ctx s (r, c, m) = Run ret s'"
    and "pid c = pid (ctxs s (cur s))" "ctx_state c = ctx_state (ctxs s (cur s))"
  shows "os_inv s'"
  using assms by (intro os_inv_cong [OF assms(1)]) (auto simp: with_ctx_def)

lemma mm_calls_keep:
  "vm_area_map m c a l p f = (r, c', m') \<Longrightarrow> pid c' = pid c \<and> ctx_state c' = ctx_state c"
  "vm_area_unmap m c a l = (r, c', m') \<Longrightarrow> pid c' = pid c \<and> ctx_state c' = ctx_state c"
  "vm_area_mprotect m c a l p = Some (r, c', m') \<Longrightarrow> pid c' = pid c \<and> ctx_state c' = ctx_state c"
  "do_expand c sz g = (r, c') \<Longrightarrow> pid c' = pid c \<and> ctx_state c' = ctx_state c"
  "do_shrink m c sz g = (r, c', m') \<Longrightarrow> pid c' = pid c \<and> ctx_state c' = ctx_state c"
  by (auto simp: vm_area_map_def vm_area_unmap_def vm_area_mprotect_def do_expand_def do_shrink_def Let_def
      split: vres.splits mres.splits option.splits if_splits)

lemma page_fault_inv:
  assumes "os_inv s" "cur s \<noteq> 0" "do_page_fault e a s = Run ret s'"
  shows "os_inv s'"
proof -
  define s0 where "s0 = s\<lparr>st_page_faults := add64 (st_page_faults s) 1\<rparr>"
  have same: "os_inv t" "cur t \<noteq> 0" if "ctxs t = ctxs s" "cur t = cur s" for t
    using that assms(2) by (auto intro: os_inv_cong [OF assms(1)])
  have sig: "os_inv s'" if "sig_exit t = Run ret s'" "ctxs t = ctxs s" "cur t = cur s" for t
    using signal_inv [OF same [OF that(2,3)]] that(1) by (simp add: sig_exit_def)
  have stk: "os_inv (upd_ctx (cur s) (\<lambda>x. x\<lparr>mms := g x\<rparr>) t)" if "ctxs t = ctxs s" "cur t = cur s" for t g
    using that by (intro os_inv_cong [OF assms(1)]) auto
  have s0: "ctxs s0 = ctxs s" "cur s0 = cur s" by (simp_all add: s0_def)
  show ?thesis
    using assms(3) unfolding do_page_fault_def Let_def s0_def [symmetric] s0
    by (auto simp: s0 intro: same stk dest: sig split: if_splits option.splits prod.splits)
qed

lemma syscall_inv:
  assumes "os_inv s" "cur s \<noteq> 0" "do_syscall k p1 p2 p3 p4 s = Run ret s'"
  shows "os_inv s'"
proof -
  define t where "t = (upd_ctx (cur s) (\<lambda>x. x\<lparr>regs := cpu s\<rparr>) s)\<lparr>st_syscalls := add64 (st_syscalls s) 1\<rparr>"
  have t: "os_inv t" "cur t \<noteq> 0"
    using assms(2) by (auto simp: t_def intro: os_inv_cong [OF assms(1)])
  let ?c = "ctxs t (cur t)"
  note wc = with_ctx_inv [OF t(1)]
  have upd: "os_inv (upd_ctx (cur t) f t)" if "\<And>x. pid (f x) = pid x \<and> ctx_state (f x) = ctx_state x" for f
    using that by (intro os_inv_cong [OF t(1)]) auto
  have alarm: "os_inv u" if "do_alarm x t = (r, u)" for x r u
    using that t(1) upd by (auto simp: do_alarm_def split: if_splits)
  have sgn: "os_inv u" if "do_signal x h t = (r, u)" for x h r u
    using that t(1) upd by (auto simp: do_signal_def split: option.splits)
  have map: "os_inv s'" if "with_ctx t (vm_area_map (mem t) ?c a l p f) = Run ret s'" for a l p f
    using that wc mm_calls_keep(1) by (metis prod_cases3)
  have unmap: "os_inv s'" if "with_ctx t (vm_area_unmap (mem t) ?c a l) = Run ret s'" for a l
    using that wc mm_calls_keep(2) by (metis prod_cases3)
  have prot: "os_inv s'" if "vm_area_mprotect (mem t) ?c a l p = Some r" "with_ctx t r = Run ret s'" for a l p r
    using that wc mm_calls_keep(3) by (metis prod_cases3)
  have ex: "os_inv s'" if "do_expand ?c sz g = (r, c)" "with_ctx t (r, c, mem t) = Run ret s'" for sz g r c
    using that wc mm_calls_keep(4) by metis
  have sh: "os_inv s'" if "with_ctx t (do_shrink (mem t) ?c sz g) = Run ret s'" for sz g
    using that wc mm_calls_keep(5) by (metis prod_cases3)
  show ?thesis
    using assms(3) t(1) unfolding do_syscall_def Let_def t_def [symmetric]
    by (auto intro: alarm sgn map unmap prot ex sh exit_inv [OF t] sleep_inv [OF t] clone_inv [OF t(1)]
        fork_inv [OF t(1)] cfork_inv [OF t(1)] vfork_inv [OF t]
        split: if_splits option.splits prod.splits)
qed

lemma os_step_inv: "os_step s s' \<Longrightarrow> os_inv s \<Longrightarrow> os_inv s'"
proof (induction rule: os_step.induct)
  case (tick s s')
  with tick_inv show ?case by fastforce
next
  case (div_by_zero s ret s')
  then show ?case using signal_inv by (simp add: do_div_by_zero_def)
qed (auto intro: syscall_inv page_fault_inv)

section \<open>The stack and the frames it takes\<close>

lemma free_user_walk_alloc:
  "pglists (snd (walk_alloc s p flags)) USER_REG = pglists s USER_REG \<and>
   user_reg_pages (snd (walk_alloc s p flags)) = user_reg_pages s"
proof -
  obtain pfn s1 where a: "os_pfn_alloc OS_PT_REG s = (pfn, s1)" by fastforce
  have "pglists s1 USER_REG = pglists s USER_REG" using pglists_os_pfn_alloc [of OS_PT_REG s] a by simp
  moreover have "user_reg_pages s1 = user_reg_pages s"
    using a by (auto simp: os_pfn_alloc_def Let_def split: prod.splits if_splits)
  ultimately show ?thesis using a by (simp add: walk_alloc_def)
qed

lemma walk_install_user:
  assumes "free_pages (pglists s USER_REG) = Suc n"
  shows "free_pages (pglists (walk_install s base a tf pf) USER_REG) = n \<and>
         user_reg_pages (walk_install s base a tf pf) = add64 (user_reg_pages s) 1"
proof -
  obtain pud s1 where w1: "walk_alloc s (base, pgd_index a) tf = (pud, s1)" by fastforce
  obtain pmd s2 where w2: "walk_alloc s1 (pud, pud_index a) tf = (pmd, s2)" by fastforce
  obtain pt s3 where w3: "walk_alloc s2 (pmd, pmd_index a) tf = (pt, s3)" by fastforce
  obtain pfn s4 where w4: "os_pfn_alloc USER_REG s3 = (pfn, s4)" by fastforce
  have s3: "pglists s3 USER_REG = pglists s USER_REG" "user_reg_pages s3 = user_reg_pages s"
    using free_user_walk_alloc [of s "(base, pgd_index a)" tf] free_user_walk_alloc [of s1 "(pud, pud_index a)" tf]
      free_user_walk_alloc [of s2 "(pmd, pmd_index a)" tf] by (simp_all add: w1 w2 w3)
  then have "free_pages (pglists s4 USER_REG) = n"
    using pglists_os_pfn_alloc [of USER_REG s3] w4 assms by (simp add: get_free_page_eq)
  moreover have "user_reg_pages s4 = add64 (user_reg_pages s) 1"
    using s3 w4 assms by (auto simp: os_pfn_alloc_def Let_def set_pfn_info_def split: prod.splits)
  ultimately show ?thesis by (simp add: walk_install_def w1 w2 w3 w4)
qed

lemma grow_stack_returns:
  assumes "k < free_pages (pglists m USER_REG)" "user_reg_pages m + k < 2 ^ 64" "page + k * 4096 < 2 ^ 64"
  shows "\<exists>m'. grow_stack m base e (page + k * 4096) page = Some (page, m') \<and>
           free_pages (pglists m' USER_REG) + k = free_pages (pglists m USER_REG) \<and>
           user_reg_pages m' = user_reg_pages m + k"
  using assms
proof (induction k arbitrary: m)
  case 0
  then show ?case by (subst grow_stack.simps) simp
next
  case (Suc k)
  let ?nf = "page + Suc k * 4096" and ?m = "install_page_table m base (page + k * 4096) e"
  have nf: "sub64 ?nf 4096 = page + k * 4096" using Suc.prems by (subst sub64_small) auto
  obtain j where j: "free_pages (pglists m USER_REG) = Suc j" using Suc.prems(1) by (cases "free_pages (pglists m USER_REG)") auto
  have u: "free_pages (pglists ?m USER_REG) = j" "user_reg_pages ?m = user_reg_pages m + 1"
    using walk_install_user [OF j] Suc.prems(2) by (simp_all add: install_page_table_def add64_small)
  have "\<exists>m'. grow_stack ?m base e (page + k * 4096) page = Some (page, m') \<and>
      free_pages (pglists m' USER_REG) + k = free_pages (pglists ?m USER_REG) \<and>
      user_reg_pages m' = user_reg_pages ?m + k"
    using Suc.prems j u by (intro Suc.IH) auto
  moreover have "grow_stack m base e ?nf page = grow_stack ?m base e (page + k * 4096) page"
    using nf by (subst grow_stack.simps) (simp add: Let_def)
  ultimately show ?case using j u by auto
qed

section \<open>Properties\<close>

text \<open>
  C28. The states of the process table.  In every state that any sequence of timer
  ticks, system calls, page faults and divisions by zero brings about, no process
  other than the current one is \<open>RUNNING\<close>, the current process and the swapper can run,
  and the timer interrupt finds a process to run: the scheduler always returns.
\<close>

theorem os_reach_inv:
  assumes "os_inv s" "rtranclp os_step s s'"
  shows "cur s' < MAX_PROCESSES \<and>
         (\<forall>n < MAX_PROCESSES. state_of s' n = RUNNING \<longrightarrow> n = cur s') \<and>
         state_of s' (cur s') \<in> {READY, RUNNING} \<and> state_of s' 0 \<in> {READY, RUNNING} \<and>
         (\<exists>s''. handle_timer_tick s' = Some s'')"
proof -
  have "os_inv s'" using assms(2,1) by (induction rule: rtranclp_induct) (auto intro: os_step_inv)
  with tick_inv [of s'] show ?thesis unfolding os_inv_def by blast
qed

theorem os_reach_inv_witness:
  "\<exists>s'. handle_timer_tick sleep_os = Some s' \<and> cur s' < MAX_PROCESSES \<and>
        (\<exists>s''. handle_timer_tick s' = Some s'')"
proof -
  have inv: "os_inv sleep_os"
    by (simp add: os_inv_def sleep_os_def state_of_def zero_ctx_def)
  then obtain s' where s': "handle_timer_tick sleep_os = Some s'" using tick_inv by blast
  then have "rtranclp os_step sleep_os s'" by (blast intro: os_step.tick)
  from os_reach_inv [OF inv this] s' show ?thesis by blast
qed

text \<open>
  \<open>expand\<close> and \<open>shrink\<close>.  On a segment inside its bounds a successful \<open>expand\<close>
  returns the old end of the used part and moves it up by the requested pages, never
  past the end of the segment; a \<open>shrink\<close> by the same number of pages then succeeds
  and restores the context.
\<close>

theorem expand_shrink:
  assumes "do_expand ctx sz g = (r, ctx')" "r \<noteq> 0" "expand_segment g = Some k"
    and "seg_start (mms ctx k) \<le> next_free (mms ctx k)" "next_free (mms ctx k) \<le> seg_end (mms ctx k)"
    and "seg_end (mms ctx k) < 2 ^ 63"
  shows "r = int (next_free (mms ctx k)) \<and> next_free (mms ctx' k) = next_free (mms ctx k) + sz * 4096 \<and>
         next_free (mms ctx' k) \<le> seg_end (mms ctx' k) \<and>
         (\<exists>s'. do_shrink s ctx' sz g = (r, ctx, s'))"
proof -
  let ?seg = "mms ctx k"
  have sz: "sz \<le> 1024" using assms(1,2) by (auto simp: do_expand_def split: if_splits)
  then have a: "add64 (next_free ?seg) (sz * 4096) = next_free ?seg + sz * 4096"
    using assms(5,6) by (intro add64_small) simp
  then have le: "next_free ?seg + sz * 4096 \<le> seg_end ?seg" "r = int (next_free ?seg)"
    and c: "ctx' = ctx\<lparr>mms := (mms ctx)(k := ?seg\<lparr>next_free := next_free ?seg + sz * 4096\<rparr>)\<rparr>"
    using assms(1-3) sz by (auto simp: do_expand_def Let_def split: if_splits)
  have "sub64 (next_free ?seg + sz * 4096) (sz * 4096) = next_free ?seg"
    using le assms(6) by (subst sub64_small) simp_all
  then have "\<exists>s'. do_shrink s ctx' sz g = (r, ctx, s')"
    using sz assms(3,4) le(2) by (simp add: do_shrink_def c Let_def)
  with le c show ?thesis by simp
qed

theorem expand_shrink_witness:
  "\<exists>c s'. do_expand (zero_ctx\<lparr>mms := (\<lambda>_. \<lparr>seg_start = 0x180000000, seg_end = 0x1801fffff,
       next_free = 0x180001000, seg_flags = 3\<rparr>)\<rparr>) 5 1 = (0x180001000, c) \<and>
     next_free (mms c MM_SEG_DATA) = 0x180006000 \<and> fst (do_shrink boot_mem c 5 1) = 0x180001000"
proof -
  let ?z = "zero_ctx\<lparr>mms := (\<lambda>_. \<lparr>seg_start = 0x180000000, seg_end = 0x1801fffff,
       next_free = 0x180001000, seg_flags = 3\<rparr>)\<rparr>"
  obtain c where c: "do_expand ?z 5 1 = (0x180001000, c)"
    by (simp add: do_expand_def expand_segment_def add64_def)
  have g: "expand_segment 1 = Some MM_SEG_DATA" by (simp add: expand_segment_def)
  from expand_shrink [OF c _ g, of boot_mem] have "next_free (mms c MM_SEG_DATA) = 0x180006000"
    "fst (do_shrink boot_mem c 5 1) = 0x180001000" by auto
  with c show ?thesis by blast
qed

text \<open>
  C29. A fault below the stack.  If the fault page lies \<open>k > 0\<close> pages below the used
  stack the handler returns, the stack grows by \<open>k\<close> pages down to the fault page, but
  \<open>k + 1\<close> user frames are allocated: the last page is installed twice, and the frame of
  the first installation is lost.
\<close>

theorem stack_fault_frames:
  assumes "c = ctxs s (cur s)" "error_code AND 1 = 0" "stk = mms c MM_SEG_STACK"
    and "\<not> (cr2 \<ge> seg_start (mms c MM_SEG_DATA) \<and> cr2 \<le> seg_end (mms c MM_SEG_DATA))"
    and "\<not> (cr2 \<ge> seg_start (mms c MM_SEG_RODATA) \<and> cr2 \<le> seg_end (mms c MM_SEG_RODATA))"
    and "seg_start stk \<le> cr2" "next_free stk \<le> seg_end stk" "seg_end stk < 2 ^ 63"
    and "next_free stk = cr2 div 4096 * 4096 + k * 4096" "0 < k"
    and "k < free_pages (pglists (mem s) USER_REG)" "user_reg_pages (mem s) + k + 1 < 2 ^ 64"
  shows "\<exists>s'. do_page_fault error_code cr2 s = Run 0 s' \<and>
           next_free (mms (ctxs s' (cur s)) MM_SEG_STACK) = cr2 div 4096 * 4096 \<and>
           user_reg_pages (mem s') = user_reg_pages (mem s) + k + 1 \<and>
           free_pages (pglists (mem s') USER_REG) + k + 1 = free_pages (pglists (mem s) USER_REG)"
proof -
  let ?page = "cr2 div 4096 * 4096" and ?b = "pgd c"
  have lt: "cr2 < next_free stk"
  proof -
    have "cr2 < ?page + 4096" using div_mult_mod_eq [of cr2 4096] mod_less_divisor [of 4096 cr2] by linarith
    moreover have "4096 \<le> k * 4096" using assms(10) by simp
    ultimately show ?thesis using assms(9) by linarith
  qed
  have ne: "error_code \<noteq> 7" using assms(2) by auto
  obtain m' where m': "grow_stack (mem s) ?b error_code (next_free stk) ?page = Some (?page, m')"
    "free_pages (pglists m' USER_REG) + k = free_pages (pglists (mem s) USER_REG)"
    "user_reg_pages m' = user_reg_pages (mem s) + k"
    using grow_stack_returns [of k "mem s" ?page ?b error_code] assms(7-12) by auto
  obtain j where j: "free_pages (pglists m' USER_REG) = Suc j"
    using m'(2) assms(11) by (cases "free_pages (pglists m' USER_REG)") auto
  have i: "free_pages (pglists (install_page_table m' ?b ?page error_code) USER_REG) = j"
    "user_reg_pages (install_page_table m' ?b ?page error_code) = user_reg_pages (mem s) + k + 1"
    using walk_install_user [OF j] m'(3) assms(12) by (simp_all add: install_page_table_def add64_small)
  have in_stack: "cr2 \<ge> seg_start stk \<and> cr2 \<le> seg_end stk" using assms(6,7) lt by simp
  have "do_page_fault error_code cr2 s =
      Run 0 (upd_ctx (cur s) (\<lambda>x. x\<lparr>mms := (mms x)(MM_SEG_STACK := stk\<lparr>next_free := ?page\<rparr>)\<rparr>)
        (s\<lparr>st_page_faults := add64 (st_page_faults s) 1,
           mem := install_page_table m' ?b ?page error_code\<rparr>))"
    by (simp add: do_page_fault_def Let_def assms(1) [symmetric] assms(3) [symmetric] assms(2,4,5) ne lt
        in_stack m'(1))
  then show ?thesis using m'(2) i j by simp
qed

theorem stack_fault_frames_witness:
  "\<exists>s'. do_page_fault 6 0x7ffffb010 (sleep_os\<lparr>ctxs := (\<lambda>_. stack_ctx)\<rparr>) = Run 0 s' \<and>
        next_free (mms (ctxs s' 4) MM_SEG_STACK) = 0x7ffffb000 \<and> user_reg_pages (mem s') = 4"
proof -
  let ?s = "sleep_os\<lparr>ctxs := (\<lambda>_. stack_ctx)\<rparr>"
  have m: "mms stack_ctx MM_SEG_STACK = \<lparr>seg_start = 0x7ff000000, seg_end = 0x800000000,
       next_free = 0x7ffffe000, seg_flags = 3\<rparr>"
    "seg_end (mms stack_ctx MM_SEG_DATA) = 0" "seg_end (mms stack_ctx MM_SEG_RODATA) = 0"
    by (simp_all add: stack_ctx_def zero_ctx_def)
  have s: "ctxs ?s n = stack_ctx" "mem ?s = boot_mem" "cur ?s = 4" for n by (simp_all add: sleep_os_def)
  have u: "user_reg_pages boot_mem = 0" "free_pages (pglists boot_mem USER_REG) = 0x19BFC"
    by (simp add: boot_mem_def) (simp add: boot_mem_user)
  show ?thesis
    using stack_fault_frames [of stack_ctx ?s 6 _ "0x7ffffb010" 3, OF _ _ refl]
    unfolding s u by (simp add: m) blast
qed

text \<open>
  C30. Creating a process.  If a slot is unused, \<open>fork\<close> returns the number of the first
  unused slot, which is not 0 and not the current one; its context is \<open>READY\<close>, has that
  pid and the parent's pid as \<open>ppid\<close>, and shares registers, signal handlers and segment
  bounds with the parent; every other context is unchanged.  If no slot is unused the
  call follows the null pointer that \<open>get_new_ctx\<close> returns.
\<close>

theorem do_fork_correct:
  assumes "os_inv s"
  shows "if \<forall>n < MAX_PROCESSES. state_of s n \<noteq> UNUSED then do_fork s = Crash
         else \<exists>n s'. do_fork s = Run (int n) s' \<and> 0 < n \<and> n < MAX_PROCESSES \<and> n \<noteq> cur s \<and>
           state_of s n = UNUSED \<and> (\<forall>m < n. state_of s m \<noteq> UNUSED) \<and>
           state_of s' n = READY \<and> pid (ctxs s' n) = n \<and> ppid (ctxs s' n) = pid (ctxs s (cur s)) \<and>
           regs (ctxs s' n) = regs (ctxs s (cur s)) \<and> mms (ctxs s' n) = mms (ctxs s (cur s)) \<and>
           sighandlers (ctxs s' n) = sighandlers (ctxs s (cur s)) \<and>
           (\<forall>m. m \<noteq> n \<longrightarrow> ctxs s' m = ctxs s m)"
proof (cases "\<forall>n < MAX_PROCESSES. state_of s n \<noteq> UNUSED")
  case True
  have "filter (\<lambda>n. state_of s n = UNUSED) [0..<MAX_PROCESSES] = []"
    unfolding filter_empty_conv using True by simp
  then have "get_new_ctx s = None" unfolding get_new_ctx_def by simp
  with True show ?thesis by (simp add: do_fork_def)
next
  case False
  obtain n s1 where g: "get_new_ctx s = Some (n, s1)" "\<forall>m < n. state_of s m \<noteq> UNUSED"
    using get_new_ctx_first False by blast
  note g' = get_new_ctx_SomeD [OF g(1)]
  have ne: "n \<noteq> 0" "n \<noteq> cur s" using unused_slot [OF assms, of n] g' by simp_all
  let ?p = "ctxs s (cur s)"
  have p: "ctxs s1 (cur s) = ?p" using g' ne by simp
  obtain c m where cm: "copy_mm (mem s1) (child_of n ?p) ?p = (c, m)" by fastforce
  then have c: "c = (child_of n ?p)\<lparr>pgd := fst (os_pfn_alloc OS_PT_REG (mem s1))\<rparr>"
    using copy_mm_ctx [of "mem s1" "child_of n ?p" ?p] by simp
  then have cf: "pid c = n" "ppid c = pid ?p" "regs c = regs ?p" "mms c = mms ?p" "sighandlers c = sighandlers ?p"
    by (subst c, simp add: child_of_def)+
  have f: "do_fork s = Run (int n) (setup_child_context n (s1\<lparr>mem := m, ctxs := (ctxs s1)(n := c)\<rparr>))"
    using g cm p by (simp add: do_fork_def)
  show ?thesis
    using False f ne g' g(2) cf setup_child_fields [of n "s1\<lparr>mem := m, ctxs := (ctxs s1)(n := c)\<rparr>"]
    by (auto simp: state_of_def)
qed

theorem do_fork_correct_witness:
  "\<exists>s'. do_fork sleep_os = Run 1 s' \<and> pid (ctxs s' 1) = 1 \<and> ppid (ctxs s' 1) = 4 \<and> state_of s' 1 = READY"
proof -
  have inv: "os_inv sleep_os"
    by (simp add: os_inv_def sleep_os_def state_of_def zero_ctx_def)
  have st: "state_of sleep_os 1 = UNUSED" "state_of sleep_os 0 = READY" "cur sleep_os = 4"
    "pid (ctxs sleep_os 4) = 4"
    by (simp_all add: sleep_os_def state_of_def zero_ctx_def)
  have ex: "\<not> (\<forall>n < MAX_PROCESSES. state_of sleep_os n \<noteq> UNUSED)"
    using st(1) by (metis one_less_numeral_iff semiring_norm(77))
  then obtain n s' where f: "do_fork sleep_os = Run (int n) s'" "0 < n" "\<forall>m < n. state_of sleep_os m \<noteq> UNUSED"
    "state_of s' n = READY" "pid (ctxs s' n) = n" "ppid (ctxs s' n) = 4"
    using do_fork_correct [OF inv] unfolding if_not_P [OF ex] st(3,4) by blast
  have "n = 1" using f(2,3) st(1) by (metis One_nat_def Suc_lessI)
  with f show ?thesis by auto
qed

end
