(* ===== verification/VMSystem.thy ===== *)
theory VMSystem
  imports Mmap
begin

text \<open>
  The four handlers of src/Assignment3/Ass3/src/mmap.c as the calls of one
  process: what every sequence of calls keeps, and the contract of each call on
  the abstract address space, the map from addresses to protection flags.
\<close>

section \<open>Calls and their effect\<close>

datatype vm_call =
    Call_mmap nat int u32 u32
  | Call_munmap nat int
  | Call_mprotect nat int u32
  | Fault nat u64

fun vm_exec :: "vm_call \<Rightarrow> kmem \<times> exec_context \<Rightarrow> (int \<times> kmem \<times> exec_context) option" where
  "vm_exec (Call_mmap addr len prot flags) (s, c) =
     (case vm_area_map s c addr len prot flags of (ret, c', s') \<Rightarrow> Some (ret, s', c'))"
| "vm_exec (Call_munmap addr len) (s, c) =
     (case vm_area_unmap s c addr len of (ret, c', s') \<Rightarrow> Some (ret, s', c'))"
| "vm_exec (Call_mprotect addr len prot) (s, c) =
     map_option (\<lambda>(ret, c', s'). (ret, s', c')) (vm_area_mprotect s c addr len prot)"
| "vm_exec (Fault addr error_code) (s, c) =
     (case vm_area_pagefault s c addr error_code of (ret, s') \<Rightarrow> Some (ret, s', c))"

text \<open>Positive lengths that do not overflow when rounded, addresses below 2 ^ 40.\<close>

fun legal_call :: "vm_call \<Rightarrow> bool" where
  "legal_call (Call_mmap addr len prot flags) = (0 < len \<and> len \<le> 2 ^ 31 - 4096)"
| "legal_call (Call_munmap addr len) = (0 < len \<and> len \<le> 2 ^ 31 - 4096 \<and> addr < 2 ^ 40)"
| "legal_call (Call_mprotect addr len prot) = (0 < len \<and> len \<le> 2 ^ 31 - 4096 \<and> addr < 2 ^ 40)"
| "legal_call (Fault addr error_code) = True"

definition vm_ok :: "kmem \<times> exec_context \<Rightarrow> bool" where
  "vm_ok = (\<lambda>(s, c). vma_wf MMAP_AREA_START (vm_areas c) \<and> num_vm_area s = length (vm_areas c))"

text \<open>The states a process that starts without areas can bring about.\<close>

inductive vm_reach :: "kmem \<times> exec_context \<Rightarrow> bool" where
  start: "vm_areas c = [] \<Longrightarrow> num_vm_area s = 0 \<Longrightarrow> vm_reach (s, c)"
| call: "vm_reach st \<Longrightarrow> legal_call x \<Longrightarrow> vm_exec x st = Some (ret, st') \<Longrightarrow> vm_reach st'"

text \<open>
  The contract of a call: \<open>M\<close> and \<open>M'\<close> are the address space before and after.
  The second disjunct of the result of \<open>mmap\<close> is the path that returns the start of
  the area it extends instead of the start of the new range.
\<close>

type_synonym aspace = "nat \<Rightarrow> u32 option"

definition page_round :: "int \<Rightarrow> nat" where
  "page_round len = nat ((len + 4095) div 4096 * 4096)"

fun vm_call_spec :: "vm_call \<Rightarrow> aspace \<Rightarrow> int \<Rightarrow> aspace \<Rightarrow> bool" where
  "vm_call_spec (Call_mmap addr len prot flags) M ret M' \<longleftrightarrow>
     ret = -1 \<and> M' = M \<or>
     (\<exists>m. (\<forall>a. m \<le> a \<and> a < m + page_round len \<longrightarrow> M a = None) \<and>
          MMAP_AREA_START \<le> m \<and> m + page_round len \<le> MMAP_AREA_END \<and>
          M' = (\<lambda>a. if m \<le> a \<and> a < m + page_round len then Some prot else M a) \<and>
          (ret = int m \<or>
           m = addr \<and> 0 \<le> ret \<and> ret < int m \<and> (\<forall>a. ret \<le> int a \<and> a < m \<longrightarrow> M a = Some prot)))"
| "vm_call_spec (Call_munmap addr len) M ret M' \<longleftrightarrow>
     ret = -1 \<and> M' = M \<or>
     ret = 0 \<and> M' = (\<lambda>a. if addr \<le> a \<and> a < addr + page_round len then None else M a)"
| "vm_call_spec (Call_mprotect addr len prot) M ret M' \<longleftrightarrow>
     ret = -1 \<and> M' = M \<or>
     ret = 0 \<and> M' = (\<lambda>a. if addr \<le> a \<and> a < addr + page_round len \<and> M a \<noteq> None then Some prot else M a)"
| "vm_call_spec (Fault addr error_code) M ret M' \<longleftrightarrow> (ret = 1 \<or> ret = -1) \<and> M' = M"

definition aspace_of :: "kmem \<times> exec_context \<Rightarrow> aspace" where
  "aspace_of st = prot_at (vm_areas (snd st))"

section \<open>Lemmas\<close>

lemma page_round_eq:
  assumes "0 < len" "len \<le> 2 ^ 31 - 4096"
  shows "nat (round_length len) = page_round len"
proof -
  note b = round_length_bounds [OF assms]
  then obtain k where k: "round_length len = k * 4096"
    by (metis dvd_def dvd_eq_mod_eq_0 mult.commute)
  with b have "4096 * k \<le> len + 4095" "len + 4095 < 4096 * k + 4096" by auto
  then have "(len + 4095) div 4096 = k" by linarith
  with k show ?thesis by (simp add: page_round_def)
qed

lemma exec_mmap:
  assumes "vm_ok st" "legal_call (Call_mmap addr len prot flags)"
  shows "\<exists>ret st'. vm_exec (Call_mmap addr len prot flags) st = Some (ret, st') \<and> vm_ok st' \<and>
           vm_call_spec (Call_mmap addr len prot flags) (aspace_of st) ret (aspace_of st')"
proof -
  obtain s c where st: "st = (s, c)" by (cases st)
  obtain ret c' s' where x: "vm_area_map s c addr len prot flags = (ret, c', s')" by (metis prod_cases3)
  have wf: "vma_wf MMAP_AREA_START (vm_areas c)" "num_vm_area s = length (vm_areas c)"
    and len: "0 < len" "len \<le> 2 ^ 31 - 4096"
    using assms by (auto simp: vm_ok_def st)
  show ?thesis
  proof (cases "ret = -1")
    case True
    then have "c' = c \<and> s' = s" using x vm_area_map_fail by blast
    with True x assms(1) st show ?thesis by (simp add: aspace_of_def)
  next
    case False
    obtain m d where p: "placed_at prot (page_round len) (length (vm_areas c)) MMAP_AREA_START
        (vm_areas c) (vm_areas c') m d" "num_vm_area s' = num_vm_area (count_areas d s)"
      and ret: "ret = int m \<or> m = addr \<and> vm_areas c \<noteq> [] \<and> addr = vm_end (last (vm_areas c)) \<and>
        access_flags (last (vm_areas c)) = prot \<and> ret = int (vm_start (last (vm_areas c)))"
      using vm_area_map_effect [OF wf(1) len x False] unfolding page_round_eq [OF len] by blast
    have last: "prot_at (vm_areas c) a = Some (access_flags (last (vm_areas c)))"
      if "vm_areas c \<noteq> []" "vm_start (last (vm_areas c)) \<le> a" "a < vm_end (last (vm_areas c))" for a
      using prot_at_last [OF wf(1)] that by blast
    have lt: "vm_start (last (vm_areas c)) < vm_end (last (vm_areas c))" if "vm_areas c \<noteq> []"
      using vma_wf_snocD [of MMAP_AREA_START "butlast (vm_areas c)"] wf(1) that by simp
    have "vm_ok (s', c')"
      using p wf count_areas_length [of s 0 "vm_areas c" "vm_areas c'" d MMAP_AREA_START]
      by (simp add: vm_ok_def placed_at_def)
    moreover have "vm_call_spec (Call_mmap addr len prot flags) (prot_at (vm_areas c)) ret
        (prot_at (vm_areas c'))"
      using p(1) ret last lt by (auto simp: placed_at_def fun_eq_iff intro!: exI [of _ m])
    ultimately show ?thesis using x st by (simp add: aspace_of_def)
  qed
qed

lemma exec_munmap:
  assumes "vm_ok st" "legal_call (Call_munmap addr len)"
  shows "\<exists>ret st'. vm_exec (Call_munmap addr len) st = Some (ret, st') \<and> vm_ok st' \<and>
           vm_call_spec (Call_munmap addr len) (aspace_of st) ret (aspace_of st')"
proof -
  obtain s c where st: "st = (s, c)" by (cases st)
  obtain ret c' s' where x: "vm_area_unmap s c addr len = (ret, c', s')" by (metis prod_cases3)
  have wf: "vma_wf MMAP_AREA_START (vm_areas c)" "num_vm_area s = length (vm_areas c)"
    and len: "0 < len" "len \<le> 2 ^ 31 - 4096" "addr < 2 ^ 40"
    using assms by (auto simp: vm_ok_def st)
  from vm_area_unmap_effect [OF wf(1) len x refl] show ?thesis
    using x st wf count_areas_length [of s 0 "vm_areas c" "vm_areas c'" _ MMAP_AREA_START]
    unfolding page_round_eq [OF len(1,2)]
    by (auto simp: vm_ok_def aspace_of_def fun_eq_iff)
qed

lemma exec_mprotect:
  assumes "vm_ok st" "legal_call (Call_mprotect addr len prot)"
  shows "\<exists>ret st'. vm_exec (Call_mprotect addr len prot) st = Some (ret, st') \<and> vm_ok st' \<and>
           vm_call_spec (Call_mprotect addr len prot) (aspace_of st) ret (aspace_of st')"
proof -
  obtain s c where st: "st = (s, c)" by (cases st)
  have wf: "vma_wf MMAP_AREA_START (vm_areas c)" "num_vm_area s = length (vm_areas c)"
    and len: "0 < len" "len \<le> 2 ^ 31 - 4096" "addr < 2 ^ 40"
    using assms by (auto simp: vm_ok_def st)
  from vm_area_mprotect_effect [OF wf(1) len refl, of s prot] obtain ret c' s' where
    x: "vm_area_mprotect s c addr len prot = Some (ret, c', s')" and
    eff: "ret = -1 \<and> c' = c \<and> s' = s \<or>
       ret = 0 \<and> vma_wf MMAP_AREA_START (vm_areas c') \<and>
       (\<forall>a. prot_at (vm_areas c') a =
          (if addr \<le> a \<and> a < addr + page_round len \<and> prot_at (vm_areas c) a \<noteq> None then Some prot
           else prot_at (vm_areas c) a)) \<and>
       (\<exists>d. int (length (vm_areas c')) = int (length (vm_areas c)) + d \<and>
            num_vm_area s' = num_vm_area (count_areas d s))"
    unfolding page_round_eq [OF len(1,2)] by blast
  then show ?thesis
    using st wf count_areas_length [of s 0 "vm_areas c" "vm_areas c'" _ MMAP_AREA_START]
    by (auto simp: vm_ok_def aspace_of_def fun_eq_iff)
qed

lemma exec_fault:
  assumes "vm_ok st"
  shows "\<exists>ret st'. vm_exec (Fault addr err) st = Some (ret, st') \<and> vm_ok st' \<and>
           vm_call_spec (Fault addr err) (aspace_of st) ret (aspace_of st')"
  using assms by (cases st) (auto simp: vm_ok_def aspace_of_def vm_area_pagefault_def)

lemma vm_exec_ok:
  assumes "vm_ok st" "legal_call x"
  shows "\<exists>ret st'. vm_exec x st = Some (ret, st') \<and> vm_ok st' \<and>
           vm_call_spec x (aspace_of st) ret (aspace_of st')"
  using assms exec_mmap exec_munmap exec_mprotect exec_fault by (cases x) blast+

section \<open>Properties\<close>

text \<open>
  C2. Refinement.  Every call with legal arguments on a good state returns (there
  is no null dereference), leads to a good state again (the list of areas is well
  formed and \<open>num_vm_area\<close> is its length) and implements its contract on the
  abstract address space: \<open>mmap\<close> adds one free range, \<open>munmap\<close> removes exactly its
  range, \<open>mprotect\<close> changes exactly the mapped addresses of its range, a page
  fault changes none; a call that fails changes nothing.
\<close>

theorem vm_exec_refines:
  assumes "vm_ok st" "legal_call x"
  shows "\<exists>ret st'. vm_exec x st = Some (ret, st') \<and> vm_ok st' \<and>
           vm_call_spec x (aspace_of st) ret (aspace_of st')"
  using assms by (rule vm_exec_ok)

theorem vm_exec_refines_witness:
  "\<exists>ret st'. vm_exec (Call_mprotect 0x180201000 4096 1) (boot_mem\<lparr>num_vm_area := 1\<rparr>, one_area_ctx) =
     Some (ret, st') \<and> vm_ok st'"
  using vm_exec_refines [of "(boot_mem\<lparr>num_vm_area := 1\<rparr>, one_area_ctx)" "Call_mprotect 0x180201000 4096 1"]
  by (auto simp: vm_ok_def)

text \<open>
  C3. Invariant.  In every state that a process without areas can bring about by
  any sequence of legal calls the list of areas is well formed, the counter
  \<open>num_vm_area\<close> is its length, and no address outside the mmap area is mapped.
\<close>

theorem vm_reach_ok:
  assumes "vm_reach (s, c)"
  shows "vma_wf MMAP_AREA_START (vm_areas c) \<and> num_vm_area s = length (vm_areas c) \<and>
         (\<forall>a. prot_at (vm_areas c) a \<noteq> None \<longrightarrow> MMAP_AREA_START \<le> a \<and> a < MMAP_AREA_END)"
proof -
  have "vm_ok st" if "vm_reach st" for st
    using that
  proof induction
    case (call st x ret st')
    then show ?case using vm_exec_ok by fastforce
  qed (simp add: vm_ok_def)
  then have "vm_ok (s, c)" using assms .
  then have wf: "vma_wf MMAP_AREA_START (vm_areas c)" "num_vm_area s = length (vm_areas c)"
    by (simp_all add: vm_ok_def)
  have "MMAP_AREA_START \<le> a \<and> a < MMAP_AREA_END" if "prot_at (vm_areas c) a \<noteq> None" for a
    using prot_at_below [OF wf(1), of a] prot_at_beyond [OF wf(1), of a] that
    by (meson not_le_imp_less)
  with wf show ?thesis by blast
qed

theorem vm_reach_ok_witness:
  "\<exists>s c. vm_exec (Call_mmap 0 4096 3 0) (boot_mem, zero_ctx) = Some (0x180200000, s, c) \<and>
         vm_areas c = [\<lparr>vm_start = 0x180200000, vm_end = 0x180201000, access_flags = 3\<rparr>] \<and>
         num_vm_area s = 1"
proof -
  have z: "vm_areas zero_ctx = []" by (simp add: zero_ctx_def)
  obtain s c where x: "vm_exec (Call_mmap 0 4096 3 0) (boot_mem, zero_ctx) = Some (0x180200000, s, c)"
    "vm_areas c = [\<lparr>vm_start = 0x180200000, vm_end = 0x180201000, access_flags = 3\<rparr>]"
    by (simp add: vm_area_map_def vm_area_place_def map_nohint_def Let_def round_length_def
        s32_def ext64_def add64_def z new_area_def)
  have "vm_reach (boot_mem, zero_ctx)" by (rule vm_reach.start) (simp_all add: z boot_mem_def)
  then have "vm_reach (s, c)" by (rule vm_reach.call [OF _ _ x(1)]) simp
  from vm_reach_ok [OF this] x show ?thesis by simp
qed

end
