(* ===== verification/HashTable.thy ===== *)
theory HashTable
  imports Prelude
begin

text \<open>
  The hash table of Assignment 4, part 3 (src/Assignment4/ass4/part-3/common.h,
  serial_hash.c and the bodies of parallel_hash.c): open addressing with linear
  probing and tombstones.  This theory holds the data, the sequential
  operations of both implementations with every assertion as an error value,
  the table invariant, and the proof that both implement a finite map.  The
  interleaved execution of the parallel version is in theory HashConc.

  A pointer to data (\<open>char *data\<close>) is the offset in the mapped input file.
\<close>

subsection \<open>Data of common.h\<close>

record hash_entry =
  e_id :: u32
  e_datalen :: u32
  e_key :: u64
  e_data :: nat

record hash_t =
  h_size :: nat
  h_used :: u32
  h_addr :: u64
  h_table :: "hash_entry list"

record op_t =
  op_id :: u64
  op_key :: u64
  op_type :: u32
  op_datalen :: u32
  op_data :: nat

definition op_PUT :: u32 where "op_PUT = 0"
definition op_GET :: u32 where "op_GET = 1"
definition op_DEL :: u32 where "op_DEL = 2"

text \<open>The failures: division by the table size zero and the four assertions.\<close>

datatype hash_error = Div_zero | Assert_used | Assert_key | Assert_wrapped | Assert_occupied
  | Assert_op

definition hashfunc :: "u64 \<Rightarrow> nat \<Rightarrow> nat" where
  "hashfunc k n = unat (drop_bit 32 k + (k AND 0xffffffff)) mod n"

definition zero_entry :: hash_entry where
  "zero_entry = \<lparr>e_id = 0, e_datalen = 0, e_key = 0, e_data = 0\<rparr>"

definition init_hashtable :: "u64 \<Rightarrow> nat \<Rightarrow> hash_t" where
  "init_hashtable a n = \<lparr>h_size = n, h_used = 0, h_addr = a, h_table = replicate n zero_entry\<rparr>"

text \<open>The condition of the probe loop without its wrap-around test.\<close>

definition busy :: "u64 \<Rightarrow> hash_entry \<Rightarrow> bool" where
  "busy k e \<longleftrightarrow> (e_key e \<noteq> 0 \<or> e_id e = - 1) \<and> e_key e \<noteq> k"

text \<open>
  The probe loop that lookup, insert_update and purge_key share; it returns the
  final values of \<open>ctr\<close> and \<open>cnt\<close>.
\<close>

partial_function (option) probe ::
  "hash_entry list \<Rightarrow> nat \<Rightarrow> u64 \<Rightarrow> nat \<Rightarrow> nat \<Rightarrow> nat \<Rightarrow> (nat \<times> nat) option" where
  "probe tb n k hv ctr cnt =
    (if busy k (tb ! ctr) \<and> (ctr \<noteq> hv \<or> cnt = 0)
     then probe tb n k hv ((ctr + 1) mod 2 ^ 32 mod n) (if cnt = 0 then cnt + 1 else cnt)
     else Some (ctr, cnt))"

subsection \<open>The operations of serial\_hash.c\<close>

definition put_entry :: "hash_entry \<Rightarrow> op_t \<Rightarrow> hash_entry" where
  "put_entry e x = e\<lparr>e_id := ucast (op_id x), e_datalen := op_datalen x, e_data := op_data x\<rparr>"

definition tombstone :: hash_entry where
  "tombstone = \<lparr>e_id = - 1, e_datalen = 0, e_key = 0, e_data = 0\<rparr>"

definition set_entry :: "hash_t \<Rightarrow> nat \<Rightarrow> hash_entry \<Rightarrow> hash_t" where
  "set_entry h i e = h\<lparr>h_table := (h_table h)[i := e]\<rparr>"

definition lookup :: "hash_t \<Rightarrow> op_t \<Rightarrow> (hash_error + int \<times> op_t) option" where
  "lookup h x =
    (if h_size h = 0 then Some (Inl Div_zero) else
     let hv = hashfunc (op_key x) (h_size h) in
     case probe (h_table h) (h_size h) (op_key x) hv hv 0 of
       None \<Rightarrow> None
     | Some (ctr, cnt) \<Rightarrow>
         let e = h_table h ! ctr in
         if e_key e = op_key x
         then Some (Inr (0, x\<lparr>op_datalen := e_datalen e, op_data := e_data e\<rparr>))
         else Some (Inr (- 1, x)))"

text \<open>
  The assertion \<open>ctr != hashval - 1\<close> is on unsigned values: for \<open>hashval = 0\<close> the
  right-hand side is \<open>2 ^ 32 - 1\<close>.
\<close>

definition insert_update :: "hash_t \<Rightarrow> op_t \<Rightarrow> (hash_error + int \<times> hash_t) option" where
  "insert_update h x =
    (if h_size h = 0 then Some (Inl Div_zero) else
     let hv = hashfunc (op_key x) (h_size h) in
     if \<not> unat (h_used h) < h_size h then Some (Inl Assert_used)
     else if op_key x = 0 then Some (Inl Assert_key) else
     case probe (h_table h) (h_size h) (op_key x) hv hv 0 of
       None \<Rightarrow> None
     | Some (ctr, cnt) \<Rightarrow>
         let e = h_table h ! ctr in
         if ctr = (hv + 2 ^ 32 - 1) mod 2 ^ 32 then Some (Inl Assert_wrapped)
         else if e_key e = op_key x then Some (Inr (0, set_entry h ctr (put_entry e x)))
         else if e_key e \<noteq> 0 then Some (Inl Assert_occupied)
         else Some (Inr (0, (set_entry h ctr ((put_entry e x)\<lparr>e_key := op_key x\<rparr>))
                          \<lparr>h_used := h_used h + 1\<rparr>)))"

definition purge_key :: "hash_t \<Rightarrow> op_t \<Rightarrow> (hash_error + int \<times> hash_t) option" where
  "purge_key h x =
    (if h_size h = 0 then Some (Inl Div_zero) else
     let hv = hashfunc (op_key x) (h_size h) in
     case probe (h_table h) (h_size h) (op_key x) hv hv 0 of
       None \<Rightarrow> None
     | Some (ctr, cnt) \<Rightarrow>
         if e_key (h_table h ! ctr) = op_key x
         then Some (Inr (0, (set_entry h ctr tombstone)\<lparr>h_used := h_used h - 1\<rparr>))
         else Some (Inr (- 1, h)))"

text \<open>The check at the end of \<open>dump_hash_table\<close>: \<open>lused\<close> counts down to zero.\<close>

definition dump_hash_table :: "hash_t \<Rightarrow> bool" where
  "dump_hash_table h \<longleftrightarrow>
    foldl (\<lambda>u e. if e_key e \<noteq> 0 then u - 1 else u) (h_used h) (take (h_size h) (h_table h)) = 0"

subsection \<open>The operations of parallel\_hash.c, run by one thread\<close>

text \<open>
  \<open>atomic_add\<close> adds a 64-bit value at the address of the 32-bit field \<open>used\<close>; the
  upper half of the quadword is the lower half of the pointer \<open>table\<close>.
\<close>

definition used_quad :: "hash_t \<Rightarrow> u64" where
  "used_quad h = push_bit 32 (h_addr h) OR ucast (h_used h)"

definition add_used :: "hash_t \<Rightarrow> u64 \<Rightarrow> hash_t" where
  "add_used h v =
    (let q = used_quad h + v in
     h\<lparr>h_used := ucast q,
       h_addr := (h_addr h AND NOT (mask 32)) OR drop_bit 32 q\<rparr>)"

definition p_insert_update :: "hash_t \<Rightarrow> op_t \<Rightarrow> (hash_error + int \<times> hash_t) option" where
  "p_insert_update h x =
    (if h_size h = 0 then Some (Inl Div_zero) else
     let hv = hashfunc (op_key x) (h_size h) in
     if \<not> unat (h_used h) < h_size h then Some (Inl Assert_used)
     else if op_key x = 0 then Some (Inl Assert_key) else
     case probe (h_table h) (h_size h) (op_key x) hv hv 0 of
       None \<Rightarrow> None
     | Some (ctr, cnt) \<Rightarrow>
         let e = h_table h ! ctr in
         if \<not> (ctr \<noteq> hv \<or> cnt = 0) then Some (Inl Assert_wrapped)
         else if e_key e = op_key x then Some (Inr (0, set_entry h ctr (put_entry e x)))
         else if e_key e \<noteq> 0 then Some (Inl Assert_occupied)
         else Some (Inr (0, add_used (set_entry h ctr ((put_entry e x)\<lparr>e_key := op_key x\<rparr>)) 1)))"

definition p_purge_key :: "hash_t \<Rightarrow> op_t \<Rightarrow> (hash_error + int \<times> hash_t) option" where
  "p_purge_key h x =
    (if h_size h = 0 then Some (Inl Div_zero) else
     let hv = hashfunc (op_key x) (h_size h) in
     case probe (h_table h) (h_size h) (op_key x) hv hv 0 of
       None \<Rightarrow> None
     | Some (ctr, cnt) \<Rightarrow>
         if e_key (h_table h ! ctr) = op_key x
         then Some (Inr (0, add_used (set_entry h ctr tombstone) (- 1)))
         else Some (Inr (- 1, h)))"

subsection \<open>The invariant and the map a table stands for\<close>

text \<open>An entry that has never been used stops every probe.\<close>

definition fresh :: "hash_entry \<Rightarrow> bool" where
  "fresh e \<longleftrightarrow> e_key e = 0 \<and> e_id e \<noteq> - 1"

definition slot :: "nat \<Rightarrow> u64 \<Rightarrow> nat \<Rightarrow> nat" where
  "slot n k j = (hashfunc k n + j) mod n"

definition passed :: "hash_entry list \<Rightarrow> u64 \<Rightarrow> nat \<Rightarrow> bool" where
  "passed tb k m \<longleftrightarrow> (\<forall>j<m. busy k (tb ! slot (length tb) k j))"

definition tab_ok :: "hash_entry list \<Rightarrow> bool" where
  "tab_ok tb \<longleftrightarrow> 0 < length tb \<and> length tb < 2 ^ 32 \<and>
    (\<forall>i<length tb. \<forall>j<length tb. e_key (tb ! i) = e_key (tb ! j) \<longrightarrow> e_key (tb ! i) \<noteq> 0 \<longrightarrow> i = j) \<and>
    (\<forall>k j. j < length tb \<longrightarrow> k \<noteq> 0 \<longrightarrow> e_key (tb ! slot (length tb) k j) = k \<longrightarrow>
       (\<forall>j'<j. \<not> fresh (tb ! slot (length tb) k j')))"

definition live :: "hash_entry list \<Rightarrow> nat" where
  "live tb = length (filter (\<lambda>e. e_key e \<noteq> 0) tb)"

definition unused :: "hash_entry list \<Rightarrow> nat" where
  "unused tb = length (filter fresh tb)"

definition hash_ok :: "hash_t \<Rightarrow> bool" where
  "hash_ok h \<longleftrightarrow> tab_ok (h_table h) \<and> h_size h = length (h_table h) \<and>
    unat (h_used h) = live (h_table h)"

definition entry_val :: "hash_entry \<Rightarrow> u32 \<times> u32 \<times> nat" where
  "entry_val e = (e_id e, e_datalen e, e_data e)"

definition hash_map :: "hash_entry list \<Rightarrow> u64 \<rightharpoonup> u32 \<times> u32 \<times> nat" where
  "hash_map tb = map_of (map (\<lambda>e. (e_key e, entry_val e)) (filter (\<lambda>e. e_key e \<noteq> 0) tb))"

definition op_val :: "op_t \<Rightarrow> u32 \<times> u32 \<times> nat" where
  "op_val x = (ucast (op_id x), op_datalen x, op_data x)"

subsection \<open>Slots and the probe loop\<close>

lemma hashfunc_less: "0 < n \<Longrightarrow> hashfunc k n < n"
  by (simp add: hashfunc_def)

lemma slot_less [simp]: "0 < n \<Longrightarrow> slot n k j < n"
  by (simp add: slot_def)

lemma slot_0: "0 < n \<Longrightarrow> slot n k 0 = hashfunc k n"
  by (simp add: slot_def hashfunc_less)

lemma slot_wrap: "0 < n \<Longrightarrow> slot n k n = hashfunc k n"
  by (simp add: slot_def hashfunc_less)

lemma slot_Suc: "0 < n \<Longrightarrow> n < 2 ^ 32 \<Longrightarrow> (slot n k j + 1) mod 2 ^ 32 mod n = slot n k (Suc j)"
proof -
  assume n: "0 < n" "n < 2 ^ 32"
  then have "slot n k j + 1 < 2 ^ 32" using slot_less [of n k j] by linarith
  then have "(slot n k j + 1) mod 2 ^ 32 = slot n k j + 1" by (rule mod_less)
  then show ?thesis by (simp add: slot_def mod_Suc_eq)
qed

lemma slot_inj:
  assumes "i < n" "j < n" "slot n k i = slot n k j"
  shows "i = j"
proof -
  have "(int i - int j) mod int n = 0"
    using arg_cong [OF assms(3), of int]
    by (simp add: slot_def zmod_int mod_eq_dvd_iff)
  then have "int n dvd (int i - int j)" by auto
  moreover have "\<bar>int i - int j\<bar> < int n" using assms by linarith
  ultimately show ?thesis using zdvd_imp_le [of "int n" "\<bar>int i - int j\<bar>"] by (cases "i = j") auto
qed

lemma slot_onto:
  assumes "i < n"
  obtains j where "j < n" "slot n k j = i"
proof -
  have sub: "slot n k ` {..<n} \<subseteq> {..<n}" using assms by auto
  have "inj_on (slot n k) {..<n}" by (rule inj_onI) (auto intro: slot_inj)
  then have "slot n k ` {..<n} = {..<n}"
    by (intro endo_inj_surj) (use sub in auto)
  with assms have "i \<in> slot n k ` {..<n}" by blast
  with that show thesis by blast
qed

lemma slot_start_iff: "0 < n \<Longrightarrow> j \<le> n \<Longrightarrow> slot n k j = hashfunc k n \<longleftrightarrow> j = 0 \<or> j = n"
  by (metis le_neq_implies_less slot_0 slot_inj slot_wrap)

text \<open>
  The loop ends after at most one round, at the first entry that is not busy,
  or back at its start.
\<close>

definition probe_len :: "hash_entry list \<Rightarrow> u64 \<Rightarrow> nat" where
  "probe_len tb k = length (takeWhile (\<lambda>j. busy k (tb ! slot (length tb) k j)) [0..<length tb])"

lemma probe_from:
  assumes n: "0 < length tb" "length tb < 2 ^ 32" and i: "i + d = length tb"
  shows "probe tb (length tb) k (hashfunc k (length tb)) (slot (length tb) k i) (min i 1) =
    (let m = i + length (takeWhile (\<lambda>j. busy k (tb ! slot (length tb) k j)) [i..<length tb])
     in Some (slot (length tb) k m, min m 1))"
  using i
proof (induction d arbitrary: i)
  case 0
  with n show ?case by (subst probe.simps) (auto simp: slot_wrap Let_def min_def)
next
  case (Suc d)
  let ?n = "length tb"
  let ?next = "probe tb ?n k (hashfunc k ?n) (slot ?n k (Suc i)) (min (Suc i) 1)"
  have iu: "[i..<?n] = i # [Suc i..<?n]" using Suc.prems by (simp add: upt_conv_Cons)
  have go: "slot ?n k i \<noteq> hashfunc k ?n \<or> min i 1 = 0"
    using slot_start_iff [OF n(1), of i k] Suc.prems by auto
  have cnt: "(if min i 1 = 0 then min i 1 + 1 else min i 1) = min (Suc i) 1" by (simp add: min_def)
  show ?case
  proof (cases "busy k (tb ! slot ?n k i)")
    case True
    then have "probe tb ?n k (hashfunc k ?n) (slot ?n k i) (min i 1) = ?next"
      using go cnt slot_Suc [OF n, of k i] by (subst probe.simps) auto
    with Suc.IH [of "Suc i"] Suc.prems True show ?thesis by (simp add: iu Let_def)
  next
    case False
    then show ?thesis using go by (subst probe.simps) (simp add: iu)
  qed
qed

lemma probe_result:
  assumes "0 < length tb" "length tb < 2 ^ 32"
  shows "probe tb (length tb) k (hashfunc k (length tb)) (hashfunc k (length tb)) 0 =
    Some (slot (length tb) k (probe_len tb k), min (probe_len tb k) 1)"
  using probe_from [OF assms, of 0 "length tb" k] assms
  by (simp add: slot_0 probe_len_def Let_def)

lemma probe_len_le: "probe_len tb k \<le> length tb"
  unfolding probe_len_def by (metis diff_zero length_takeWhile_le length_upt)

lemma probe_len_passed: "passed tb k (probe_len tb k)"
proof -
  have "busy k (tb ! slot (length tb) k j)" if "j < probe_len tb k" for j
  proof -
    let ?P = "\<lambda>j. busy k (tb ! slot (length tb) k j)"
    have "takeWhile ?P [0..<length tb] ! j = j"
      using that probe_len_le [of tb k] by (subst takeWhile_nth) (auto simp: probe_len_def)
    moreover have "takeWhile ?P [0..<length tb] ! j \<in> set (takeWhile ?P [0..<length tb])"
      using that by (simp add: probe_len_def)
    ultimately show ?thesis by (metis set_takeWhileD)
  qed
  then show ?thesis by (simp add: passed_def)
qed

lemma probe_len_stop: "probe_len tb k < length tb \<Longrightarrow>
    \<not> busy k (tb ! slot (length tb) k (probe_len tb k))"
  using nth_length_takeWhile [of "\<lambda>j. busy k (tb ! slot (length tb) k j)" "[0..<length tb]"]
  by (simp add: probe_len_def)

lemma not_busy: "\<not> busy k e \<longleftrightarrow> e_key e = k \<or> fresh e"
  by (auto simp: busy_def fresh_def)

lemma busyD: "busy k e \<Longrightarrow> e_key e \<noteq> k \<and> \<not> fresh e"
  by (auto simp: busy_def fresh_def)

subsection \<open>What a probe finds\<close>

lemma count_update:
  assumes "i < length xs"
  shows "length (filter P (xs[i := e])) + of_bool (P (xs ! i)) = length (filter P xs) + of_bool (P e)"
  using assms
proof (induction xs arbitrary: i)
  case (Cons x xs)
  then show ?case by (cases i) auto
qed simp

lemma tab_okD:
  assumes "tab_ok tb"
  shows "0 < length tb" "length tb < 2 ^ 32"
    and "\<And>i j. i < length tb \<Longrightarrow> j < length tb \<Longrightarrow> e_key (tb ! i) = e_key (tb ! j) \<Longrightarrow>
      e_key (tb ! i) \<noteq> 0 \<Longrightarrow> i = j"
    and "\<And>k j j'. j < length tb \<Longrightarrow> k \<noteq> 0 \<Longrightarrow> e_key (tb ! slot (length tb) k j) = k \<Longrightarrow> j' < j \<Longrightarrow>
      \<not> fresh (tb ! slot (length tb) k j')"
  using assms by (simp_all add: tab_ok_def)

lemma tab_ok_distinct: "tab_ok tb \<Longrightarrow> distinct (map e_key (filter (\<lambda>e. e_key e \<noteq> 0) tb))"
proof -
  assume ok: "tab_ok tb"
  have "(\<forall>i<length xs. \<forall>j<length xs. e_key (xs ! i) = e_key (xs ! j) \<longrightarrow> e_key (xs ! i) \<noteq> 0 \<longrightarrow> i = j) \<Longrightarrow>
      distinct (map e_key (filter (\<lambda>e. e_key e \<noteq> 0) xs))" for xs
  proof (induction xs)
    case (Cons x xs)
    have tl: "\<forall>i<length xs. \<forall>j<length xs.
        e_key (xs ! i) = e_key (xs ! j) \<longrightarrow> e_key (xs ! i) \<noteq> 0 \<longrightarrow> i = j"
      using Cons.prems by (metis Suc_less_eq length_Cons nat.inject nth_Cons_Suc)
    have "e_key y \<noteq> e_key x" if "y \<in> set xs" "e_key x \<noteq> 0" for y
    proof -
      from \<open>y \<in> set xs\<close> obtain j where "j < length xs" "xs ! j = y" by (auto simp: in_set_conv_nth)
      then show ?thesis using Cons.prems [rule_format, of 0 "Suc j"] that by auto
    qed
    then show ?case using Cons.IH [OF tl] by fastforce
  qed simp
  with ok show ?thesis unfolding tab_ok_def by blast
qed

lemma hash_map_Some_iff:
  assumes "tab_ok tb"
  shows "hash_map tb k = Some v \<longleftrightarrow>
    k \<noteq> 0 \<and> (\<exists>i<length tb. e_key (tb ! i) = k \<and> entry_val (tb ! i) = v)"
proof -
  have "distinct (map fst (map (\<lambda>e. (e_key e, entry_val e)) (filter (\<lambda>e. e_key e \<noteq> 0) tb)))"
    using tab_ok_distinct [OF assms] by (simp add: comp_def)
  from map_of_eq_Some_iff [OF this, of k v] show ?thesis
    by (auto simp: hash_map_def in_set_conv_nth)
qed

lemma hash_map_None_iff:
  "tab_ok tb \<Longrightarrow> hash_map tb k = None \<longleftrightarrow> k = 0 \<or> (\<forall>i<length tb. e_key (tb ! i) \<noteq> k)"
  using hash_map_Some_iff [of tb k] by (metis not_Some_eq option.distinct(1))

lemma probe_found:
  assumes "tab_ok tb" "k \<noteq> 0" "i < length tb" "e_key (tb ! i) = k"
  shows "hash_map tb k = Some (entry_val (tb ! i))"
  using assms by (auto simp: hash_map_Some_iff)

lemma probe_absent:
  assumes ok: "tab_ok tb" and k: "k \<noteq> 0" and p: "passed tb k m" and m: "m \<le> length tb"
    and stop: "m < length tb \<Longrightarrow> fresh (tb ! slot (length tb) k m)"
  shows "hash_map tb k = None"
proof -
  have "e_key (tb ! i) \<noteq> k" if i: "i < length tb" for i
  proof
    assume key: "e_key (tb ! i) = k"
    from i obtain j where j: "j < length tb" "slot (length tb) k j = i" by (rule slot_onto)
    show False
    proof (cases "j < m")
      case True
      with p j have "busy k (tb ! i)" by (auto simp: passed_def)
      with key show False by (simp add: busy_def)
    next
      case False
      then have "m < length tb" using j by simp
      moreover have "m = j \<or> m < j" using False by auto
      ultimately show False
        using stop tab_okD(4) [OF ok j(1) k] key j k by (auto simp: fresh_def)
    qed
  qed
  with ok show ?thesis by (simp add: hash_map_None_iff)
qed

lemma probe_outcome:
  assumes "tab_ok tb" "k \<noteq> 0"
  obtains (found) i where "i = slot (length tb) k (probe_len tb k)" "probe_len tb k < length tb"
      "e_key (tb ! i) = k" "hash_map tb k = Some (entry_val (tb ! i))"
  | (absent) "e_key (tb ! slot (length tb) k (probe_len tb k)) \<noteq> k" "hash_map tb k = None"
      "probe_len tb k < length tb \<Longrightarrow> fresh (tb ! slot (length tb) k (probe_len tb k))"
proof -
  let ?m = "probe_len tb k" and ?i = "slot (length tb) k (probe_len tb k)"
  note pos = tab_okD(1) [OF assms(1)]
  show thesis
  proof (cases "?m < length tb \<and> e_key (tb ! ?i) = k")
    case True
    then show ?thesis using found probe_found [OF assms slot_less [OF pos]] by blast
  next
    case False
    have fr: "fresh (tb ! ?i)" if "?m < length tb"
      using False probe_len_stop [OF that] that by (auto simp: not_busy)
    have none: "hash_map tb k = None"
      by (rule probe_absent [OF assms probe_len_passed probe_len_le fr])
    then have "e_key (tb ! ?i) \<noteq> k"
      using probe_found [OF assms slot_less [OF pos]] by (metis option.distinct(1))
    then show ?thesis using absent none fr by blast
  qed
qed

subsection \<open>The three ways an entry changes\<close>

text \<open>
  A fresh entry is never made again, so that a probe that has passed an entry
  stays past it; this also carries the interleaved execution.
\<close>

lemma fresh_update_mono:
  assumes "\<not> fresh e" "fresh (tb[i := e] ! j)"
  shows "fresh (tb ! j)"
  using assms by (metis list_update_beyond not_le nth_list_update nth_list_update_neq)

lemma not_fresh_key: "e_key e \<noteq> 0 \<Longrightarrow> \<not> fresh e"
  by (simp add: fresh_def)

lemma not_fresh_tombstone [simp]: "\<not> fresh tombstone"
  by (simp add: fresh_def tombstone_def)

lemma tab_ok_put:
  assumes ok: "tab_ok tb" and m: "m < length tb" and p: "passed tb k m" and k: "k \<noteq> 0"
    and old: "e_key (tb ! slot (length tb) k m) = 0 \<or> e_key (tb ! slot (length tb) k m) = k"
    and others: "\<And>i. i < length tb \<Longrightarrow> e_key (tb ! i) = k \<Longrightarrow> i = slot (length tb) k m"
    and e: "e_key e = k"
  shows "tab_ok (tb[slot (length tb) k m := e])"
proof -
  let ?n = "length tb" and ?i = "slot (length tb) k m"
  let ?tb = "tb[?i := e]"
  note t = tab_okD [OF ok]
  have i: "?i < ?n" using t(1) by simp
  have nf: "\<not> fresh e" using e k by (simp add: not_fresh_key)
  have "a = b" if "a < ?n" "b < ?n" "e_key (?tb ! a) = e_key (?tb ! b)" "e_key (?tb ! a) \<noteq> 0" for a b
    using that t(3) [of a b] others [of a] others [of b] e i
    by (auto simp: nth_list_update split: if_splits)
  moreover have "\<not> fresh (?tb ! slot ?n k' j')"
    if j: "j < ?n" and k': "k' \<noteq> 0" and key: "e_key (?tb ! slot ?n k' j) = k'" and j': "j' < j" for k' j j'
  proof
    assume fr: "fresh (?tb ! slot ?n k' j')"
    then have fr0: "fresh (tb ! slot ?n k' j')" by (rule fresh_update_mono [OF nf])
    show False
    proof (cases "slot ?n k' j = ?i")
      case False
      then have "e_key (tb ! slot ?n k' j) = k'" using key by simp
      with t(4) [OF j k' _ j'] fr0 show False by blast
    next
      case True
      with key e i have "k' = k" by simp
      with True slot_inj [OF j m] have "j = m" by blast
      with p j' \<open>k' = k\<close> have "busy k (tb ! slot ?n k' j')" by (simp add: passed_def)
      with fr0 show False by (auto dest: busyD)
    qed
  qed
  ultimately show ?thesis using t(1,2) by (simp add: tab_ok_def)
qed

lemma tab_ok_tombstone:
  assumes ok: "tab_ok tb"
  shows "tab_ok (tb[i := tombstone])"
proof -
  have old: "e_key (tb ! j) = e_key (tb[i := tombstone] ! j)"
    if "e_key (tb[i := tombstone] ! j) \<noteq> 0" for j
    using that by (cases "i < length tb"; cases "i = j") (auto simp: tombstone_def list_update_beyond)
  note t = tab_okD [OF ok]
  have "a = b" if "a < length tb" "b < length tb"
    "e_key (tb[i := tombstone] ! a) = e_key (tb[i := tombstone] ! b)"
    "e_key (tb[i := tombstone] ! a) \<noteq> 0" for a b
    using that t(3) [of a b] old [of a] old [of b] by auto
  moreover have "\<not> fresh (tb[i := tombstone] ! slot (length tb) k j')"
    if "j < length tb" "k \<noteq> 0" "e_key (tb[i := tombstone] ! slot (length tb) k j) = k" "j' < j" for k j j'
    using that t(4) [of j k j'] old [of "slot (length tb) k j"]
      fresh_update_mono [OF not_fresh_tombstone, of tb i "slot (length tb) k j'"] by auto
  ultimately show ?thesis using t(1,2) by (simp add: tab_ok_def)
qed

lemma hash_map_put:
  assumes ok: "tab_ok tb" "tab_ok (tb[i := e])" and i: "i < length tb"
    and k: "k \<noteq> 0" "e_key e = k"
    and old: "e_key (tb ! i) = 0 \<or> e_key (tb ! i) = k"
  shows "hash_map (tb[i := e]) = (hash_map tb)(k \<mapsto> entry_val e)"
proof
  fix k'
  have "hash_map (tb[i := e]) k' = Some v \<longleftrightarrow> ((hash_map tb)(k \<mapsto> entry_val e)) k' = Some v" for v
  proof (cases "k' = k")
    case True
    have "hash_map (tb[i := e]) k = Some (entry_val e)"
      using probe_found [OF ok(2) k(1), of i] i k by simp
    with True show ?thesis by simp
  next
    case False
    then show ?thesis using i k old
      by (auto simp: hash_map_Some_iff [OF ok(1)] hash_map_Some_iff [OF ok(2)] nth_list_update)
  qed
  then show "hash_map (tb[i := e]) k' = ((hash_map tb)(k \<mapsto> entry_val e)) k'"
    by (metis option.exhaust)
qed

lemma hash_map_tombstone:
  assumes ok: "tab_ok tb" and i: "i < length tb" and k: "e_key (tb ! i) = k" "k \<noteq> 0"
  shows "hash_map (tb[i := tombstone]) = (hash_map tb)(k := None)"
proof
  fix k'
  note iff = hash_map_Some_iff [OF ok] hash_map_Some_iff [OF tab_ok_tombstone [OF ok]]
  have "hash_map (tb[i := tombstone]) k' = Some v \<longleftrightarrow> ((hash_map tb)(k := None)) k' = Some v" for v
  proof (cases "k' = k")
    case True
    have "e_key (tb[i := tombstone] ! j) \<noteq> k" if "j < length tb" for j
    proof (cases "j = i")
      case False
      with tab_okD(3) [OF ok that i] k show ?thesis by auto
    qed (use i k in \<open>simp add: tombstone_def\<close>)
    with True show ?thesis by (auto simp: iff)
  next
    case False
    have "e_key (tb[i := tombstone] ! j) = k' \<and> k' \<noteq> 0 \<longleftrightarrow> e_key (tb ! j) = k' \<and> k' \<noteq> 0"
      "e_key (tb ! j) = k' \<Longrightarrow> tb[i := tombstone] ! j = tb ! j" for j
      using False i k by (cases "j = i"; auto simp: tombstone_def)+
    moreover have "((hash_map tb)(k := None)) k' = hash_map tb k'" using False by simp
    ultimately show ?thesis unfolding iff by (metis iff length_list_update)
  qed
  then show "hash_map (tb[i := tombstone]) k' = ((hash_map tb)(k := None)) k'"
    by (metis option.exhaust)
qed

lemma live_le: "live tb \<le> length tb"
  by (simp add: live_def)

lemma live_unused: "live tb + unused tb \<le> length tb"
proof (induction tb)
  case (Cons e tb)
  then show ?case by (auto simp: live_def unused_def fresh_def)
qed (simp add: live_def unused_def)

lemma live_update:
  "i < length tb \<Longrightarrow> live (tb[i := e]) + of_bool (e_key (tb ! i) \<noteq> 0) = live tb + of_bool (e_key e \<noteq> 0)"
  unfolding live_def by (rule count_update)

lemma unused_update:
  "i < length tb \<Longrightarrow> unused (tb[i := e]) + of_bool (fresh (tb ! i)) = unused tb + of_bool (fresh e)"
  unfolding unused_def by (rule count_update)

lemma live_pos: "i < length tb \<Longrightarrow> e_key (tb ! i) \<noteq> 0 \<Longrightarrow> 0 < live tb"
  by (auto simp: live_def filter_empty_conv)

lemma put_entry_key: "e_key e = k \<Longrightarrow> (put_entry e x)\<lparr>e_key := k\<rparr> = put_entry e x"
  by (simp add: put_entry_def)

lemma entry_val_put: "entry_val ((put_entry e x)\<lparr>e_key := k\<rparr>) = op_val x"
  by (simp add: entry_val_def put_entry_def op_val_def)

lemma put_step:
  assumes ok: "tab_ok tb" and k: "op_key x \<noteq> 0" and m: "m < length tb" "passed tb (op_key x) m"
    and i: "i = slot (length tb) (op_key x) m"
    and stop: "e_key (tb ! i) = op_key x \<or> fresh (tb ! i)"
    and tb': "tb' = tb[i := (put_entry (tb ! i) x)\<lparr>e_key := op_key x\<rparr>]"
  shows "tab_ok tb'" "hash_map tb' = (hash_map tb)(op_key x \<mapsto> op_val x)"
    and "live tb' = live tb + of_bool (fresh (tb ! i))"
    and "unused tb = unused tb' + of_bool (fresh (tb ! i))"
proof -
  let ?e = "(put_entry (tb ! i) x)\<lparr>e_key := op_key x\<rparr>"
  have il: "i < length tb" using i tab_okD(1) [OF ok] by simp
  have old: "e_key (tb ! i) = 0 \<or> e_key (tb ! i) = op_key x" using stop by (auto simp: fresh_def)
  have uniq: "j = i" if "j < length tb" "e_key (tb ! j) = op_key x" for j
    using stop
  proof
    assume "e_key (tb ! i) = op_key x"
    with that il k show ?thesis by (intro tab_okD(3) [OF ok]) auto
  next
    assume "fresh (tb ! i)"
    with probe_absent [OF ok k m(2)] i m have "hash_map tb (op_key x) = None" by auto
    with that ok k show ?thesis by (simp add: hash_map_None_iff)
  qed
  show ok': "tab_ok tb'"
    unfolding tb' i
    by (rule tab_ok_put [OF ok m k]) (use old uniq i in auto)
  show "hash_map tb' = (hash_map tb)(op_key x \<mapsto> op_val x)"
    using hash_map_put [OF ok ok' [unfolded tb'] il k _ old] by (simp add: tb' entry_val_put)
  have nf: "\<not> fresh ?e" using k by (simp add: not_fresh_key)
  show "live tb' = live tb + of_bool (fresh (tb ! i))"
    using live_update [OF il, of ?e] stop k by (auto simp: tb' fresh_def)
  show "unused tb = unused tb' + of_bool (fresh (tb ! i))"
    using unused_update [OF il, of ?e] nf by (simp add: tb')
qed

lemma purge_step:
  assumes ok: "tab_ok tb" and i: "i < length tb" and k: "e_key (tb ! i) = k" "k \<noteq> 0"
    and tb': "tb' = tb[i := tombstone]"
  shows "tab_ok tb'" "hash_map tb' = (hash_map tb)(k := None)" "live tb = live tb' + 1"
    and "unused tb' = unused tb"
  using tab_ok_tombstone [OF ok, of i] hash_map_tombstone [OF ok i k]
    live_update [OF i, of tombstone] unused_update [OF i, of tombstone] k
  by (auto simp: tb' tombstone_def fresh_def)

text \<open>A probe passes only entries that have been used.\<close>

lemma passed_unused:
  assumes pos: "0 < length tb" and m: "m \<le> length tb" and p: "passed tb k m"
  shows "m + unused tb \<le> length tb"
proof -
  let ?n = "length tb"
  let ?A = "slot ?n k ` {..<m}" and ?B = "{i. i < ?n \<and> fresh (tb ! i)}"
  have inj: "inj_on (slot ?n k) {..<m}"
    by (rule inj_onI) (use m in \<open>auto intro: slot_inj [of _ ?n _ k]\<close>)
  have sub: "?A \<union> ?B \<subseteq> {..<?n}" using pos by auto
  have dis: "?A \<inter> ?B = {}" using p by (auto simp: passed_def dest: busyD)
  have "card ?A + card ?B = card (?A \<union> ?B)"
    using dis by (intro card_Un_disjoint [symmetric]) auto
  also have "\<dots> \<le> ?n" using card_mono [OF _ sub] by simp
  finally show ?thesis
    using card_image [OF inj] by (simp add: unused_def length_filter_conv_card)
qed

subsection \<open>The initial table\<close>

lemma init_hashtable_ok:
  assumes "0 < n" "n < 2 ^ 32"
  shows "hash_ok (init_hashtable a n)" "hash_map (h_table (init_hashtable a n)) = Map.empty"
    and "unused (h_table (init_hashtable a n)) = n"
proof -
  have z: "e_key zero_entry = 0" "fresh zero_entry" by (simp_all add: zero_entry_def fresh_def)
  have "filter (\<lambda>e. e_key e \<noteq> 0) (replicate n zero_entry) = []" using z by (simp add: filter_empty_conv)
  then show "hash_ok (init_hashtable a n)" "hash_map (h_table (init_hashtable a n)) = Map.empty"
    using assms z
    by (auto simp: hash_ok_def tab_ok_def init_hashtable_def live_def hash_map_def)
  show "unused (h_table (init_hashtable a n)) = n"
    using z by (simp add: unused_def init_hashtable_def filter_replicate)
qed

subsection \<open>The 64-bit addition to the 32-bit counter\<close>

lemma ucast_used_quad: "ucast (used_quad h) = h_used h"
  by (rule bit_word_eqI) (auto simp: used_quad_def bit_simps)

lemma drop_used_quad: "drop_bit 32 (used_quad h) = h_addr h AND mask 32"
  by (rule bit_word_eqI) (auto simp: used_quad_def bit_simps dest: bit_imp_le_length)

lemma used_quad_plus: "used_quad h = push_bit 32 (h_addr h) + ucast (h_used h)"
proof -
  have "push_bit 32 (h_addr h) AND ucast (h_used h) = 0"
    by (rule bit_word_eqI) (auto simp: bit_simps dest: bit_imp_le_length)
  then show ?thesis unfolding used_quad_def by (rule disjunctive_add_eq_or [symmetric])
qed

lemma add_used_eq:
  assumes "ucast (h_used h) + v = (ucast u :: u64)"
  shows "add_used h v = h\<lparr>h_used := u\<rparr>"
proof -
  let ?h = "h\<lparr>h_used := u\<rparr>"
  have q: "used_quad h + v = used_quad ?h"
    using assms by (simp add: used_quad_plus add.assoc)
  have "(h_addr h AND NOT (mask 32)) OR (h_addr h AND mask 32) = h_addr h"
    by (rule bit_word_eqI) (auto simp: bit_simps)
  then show ?thesis
    using ucast_used_quad [of ?h] drop_used_quad [of ?h]
    by (simp add: add_used_def q Let_def)
qed

lemma add_used_inc: "h_used h \<noteq> - 1 \<Longrightarrow> add_used h 1 = h\<lparr>h_used := h_used h + 1\<rparr>"
proof (rule add_used_eq)
  assume "h_used h \<noteq> - 1"
  then have "unat (h_used h + 1) = unat (h_used h) + 1"
    by (metis add.commute add.right_inverse unatSuc Suc_eq_plus1 add_left_cancel)
  then show "ucast (h_used h) + 1 = (ucast (h_used h + 1) :: u64)"
    by (metis of_nat_1 of_nat_add of_nat_unat)
qed

lemma add_used_dec: "h_used h \<noteq> 0 \<Longrightarrow> add_used h (- 1) = h\<lparr>h_used := h_used h - 1\<rparr>"
proof (rule add_used_eq)
  assume "h_used h \<noteq> 0"
  then have "unat (h_used h) = unat (h_used h - 1) + 1"
    by (metis Suc_eq_plus1 diff_add_cancel unatSuc unat_1 unat_minus_one measure_unat Suc_diff_1
        unat_gt_0)
  then have "(ucast (h_used h) :: u64) = ucast (h_used h - 1) + 1"
    by (metis of_nat_1 of_nat_add of_nat_unat)
  then show "ucast (h_used h) + - 1 = (ucast (h_used h - 1) :: u64)" by simp
qed

subsection \<open>The operations on a well-formed table\<close>

definition get_spec :: "(u64 \<rightharpoonup> u32 \<times> u32 \<times> nat) \<Rightarrow> op_t \<Rightarrow> int \<times> op_t" where
  "get_spec mp x = (case mp (op_key x) of None \<Rightarrow> (- 1, x)
    | Some (i, l, d) \<Rightarrow> (0, x\<lparr>op_datalen := l, op_data := d\<rparr>))"

lemma hash_okD:
  assumes "hash_ok h"
  shows "tab_ok (h_table h)" "h_size h = length (h_table h)" "unat (h_used h) = live (h_table h)"
    and "0 < length (h_table h)" "length (h_table h) < 2 ^ 32"
  using assms tab_okD(1,2) [of "h_table h"] by (simp_all add: hash_ok_def)

lemma lookup_ok:
  assumes "hash_ok h" "op_key x \<noteq> 0"
  shows "lookup h x = Some (Inr (get_spec (hash_map (h_table h)) x))"
proof -
  note h = hash_okD [OF assms(1)]
  show ?thesis
    using h(1) assms(2)
    by (cases rule: probe_outcome)
       (use h in \<open>auto simp: lookup_def h(2) probe_result [OF h(4,5)] get_spec_def Let_def
          entry_val_def split: if_splits\<close>)
qed

lemma wrapped_iff:
  assumes "0 < n" "n < 2 ^ 32" "m \<le> n"
  shows "slot n k m = (hashfunc k n + 2 ^ 32 - 1) mod 2 ^ 32 \<longleftrightarrow> hashfunc k n \<noteq> 0 \<and> m = n - 1"
proof (cases "hashfunc k n = 0")
  case True
  with assms slot_less [OF assms(1), of k m] show ?thesis by simp
next
  case False
  have lt: "hashfunc k n < 2 ^ 32" using hashfunc_less [OF assms(1), of k] assms(2) by linarith
  have split: "hashfunc k n + 2 ^ 32 - 1 = (hashfunc k n - 1) + 2 ^ 32" using False by simp
  have "(hashfunc k n + 2 ^ 32 - 1) mod 2 ^ 32 = hashfunc k n - 1"
    unfolding split using lt by simp
  moreover have "slot n k (n - 1) = hashfunc k n - 1"
  proof -
    have "hashfunc k n + (n - 1) = (hashfunc k n - 1) + n" using False assms(1) by simp
    then have "slot n k (n - 1) = (hashfunc k n - 1) mod n" unfolding slot_def by simp
    then show ?thesis using hashfunc_less [OF assms(1), of k] by simp
  qed
  moreover have "slot n k m = slot n k (n - 1) \<longleftrightarrow> m = n - 1"
  proof (cases "m = n")
    case True
    have "slot n k n \<noteq> slot n k (n - 1)"
      using False calculation(2) assms(1) by (simp add: slot_wrap)
    with True assms(1) show ?thesis by auto
  next
    case False
    with assms slot_inj [of m n "n - 1" k] show ?thesis by auto
  qed
  ultimately show ?thesis using False by simp
qed

lemma not_max_u32: "unat (w :: u32) + 1 < 2 ^ 32 \<Longrightarrow> w \<noteq> - 1"
proof
  assume lt: "unat w + 1 < 2 ^ 32" and w: "w = - 1"
  have "(- 1 :: u32) = 0xffffffff" by simp
  with w have "w = 0xffffffff" by (rule trans)
  with lt show False by simp
qed

text \<open>The common part of both insertions: from a probe that ended before a full round.\<close>

lemma insert_step:
  assumes h: "hash_ok h" and k: "op_key x \<noteq> 0" and m: "probe_len (h_table h) (op_key x) < h_size h"
    and i: "i = slot (h_size h) (op_key x) (probe_len (h_table h) (op_key x))"
    and e: "e = (put_entry (h_table h ! i) x)\<lparr>e_key := op_key x\<rparr>"
    and h': "h' = (set_entry h i e)\<lparr>h_used := h_used h + of_bool (e_key (h_table h ! i) \<noteq> op_key x)\<rparr>"
  shows "hash_ok h'" "hash_map (h_table h') = (hash_map (h_table h))(op_key x \<mapsto> op_val x)"
    and "unused (h_table h) \<le> Suc (unused (h_table h'))"
    and "e_key (h_table h ! i) \<noteq> op_key x \<Longrightarrow> fresh (h_table h ! i) \<and> h_used h \<noteq> - 1"
proof -
  let ?tb = "h_table h" and ?k = "op_key x"
  note ok = hash_okD [OF h]
  have stop: "e_key (?tb ! i) = ?k \<or> fresh (?tb ! i)"
    using probe_len_stop [of ?tb ?k] m by (simp add: i ok(2) not_busy)
  note ps = put_step [OF ok(1) k m [unfolded ok(2)] probe_len_passed i [unfolded ok(2)] stop refl]
  have il: "i < length ?tb" using ok by (simp add: i)
  have fr: "fresh (?tb ! i)" "live ?tb < length ?tb" if "e_key (?tb ! i) \<noteq> ?k"
  proof -
    show fr: "fresh (?tb ! i)" using stop that by auto
    then have "0 < unused ?tb" using il by (auto simp: unused_def filter_empty_conv)
    then show "live ?tb < length ?tb" using live_unused [of ?tb] by linarith
  qed
  have max: "h_used h \<noteq> - 1" if "e_key (?tb ! i) \<noteq> ?k"
    using ok(3,5) fr(2) [OF that] by (intro not_max_u32) linarith
  show "e_key (?tb ! i) \<noteq> ?k \<Longrightarrow> fresh (?tb ! i) \<and> h_used h \<noteq> - 1"
    using fr(1) max by blast
  have used: "unat (h_used h + of_bool (e_key (?tb ! i) \<noteq> ?k)) = live ?tb + of_bool (fresh (?tb ! i))"
  proof (cases "e_key (?tb ! i) = ?k")
    case True
    then show ?thesis using k ok(3) by (simp add: fresh_def)
  next
    case False
    have "unat (h_used h + 1) = unat (h_used h) + 1"
      using max [OF False] by (metis add.commute add.right_inverse unatSuc Suc_eq_plus1 add_left_cancel)
    then show ?thesis using fr(1) False ok(3) by simp
  qed
  have tb': "h_table h' = ?tb[i := e]" "h_size h' = h_size h" by (simp_all add: h' set_entry_def)
  show "hash_ok h'" using ps(1,3) used ok(2) by (simp add: hash_ok_def tb' e) (simp add: h')
  show "hash_map (h_table h') = (hash_map ?tb)(?k \<mapsto> op_val x)" using ps(2) by (simp add: tb' e)
  show "unused ?tb \<le> Suc (unused (h_table h'))" using ps(4) by (simp add: tb' e)
qed

lemma probe_table:
  assumes "hash_ok h"
  shows "probe (h_table h) (h_size h) k (hashfunc k (h_size h)) (hashfunc k (h_size h)) 0 =
    Some (slot (h_size h) k (probe_len (h_table h) k), min (probe_len (h_table h) k) 1)"
  using hash_okD [OF assms] probe_result [of "h_table h" k] by simp

lemma insert_update_ok:
  assumes h: "hash_ok h" and k: "op_key x \<noteq> 0" and room: "2 \<le> unused (h_table h)"
  shows "\<exists>h'. insert_update h x = Some (Inr (0, h')) \<and> hash_ok h' \<and>
    hash_map (h_table h') = (hash_map (h_table h))(op_key x \<mapsto> op_val x) \<and>
    unused (h_table h) \<le> Suc (unused (h_table h'))"
proof -
  let ?tb = "h_table h" and ?k = "op_key x"
  let ?m = "probe_len ?tb ?k" and ?i = "slot (h_size h) (op_key x) (probe_len (h_table h) (op_key x))"
  note ok = hash_okD [OF h]
  have lm: "?m + 2 \<le> length ?tb"
    using passed_unused [OF ok(4) probe_len_le probe_len_passed, of ?k] room by linarith
  then have m: "?m < h_size h" using ok(2) by simp
  note st = insert_step [OF h k m refl refl refl]
  have nw: "?i \<noteq> (hashfunc ?k (h_size h) + 2 ^ 32 - 1) mod 2 ^ 32"
    using wrapped_iff [of "h_size h" ?m ?k] ok lm by auto
  have lt: "unat (h_used h) < h_size h"
    using live_unused [of ?tb] room ok(2,3) by linarith
  note pr = probe_table [OF h, of ?k]
  let ?h' = "(set_entry h ?i ((put_entry (?tb ! ?i) x)\<lparr>e_key := ?k\<rparr>))
    \<lparr>h_used := h_used h + of_bool (e_key (?tb ! ?i) \<noteq> ?k)\<rparr>"
  have "insert_update h x = Some (Inr (0, ?h'))"
  proof (cases "e_key (?tb ! ?i) = ?k")
    case True
    then show ?thesis
      using k lt m nw pr
      by (simp add: insert_update_def Let_def put_entry_key set_entry_def)
  next
    case False
    then have "e_key (?tb ! ?i) = 0" using st(4) by (simp add: fresh_def)
    then show ?thesis
      using False k lt m nw pr by (simp add: insert_update_def Let_def)
  qed
  with st(1-3) show ?thesis by blast
qed

lemma p_insert_update_ok:
  assumes h: "hash_ok h" and k: "op_key x \<noteq> 0" and room: "1 \<le> unused (h_table h)"
  shows "\<exists>h'. p_insert_update h x = Some (Inr (0, h')) \<and> hash_ok h' \<and>
    hash_map (h_table h') = (hash_map (h_table h))(op_key x \<mapsto> op_val x) \<and>
    unused (h_table h) \<le> Suc (unused (h_table h'))"
proof -
  let ?tb = "h_table h" and ?k = "op_key x"
  let ?m = "probe_len ?tb ?k" and ?i = "slot (h_size h) (op_key x) (probe_len (h_table h) (op_key x))"
  note ok = hash_okD [OF h]
  have m: "?m < h_size h"
    using passed_unused [OF ok(4) probe_len_le probe_len_passed, of ?k] room ok(2) by linarith
  note st = insert_step [OF h k m refl refl refl]
  have nw: "?i \<noteq> hashfunc ?k (h_size h) \<or> min ?m 1 = 0"
    using slot_start_iff [of "h_size h" ?m ?k] m by auto
  have lt: "unat (h_used h) < h_size h"
    using live_unused [of ?tb] room ok(2,3) by linarith
  note pr = probe_table [OF h, of ?k]
  let ?h' = "(set_entry h ?i ((put_entry (?tb ! ?i) x)\<lparr>e_key := ?k\<rparr>))
    \<lparr>h_used := h_used h + of_bool (e_key (?tb ! ?i) \<noteq> ?k)\<rparr>"
  have "p_insert_update h x = Some (Inr (0, ?h'))"
  proof (cases "e_key (?tb ! ?i) = ?k")
    case True
    then show ?thesis
      using k lt m nw pr by (auto simp: p_insert_update_def Let_def put_entry_key set_entry_def)
  next
    case False
    then have "e_key (?tb ! ?i) = 0" "h_used h \<noteq> - 1" using st(4) by (simp_all add: fresh_def)
    then show ?thesis
      using False k lt m nw pr
      by (auto simp: p_insert_update_def Let_def add_used_inc set_entry_def)
  qed
  with st(1-3) show ?thesis by blast
qed

lemma purge_ok:
  assumes h: "hash_ok h" and k: "op_key x \<noteq> 0"
  defines "h' \<equiv> (case hash_map (h_table h) (op_key x) of None \<Rightarrow> h
    | Some v \<Rightarrow> (set_entry h (slot (h_size h) (op_key x) (probe_len (h_table h) (op_key x))) tombstone)
        \<lparr>h_used := h_used h - 1\<rparr>)"
  defines "r \<equiv> (if op_key x \<in> dom (hash_map (h_table h)) then 0 else - 1)"
  shows "purge_key h x = Some (Inr (r, h'))" "p_purge_key h x = Some (Inr (r, h'))"
    and "hash_ok h'" "hash_map (h_table h') = (hash_map (h_table h))(op_key x := None)"
    and "unused (h_table h') = unused (h_table h)"
proof -
  let ?tb = "h_table h" and ?k = "op_key x"
  note ok = hash_okD [OF h]
  note pr = probe_table [OF h, of ?k]
  have "purge_key h x = Some (Inr (r, h')) \<and> p_purge_key h x = Some (Inr (r, h')) \<and>
      hash_ok h' \<and> hash_map (h_table h') = (hash_map ?tb)(?k := None) \<and>
      unused (h_table h') = unused ?tb"
    using ok(1) k
  proof (cases rule: probe_outcome)
    case (found i)
    have il: "i < length ?tb" using found ok by simp
    note ps = purge_step [OF ok(1) il found(3) k refl]
    have u: "0 < unat (h_used h)" using live_pos [OF il] found(3) k ok(3) by simp
    then have u': "h_used h \<noteq> 0" and "unat (h_used h - 1) = unat (h_used h) - 1"
      by (auto simp: unat_minus_one unat_gt_0)
    with ps(3) ok(3) have ul: "unat (h_used h - 1) = live (?tb[i := tombstone])" by simp
    have pos: "h_size h \<noteq> 0" using ok(2,4) by simp
    have i': "slot (h_size h) ?k (probe_len ?tb ?k) = i" using found(1) ok(2) by simp
    have h'_eq: "h' = (set_entry h i tombstone)\<lparr>h_used := h_used h - 1\<rparr>"
      using found(4) by (simp add: h'_def i')
    have "add_used (set_entry h i tombstone) (- 1) = h'"
      using add_used_dec [of "set_entry h i tombstone"] u' by (simp add: set_entry_def h'_eq)
    then have "purge_key h x = Some (Inr (r, h'))" "p_purge_key h x = Some (Inr (r, h'))"
      using found(3,4) pos pr
      by (auto simp: purge_key_def p_purge_key_def Let_def r_def i' h'_eq)
    moreover have "hash_ok h'" "hash_map (h_table h') = (hash_map ?tb)(?k := None)"
      "unused (h_table h') = unused ?tb"
      using ps ul ok(2) by (simp_all add: h'_eq set_entry_def hash_ok_def)
    ultimately show ?thesis by blast
  next
    case absent
    then have "h' = h" "r = - 1" by (auto simp: h'_def r_def)
    moreover have "(hash_map ?tb)(?k := None) = hash_map ?tb" using absent(2) by auto
    moreover have "h_size h \<noteq> 0" using ok(2,4) by simp
    ultimately show ?thesis
      using absent(1) pr h ok(2) by (simp add: purge_key_def p_purge_key_def Let_def)
  qed
  then show "purge_key h x = Some (Inr (r, h'))" "p_purge_key h x = Some (Inr (r, h'))"
    "hash_ok h'" "hash_map (h_table h') = (hash_map (h_table h))(op_key x := None)"
    "unused (h_table h') = unused (h_table h)" by blast+
qed

subsection \<open>Where the implementations fail\<close>

text \<open>
  C21. The assertion \<open>ctr != hashval - 1\<close> of the serial \<open>insert_update\<close> refuses a
  good insertion: when the probe ends at the last of the \<open>n\<close> entries, at a distance
  of \<open>n - 1\<close>, and the key does not hash to 0, the program aborts, although this
  entry is free or already holds the key.  The parallel version, whose assertion
  tests for a full round, performs the same insertion.
\<close>

theorem insert_update_refused:
  assumes "hash_ok h" "op_key x \<noteq> 0" "unat (h_used h) < h_size h"
    and "hashfunc (op_key x) (h_size h) \<noteq> 0"
    and "probe_len (h_table h) (op_key x) = h_size h - 1"
    and "0 < unused (h_table h)"
  shows "insert_update h x = Some (Inl Assert_wrapped) \<and>
    (\<exists>h'. p_insert_update h x = Some (Inr (0, h')) \<and>
      hash_map (h_table h') = (hash_map (h_table h))(op_key x \<mapsto> op_val x))"
proof -
  note ok = hash_okD [OF assms(1)]
  have "insert_update h x = Some (Inl Assert_wrapped)"
    using assms ok probe_table [OF assms(1), of "op_key x"]
      wrapped_iff [of "h_size h" "probe_len (h_table h) (op_key x)" "op_key x"]
    by (simp add: insert_update_def Let_def)
  with p_insert_update_ok [OF assms(1,2)] assms(6) show ?thesis by fastforce
qed

lemma refused_table:
  defines "h \<equiv> \<lparr>h_size = 2, h_used = 1, h_addr = 4096,
      h_table = [zero_entry, \<lparr>e_id = 1, e_datalen = 3, e_key = 1, e_data = 24\<rparr>]\<rparr>"
  shows "hash_ok h" "unused (h_table h) = 1" "probe_len (h_table h) 3 = 1"
proof -
  let ?tb = "[zero_entry, zero_entry]"
  let ?x = "\<lparr>op_id = 1, op_key = 1, op_type = 0, op_datalen = 3, op_data = 24\<rparr>"
  have h1: "hashfunc 1 2 = 1" "hashfunc 3 2 = 1" by (simp_all add: hashfunc_def)
  have "tab_ok (h_table (init_hashtable 0 2))" using init_hashtable_ok(1) [of 2 0] hash_okD(1) by simp
  then have ok: "tab_ok ?tb" by (simp add: init_hashtable_def numeral_2_eq_2)
  have i: "1 = slot (length ?tb) (op_key ?x) 0" using h1 by (simp add: slot_def numeral_2_eq_2)
  have "tab_ok (h_table h)"
    by (rule put_step(1) [OF ok _ _ _ i])
      (simp_all add: h_def passed_def put_entry_def zero_entry_def fresh_def)
  then show "hash_ok h" by (simp add: hash_ok_def h_def live_def zero_entry_def)
  show "unused (h_table h) = 1" by (simp add: h_def unused_def zero_entry_def fresh_def)
  have s: "slot 2 3 0 = 1" "slot 2 3 (Suc 0) = 0" using h1 by (simp_all add: slot_def)
  have u: "[0..<2] = [0, Suc 0]" by (simp add: upt_rec)
  have "\<not> busy 3 zero_entry" "busy 3 \<lparr>e_id = 1, e_datalen = 3, e_key = 1, e_data = 24\<rparr>"
    by (simp_all add: busy_def zero_entry_def)
  then show "probe_len (h_table h) 3 = 1"
    using s h1 u by (simp add: h_def probe_len_def numeral_2_eq_2 [symmetric])
qed

theorem insert_update_refused_witness:
  "insert_update \<lparr>h_size = 2, h_used = 1, h_addr = 4096,
      h_table = [zero_entry, \<lparr>e_id = 1, e_datalen = 3, e_key = 1, e_data = 24\<rparr>]\<rparr>
      \<lparr>op_id = 2, op_key = 3, op_type = 0, op_datalen = 5, op_data = 51\<rparr> =
    Some (Inl Assert_wrapped)"
  by (rule insert_update_refused [THEN conjunct1])
    (use refused_table in \<open>simp_all add: hashfunc_def\<close>)

lemma probe_zero_stops:
  assumes ok: "hash_ok h" and lt: "live (h_table h) < h_size h"
  shows "e_key (h_table h ! slot (h_size h) 0 (probe_len (h_table h) 0)) = 0"
proof -
  let ?tb = "h_table h"
  note o = hash_okD [OF ok]
  have "probe_len ?tb 0 < length ?tb"
  proof (rule ccontr)
    assume "\<not> ?thesis"
    then have full: "probe_len ?tb 0 = length ?tb" using probe_len_le [of ?tb 0] by simp
    have "e_key (?tb ! i) \<noteq> 0" if i: "i < length ?tb" for i
    proof -
      from i obtain j where "j < length ?tb" "slot (length ?tb) 0 j = i" by (rule slot_onto)
      then show ?thesis using probe_len_passed [of ?tb 0] by (auto simp: passed_def busy_def full)
    qed
    then have "filter (\<lambda>e. e_key e \<noteq> 0) ?tb = ?tb" by (intro filter_True) (metis in_set_conv_nth)
    then have "live ?tb = length ?tb" by (simp add: live_def)
    with lt o(2) show False by simp
  qed
  from probe_len_stop [OF this] show ?thesis using o(2) by (auto simp: not_busy fresh_def)
qed

text \<open>
  Key 0 marks empty entries but \<open>purge_key\<close> does not refuse it: on every table
  that is not full it reports success and decrements the number of used entries,
  so that the assertion in \<open>dump_hash_table\<close> fails.
\<close>

theorem purge_zero_corrupts:
  assumes ok: "hash_ok h" and lt: "live (h_table h) < h_size h" and k: "op_key x = 0"
  shows "\<exists>h'. purge_key h x = Some (Inr (0, h')) \<and> h_used h' = h_used h - 1 \<and>
    live (h_table h') = live (h_table h)"
proof -
  let ?i = "slot (h_size h) 0 (probe_len (h_table h) 0)"
  let ?h = "(set_entry h ?i tombstone)\<lparr>h_used := h_used h - 1\<rparr>"
  note o = hash_okD [OF ok]
  have z: "e_key (h_table h ! ?i) = 0" by (rule probe_zero_stops [OF ok lt])
  have il: "?i < length (h_table h)" using o by simp
  have "purge_key h x = Some (Inr (0, ?h))"
    using z k o probe_table [OF ok, of 0] by (auto simp: purge_key_def Let_def)
  moreover have "live (h_table ?h) = live (h_table h)"
    using live_update [OF il, of tombstone] z by (simp add: set_entry_def tombstone_def)
  ultimately show ?thesis by auto
qed

theorem purge_zero_corrupts_witness:
  "\<exists>h'. purge_key (init_hashtable 4096 2)
      \<lparr>op_id = 1, op_key = 0, op_type = 2, op_datalen = 0, op_data = 0\<rparr> = Some (Inr (0, h')) \<and>
    h_used h' = h_used (init_hashtable 4096 2) - 1 \<and>
    live (h_table h') = live (h_table (init_hashtable 4096 2))"
  by (rule purge_zero_corrupts)
    (use init_hashtable_ok(1) [of 2 4096] in
      \<open>simp_all add: live_def init_hashtable_def zero_entry_def\<close>)

end
