(* ===== verification/Bytes.thy ===== *)
theory Bytes
  imports Prelude
begin

text \<open>
  Machine words in memory: the little-endian bytes of a word and the word that a
  load of these bytes gives (src/Assignment4/ass4 reads and writes its files
  through pointers to unsigned and unsigned long).
\<close>

definition le_bytes :: "'a::len word \<Rightarrow> u8 list" where
  "le_bytes w = map (\<lambda>i. ucast (drop_bit (8 * i) w)) [0..<LENGTH('a) div 8]"

definition le_word :: "u8 list \<Rightarrow> 'a::len word" where
  "le_word bs = foldr (\<lambda>b a. push_bit 8 a OR ucast b) bs 0"

lemma bit_le_word:
  "bit (le_word bs :: 'a::len word) n \<longleftrightarrow>
    n < LENGTH('a) \<and> n < 8 * length bs \<and> bit (bs ! (n div 8)) (n mod 8)"
proof (induction bs arbitrary: n)
  case Nil
  then show ?case by (simp add: le_word_def)
next
  case (Cons b bs)
  have "bit (le_word (b # bs) :: 'a word) n \<longleftrightarrow>
      n < LENGTH('a) \<and> (8 \<le> n \<and> bit (le_word bs :: 'a word) (n - 8) \<or> bit b n)"
    by (auto simp: le_word_def bit_simps)
  also have "\<dots> \<longleftrightarrow> n < LENGTH('a) \<and> n < 8 * length (b # bs) \<and> bit ((b # bs) ! (n div 8)) (n mod 8)"
  proof (cases "n < 8")
    case True
    then show ?thesis by auto
  next
    case False
    then have "\<not> bit b n" using bit_imp_le_length [of b n] by auto
    moreover from False obtain m where m: "n = 8 + m" by (metis le_Suc_ex not_le)
    moreover have "(8 + m) div 8 = Suc (m div 8)" by (simp add: div_add_self1)
    ultimately show ?thesis by (auto simp: Cons.IH m)
  qed
  finally show ?case .
qed

lemma le_word_bytes [simp]:
  assumes "8 dvd LENGTH('a::len)"
  shows "le_word (le_bytes (w :: 'a word)) = w"
proof (rule bit_word_eqI)
  fix n
  assume n: "n < LENGTH('a)"
  then have "n div 8 < LENGTH('a) div 8" using assms by (auto elim!: dvdE)
  then show "bit (le_word (le_bytes w) :: 'a word) n = bit w n"
    using n assms by (auto simp: bit_le_word le_bytes_def bit_simps)
qed

lemma length_le_bytes [simp]:
  "length (le_bytes (w :: u64)) = 8" "length (le_bytes (v :: u32)) = 4"
  by (simp_all add: le_bytes_def)

end
