(* ===== verification/HashInput.thy ===== *)
theory HashInput
  imports HashTable Bytes
begin

text \<open>
  The input file of the hash programs (Assignment 4, part 3): the records that
  inputgen.c writes (\<open>create_put\<close>, \<open>create_get_del\<close>, \<open>generate_rand_text\<close>), the
  mapped file of \<open>init_input_manager\<close> (common.h) and \<open>read_op\<close> of serial\_hash.c and
  parallel\_hash.c.  The main result is the round trip: reading a generated file
  gives back its requests, one after the other, and then the end.

  The random numbers of inputgen.c are arguments.  The file is mapped in whole
  pages: the bytes after the end of the file up to the end of its last page are
  zero, an access beyond is the error \<open>Bus\<close>.
\<close>

subsection \<open>inputgen.c\<close>

datatype req = Put u64 u64 "u8 list" | Get u64 u64 | Del u64 u64

definition rand_char :: "nat \<Rightarrow> u8" where
  "rand_char r = (let ch = r mod 62 in
    if ch < 10 then 48 + of_nat ch else if ch < 36 then 65 + of_nat ch - 10 else 97 + of_nat ch - 36)"

text \<open>The text is preceded by its length; \<open>r\<close> and \<open>rs\<close> are the values of \<open>rand()\<close>.\<close>

definition rand_text :: "nat \<Rightarrow> (nat \<Rightarrow> nat) \<Rightarrow> u8 list" where
  "rand_text r rs = map (\<lambda>i. rand_char (rs i)) [0..<8 + r mod 25]"

definition generate_rand_text :: "nat \<Rightarrow> (nat \<Rightarrow> nat) \<Rightarrow> u8 list" where
  "generate_rand_text r rs = le_bytes (of_nat (8 + r mod 25) :: u32) @ rand_text r rs"

definition create_put :: "u64 \<Rightarrow> u64 \<Rightarrow> nat \<Rightarrow> (nat \<Rightarrow> nat) \<Rightarrow> u8 list" where
  "create_put i k r rs = le_bytes i @ le_bytes k @ le_bytes op_PUT @ generate_rand_text r rs"

definition create_get_del :: "u64 \<Rightarrow> u64 \<Rightarrow> u32 \<Rightarrow> u8 list" where
  "create_get_del i k t = le_bytes i @ le_bytes k @ le_bytes t"

text \<open>The record of a request, with any text.\<close>

fun encode :: "req \<Rightarrow> u8 list" where
  "encode (Put i k tx) = le_bytes i @ le_bytes k @ le_bytes op_PUT @ le_bytes (of_nat (length tx) :: u32) @ tx"
| "encode (Get i k) = create_get_del i k op_GET"
| "encode (Del i k) = create_get_del i k op_DEL"

lemma create_put_encode: "create_put i k r rs = encode (Put i k (rand_text r rs))"
  by (simp add: create_put_def generate_rand_text_def rand_text_def)

subsection \<open>The mapped file and read\_op\<close>

record input_manager =
  in_data :: "u8 list"
  in_curr :: nat

datatype input_result = Bus | Bad_type | Eof input_manager | Next input_manager op_t

text \<open>
  The field \<open>being_processed\<close>, which \<open>read_op\<close> sets and only the parallel version
  reads, is part of the state of theory HashConc.
\<close>

definition mapped_size :: "u8 list \<Rightarrow> nat" where
  "mapped_size f = (length f + 4095) div 4096 * 4096"

definition load :: "u8 list \<Rightarrow> nat \<Rightarrow> nat \<Rightarrow> u8 list" where
  "load f a n = map (\<lambda>i. if i < length f then f ! i else 0) [a..<a + n]"

definition read_op :: "input_manager \<Rightarrow> op_t \<Rightarrow> input_result" where
  "read_op inp x =
    (let f = in_data inp; c = in_curr inp in
     if mapped_size f < c + 24 then Bus else
     let b = load f c 24;
         x1 = x\<lparr>op_id := le_word (take 8 b), op_key := le_word (take 8 (drop 8 b)),
                op_type := le_word (take 4 (drop 16 b)), op_datalen := le_word (drop 20 b)\<rparr>
     in if op_type x1 = op_GET \<or> op_type x1 = op_DEL then
          let c' = c + 20 in
          if length f < c' then Eof (inp\<lparr>in_curr := c'\<rparr>) else Next (inp\<lparr>in_curr := c'\<rparr>) x1
        else if op_type x1 = op_PUT then
          let x2 = x1\<lparr>op_data := c + 24\<rparr>; c' = c + 24 + unat (op_datalen x2) in
          if length f < c' then Eof (inp\<lparr>in_curr := c'\<rparr>) else Next (inp\<lparr>in_curr := c'\<rparr>) x2
        else Bad_type)"

text \<open>The parallel version tests for the end before it reads.\<close>

definition p_read_op :: "input_manager \<Rightarrow> op_t \<Rightarrow> input_result" where
  "p_read_op inp x = (if length (in_data inp) < in_curr inp then Eof inp else read_op inp x)"

subsection \<open>Reading back what inputgen wrote\<close>

fun req_id :: "req \<Rightarrow> u64" where
  "req_id (Put i k tx) = i" | "req_id (Get i k) = i" | "req_id (Del i k) = i"

fun req_key :: "req \<Rightarrow> u64" where
  "req_key (Put i k tx) = k" | "req_key (Get i k) = k" | "req_key (Del i k) = k"

fun req_type :: "req \<Rightarrow> u32" where
  "req_type (Put i k tx) = op_PUT" | "req_type (Get i k) = op_GET" | "req_type (Del i k) = op_DEL"

fun req_ok :: "req \<Rightarrow> bool" where
  "req_ok (Put i k tx) \<longleftrightarrow> k \<noteq> 0 \<and> length tx < 2 ^ 32"
| "req_ok r \<longleftrightarrow> req_key r \<noteq> 0"

text \<open>The structure \<open>x\<close> holds the request \<open>r\<close>; the text stays in the file.\<close>

definition holds :: "u8 list \<Rightarrow> op_t \<Rightarrow> req \<Rightarrow> bool" where
  "holds f x r \<longleftrightarrow> op_id x = req_id r \<and> op_key x = req_key r \<and> op_type x = req_type r \<and>
    (case r of Put i k tx \<Rightarrow> take (unat (op_datalen x)) (drop (op_data x) f) = tx | _ \<Rightarrow> True)"

definition at_input :: "u8 list \<Rightarrow> req list \<Rightarrow> input_manager \<Rightarrow> bool" where
  "at_input f rs inp \<longleftrightarrow> in_data inp = f \<and> in_curr inp \<le> length f \<and>
    drop (in_curr inp) f = concat (map encode rs)"

text \<open>The last page of the file has room for the header that \<open>read_op\<close> copies.\<close>

definition tail_room :: "u8 list \<Rightarrow> bool" where
  "tail_room f \<longleftrightarrow> 0 < length f mod 4096 \<and> length f mod 4096 \<le> 4072"

lemma op_type_distinct [simp]:
  "op_PUT \<noteq> op_GET" "op_PUT \<noteq> op_DEL" "op_GET \<noteq> op_DEL" "op_GET \<noteq> op_PUT" "op_DEL \<noteq> op_PUT"
  "op_DEL \<noteq> op_GET"
  by (simp_all add: op_PUT_def op_GET_def op_DEL_def)

lemma tail_room_mapped:
  assumes "tail_room f" "c \<le> length f"
  shows "c + 24 \<le> mapped_size f"
proof -
  define q r where "q = length f div 4096" and "r = length f mod 4096"
  have f: "length f = 4096 * q + r" by (simp add: q_def r_def)
  have r: "0 < r" "r \<le> 4072" using assms(1) by (simp_all add: tail_room_def r_def)
  have "length f + 4095 = 4096 * (q + 1) + (r - 1)" using f r by simp
  then have "(length f + 4095) div 4096 = (4096 * (q + 1) + (r - 1)) div 4096" by (rule arg_cong)
  also have "\<dots> = q + 1" using r by (subst div_mult_self4) simp_all
  finally show ?thesis using assms(2) f r by (simp add: mapped_size_def)
qed

lemma load_prefix:
  assumes "drop c f = xs @ ys" "c \<le> length f" "length xs \<le> n"
  shows "take (length xs) (load f c n) = xs"
proof (rule nth_equalityI)
  have len: "c + length xs \<le> length f"
    using arg_cong [OF assms(1), of length] assms(2) by simp
  fix i
  assume "i < length (take (length xs) (load f c n))"
  then have i: "i < length xs" by simp
  then have "take (length xs) (load f c n) ! i = f ! (c + i)" using len assms(3) by (simp add: load_def)
  also have "\<dots> = xs ! i" using assms(1,2) i by (metis nth_append nth_drop)
  finally show "take (length xs) (load f c n) ! i = xs ! i" .
qed (use assms(3) in \<open>simp add: load_def\<close>)

lemma load_end: "length f \<le> c \<Longrightarrow> load f c n = replicate n 0"
  by (rule nth_equalityI) (auto simp: load_def)

lemma header_fields:
  assumes "drop c f = le_bytes (i :: u64) @ le_bytes (k :: u64) @ le_bytes (t :: u32) @ r" "c \<le> length f"
  shows "le_word (take 8 (load f c 24)) = i" "le_word (take 8 (drop 8 (load f c 24))) = k"
    and "le_word (take 4 (drop 16 (load f c 24))) = t"
proof -
  let ?h = "le_bytes i @ le_bytes k @ le_bytes t"
  have "take (length ?h) (load f c 24) = ?h" by (rule load_prefix) (use assms in auto)
  then have h: "take 20 (load f c 24) = ?h" by simp
  have "take 8 (load f c 24) = take 8 (take 20 (load f c 24))" by simp
  moreover have "take 8 (drop 8 (load f c 24)) = take 8 (drop 8 (take 20 (load f c 24)))"
    by (simp add: drop_take)
  moreover have "take 4 (drop 16 (load f c 24)) = drop 16 (take 20 (load f c 24))"
    by (simp add: drop_take)
  ultimately show "le_word (take 8 (load f c 24)) = i" "le_word (take 8 (drop 8 (load f c 24))) = k"
    "le_word (take 4 (drop 16 (load f c 24))) = t" by (simp_all add: h)
qed

lemma header_datalen:
  assumes "drop c f = le_bytes (i :: u64) @ le_bytes (k :: u64) @ le_bytes (t :: u32) @ le_bytes (l :: u32) @ r"
    "c \<le> length f"
  shows "le_word (drop 20 (load f c 24)) = l"
proof -
  let ?h = "le_bytes i @ le_bytes k @ le_bytes t @ le_bytes l"
  have "take (length ?h) (load f c 24) = ?h" by (rule load_prefix) (use assms in auto)
  then have "load f c 24 = ?h" by (simp add: load_def)
  then show ?thesis by simp
qed

lemma at_input_next:
  assumes tail: "tail_room f" and inp: "at_input f (r # rs) inp" and r: "req_ok r"
  shows "\<exists>inp' x'. read_op inp x = Next inp' x' \<and> p_read_op inp x = Next inp' x' \<and>
    at_input f rs inp' \<and> holds f x' r"
proof -
  let ?c = "in_curr inp"
  from inp have f: "in_data inp = f" "?c \<le> length f" and d: "drop ?c f = encode r @ concat (map encode rs)"
    by (simp_all add: at_input_def)
  have lenc: "?c + length (encode r) \<le> length f"
    using arg_cong [OF d, of length] f(2) by simp
  have rest: "drop (?c + length (encode r)) f = concat (map encode rs)"
    using d by (metis append_eq_conv_conj drop_drop add.commute)
  have sz: "\<not> mapped_size f < ?c + 24" using tail_room_mapped [OF tail f(2)] by simp
  show ?thesis
  proof (cases r)
    case (Put i k tx)
    have l: "unat (of_nat (length tx) :: u32) = length tx" using r Put by (simp add: unat_of_nat)
    note h = header_fields [of ?c f i k op_PUT] header_datalen [of ?c f i k op_PUT "of_nat (length tx)"]
    have "take (length tx) (drop (?c + 24) f) = tx"
    proof -
      have "drop (?c + 24) f = drop 24 (drop ?c f)" by (simp add: add.commute)
      also have "\<dots> = tx @ concat (map encode rs)" using d Put by simp
      finally show ?thesis by simp
    qed
    then show ?thesis using h d f lenc rest sz l Put
      by (simp add: read_op_def p_read_op_def Let_def at_input_def holds_def add.assoc)
  next
    case (Get i k)
    note h = header_fields [of ?c f i k op_GET]
    show ?thesis using h d f lenc rest sz Get
      by (simp add: read_op_def p_read_op_def Let_def at_input_def holds_def create_get_del_def)
  next
    case (Del i k)
    note h = header_fields [of ?c f i k op_DEL]
    show ?thesis using h d f lenc rest sz Del
      by (simp add: read_op_def p_read_op_def Let_def at_input_def holds_def create_get_del_def)
  qed
qed

lemma at_input_end:
  assumes tail: "tail_room f" and inp: "at_input f [] inp"
  shows "\<exists>inp'. read_op inp x = Eof inp' \<and> p_read_op inp x = Eof inp' \<and> in_data inp' = f \<and>
    length f < in_curr inp'"
proof -
  from inp have f: "in_data inp = f" "in_curr inp = length f" by (auto simp: at_input_def)
  have sz: "\<not> mapped_size f < length f + 24" using tail_room_mapped [OF tail, of "length f"] by simp
  have z: "le_word (replicate n 0) = (0 :: u32)" for n
    by (rule bit_word_eqI) (auto simp: bit_le_word)
  show ?thesis
    using f sz by (simp add: read_op_def p_read_op_def Let_def load_end z op_PUT_def op_GET_def op_DEL_def)
qed

text \<open>
  The requests that a loop of at most \<open>n\<close> calls of \<open>rop\<close> reads, and how the loop ends: with
  the result of the call that delivered no request, or \<open>None\<close> after \<open>n\<close> requests.
\<close>

primrec read_n :: "(input_manager \<Rightarrow> op_t \<Rightarrow> input_result) \<Rightarrow> nat \<Rightarrow> input_manager \<Rightarrow> op_t \<Rightarrow>
    op_t list \<times> input_result option" where
  "read_n rop 0 inp x = ([], None)"
| "read_n rop (Suc n) inp x =
    (case rop inp x of
       Next inp' x' \<Rightarrow> (case read_n rop n inp' x' of (xs, r) \<Rightarrow> (x' # xs, r))
     | r \<Rightarrow> ([], Some r))"

lemma read_n_requests:
  assumes "tail_room f" "rop \<in> {read_op, p_read_op}"
  shows "at_input f rs inp \<Longrightarrow> list_all req_ok rs \<Longrightarrow>
    \<exists>xs inp'. read_n rop (length rs + Suc m) inp x = (xs, Some (Eof inp')) \<and> list_all2 (holds f) xs rs"
proof (induction rs arbitrary: inp x)
  case Nil
  with at_input_end [OF assms(1), of inp x] assms(2) show ?case by auto
next
  case (Cons r rs)
  obtain inp' x' where n: "rop inp x = Next inp' x'" "at_input f rs inp'" "holds f x' r"
    using at_input_next [OF assms(1), of r rs inp x] Cons.prems assms(2) by auto
  obtain xs inp2 where "read_n rop (length rs + Suc m) inp' x' = (xs, Some (Eof inp2))" "list_all2 (holds f) xs rs"
    using Cons.IH [OF n(2), of x'] Cons.prems(2) by (auto simp del: read_n.simps)
  with n show ?case by auto
qed

lemma at_input_start: "at_input (concat (map encode rs)) rs \<lparr>in_data = concat (map encode rs), in_curr = 0\<rparr>"
  by (simp add: at_input_def)

text \<open>
  C18. Round trip between inputgen.c and read\_op: whatever list of PUT, GET and
  DEL records is written to the file, the calls of \<open>read_op\<close> deliver exactly these
  requests in order (identifier, key, operation and, for a PUT, the text at the
  pointer in the file), and the call after the last of them returns the end of the
  file: it does not fault and does not take what it finds there for a request.  The
  same holds for the version of the parallel program.  The last page of the file
  must have room for the header that \<open>read_op\<close> copies before it looks for the end.
\<close>

theorem read_op_roundtrip:
  assumes "list_all req_ok rs" "tail_room (concat (map encode rs))" "rop \<in> {read_op, p_read_op}"
  shows "\<exists>xs inp'. read_n rop (length rs + Suc m) \<lparr>in_data = concat (map encode rs), in_curr = 0\<rparr> x = (xs, Some (Eof inp')) \<and>
    list_all2 (holds (concat (map encode rs))) xs rs"
  using assms by (intro read_n_requests at_input_start)

theorem read_op_roundtrip_witness:
  "\<exists>xs inp'. read_n read_op (length [Put 1 5 [65, 66], Get 2 5] + Suc 0)
      \<lparr>in_data = concat (map encode [Put 1 5 [65, 66], Get 2 5]), in_curr = 0\<rparr>
      \<lparr>op_id = 0, op_key = 0, op_type = 0, op_datalen = 0, op_data = 0\<rparr> = (xs, Some (Eof inp')) \<and>
    list_all2 (holds (concat (map encode [Put 1 5 [65, 66], Get 2 5]))) xs [Put 1 5 [65, 66], Get 2 5]"
  by (rule read_op_roundtrip) (simp_all add: tail_room_def create_get_del_def)

text \<open>
  A file whose length is a multiple of the page size cannot be read to its
  end: the call of \<open>read_op\<close> after the last record copies a header from behind the
  mapping before it compares the position with the size, because that test is
  strict (\<open>curr > data + size\<close>), in the parallel version as well.
\<close>

theorem read_op_page_multiple:
  assumes "in_curr inp = length (in_data inp)" "4096 dvd length (in_data inp)"
  shows "read_op inp x = Bus \<and> p_read_op inp x = Bus"
proof -
  obtain q where "length (in_data inp) = 4096 * q" using assms(2) by (elim dvdE)
  then have "(length (in_data inp) + 4095) div 4096 = (4096 * q + 4095) div 4096" by simp
  also have "\<dots> = q" by (subst div_mult_self4) simp_all
  finally show ?thesis
    using assms(1) \<open>length (in_data inp) = 4096 * q\<close>
    by (simp add: read_op_def p_read_op_def mapped_size_def)
qed

theorem read_op_page_multiple_witness:
  "read_op \<lparr>in_data = replicate 4096 7, in_curr = 4096\<rparr>
      \<lparr>op_id = 0, op_key = 0, op_type = 0, op_datalen = 0, op_data = 0\<rparr> = Bus \<and>
    p_read_op \<lparr>in_data = replicate 4096 7, in_curr = 4096\<rparr>
      \<lparr>op_id = 0, op_key = 0, op_type = 0, op_datalen = 0, op_data = 0\<rparr> = Bus"
  by (rule read_op_page_multiple) simp_all

end
