(* ===== verification/HashRun.thy ===== *)
theory HashRun
  imports HashInput
begin

text \<open>
  The thread function \<open>process\<close> of src/Assignment4/ass4/part-3/main.c over either
  implementation of the table, run by one thread.  The locale \<open>kv_store\<close> states
  what the loop needs of the three operations; it is interpreted on serial\_hash.c
  (\<open>serial\<close>) and on the operations of parallel\_hash.c (\<open>single\<close>), and the loop is
  verified once, in the locale: on every generated file it ends, and its log and
  final table are those of a finite map.
\<close>

subsection \<open>The loop of main.c\<close>

type_synonym log_entry = "u64 \<times> u32 \<times> int"

datatype fault = Input_bus | Input_type | Table hash_error

definition exec_op ::
  "('h \<Rightarrow> op_t \<Rightarrow> (hash_error + int \<times> op_t) option) \<Rightarrow>
   ('h \<Rightarrow> op_t \<Rightarrow> (hash_error + int \<times> 'h) option) \<Rightarrow>
   ('h \<Rightarrow> op_t \<Rightarrow> (hash_error + int \<times> 'h) option) \<Rightarrow>
   'h \<Rightarrow> op_t \<Rightarrow> (hash_error + int \<times> 'h \<times> op_t) option" where
  "exec_op get put del h x =
    (if op_type x = op_GET then
       map_option (map_sum id (\<lambda>(r, x'). (r, h, x'))) (get h x)
     else if op_type x = op_PUT then map_option (map_sum id (\<lambda>(r, h'). (r, h', x))) (put h x)
     else if op_type x = op_DEL then map_option (map_sum id (\<lambda>(r, h'). (r, h', x))) (del h x)
     else Some (Inl Assert_op))"

partial_function (option) process ::
  "('h \<Rightarrow> op_t \<Rightarrow> (hash_error + int \<times> 'h \<times> op_t) option) \<Rightarrow>
   'h \<Rightarrow> input_manager \<Rightarrow> op_t \<Rightarrow> log_entry list \<Rightarrow> (fault + log_entry list \<times> 'h) option" where
  "process ex h inp x out =
    (case read_op inp x of
       Bus \<Rightarrow> Some (Inl Input_bus)
     | Bad_type \<Rightarrow> Some (Inl Input_type)
     | Eof inp' \<Rightarrow> Some (Inr (out, h))
     | Next inp' x' \<Rightarrow>
         (case ex h x' of
            None \<Rightarrow> None
          | Some (Inl e) \<Rightarrow> Some (Inl (Table e))
          | Some (Inr (r, h', x'')) \<Rightarrow> process ex h' inp' x'' (out @ [(op_id x', op_type x', r)])))"

subsection \<open>The store a run stands for\<close>

text \<open>A key is bound to the identifier and the text of the request that wrote it.\<close>

type_synonym store = "u64 \<rightharpoonup> u32 \<times> u8 list"

fun apply_req :: "store \<Rightarrow> req \<Rightarrow> store" where
  "apply_req m (Put i k tx) = m(k \<mapsto> (ucast i, tx))"
| "apply_req m (Get i k) = m"
| "apply_req m (Del i k) = m(k := None)"

fun req_result :: "store \<Rightarrow> req \<Rightarrow> int" where
  "req_result m (Put i k tx) = 0"
| "req_result m (Get i k) = (if k \<in> dom m then 0 else - 1)"
| "req_result m (Del i k) = (if k \<in> dom m then 0 else - 1)"

fun spec_log :: "store \<Rightarrow> req list \<Rightarrow> log_entry list" where
  "spec_log m [] = []"
| "spec_log m (r # rs) = (req_id r, req_type r, req_result m r) # spec_log (apply_req m r) rs"

definition text_of :: "u8 list \<Rightarrow> u32 \<times> u32 \<times> nat \<Rightarrow> u32 \<times> u8 list" where
  "text_of f v = (fst v, take (unat (fst (snd v))) (drop (snd (snd v)) f))"

definition store_of :: "u8 list \<Rightarrow> (u64 \<rightharpoonup> u32 \<times> u32 \<times> nat) \<Rightarrow> store" where
  "store_of f m = map_option (text_of f) \<circ> m"

definition puts :: "req list \<Rightarrow> nat" where
  "puts rs = length (filter (\<lambda>r. req_type r = op_PUT) rs)"

lemma store_of_upd [simp]: "store_of f (m(k \<mapsto> v)) = (store_of f m)(k \<mapsto> text_of f v)"
  by (auto simp: store_of_def)

lemma store_of_del [simp]: "store_of f (m(k := None)) = (store_of f m)(k := None)"
  by (auto simp: store_of_def)

lemma dom_store_of [simp]: "dom (store_of f m) = dom m"
  by (auto simp: store_of_def dom_def)

lemma store_of_empty [simp]: "store_of f Map.empty = Map.empty"
  by (auto simp: store_of_def)

subsection \<open>The interface of the table\<close>

locale kv_store =
  fixes get :: "'h \<Rightarrow> op_t \<Rightarrow> (hash_error + int \<times> op_t) option"
    and put del :: "'h \<Rightarrow> op_t \<Rightarrow> (hash_error + int \<times> 'h) option"
    and inv :: "'h \<Rightarrow> bool"
    and abs :: "'h \<Rightarrow> u64 \<rightharpoonup> u32 \<times> u32 \<times> nat"
    and room :: "'h \<Rightarrow> nat"
  assumes get_law: "inv h \<Longrightarrow> op_key x \<noteq> 0 \<Longrightarrow> get h x = Some (Inr (get_spec (abs h) x))"
    and put_law: "inv h \<Longrightarrow> op_key x \<noteq> 0 \<Longrightarrow> 0 < room h \<Longrightarrow>
      \<exists>h'. put h x = Some (Inr (0, h')) \<and> inv h' \<and> abs h' = (abs h)(op_key x \<mapsto> op_val x) \<and>
        room h \<le> Suc (room h')"
    and del_law: "inv h \<Longrightarrow> op_key x \<noteq> 0 \<Longrightarrow>
      \<exists>h'. del h x = Some (Inr (if op_key x \<in> dom (abs h) then 0 else - 1, h')) \<and> inv h' \<and>
        abs h' = (abs h)(op_key x := None) \<and> room h \<le> room h'"
begin

lemma exec_refines:
  assumes h: "inv h" and x: "holds f x r" "req_ok r" and rm: "puts [r] \<le> room h"
  shows "\<exists>h' x'. exec_op get put del h x = Some (Inr (req_result (store_of f (abs h)) r, h', x')) \<and>
    inv h' \<and> store_of f (abs h') = apply_req (store_of f (abs h)) r \<and> room h \<le> room h' + puts [r]"
proof (cases r)
  case (Put i k tx)
  then have k: "op_key x = k" "k \<noteq> 0" "op_type x = op_PUT" "op_id x = i" and "0 < room h"
    and tx: "take (unat (op_datalen x)) (drop (op_data x) f) = tx"
    using x rm by (auto simp: holds_def puts_def)
  with put_law [OF h, of x] obtain h' where "put h x = Some (Inr (0, h'))" "inv h'"
    "abs h' = (abs h)(k \<mapsto> op_val x)" "room h \<le> Suc (room h')" by auto
  moreover have "text_of f (op_val x) = (ucast i, tx)" using k tx by (simp add: text_of_def op_val_def)
  ultimately show ?thesis using Put k by (simp add: exec_op_def puts_def)
next
  case (Get i k)
  then have k: "op_key x = k" "k \<noteq> 0" "op_type x = op_GET" using x by (auto simp: holds_def)
  have "get h x = Some (Inr (get_spec (abs h) x))" using get_law [OF h, of x] k by simp
  moreover have "fst (get_spec (abs h) x) = (if k \<in> dom (abs h) then 0 else - 1)"
    using k by (auto simp: get_spec_def split: option.splits)
  ultimately show ?thesis using Get h k by (auto simp: exec_op_def split_beta)
next
  case (Del i k)
  then have k: "op_key x = k" "k \<noteq> 0" "op_type x = op_DEL" using x by (auto simp: holds_def)
  with del_law [OF h, of x] obtain h' where "del h x = Some (Inr (if k \<in> dom (abs h) then 0 else - 1, h'))"
    "inv h'" "abs h' = (abs h)(k := None)" "room h \<le> room h'" by auto
  then show ?thesis using Del k by (simp add: exec_op_def)
qed

lemma process_refines:
  assumes "tail_room f" "at_input f rs inp" "list_all req_ok rs" "inv h" "puts rs \<le> room h"
  shows "\<exists>h'. process (exec_op get put del) h inp x out =
      Some (Inr (out @ spec_log (store_of f (abs h)) rs, h')) \<and>
    inv h' \<and> store_of f (abs h') = foldl apply_req (store_of f (abs h)) rs"
  using assms(2-)
proof (induction rs arbitrary: inp h x out)
  case Nil
  with at_input_end [OF assms(1), of inp x] show ?case by (subst process.simps) auto
next
  case (Cons r rs)
  have pr: "puts (r # rs) = puts [r] + puts rs" by (simp add: puts_def)
  from at_input_next [OF assms(1) Cons.prems(1), of x] Cons.prems(2) obtain inp' x1 where
    rd: "read_op inp x = Next inp' x1" "at_input f rs inp'" and x1: "holds f x1 r" by auto
  from exec_refines [OF Cons.prems(3) x1] Cons.prems(2,4) pr obtain h1 x2 where
    ex: "exec_op get put del h x1 = Some (Inr (req_result (store_of f (abs h)) r, h1, x2))"
    and h1: "inv h1" "store_of f (abs h1) = apply_req (store_of f (abs h)) r"
    and rm: "room h \<le> room h1 + puts [r]" by auto
  let ?out = "out @ [(req_id r, req_type r, req_result (store_of f (abs h)) r)]"
  have "puts rs \<le> room h1" using Cons.prems(4) pr rm by linarith
  with Cons.IH [OF rd(2) _ h1(1), of x2 ?out] Cons.prems(2) obtain h' where
    "process (exec_op get put del) h1 inp' x2 ?out =
        Some (Inr (?out @ spec_log (store_of f (abs h1)) rs, h'))"
    "inv h'" "store_of f (abs h') = foldl apply_req (store_of f (abs h1)) rs" by auto
  moreover have "process (exec_op get put del) h inp x out =
      process (exec_op get put del) h1 inp' x2 ?out"
    using rd ex x1 by (subst process.simps) (simp add: holds_def)
  ultimately show ?case using h1(2) by auto
qed

end

interpretation serial: kv_store lookup insert_update purge_key hash_ok
  "\<lambda>h. hash_map (h_table h)" "\<lambda>h. unused (h_table h) - 1"
proof
  fix h :: hash_t and x :: op_t
  assume "hash_ok h" "op_key x \<noteq> 0" "0 < unused (h_table h) - 1"
  with insert_update_ok [of h x] show "\<exists>h'. insert_update h x = Some (Inr (0, h')) \<and> hash_ok h' \<and>
      hash_map (h_table h') = (hash_map (h_table h))(op_key x \<mapsto> op_val x) \<and>
      unused (h_table h) - 1 \<le> Suc (unused (h_table h') - 1)" by fastforce
next
  fix h :: hash_t and x :: op_t
  assume "hash_ok h" "op_key x \<noteq> 0"
  with purge_ok [of h x] show "\<exists>h'. purge_key h x =
      Some (Inr (if op_key x \<in> dom (hash_map (h_table h)) then 0 else - 1, h')) \<and> hash_ok h' \<and>
      hash_map (h_table h') = (hash_map (h_table h))(op_key x := None) \<and>
      unused (h_table h) - 1 \<le> unused (h_table h') - 1" by fastforce
qed (rule lookup_ok)

interpretation single: kv_store lookup p_insert_update p_purge_key hash_ok
  "\<lambda>h. hash_map (h_table h)" "\<lambda>h. unused (h_table h)"
proof
  fix h :: hash_t and x :: op_t
  assume "hash_ok h" "op_key x \<noteq> 0" "0 < unused (h_table h)"
  with p_insert_update_ok [of h x] show "\<exists>h'. p_insert_update h x = Some (Inr (0, h')) \<and> hash_ok h' \<and>
      hash_map (h_table h') = (hash_map (h_table h))(op_key x \<mapsto> op_val x) \<and>
      unused (h_table h) \<le> Suc (unused (h_table h'))" by simp
next
  fix h :: hash_t and x :: op_t
  assume "hash_ok h" "op_key x \<noteq> 0"
  with purge_ok [of h x] show "\<exists>h'. p_purge_key h x =
      Some (Inr (if op_key x \<in> dom (hash_map (h_table h)) then 0 else - 1, h')) \<and> hash_ok h' \<and>
      hash_map (h_table h') = (hash_map (h_table h))(op_key x := None) \<and>
      unused (h_table h) \<le> unused (h_table h')" by fastforce
qed (rule lookup_ok)

subsection \<open>Whole runs\<close>

lemma dump_live: "hash_ok h \<Longrightarrow> dump_hash_table h"
proof -
  assume h: "hash_ok h"
  have "foldl (\<lambda>u e. if e_key e \<noteq> 0 then u - 1 else u) u tb = u - of_nat (live tb)" for u :: u32 and tb
    by (induction tb arbitrary: u) (auto simp: live_def)
  moreover have "of_nat (live (h_table h)) = h_used h"
    unfolding hash_okD(3) [OF h, symmetric] by simp
  ultimately show ?thesis using hash_okD(2) [OF h] by (simp add: dump_hash_table_def)
qed

text \<open>
  C6. The serial program is correct: on a file with any sequence of PUT, GET and
  DEL requests with non-zero keys and fewer PUTs than the table has entries, whose
  last page has room for one header, \<open>process\<close> ends without a failed assertion, its log has the result of every
  request as on a finite map, the final table holds exactly the bindings of that
  map (with the texts of the file), and the check in \<open>dump_hash_table\<close> succeeds.
\<close>

theorem serial_run_correct:
  assumes "list_all req_ok rs" "tail_room (concat (map encode rs))" "puts rs < n" "n \<le> 100000001"
  defines "f \<equiv> concat (map encode rs)"
  shows "\<exists>h'. process (exec_op lookup insert_update purge_key) (init_hashtable a n)
      \<lparr>in_data = f, in_curr = 0\<rparr> x [] = Some (Inr (spec_log Map.empty rs, h')) \<and>
    hash_ok h' \<and> dump_hash_table h' \<and>
    store_of f (hash_map (h_table h')) = foldl apply_req Map.empty rs"
proof -
  have n: "0 < n" "n < 2 ^ 32" using assms(3,4) by auto
  note init = init_hashtable_ok [OF n, of a]
  have "puts rs \<le> unused (h_table (init_hashtable a n)) - 1" using init(3) assms(3) by simp
  from serial.process_refines [OF assms(2) at_input_start assms(1) init(1) this, of x "[]"]
  show ?thesis using dump_live by (auto simp: init(2) f_def)
qed

theorem serial_run_correct_witness:
  "\<exists>h'. process (exec_op lookup insert_update purge_key) (init_hashtable 4096 3)
      \<lparr>in_data = concat (map encode [Put 1 5 [65, 66], Get 2 5]), in_curr = 0\<rparr>
      \<lparr>op_id = 0, op_key = 0, op_type = 0, op_datalen = 0, op_data = 0\<rparr> [] =
        Some (Inr (spec_log Map.empty [Put 1 5 [65, 66], Get 2 5], h')) \<and>
    hash_ok h' \<and> dump_hash_table h' \<and>
    store_of (concat (map encode [Put 1 5 [65, 66], Get 2 5])) (hash_map (h_table h')) =
      foldl apply_req Map.empty [Put 1 5 [65, 66], Get 2 5]"
  by (rule serial_run_correct) (simp_all add: tail_room_def create_get_del_def puts_def)

text \<open>
  C19. The parallel implementation run by one thread writes the same log as the
  serial one and ends with the same bindings.
\<close>

theorem parallel_serial_equiv:
  assumes "list_all req_ok rs" "tail_room (concat (map encode rs))" "puts rs < n" "n \<le> 100000001"
  defines "f \<equiv> concat (map encode rs)"
  shows "\<exists>out h1 h2.
    process (exec_op lookup insert_update purge_key) (init_hashtable a n)
      \<lparr>in_data = f, in_curr = 0\<rparr> x [] = Some (Inr (out, h1)) \<and>
    process (exec_op lookup p_insert_update p_purge_key) (init_hashtable a n)
      \<lparr>in_data = f, in_curr = 0\<rparr> x [] = Some (Inr (out, h2)) \<and>
    store_of f (hash_map (h_table h1)) = store_of f (hash_map (h_table h2))"
proof -
  have n: "0 < n" "n < 2 ^ 32" using assms(3,4) by auto
  note init = init_hashtable_ok [OF n, of a]
  have "puts rs \<le> unused (h_table (init_hashtable a n)) - 1"
    "puts rs \<le> unused (h_table (init_hashtable a n))" using init(3) assms(3) by simp_all
  from serial.process_refines [OF assms(2) at_input_start assms(1) init(1) this(1), of x "[]"]
    single.process_refines [OF assms(2) at_input_start assms(1) init(1) this(2), of x "[]"]
  show ?thesis by (auto simp: init(2) f_def)
qed

theorem parallel_serial_equiv_witness:
  "\<exists>out h1 h2.
    process (exec_op lookup insert_update purge_key) (init_hashtable 4096 3)
      \<lparr>in_data = concat (map encode [Put 1 5 [65, 66], Del 2 5]), in_curr = 0\<rparr>
      \<lparr>op_id = 0, op_key = 0, op_type = 0, op_datalen = 0, op_data = 0\<rparr> [] = Some (Inr (out, h1)) \<and>
    process (exec_op lookup p_insert_update p_purge_key) (init_hashtable 4096 3)
      \<lparr>in_data = concat (map encode [Put 1 5 [65, 66], Del 2 5]), in_curr = 0\<rparr>
      \<lparr>op_id = 0, op_key = 0, op_type = 0, op_datalen = 0, op_data = 0\<rparr> [] = Some (Inr (out, h2)) \<and>
    store_of (concat (map encode [Put 1 5 [65, 66], Del 2 5])) (hash_map (h_table h1)) =
      store_of (concat (map encode [Put 1 5 [65, 66], Del 2 5])) (hash_map (h_table h2))"
  by (rule parallel_serial_equiv) (simp_all add: tail_room_def create_get_del_def puts_def)

end
