(* ===== verification/HashConc.thy ===== *)
theory HashConc
  imports HashRun
begin

text \<open>
  The parallel hash program (src/Assignment4/ass4/part-3/parallel_hash.c with the
  thread function of main.c) as an interleaving of threads.  Every step is one
  critical section of the code: \<open>read_op\<close> under the lock of the input, the wait on
  the condition variable and the test after it, one turn of a probe loop under
  the lock of its entry, the update of the counter while the lock of the changed
  entry is still held, and \<open>done_one\<close>.  Thread \<open>t\<close> has number \<open>tnum = t + 1\<close> and slot
  \<open>t\<close> of \<open>being_processed\<close>; the pointer stored there, if any, is that of its own
  operation structure.

  The theory shows that for at most 32 threads every schedule behaves like the
  sequential program: requests on one key run one at a time in the order of the
  file, the entry locks keep the table well formed, no assertion fails, the
  threads never block each other for ever, and the logs and the final table are
  those of the sequential run.
\<close>

subsection \<open>State and steps\<close>

datatype pc = P_read | P_wait bool | P_call | P_probe nat nat | P_count nat u64 int | P_done int | P_exit

record par_state =
  s_h :: hash_t
  s_in :: input_manager
  s_bp :: "nat \<Rightarrow> bool"
  s_op :: "nat \<Rightarrow> op_t"
  s_pc :: "nat \<Rightarrow> pc"
  s_out :: "nat \<Rightarrow> log_entry list"
  s_err :: "fault option"

text \<open>The scan of \<open>being_processed[0..31]\<close> for an earlier request on the same key.\<close>

definition blocked :: "par_state \<Rightarrow> nat \<Rightarrow> bool" where
  "blocked s t \<longleftrightarrow> list_ex (\<lambda>i. s_bp s i \<and> op_key (s_op s i) = op_key (s_op s t) \<and>
     op_id (s_op s i) < op_id (s_op s t)) [0..<32]"

definition goto :: "nat \<Rightarrow> pc \<Rightarrow> par_state \<Rightarrow> par_state" where
  "goto t p s = s\<lparr>s_pc := (s_pc s)(t := p)\<rparr>"

definition crash :: "fault \<Rightarrow> par_state \<Rightarrow> par_state" where
  "crash e s = s\<lparr>s_err := Some e\<rparr>"

text \<open>\<open>read_op\<close> up to its first wait; the argument of \<open>P_wait\<close> is set by a broadcast.\<close>

definition read_step :: "nat \<Rightarrow> par_state \<Rightarrow> par_state" where
  "read_step t s =
    (case p_read_op (s_in s) (s_op s t) of
       Bus \<Rightarrow> crash Input_bus s
     | Bad_type \<Rightarrow> crash Input_type s
     | Eof inp' \<Rightarrow> goto t P_exit (s\<lparr>s_in := inp'\<rparr>)
     | Next inp' x' \<Rightarrow>
         let s1 = s\<lparr>s_in := inp', s_op := (s_op s)(t := x'), s_bp := (s_bp s)(t := True)\<rparr>
         in goto t (if blocked s1 t then P_wait False else P_call) s1)"

definition wake_step :: "nat \<Rightarrow> par_state \<Rightarrow> par_state" where
  "wake_step t s = goto t (if blocked s t then P_wait False else P_call) s"

text \<open>The calls of main.c and the statements of the operations before their loops.\<close>

definition call_step :: "nat \<Rightarrow> par_state \<Rightarrow> par_state" where
  "call_step t s =
    (let x = s_op s t; h = s_h s in
     if op_type x \<notin> {op_GET, op_PUT, op_DEL} then crash (Table Assert_op) s
     else if h_size h = 0 then crash (Table Div_zero) s
     else if op_type x = op_PUT \<and> \<not> unat (h_used h) < h_size h then crash (Table Assert_used) s
     else if op_type x = op_PUT \<and> op_key x = 0 then crash (Table Assert_key) s
     else goto t (P_probe (hashfunc (op_key x) (h_size h)) 0) s)"

text \<open>What follows the loop, still under the lock of the entry \<open>ctr\<close>.\<close>

definition finish_step :: "nat \<Rightarrow> nat \<Rightarrow> nat \<Rightarrow> par_state \<Rightarrow> par_state" where
  "finish_step t ctr cnt s =
    (let x = s_op s t; h = s_h s; e = h_table h ! ctr in
     if op_type x = op_GET then
       if e_key e = op_key x
       then goto t (P_done 0) (s\<lparr>s_op := (s_op s)(t := x\<lparr>op_datalen := e_datalen e, op_data := e_data e\<rparr>)\<rparr>)
       else goto t (P_done (- 1)) s
     else if op_type x = op_PUT then
       if \<not> (ctr \<noteq> hashfunc (op_key x) (h_size h) \<or> cnt = 0) then crash (Table Assert_wrapped) s
       else if e_key e = op_key x then goto t (P_done 0) (s\<lparr>s_h := set_entry h ctr (put_entry e x)\<rparr>)
       else if e_key e \<noteq> 0 then crash (Table Assert_occupied) s
       else goto t (P_count ctr 1 0)
              (s\<lparr>s_h := set_entry h ctr ((put_entry e x)\<lparr>e_key := op_key x\<rparr>)\<rparr>)
     else if e_key e = op_key x then goto t (P_count ctr (- 1) 0) (s\<lparr>s_h := set_entry h ctr tombstone\<rparr>)
     else goto t (P_done (- 1)) s)"

definition probe_step :: "nat \<Rightarrow> nat \<Rightarrow> nat \<Rightarrow> par_state \<Rightarrow> par_state" where
  "probe_step t ctr cnt s =
    (let k = op_key (s_op s t); n = h_size (s_h s) in
     if busy k (h_table (s_h s) ! ctr) \<and> (ctr \<noteq> hashfunc k n \<or> cnt = 0)
     then goto t (P_probe ((ctr + 1) mod 2 ^ 32 mod n) (if cnt = 0 then cnt + 1 else cnt)) s
     else finish_step t ctr cnt s)"

text \<open>\<open>done_one\<close> with its broadcast, and the line that main.c writes after it.\<close>

definition done_step :: "nat \<Rightarrow> int \<Rightarrow> par_state \<Rightarrow> par_state" where
  "done_step t r s =
    s\<lparr>s_bp := (s_bp s)(t := False),
      s_pc := (\<lambda>i. case s_pc s i of P_wait b \<Rightarrow> P_wait True | p \<Rightarrow> p)(t := P_read),
      s_out := (s_out s)(t := s_out s t @ [(op_id (s_op s t), op_type (s_op s t), r)])\<rparr>"

text \<open>The lock of entry \<open>ctr\<close> is held by another thread that updates the counter.\<close>

definition entry_locked :: "nat \<Rightarrow> nat \<Rightarrow> par_state \<Rightarrow> nat \<Rightarrow> bool" where
  "entry_locked T t s ctr \<longleftrightarrow>
    list_ex (\<lambda>i. i \<noteq> t \<and> (case s_pc s i of P_count c v r \<Rightarrow> c = ctr | _ \<Rightarrow> False)) [0..<T]"

definition step :: "nat \<Rightarrow> nat \<Rightarrow> par_state \<Rightarrow> par_state option" where
  "step T t s =
    (if s_err s \<noteq> None then None else
     case s_pc s t of
       P_read \<Rightarrow> Some (read_step t s)
     | P_wait b \<Rightarrow> if b then Some (wake_step t s) else None
     | P_call \<Rightarrow> Some (call_step t s)
     | P_probe ctr cnt \<Rightarrow> if entry_locked T t s ctr then None else Some (probe_step t ctr cnt s)
     | P_count ctr v r \<Rightarrow> Some (goto t (P_done r) (s\<lparr>s_h := add_used (s_h s) v\<rparr>))
     | P_done r \<Rightarrow> Some (done_step t r s)
     | P_exit \<Rightarrow> None)"

definition par_init :: "u64 \<Rightarrow> nat \<Rightarrow> u8 list \<Rightarrow> op_t \<Rightarrow> par_state" where
  "par_init a n f x =
    \<lparr>s_h = init_hashtable a n, s_in = \<lparr>in_data = f, in_curr = 0\<rparr>, s_bp = \<lambda>t. False,
     s_op = \<lambda>t. x, s_pc = \<lambda>t. P_read, s_out = \<lambda>t. [], s_err = None\<rparr>"

text \<open>
  The states that \<open>T\<close> threads reach, with the number of steps and the number of
  spurious wakeups, which the condition variable allows.
\<close>

inductive par_reach :: "nat \<Rightarrow> par_state \<Rightarrow> nat \<Rightarrow> nat \<Rightarrow> par_state \<Rightarrow> bool"
  for T :: nat and s0 :: par_state where
  start: "par_reach T s0 0 0 s0"
| thread: "par_reach T s0 k w s \<Longrightarrow> t < T \<Longrightarrow> step T t s = Some s' \<Longrightarrow> par_reach T s0 (Suc k) w s'"
| spurious: "par_reach T s0 k w s \<Longrightarrow> t < T \<Longrightarrow> s_err s = None \<Longrightarrow> s_pc s t = P_wait False \<Longrightarrow>
    par_reach T s0 k (Suc w) (goto t (P_wait True) s)"

subsection \<open>The order of requests\<close>

text \<open>
  The bookkeeping of \<open>read_op\<close> and \<open>done_one\<close> seen apart from the table: \<open>A\<close> are the
  threads with a registered request, \<open>R\<close> those past their wait, \<open>I\<close> and \<open>K\<close> the
  identifiers and keys of their requests, \<open>L\<close> the identifiers logged so far and
  \<open>taken\<close> the requests read from the file.
\<close>

definition dispatch :: "req list \<Rightarrow> nat \<Rightarrow> (nat \<Rightarrow> bool) \<Rightarrow> (nat \<Rightarrow> bool) \<Rightarrow> (nat \<Rightarrow> u64) \<Rightarrow>
    (nat \<Rightarrow> u64) \<Rightarrow> u64 set \<Rightarrow> bool" where
  "dispatch taken T A R I K L \<longleftrightarrow>
    (\<forall>r\<in>set taken. \<forall>r'\<in>set taken. req_id r = req_id r' \<longrightarrow> r = r') \<and>
    (\<forall>t<T. A t \<longrightarrow> (\<exists>r\<in>set taken. req_id r = I t \<and> req_key r = K t) \<and> I t \<notin> L) \<and>
    (\<forall>t<T. \<forall>t'<T. A t \<longrightarrow> A t' \<longrightarrow> I t = I t' \<longrightarrow> t = t') \<and>
    (\<forall>r\<in>set taken. req_id r \<in> L \<or> (\<exists>t<T. A t \<and> I t = req_id r)) \<and>
    L \<subseteq> req_id ` set taken \<and>
    (\<forall>t<T. R t \<longrightarrow> A t) \<and>
    (\<forall>t<T. \<forall>t'<T. R t \<longrightarrow> A t' \<longrightarrow> t \<noteq> t' \<longrightarrow> K t = K t' \<longrightarrow> I t < I t') \<and>
    (\<forall>r\<in>set taken. \<forall>r'\<in>set taken. req_key r = req_key r' \<longrightarrow> req_id r < req_id r' \<longrightarrow>
       req_id r' \<in> L \<longrightarrow> req_id r \<in> L)"

lemma dispatchD:
  assumes "dispatch taken T A R I K L"
  shows "\<And>r r'. r \<in> set taken \<Longrightarrow> r' \<in> set taken \<Longrightarrow> req_id r = req_id r' \<Longrightarrow> r = r'"
    and "\<And>t. t < T \<Longrightarrow> A t \<Longrightarrow> \<exists>r\<in>set taken. req_id r = I t \<and> req_key r = K t"
    and "\<And>t. t < T \<Longrightarrow> A t \<Longrightarrow> I t \<notin> L"
    and "\<And>t t'. t < T \<Longrightarrow> t' < T \<Longrightarrow> A t \<Longrightarrow> A t' \<Longrightarrow> I t = I t' \<Longrightarrow> t = t'"
    and "\<And>r. r \<in> set taken \<Longrightarrow> req_id r \<notin> L \<Longrightarrow> \<exists>t<T. A t \<and> I t = req_id r"
    and "L \<subseteq> req_id ` set taken"
    and "\<And>t. t < T \<Longrightarrow> R t \<Longrightarrow> A t"
    and "\<And>t t'. t < T \<Longrightarrow> t' < T \<Longrightarrow> R t \<Longrightarrow> A t' \<Longrightarrow> t \<noteq> t' \<Longrightarrow> K t = K t' \<Longrightarrow> I t < I t'"
    and "\<And>r r'. r \<in> set taken \<Longrightarrow> r' \<in> set taken \<Longrightarrow> req_key r = req_key r' \<Longrightarrow> req_id r < req_id r' \<Longrightarrow>
      req_id r' \<in> L \<Longrightarrow> req_id r \<in> L"
  using assms unfolding dispatch_def by (blast+)

lemma dispatch_take:
  assumes d: "dispatch taken T A R I K L" and t: "t < T" "\<not> A t"
    and r: "\<forall>r'\<in>set taken. req_id r' < req_id r"
    and g: "g \<Longrightarrow> \<forall>t'<T. A t' \<longrightarrow> K t' = req_key r \<longrightarrow> \<not> I t' < req_id r"
  shows "dispatch (taken @ [r]) T (A(t := True)) (R(t := g)) (I(t := req_id r)) (K(t := req_key r)) L"
proof -
  have new: "req_id r \<notin> L" using dispatchD(6) [OF d] r by fastforce
  have old: "I t' < req_id r" if "t' < T" "A t'" for t'
    using dispatchD(2) [OF d that] r by fastforce
  have L: "\<forall>i\<in>L. \<exists>r'\<in>set taken. req_id r' = i" using dispatchD(6) [OF d] by auto
  have reg: "(\<exists>r'\<in>set (taken @ [r]). req_id r' = (I(t := req_id r)) u \<and> req_key r' = (K(t := req_key r)) u) \<and>
      (I(t := req_id r)) u \<notin> L" if u: "u < T" "(A(t := True)) u" for u
  proof (cases "u = t")
    case False
    with u have "A u" by simp
    with dispatchD(2,3) [OF d u(1)] False show ?thesis by auto
  qed (use new in simp)
  have pend: "\<exists>u<T. (A(t := True)) u \<and> (I(t := req_id r)) u = req_id r'"
    if r': "r' \<in> set (taken @ [r])" "req_id r' \<notin> L" for r'
  proof (cases "r' = r")
    case False
    with r' obtain u where "u < T" "A u" "I u = req_id r'" using dispatchD(5) [OF d, of r'] by auto
    with t(2) show ?thesis by (intro exI [of _ u]) auto
  qed (use t in auto)
  show ?thesis
    unfolding dispatch_def
    apply (intro conjI)
    subgoal using dispatchD(1) [OF d] r by fastforce
    subgoal using reg by blast
    subgoal using dispatchD(4) [OF d] old by (metis fun_upd_apply less_irrefl)
    subgoal using pend by blast
    subgoal using L by auto
    subgoal using dispatchD(7) [OF d] by auto
    subgoal using dispatchD(7,8) [OF d] old g by (auto 0 3)
    subgoal using dispatchD(9) [OF d] new r by (auto 0 3 dest: less_asym)
    done
qed

lemma dispatch_grant:
  assumes d: "dispatch taken T A R I K L" and t: "t < T" "A t"
    and free: "\<forall>t'<T. A t' \<longrightarrow> K t' = K t \<longrightarrow> \<not> I t' < I t"
  shows "dispatch taken T A (R(t := True)) I K L"
proof -
  have "I t < I t'" if "t' < T" "A t'" "t \<noteq> t'" "K t = K t'" for t'
    using d t free that unfolding dispatch_def by (metis neqE)
  with d t show ?thesis unfolding dispatch_def by simp
qed

text \<open>All earlier requests on the key of a running thread are logged, none of the later ones.\<close>

lemma dispatch_earlier:
  assumes d: "dispatch taken T A R I K L" and t: "t < T" "R t"
    and r: "r \<in> set taken" "req_key r = K t" "req_id r < I t"
  shows "req_id r \<in> L"
proof (rule ccontr)
  assume "req_id r \<notin> L"
  then obtain t' where t': "t' < T" "A t'" "I t' = req_id r" using dispatchD(5) [OF d r(1)] by metis
  with dispatchD(1,2) [OF d] r(1) have "K t' = K t" by (metis r(2))
  with dispatchD(8) [OF d t(1) t'(1) t(2) t'(2)] t' r(3) show False by fastforce
qed

lemma dispatch_later:
  assumes d: "dispatch taken T A R I K L" and t: "t < T" "R t"
    and r: "r \<in> set taken" "req_key r = K t" "I t < req_id r"
  shows "req_id r \<notin> L" "\<not> (\<exists>t'<T. R t' \<and> I t' = req_id r)"
proof -
  obtain r0 where r0: "r0 \<in> set taken" "req_id r0 = I t" "req_key r0 = K t"
    using dispatchD(2,7) [OF d] t by metis
  then show "req_id r \<notin> L"
    using dispatchD(9) [OF d r0(1) r(1)] dispatchD(3,7) [OF d] t r by auto
  show "\<not> (\<exists>t'<T. R t' \<and> I t' = req_id r)"
  proof
    assume "\<exists>t'<T. R t' \<and> I t' = req_id r"
    then obtain t' where t': "t' < T" "R t'" "I t' = req_id r" by blast
    with dispatchD(1,2,7) [OF d] r(1) have "K t' = K t" by (metis r(2))
    with dispatchD(8) [OF d t'(1) t(1) t'(2)] dispatchD(7) [OF d t] t' r(3) show False
      by fastforce
  qed
qed

lemma dispatch_finish:
  assumes d: "dispatch taken T A R I K L" and t: "t < T" "R t"
  shows "dispatch taken T (A(t := False)) (R(t := False)) I K (insert (I t) L)"
proof -
  have At: "A t" by (rule dispatchD(7) [OF d t])
  then obtain r0 where r0: "r0 \<in> set taken" "req_id r0 = I t" "req_key r0 = K t"
    using dispatchD(2) [OF d t(1)] by metis
  have uniq: "I t' \<noteq> I t" if "t' < T" "A t'" "t' \<noteq> t" for t'
    using dispatchD(4) [OF d that(1) t(1) that(2) At] that(3) by blast
  have before: "req_id r \<in> L" if "r \<in> set taken" "req_key r = K t" "req_id r < I t" for r
    using dispatch_earlier [OF d t that] .
  show ?thesis
    unfolding dispatch_def
    apply (intro conjI)
    subgoal using d unfolding dispatch_def by blast
    subgoal using d uniq unfolding dispatch_def by auto
    subgoal using d unfolding dispatch_def by (metis fun_upd_apply)
    subgoal using dispatchD(5) [OF d] by fastforce
    subgoal using dispatchD(6) [OF d] r0 by (metis image_eqI insert_subsetI)
    subgoal using dispatchD(7) [OF d] by simp
    subgoal using dispatchD(8) [OF d] by simp
    subgoal using dispatchD(1,9) [OF d] before r0 by (metis insert_iff)
    done
qed

subsection \<open>The history of a key\<close>

text \<open>The binding of a key after the requests of \<open>taken\<close> whose identifier is in \<open>S\<close>.\<close>

definition hist :: "req list \<Rightarrow> u64 set \<Rightarrow> store" where
  "hist taken S = (\<lambda>k. foldl apply_req Map.empty (filter (\<lambda>r. req_key r = k \<and> req_id r \<in> S) taken) k)"

lemma apply_req_other: "req_key r \<noteq> k \<Longrightarrow> apply_req m r k = m k"
  by (cases r) auto

lemma apply_req_key: "m (req_key r) = m' (req_key r) \<Longrightarrow> apply_req m r (req_key r) = apply_req m' r (req_key r)"
  by (cases r) auto

lemma req_result_key: "m (req_key r) = m' (req_key r) \<Longrightarrow> req_result m r = req_result m' r"
  by (cases r) (auto simp: dom_def)

lemma foldl_apply_key:
  "m k = m' k \<Longrightarrow> foldl apply_req m rs k = foldl apply_req m' (filter (\<lambda>r. req_key r = k) rs) k"
proof (induction rs arbitrary: m m')
  case (Cons r rs)
  then show ?case
    using apply_req_key [of m r m'] by (cases "req_key r = k") (auto simp: apply_req_other)
qed simp

lemma spec_log_mem:
  "(req_id r, req_type r, req_result (foldl apply_req m xs) r) \<in> set (spec_log m (xs @ r # ys))"
  by (induction xs arbitrary: m) auto

text \<open>
  The linearization point: all earlier requests on the key of \<open>r\<close> are in \<open>S\<close>, none of
  the later ones.  Then the history so far is that of the sequential run, and
  adding \<open>r\<close> applies it.
\<close>

lemma hist_point:
  assumes ids: "sorted_wrt (\<lambda>r r'. req_id r < req_id r') (xs @ r # ys)"
    and early: "\<And>r'. r' \<in> set xs \<Longrightarrow> req_key r' = req_key r \<Longrightarrow> req_id r' \<in> S"
    and late: "\<And>r'. r' \<in> set ys \<Longrightarrow> req_key r' = req_key r \<Longrightarrow> req_id r' \<notin> S"
    and self: "req_id r \<notin> S"
  shows "hist (xs @ r # ys) S (req_key r) = foldl apply_req Map.empty xs (req_key r)"
    and "hist (xs @ r # ys) (insert (req_id r) S) = apply_req (hist (xs @ r # ys) S) r"
proof -
  let ?k = "req_key r"
  have fx: "filter (\<lambda>r'. req_key r' = ?k \<and> req_id r' \<in> S) xs = filter (\<lambda>r'. req_key r' = ?k) xs"
    using early by (intro filter_cong) auto
  have idx: "\<forall>r'\<in>set xs. req_id r' \<noteq> req_id r" and idy: "\<forall>r'\<in>set ys. req_id r' \<noteq> req_id r"
    using ids by (force simp: sorted_wrt_append)+
  have fy: "filter (\<lambda>r'. req_key r' = ?k \<and> req_id r' \<in> S) ys = []"
    using late by (auto simp: filter_empty_conv)
  show e: "hist (xs @ r # ys) S ?k = foldl apply_req Map.empty xs ?k"
    using self by (simp add: hist_def fx fy foldl_apply_key [of Map.empty ?k Map.empty xs])
  have ins: "filter (\<lambda>r'. req_key r' = k \<and> req_id r' \<in> insert (req_id r) S) zs =
      filter (\<lambda>r'. req_key r' = k \<and> req_id r' \<in> S) zs" if "\<forall>r'\<in>set zs. req_id r' \<noteq> req_id r" for zs k
    using that by (intro filter_cong) auto
  show "hist (xs @ r # ys) (insert (req_id r) S) = apply_req (hist (xs @ r # ys) S) r"
  proof
    fix k
    show "hist (xs @ r # ys) (insert (req_id r) S) k = apply_req (hist (xs @ r # ys) S) r k"
    proof (cases "k = ?k")
      case True
      have "hist (xs @ r # ys) (insert (req_id r) S) ?k =
          apply_req (foldl apply_req Map.empty (filter (\<lambda>r'. req_key r' = ?k) xs)) r ?k"
        unfolding hist_def using fx fy ins [OF idx] ins [OF idy] by simp
      also have "\<dots> = apply_req (hist (xs @ r # ys) S) r ?k"
        by (rule apply_req_key) (simp add: e foldl_apply_key [of Map.empty ?k Map.empty xs])
      finally show ?thesis using True by simp
    next
      case False
      have "hist (xs @ r # ys) (insert (req_id r) S) k = hist (xs @ r # ys) S k"
        unfolding hist_def using False ins [OF idx] ins [OF idy] by simp
      then show ?thesis using False by (simp add: apply_req_other)
    qed
  qed
qed

lemma hist_take: "req_id r \<notin> S \<Longrightarrow> hist (taken @ [r]) S = hist taken S"
  by (rule ext) (simp add: hist_def)

lemma hist_all: "req_id ` set rs \<subseteq> S \<Longrightarrow> hist rs S = foldl apply_req Map.empty rs"
proof
  fix k
  assume "req_id ` set rs \<subseteq> S"
  then have "filter (\<lambda>r. req_key r = k \<and> req_id r \<in> S) rs = filter (\<lambda>r. req_key r = k) rs"
    by (intro filter_cong) auto
  then show "hist rs S k = foldl apply_req Map.empty rs k"
    unfolding hist_def using foldl_apply_key [of Map.empty k Map.empty rs] by simp
qed

lemma hist_none: "hist [] S = Map.empty"
  by (simp add: hist_def)

text \<open>The number of PUT requests among those with an identifier in \<open>S\<close>.\<close>

definition puts_in :: "req list \<Rightarrow> u64 set \<Rightarrow> nat" where
  "puts_in taken S = puts (filter (\<lambda>r. req_id r \<in> S) taken)"

lemma puts_simps [simp]: "puts [] = 0" "puts (r # rs) = of_bool (req_type r = op_PUT) + puts rs"
  "puts (xs @ ys) = puts xs + puts ys"
  by (simp_all add: puts_def)

lemma puts_in_le: "puts_in xs S \<le> puts xs"
  by (induction xs) (auto simp: puts_in_def)

lemma puts_in_insert:
  assumes "sorted_wrt (\<lambda>r r'. req_id r < req_id r') (xs @ r # ys)" "req_id r \<notin> S"
  shows "puts_in (xs @ r # ys) (insert (req_id r) S) = puts_in (xs @ r # ys) S + of_bool (req_type r = op_PUT)"
proof -
  have "filter (\<lambda>r'. req_id r' \<in> insert (req_id r) S) zs = filter (\<lambda>r'. req_id r' \<in> S) zs"
    if "\<forall>r'\<in>set zs. req_id r' \<noteq> req_id r" for zs
    using that by (intro filter_cong) auto
  moreover have "\<forall>r'\<in>set xs. req_id r' \<noteq> req_id r" "\<forall>r'\<in>set ys. req_id r' \<noteq> req_id r"
    using assms(1) by (force simp: sorted_wrt_append)+
  ultimately show ?thesis using assms(2) by (simp add: puts_in_def)
qed

subsection \<open>The table under interleaving\<close>

fun counting :: "u64 \<Rightarrow> pc \<Rightarrow> bool" where
  "counting v (P_count c w r) \<longleftrightarrow> w = v"
| "counting v _ \<longleftrightarrow> False"

fun count_slot :: "pc \<Rightarrow> nat" where
  "count_slot (P_count c w r) = c"
| "count_slot _ = 0"

definition ncount :: "nat \<Rightarrow> (nat \<Rightarrow> pc) \<Rightarrow> u64 \<Rightarrow> nat" where
  "ncount T pcs v = card {t. t < T \<and> counting v (pcs t)}"

text \<open>A probing thread has passed only entries that are not its own; a counting thread owns its entry.\<close>

fun slot_ok :: "hash_entry list \<Rightarrow> u64 \<Rightarrow> pc \<Rightarrow> bool" where
  "slot_ok tb k (P_probe c cnt) \<longleftrightarrow>
    (\<exists>m\<le>length tb. c = slot (length tb) k m \<and> cnt = min m 1 \<and> passed tb k m)"
| "slot_ok tb k (P_count c v r) \<longleftrightarrow> c < length tb \<and>
    (v = 1 \<and> e_key (tb ! c) \<noteq> 0 \<or> v = - 1 \<and> e_key (tb ! c) = 0 \<and> \<not> fresh (tb ! c))"
| "slot_ok tb k _ \<longleftrightarrow> True"

definition no_clash :: "nat \<Rightarrow> (nat \<Rightarrow> pc) \<Rightarrow> bool" where
  "no_clash T pcs \<longleftrightarrow> (\<forall>t<T. \<forall>t'<T. \<forall>c v r v' r'.
     pcs t = P_count c v r \<longrightarrow> pcs t' = P_count c v' r' \<longrightarrow> t = t')"

definition table_inv :: "nat \<Rightarrow> hash_t \<Rightarrow> (nat \<Rightarrow> u64) \<Rightarrow> (nat \<Rightarrow> pc) \<Rightarrow> bool" where
  "table_inv T h K pcs \<longleftrightarrow> tab_ok (h_table h) \<and> h_size h = length (h_table h) \<and>
    (\<forall>t<T. slot_ok (h_table h) (K t) (pcs t)) \<and> no_clash T pcs \<and>
    unat (h_used h) + ncount T pcs 1 = live (h_table h) + ncount T pcs (- 1)"

lemma table_invD:
  assumes "table_inv T h K pcs"
  shows "tab_ok (h_table h)" "h_size h = length (h_table h)" "0 < length (h_table h)"
    "length (h_table h) < 2 ^ 32" "\<And>t. t < T \<Longrightarrow> slot_ok (h_table h) (K t) (pcs t)" "no_clash T pcs"
    "unat (h_used h) + ncount T pcs 1 = live (h_table h) + ncount T pcs (- 1)"
  using assms tab_okD(1,2) [of "h_table h"] by (simp_all add: table_inv_def)

lemma ncount_upd:
  assumes "t < T"
  shows "ncount T (pcs(t := p)) v + of_bool (counting v (pcs t)) =
    ncount T pcs v + of_bool (counting v p)"
proof -
  let ?S = "{u. u < T \<and> u \<noteq> t \<and> counting v (pcs u)}"
  have split: "{u. u < T \<and> counting v (qs u)} = ?S \<union> (if counting v (qs t) then {t} else {})"
    if "\<And>u. u \<noteq> t \<Longrightarrow> qs u = pcs u" for qs
    using that assms by (auto split: if_splits) metis
  have "card {u. u < T \<and> counting v (qs u)} = card ?S + of_bool (counting v (qs t))"
    if q: "\<And>u. u \<noteq> t \<Longrightarrow> qs u = pcs u" for qs
  proof -
    have "card {u. u < T \<and> counting v (qs u)} = card (?S \<union> (if counting v (qs t) then {t} else {}))"
      by (rule arg_cong [where f = card]) (use split [of qs] q in blast)
    then show ?thesis by simp
  qed
  from this [of pcs] this [of "pcs(t := p)"] show ?thesis by (simp add: ncount_def)
qed

lemma count_slot_inj: "no_clash T pcs \<Longrightarrow> inj_on (\<lambda>t. count_slot (pcs t)) {t. t < T \<and> counting v (pcs t)}"
proof (rule inj_onI)
  fix t t'
  assume nc: "no_clash T pcs" and t: "t \<in> {t. t < T \<and> counting v (pcs t)}"
    and t': "t' \<in> {t. t < T \<and> counting v (pcs t)}" and eq: "count_slot (pcs t) = count_slot (pcs t')"
  from t obtain c r where "pcs t = P_count c v r" by (cases "pcs t") auto
  moreover from t' obtain c' r' where "pcs t' = P_count c' v r'" by (cases "pcs t'") auto
  ultimately show "t = t'" using nc eq t t' unfolding no_clash_def by auto
qed

lemma ncount_bound:
  assumes nc: "no_clash T pcs"
    and sub: "\<And>t c r. t < T \<Longrightarrow> pcs t = P_count c v r \<Longrightarrow> c < length tb \<and> P (tb ! c)"
  shows "ncount T pcs v \<le> length (filter P tb)"
proof -
  have "ncount T pcs v = card ((\<lambda>t. count_slot (pcs t)) ` {t. t < T \<and> counting v (pcs t)})"
    unfolding ncount_def by (rule card_image [OF count_slot_inj [OF nc], symmetric])
  also have "\<dots> \<le> card {i. i < length tb \<and> P (tb ! i)}"
  proof (rule card_mono)
    show "(\<lambda>t. count_slot (pcs t)) ` {t. t < T \<and> counting v (pcs t)} \<subseteq> {i. i < length tb \<and> P (tb ! i)}"
    proof
      fix i
      assume "i \<in> (\<lambda>t. count_slot (pcs t)) ` {t. t < T \<and> counting v (pcs t)}"
      then obtain t where t: "t < T" "counting v (pcs t)" "i = count_slot (pcs t)" by blast
      from t(2) obtain c r where "pcs t = P_count c v r" by (cases "pcs t") auto
      with sub [OF t(1) this] t(3) show "i \<in> {i. i < length tb \<and> P (tb ! i)}" by simp
    qed
  qed simp
  finally show ?thesis by (simp add: length_filter_conv_card)
qed

lemma live_unused_dead:
  "live tb + unused tb + length (filter (\<lambda>e. e_key e = 0 \<and> \<not> fresh e) tb) = length tb"
  by (induction tb) (auto simp: live_def unused_def fresh_def)

lemma table_inv_bounds:
  assumes "table_inv T h K pcs"
  shows "ncount T pcs 1 \<le> live (h_table h)"
    and "live (h_table h) + unused (h_table h) + ncount T pcs (- 1) \<le> length (h_table h)"
    and "unat (h_used h) + unused (h_table h) \<le> length (h_table h)"
proof -
  note t = table_invD [OF assms]
  have s: "c < length (h_table h) \<and> (v = 1 \<and> e_key (h_table h ! c) \<noteq> 0 \<or>
      v = - 1 \<and> e_key (h_table h ! c) = 0 \<and> \<not> fresh (h_table h ! c))"
    if "u < T" "pcs u = P_count c v r" for u c v r
    using t(5) [OF that(1)] that(2) by simp
  show "ncount T pcs 1 \<le> live (h_table h)"
    unfolding live_def by (rule ncount_bound [OF t(6)]) (use s in fastforce)
  have "ncount T pcs (- 1) \<le> length (filter (\<lambda>e. e_key e = 0 \<and> \<not> fresh e) (h_table h))"
    by (rule ncount_bound [OF t(6)]) (use s in fastforce)
  then show le: "live (h_table h) + unused (h_table h) + ncount T pcs (- 1) \<le> length (h_table h)"
    using live_unused_dead [of "h_table h"] by linarith
  then show "unat (h_used h) + unused (h_table h) \<le> length (h_table h)" using t(7) by linarith
qed

fun is_count :: "pc \<Rightarrow> bool" where
  "is_count (P_count c v r) \<longleftrightarrow> True"
| "is_count _ \<longleftrightarrow> False"

fun neutral :: "pc \<Rightarrow> bool" where
  "neutral (P_probe c cnt) \<longleftrightarrow> False"
| "neutral (P_count c v r) \<longleftrightarrow> False"
| "neutral _ \<longleftrightarrow> True"

lemma neutral_simps:
  "neutral p \<Longrightarrow> slot_ok tb k p" "neutral p \<Longrightarrow> \<not> counting v p" "neutral p \<Longrightarrow> p \<noteq> P_count c v r"
  "\<not> is_count p \<Longrightarrow> \<not> counting v p"
  by (cases p; simp)+

lemma no_clash_upd: "no_clash T pcs \<Longrightarrow> \<not> is_count p \<Longrightarrow> no_clash T (pcs(u := p))"
  unfolding no_clash_def by (auto split: if_splits)

lemma table_inv_quiet:
  assumes "table_inv T h K pcs"
    and same: "\<And>u. u < T \<Longrightarrow> pcs' u = pcs u \<and> K' u = K u \<or> neutral (pcs' u) \<and> \<not> is_count (pcs u)"
  shows "table_inv T h K' pcs'"
proof -
  note t = table_invD [OF assms(1)]
  have nc: "ncount T pcs' v = ncount T pcs v" for v
    unfolding ncount_def using same by (metis neutral_simps(2,4))
  have "no_clash T pcs'" using t(6) same unfolding no_clash_def by (metis neutral_simps(3))
  moreover have "slot_ok (h_table h) (K' u) (pcs' u)" if "u < T" for u
    using same [OF that] t(5) [OF that] by (auto simp: neutral_simps)
  ultimately show ?thesis using t(1,2,7) by (simp add: table_inv_def nc)
qed

lemma table_inv_probe:
  assumes "table_inv T h K pcs" "u < T" "\<not> is_count (pcs u)" "slot_ok (h_table h) (K u) (P_probe c n)"
  shows "table_inv T h K (pcs(u := P_probe c n))"
proof -
  note t = table_invD [OF assms(1)]
  have nc: "ncount T (pcs(u := P_probe c n)) v = ncount T pcs v" for v
    using ncount_upd [OF assms(2), of pcs "P_probe c n" v] assms(3) by (simp add: neutral_simps)
  have "no_clash T (pcs(u := P_probe c n))"
    by (rule no_clash_upd [OF t(6)]) simp
  moreover have "\<forall>v<T. slot_ok (h_table h) (K v) ((pcs(u := P_probe c n)) v)" using t(5) assms(4) by simp
  ultimately show ?thesis using t(1,2,7) by (simp add: table_inv_def nc)
qed

lemma passed_update:
  assumes "passed tb k m" "\<not> fresh e" "e_key e \<noteq> k"
  shows "passed (tb[i := e]) k m"
proof -
  have "busy k e" using assms(2,3) by (metis not_busy)
  then show ?thesis
    using assms(1) unfolding passed_def
    by (metis length_list_update linorder_not_le list_update_beyond nth_list_update)
qed

lemma slot_ok_update:
  assumes "slot_ok tb k p" "\<not> fresh e" "\<And>c cnt. p = P_probe c cnt \<Longrightarrow> e_key e \<noteq> k"
    and "is_count p \<Longrightarrow> count_slot p \<noteq> i"
  shows "slot_ok (tb[i := e]) k p"
  using assms by (cases p) (auto intro: passed_update)

text \<open>A write to entry \<open>i\<close> by thread \<open>u\<close>, which then holds the lock or is through.\<close>

lemma table_inv_write:
  assumes inv: "table_inv T h K pcs" and u: "u < T" "\<not> is_count (pcs u)"
    and e: "\<not> fresh e" "\<And>t. t < T \<Longrightarrow> t \<noteq> u \<Longrightarrow> \<not> neutral (pcs t) \<Longrightarrow> e_key e \<noteq> K t"
    and lock: "\<And>t. t < T \<Longrightarrow> t \<noteq> u \<Longrightarrow> is_count (pcs t) \<Longrightarrow> count_slot (pcs t) \<noteq> i"
    and ok: "tab_ok ((h_table h)[i := e])" and p: "slot_ok ((h_table h)[i := e]) (K u) p"
    and own: "is_count p \<Longrightarrow> count_slot p = i"
    and cnt: "live ((h_table h)[i := e]) + of_bool (counting (- 1) p) =
      live (h_table h) + of_bool (counting 1 p)"
  shows "table_inv T (set_entry h i e) K (pcs(u := p))"
proof -
  note t = table_invD [OF inv]
  let ?tb = "(h_table h)[i := e]"
  have s: "slot_ok ?tb (K v) ((pcs(u := p)) v)" if "v < T" for v
  proof (cases "v = u")
    case False
    have "slot_ok ?tb (K v) (pcs v)"
      by (rule slot_ok_update [OF t(5) [OF that] e(1)])
        (use e(2) [OF that False] lock [OF that False] in \<open>auto\<close>)
    with False show ?thesis by simp
  qed (use p in simp)
  have "no_clash T (pcs(u := p))"
    using t(6) lock own u(1) unfolding no_clash_def
    by (metis count_slot.simps(1) fun_upd_apply is_count.simps(1))
  moreover have "ncount T (pcs(u := p)) v = ncount T pcs v + of_bool (counting v p)" for v
    using ncount_upd [OF u(1), of pcs p v] u(2) by (simp add: neutral_simps)
  ultimately show ?thesis
    using t(2,7) ok s cnt by (simp add: table_inv_def set_entry_def)
qed

subsection \<open>The end of a probe\<close>

fun pc_active :: "pc \<Rightarrow> bool" where
  "pc_active P_read \<longleftrightarrow> False" | "pc_active P_exit \<longleftrightarrow> False" | "pc_active _ \<longleftrightarrow> True"

fun pc_running :: "pc \<Rightarrow> bool" where
  "pc_running P_read \<longleftrightarrow> False" | "pc_running P_exit \<longleftrightarrow> False" | "pc_running (P_wait b) \<longleftrightarrow> False"
| "pc_running _ \<longleftrightarrow> True"

fun pc_lined :: "pc \<Rightarrow> bool" where
  "pc_lined (P_count c v r) \<longleftrightarrow> True" | "pc_lined (P_done r) \<longleftrightarrow> True" | "pc_lined _ \<longleftrightarrow> False"

fun pc_ret :: "pc \<Rightarrow> int" where
  "pc_ret (P_count c v r) = r" | "pc_ret (P_done r) = r" | "pc_ret _ = 0"

text \<open>The shape of every step of a running thread.\<close>

definition upd :: "nat \<Rightarrow> hash_t \<Rightarrow> op_t \<Rightarrow> pc \<Rightarrow> par_state \<Rightarrow> par_state" where
  "upd t h x p s = s\<lparr>s_h := h, s_op := (s_op s)(t := x), s_pc := (s_pc s)(t := p)\<rparr>"

lemma upd_simps [simp]:
  "s_h (upd t h x p s) = h" "s_op (upd t h x p s) = (s_op s)(t := x)"
  "s_pc (upd t h x p s) = (s_pc s)(t := p)" "s_in (upd t h x p s) = s_in s" "s_bp (upd t h x p s) = s_bp s"
  "s_out (upd t h x p s) = s_out s" "s_err (upd t h x p s) = s_err s"
  by (simp_all add: upd_def)

lemma goto_upd: "goto t p s = upd t (s_h s) (s_op s t) p s"
  "goto t p (s\<lparr>s_h := h\<rparr>) = upd t h (s_op s t) p s"
  "goto t p (s\<lparr>s_op := (s_op s)(t := x)\<rparr>) = upd t (s_h s) x p s"
  by (simp_all add: goto_def upd_def)

definition same_req :: "op_t \<Rightarrow> op_t \<Rightarrow> bool" where
  "same_req x' x \<longleftrightarrow> op_id x' = op_id x \<and> op_key x' = op_key x \<and> op_type x' = op_type x \<and>
    (op_type x = op_GET \<or> x' = x)"

lemma same_req_refl [simp]: "same_req x x"
  by (simp add: same_req_def)

lemma same_req_holds: "same_req x' x \<Longrightarrow> holds f x r \<Longrightarrow> holds f x' r"
  by (cases r) (auto simp: same_req_def holds_def)

lemma probe_stop:
  assumes ok: "tab_ok tb" and k: "k \<noteq> 0" and so: "slot_ok tb k (P_probe c cnt)"
    and stop: "\<not> (busy k (tb ! c) \<and> (c \<noteq> hashfunc k (length tb) \<or> cnt = 0))"
  obtains m where "m \<le> length tb" "c = slot (length tb) k m" "cnt = min m 1" "passed tb k m"
    "e_key (tb ! c) = k \<and> m < length tb \<and> hash_map tb k = Some (entry_val (tb ! c)) \<or>
     e_key (tb ! c) \<noteq> k \<and> hash_map tb k = None \<and> (m < length tb \<longrightarrow> fresh (tb ! c))"
proof -
  from so obtain m where m: "m \<le> length tb" "c = slot (length tb) k m" "cnt = min m 1" "passed tb k m"
    by auto
  note pos = tab_okD(1) [OF ok]
  have "e_key (tb ! c) = k \<and> m < length tb \<and> hash_map tb k = Some (entry_val (tb ! c)) \<or>
     e_key (tb ! c) \<noteq> k \<and> hash_map tb k = None \<and> (m < length tb \<longrightarrow> fresh (tb ! c))"
  proof (cases "m < length tb")
    case True
    have "c \<noteq> hashfunc k (length tb) \<or> cnt = 0"
      using slot_start_iff [OF pos m(1), of k] m(2,3) True by auto
    then have nb: "e_key (tb ! c) = k \<or> fresh (tb ! c)" using stop by (auto simp: not_busy)
    have cl: "c < length tb" using m(2) pos by simp
    show ?thesis
    proof (cases "e_key (tb ! c) = k")
      case key: True
      then show ?thesis using probe_found [OF ok k cl] True by simp
    next
      case False
      then have "fresh (tb ! c)" using nb by simp
      moreover have "hash_map tb k = None"
        by (rule probe_absent [OF ok k m(4,1)]) (use calculation m(2) in simp)
      ultimately show ?thesis using False by blast
    qed
  next
    case False
    then have "m = length tb" using m(1) by simp
    then have "c = slot (length tb) k 0" using m(2) pos by (simp add: slot_0 slot_wrap)
    then have "e_key (tb ! c) \<noteq> k" using m(4) False pos unfolding passed_def by (auto dest: busyD)
    moreover have "hash_map tb k = None" by (rule probe_absent [OF ok k m(4,1)]) (use False in simp)
    ultimately show ?thesis using False by blast
  qed
  with m that show thesis by blast
qed

definition linearized :: "u8 list \<Rightarrow> nat \<Rightarrow> nat \<Rightarrow> req \<Rightarrow> par_state \<Rightarrow> par_state \<Rightarrow> bool" where
  "linearized f T t r s s' \<longleftrightarrow> (\<exists>h' x' p.
     s' = upd t h' x' p s \<and> same_req x' (s_op s t) \<and> pc_lined p \<and>
     pc_ret p = req_result (store_of f (hash_map (h_table (s_h s)))) r \<and>
     table_inv T h' (\<lambda>u. op_key (s_op s u)) ((s_pc s)(t := p)) \<and>
     length (h_table h') = length (h_table (s_h s)) \<and>
     store_of f (hash_map (h_table h')) = apply_req (store_of f (hash_map (h_table (s_h s)))) r \<and>
     unused (h_table (s_h s)) \<le> unused (h_table h') + of_bool (req_type r = op_PUT))"

text \<open>The situation at the end of the loop of thread \<open>t\<close>.\<close>

definition at_end :: "u8 list \<Rightarrow> nat \<Rightarrow> nat \<Rightarrow> nat \<Rightarrow> nat \<Rightarrow> req \<Rightarrow> par_state \<Rightarrow> bool" where
  "at_end f T t c cnt r s \<longleftrightarrow>
    table_inv T (s_h s) (\<lambda>u. op_key (s_op s u)) (s_pc s) \<and> t < T \<and> s_pc s t = P_probe c cnt \<and>
    (\<forall>u<T. u \<noteq> t \<longrightarrow> is_count (s_pc s u) \<longrightarrow> count_slot (s_pc s u) \<noteq> c) \<and>
    (\<forall>u<T. u \<noteq> t \<longrightarrow> \<not> neutral (s_pc s u) \<longrightarrow>
       op_key (s_op s u) \<noteq> op_key (s_op s t) \<and> op_key (s_op s u) \<noteq> 0) \<and>
    \<not> (busy (op_key (s_op s t)) (h_table (s_h s) ! c) \<and>
       (c \<noteq> hashfunc (op_key (s_op s t)) (h_size (s_h s)) \<or> cnt = 0)) \<and>
    holds f (s_op s t) r \<and> req_ok r \<and> (req_type r = op_PUT \<longrightarrow> 0 < unused (h_table (s_h s)))"

lemma at_endD:
  assumes "at_end f T t c cnt r s"
  shows "table_inv T (s_h s) (\<lambda>u. op_key (s_op s u)) (s_pc s)" "t < T" "\<not> is_count (s_pc s t)"
    and "op_key (s_op s t) = req_key r" "op_type (s_op s t) = req_type r" "req_key r \<noteq> 0"
    and "slot_ok (h_table (s_h s)) (req_key r) (P_probe c cnt)"
    and "\<not> (busy (req_key r) (h_table (s_h s) ! c) \<and>
      (c \<noteq> hashfunc (req_key r) (length (h_table (s_h s))) \<or> cnt = 0))"
    and "\<And>u. u < T \<Longrightarrow> u \<noteq> t \<Longrightarrow> is_count (s_pc s u) \<Longrightarrow> count_slot (s_pc s u) \<noteq> c"
    and "\<And>u. u < T \<Longrightarrow> u \<noteq> t \<Longrightarrow> \<not> neutral (s_pc s u) \<Longrightarrow>
      op_key (s_op s u) \<noteq> req_key r \<and> op_key (s_op s u) \<noteq> 0"
proof -
  show a: "table_inv T (s_h s) (\<lambda>u. op_key (s_op s u)) (s_pc s)" and t: "t < T"
    using assms by (simp_all add: at_end_def)
  show k: "op_key (s_op s t) = req_key r" "op_type (s_op s t) = req_type r" "req_key r \<noteq> 0"
    using assms by (cases r; simp add: at_end_def holds_def)+
  show "\<not> is_count (s_pc s t)" using assms by (simp add: at_end_def)
  show "slot_ok (h_table (s_h s)) (req_key r) (P_probe c cnt)"
    using table_invD(5) [OF a t] assms k(1) by (simp add: at_end_def)
  show "\<not> (busy (req_key r) (h_table (s_h s) ! c) \<and>
      (c \<noteq> hashfunc (req_key r) (length (h_table (s_h s))) \<or> cnt = 0))"
    using assms k(1) table_invD(2) [OF a] by (simp add: at_end_def)
  show "u < T \<Longrightarrow> u \<noteq> t \<Longrightarrow> is_count (s_pc s u) \<Longrightarrow> count_slot (s_pc s u) \<noteq> c"
    "u < T \<Longrightarrow> u \<noteq> t \<Longrightarrow> \<not> neutral (s_pc s u) \<Longrightarrow>
      op_key (s_op s u) \<noteq> req_key r \<and> op_key (s_op s u) \<noteq> 0" for u
    using assms k(1) by (simp_all add: at_end_def)
qed

lemma quiet_done:
  "at_end f T t c cnt r s \<Longrightarrow> table_inv T (s_h s) (\<lambda>u. op_key (s_op s u)) ((s_pc s)(t := P_done d))"
  by (rule table_inv_quiet [OF at_endD(1)]) (auto dest: at_endD(3))

lemma finish_get:
  assumes e: "at_end f T t c cnt r s" and r: "r = Get i k"
  shows "linearized f T t r s (finish_step t c cnt s)"
proof -
  let ?tb = "h_table (s_h s)" and ?x = "s_op s t"
  note a = at_endD [OF e]
  have k: "req_key r = k" using r by simp
  have m: "e_key (?tb ! c) = k \<and> hash_map ?tb k \<noteq> None \<or> e_key (?tb ! c) \<noteq> k \<and> hash_map ?tb k = None"
    by (rule probe_stop [OF table_invD(1) [OF a(1)] a(6) a(7) a(8), unfolded k]) blast
  have res: "req_result (store_of f (hash_map ?tb)) r = (if e_key (?tb ! c) = k then 0 else - 1)"
    using m r by (auto simp: dom_def store_of_def)
  show ?thesis
  proof (cases "e_key (?tb ! c) = k")
    case True
    let ?x' = "?x\<lparr>op_datalen := e_datalen (?tb ! c), op_data := e_data (?tb ! c)\<rparr>"
    have "finish_step t c cnt s = upd t (s_h s) ?x' (P_done 0) s"
      using True a(4,5) r by (simp add: finish_step_def goto_upd Let_def)
    moreover have "same_req ?x' ?x" using a(5) r by (simp add: same_req_def)
    ultimately show ?thesis
      using quiet_done [OF e, of 0] res r True unfolding linearized_def
      by (intro exI [of _ "s_h s"] exI [of _ ?x'] exI [of _ "P_done 0"]) simp
  next
    case False
    have "finish_step t c cnt s = upd t (s_h s) ?x (P_done (- 1)) s"
      using False a(4,5) r by (simp add: finish_step_def goto_upd Let_def)
    then show ?thesis
      using quiet_done [OF e, of "- 1"] res r False unfolding linearized_def
      by (intro exI [of _ "s_h s"] exI [of _ ?x] exI [of _ "P_done (- 1)"]) simp
  qed
qed

lemma finish_del:
  assumes e: "at_end f T t c cnt r s" and r: "r = Del i k"
  shows "linearized f T t r s (finish_step t c cnt s)"
proof -
  let ?tb = "h_table (s_h s)" and ?x = "s_op s t"
  note a = at_endD [OF e]
  note t = table_invD [OF a(1)]
  have rk: "req_key r = k" using r by simp
  have k: "k \<noteq> 0" using a(6) r by simp
  have cases: "e_key (?tb ! c) = k \<and> hash_map ?tb k \<noteq> None \<or> e_key (?tb ! c) \<noteq> k \<and> hash_map ?tb k = None"
    by (rule probe_stop [OF t(1) a(6) a(7) a(8), unfolded rk]) blast
  have cl: "c < length ?tb" using a(7) t(3) by auto
  have res: "req_result (store_of f (hash_map ?tb)) r = (if e_key (?tb ! c) = k then 0 else - 1)"
    using cases r by (auto simp: dom_def store_of_def)
  show ?thesis
  proof (cases "e_key (?tb ! c) = k")
    case True
    let ?h = "set_entry (s_h s) c tombstone" and ?p = "P_count c (- 1) 0"
    note ps = purge_step [OF t(1) cl True k refl]
    have "finish_step t c cnt s = upd t ?h ?x ?p s"
      using True a(4,5) r by (simp add: finish_step_def goto_upd Let_def)
    moreover have "table_inv T ?h (\<lambda>u. op_key (s_op s u)) ((s_pc s)(t := ?p))"
      by (rule table_inv_write [OF a(1,2,3)])
        (use ps a(9,10) cl in \<open>auto simp: tombstone_def fresh_def\<close>)
    ultimately show ?thesis
      using ps res r True unfolding linearized_def
      by (intro exI [of _ ?h] exI [of _ ?x] exI [of _ ?p]) (simp add: set_entry_def)
  next
    case False
    have "finish_step t c cnt s = upd t (s_h s) ?x (P_done (- 1)) s"
      using False a(4,5) r by (simp add: finish_step_def goto_upd Let_def)
    moreover have "(store_of f (hash_map ?tb))(k := None) = store_of f (hash_map ?tb)"
      using cases False by (auto simp: store_of_def)
    ultimately show ?thesis
      using quiet_done [OF e, of "- 1"] res r False unfolding linearized_def
      by (intro exI [of _ "s_h s"] exI [of _ ?x] exI [of _ "P_done (- 1)"]) simp
  qed
qed

lemma finish_put:
  assumes e: "at_end f T t c cnt r s" and r: "r = Put i k tx"
  shows "linearized f T t r s (finish_step t c cnt s)"
proof -
  let ?tb = "h_table (s_h s)" and ?x = "s_op s t"
  let ?e = "(put_entry (?tb ! c) ?x)\<lparr>e_key := op_key ?x\<rparr>"
  note a = at_endD [OF e]
  note t = table_invD [OF a(1)]
  have x: "op_key ?x = k" "op_type ?x = op_PUT" "k \<noteq> 0" and room: "0 < unused ?tb"
    and val: "text_of f (op_val ?x) = (ucast i, tx)"
    using e a(4-6) r by (auto simp: at_end_def holds_def text_of_def op_val_def)
  obtain m where m: "m \<le> length ?tb" "c = slot (length ?tb) k m" "cnt = min m 1" "passed ?tb k m" and
    cs: "e_key (?tb ! c) = k \<or> e_key (?tb ! c) \<noteq> k \<and> (m < length ?tb \<longrightarrow> fresh (?tb ! c))"
    by (rule probe_stop [OF t(1) a(6) a(7) a(8)]) (use r in auto)
  have ml: "m < length ?tb" using passed_unused [OF t(3) m(1,4)] room by linarith
  then have stop: "e_key (?tb ! c) = op_key ?x \<or> fresh (?tb ! c)" using cs x(1) by auto
  have nw: "c \<noteq> hashfunc k (length ?tb) \<or> cnt = 0"
    using slot_start_iff [OF t(3) m(1), of k] m(2,3) ml by auto
  have k0: "op_key ?x \<noteq> 0" using x by simp
  note ps = put_step [OF t(1) k0 ml m(4) [folded x(1)] m(2) [folded x(1)] stop refl]
  have cl: "c < length ?tb" using m(2) t(3) by simp
  let ?h = "set_entry (s_h s) c ?e"
  let ?p = "if e_key (?tb ! c) = k then P_done 0 else P_count c 1 0"
  have fr: "fresh (?tb ! c) \<longleftrightarrow> e_key (?tb ! c) \<noteq> k" using stop x by (auto simp: fresh_def)
  have "finish_step t c cnt s = upd t ?h ?x ?p s"
  proof (cases "e_key (?tb ! c) = k")
    case True
    then have "?e = put_entry (?tb ! c) ?x" using x(1) by (simp add: put_entry_key)
    then show ?thesis
      using True x nw t(2) by (auto simp: finish_step_def Let_def goto_upd)
  next
    case False
    then have "e_key (?tb ! c) = 0" using fr by (simp add: fresh_def)
    then show ?thesis
      using False x nw t(2) by (auto simp: finish_step_def Let_def goto_upd)
  qed
  moreover have "table_inv T ?h (\<lambda>u. op_key (s_op s u)) ((s_pc s)(t := ?p))"
  proof (rule table_inv_write [OF a(1,2,3)])
    show "\<not> fresh ?e" using k0 by (simp add: not_fresh_key)
    show "e_key ?e \<noteq> op_key (s_op s u)" if "u < T" "u \<noteq> t" "\<not> neutral (s_pc s u)" for u
      using a(10) [OF that] x r by auto
    show "slot_ok (?tb[c := ?e]) (op_key (s_op s t)) ?p" using cl x by simp
    show "live (?tb[c := ?e]) + of_bool (counting (- 1) ?p) = live ?tb + of_bool (counting 1 ?p)"
      using ps(3) fr by simp
  qed (use a(9) ps(1) in auto)
  moreover have "store_of f (hash_map (h_table ?h)) = apply_req (store_of f (hash_map ?tb)) r"
    using ps(2) val x(1) r by (simp add: set_entry_def)
  moreover have "unused ?tb \<le> unused (h_table ?h) + of_bool (req_type r = op_PUT)"
    using ps(4) r by (simp add: set_entry_def)
  ultimately show ?thesis
    unfolding linearized_def using r
    by (intro exI [of _ ?h] exI [of _ ?x] exI [of _ ?p]) (auto simp: set_entry_def)
qed

lemma finish_ok: "at_end f T t c cnt r s \<Longrightarrow> linearized f T t r s (finish_step t c cnt s)"
  by (cases r) (auto dest: finish_get finish_put finish_del)

text \<open>The counter update of a thread that holds its entry.\<close>

lemma table_inv_count:
  assumes inv: "table_inv T h K pcs" and u: "u < T" "pcs u = P_count c v r"
  shows "table_inv T (add_used h v) K (pcs(u := P_done r))" "h_table (add_used h v) = h_table h"
proof -
  note t = table_invD [OF inv]
  note b = table_inv_bounds [OF inv]
  have v: "v = 1 \<or> v = - 1" using t(5) [OF u(1)] u(2) by auto
  have ne: "(1 :: u64) \<noteq> - 1" "(- 1 :: u64) \<noteq> 1" by simp_all
  have n: "ncount T (pcs(u := P_done r)) w + of_bool (w = v) = ncount T pcs w" for w
    using ncount_upd [OF u(1), of pcs "P_done r" w] u(2) by auto
  have "\<exists>y. add_used h v = h\<lparr>h_used := y\<rparr> \<and>
    unat y + ncount T (pcs(u := P_done r)) 1 = live (h_table h) + ncount T (pcs(u := P_done r)) (- 1)"
    using v
  proof
    assume v: "v = 1"
    have "unat (h_used h) < length (h_table h)" using n [of 1] n [of "- 1"] b t(7) v by simp
    then have lt: "unat (h_used h) + 1 < 2 ^ 32" using t(4) by linarith
    then have "h_used h \<noteq> - 1" by (rule not_max_u32)
    moreover have "unat (h_used h + 1) = unat (h_used h) + 1" using lt by (simp add: unat_word_ariths)
    ultimately show ?thesis
      using add_used_inc [of h] v n [of 1] n [of "- 1"] t(7) ne by (intro exI [of _ "h_used h + 1"]) simp
  next
    assume v: "v = - 1"
    have "0 < unat (h_used h)" using n [of 1] n [of "- 1"] b(1) t(7) v ne by simp
    then have "h_used h \<noteq> 0" by auto
    moreover from this have "unat (h_used h - 1) = unat (h_used h) - 1" by (rule unat_minus_one)
    ultimately show ?thesis
      using add_used_dec [of h] v n [of 1] n [of "- 1"] t(7) ne \<open>0 < unat (h_used h)\<close>
      by (intro exI [of _ "h_used h - 1"]) simp
  qed
  then obtain y where y: "add_used h v = h\<lparr>h_used := y\<rparr>"
    "unat y + ncount T (pcs(u := P_done r)) 1 = live (h_table h) + ncount T (pcs(u := P_done r)) (- 1)"
    by blast
  show "h_table (add_used h v) = h_table h" using y(1) by simp
  have "no_clash T (pcs(u := P_done r))" by (rule no_clash_upd [OF t(6)]) simp
  then show "table_inv T (add_used h v) K (pcs(u := P_done r))"
    using t(1,2,5) y by (simp add: table_inv_def)
qed

end
