(* ===== verification/HashSerial.thy ===== *)
theory HashSerial
  imports HashConc "HOL-Library.Multiset"
begin

text \<open>
  Every schedule of the parallel hash program is equivalent to the sequential
  run (model and lemmas on its parts: theory HashConc).  The invariant has three
  parts: the order of the requests (\<open>order_inv\<close>), the shape of the table with the
  positions of all threads (\<open>table_inv\<close>), and the results (\<open>result_inv\<close>): the store is
  the history of the requests that have taken effect, and what has been logged
  is what the sequential run logs.
\<close>

subsection \<open>The invariant\<close>

definition logged :: "nat \<Rightarrow> par_state \<Rightarrow> u64 set" where
  "logged T s = fst ` set (concat (map (s_out s) [0..<T]))"

definition lin :: "nat \<Rightarrow> par_state \<Rightarrow> u64 set" where
  "lin T s = logged T s \<union> {op_id (s_op s t) |t. t < T \<and> pc_lined (s_pc s t)}"

definition par_pre :: "u8 list \<Rightarrow> req list \<Rightarrow> nat \<Rightarrow> nat \<Rightarrow> bool" where
  "par_pre f rs T n \<longleftrightarrow> f = concat (map encode rs) \<and> tail_room f \<and> list_all req_ok rs \<and>
    sorted_wrt (\<lambda>r r'. req_id r < req_id r') rs \<and> T \<le> 32 \<and> 0 < n \<and> n \<le> 100000001 \<and> puts rs \<le> n"

definition input_inv :: "u8 list \<Rightarrow> req list \<Rightarrow> input_manager \<Rightarrow> bool" where
  "input_inv f todo inp \<longleftrightarrow> at_input f todo inp \<or>
    todo = [] \<and> in_data inp = f \<and> length f < in_curr inp"

definition order_inv :: "u8 list \<Rightarrow> nat \<Rightarrow> req list \<Rightarrow> par_state \<Rightarrow> bool" where
  "order_inv f T taken s \<longleftrightarrow>
    dispatch taken T (\<lambda>t. pc_active (s_pc s t)) (\<lambda>t. pc_running (s_pc s t))
      (\<lambda>t. op_id (s_op s t)) (\<lambda>t. op_key (s_op s t)) (logged T s) \<and>
    (\<forall>t. s_bp s t \<longleftrightarrow> t < T \<and> pc_active (s_pc s t)) \<and>
    (\<forall>t<T. pc_active (s_pc s t) \<longrightarrow> (\<exists>r\<in>set taken. holds f (s_op s t) r)) \<and>
    (\<forall>t<T. s_pc s t = P_wait False \<longrightarrow> blocked s t)"

definition result_inv :: "u8 list \<Rightarrow> req list \<Rightarrow> nat \<Rightarrow> req list \<Rightarrow> par_state \<Rightarrow> bool" where
  "result_inv f rs T taken s \<longleftrightarrow>
    store_of f (hash_map (h_table (s_h s))) = hist taken (lin T s) \<and>
    length (h_table (s_h s)) \<le> unused (h_table (s_h s)) + puts_in taken (lin T s) \<and>
    (\<forall>t<T. pc_lined (s_pc s t) \<longrightarrow>
       (op_id (s_op s t), op_type (s_op s t), pc_ret (s_pc s t)) \<in> set (spec_log Map.empty rs)) \<and>
    (\<forall>t<T. set (s_out s t) \<subseteq> set (spec_log Map.empty rs)) \<and>
    distinct (map fst (concat (map (s_out s) [0..<T])))"

definition par_inv :: "u8 list \<Rightarrow> req list \<Rightarrow> nat \<Rightarrow> nat \<Rightarrow> req list \<Rightarrow> req list \<Rightarrow> par_state \<Rightarrow> bool" where
  "par_inv f rs T n taken todo s \<longleftrightarrow> s_err s = None \<and> rs = taken @ todo \<and> input_inv f todo (s_in s) \<and>
    (\<forall>t<T. s_pc s t = P_exit \<longrightarrow> todo = []) \<and>
    order_inv f T taken s \<and>
    table_inv T (s_h s) (\<lambda>t. op_key (s_op s t)) (s_pc s) \<and> length (h_table (s_h s)) = n \<and>
    result_inv f rs T taken s"

subsection \<open>The order part\<close>

lemma blocked_ex:
  "blocked s t \<longleftrightarrow> (\<exists>i<32. s_bp s i \<and> op_key (s_op s i) = op_key (s_op s t) \<and>
     op_id (s_op s i) < op_id (s_op s t))"
  unfolding blocked_def list_ex_iff set_upt by auto

lemma blocked_iff:
  assumes "\<forall>t. s_bp s t \<longleftrightarrow> t < T \<and> pc_active (s_pc s t)" "T \<le> 32"
  shows "blocked s t \<longleftrightarrow> (\<exists>u<T. pc_active (s_pc s u) \<and> op_key (s_op s u) = op_key (s_op s t) \<and>
    op_id (s_op s u) < op_id (s_op s t))"
  using assms unfolding blocked_ex by auto

lemma order_invD:
  assumes "order_inv f T taken s"
  shows "dispatch taken T (\<lambda>t. pc_active (s_pc s t)) (\<lambda>t. pc_running (s_pc s t))
      (\<lambda>t. op_id (s_op s t)) (\<lambda>t. op_key (s_op s t)) (logged T s)"
    and "\<forall>t. s_bp s t \<longleftrightarrow> t < T \<and> pc_active (s_pc s t)"
    and "\<And>t. t < T \<Longrightarrow> pc_active (s_pc s t) \<Longrightarrow> \<exists>r\<in>set taken. holds f (s_op s t) r"
    and "\<And>t. t < T \<Longrightarrow> s_pc s t = P_wait False \<Longrightarrow> blocked s t"
  using assms by (simp_all add: order_inv_def)

lemma running_active: "pc_running p \<Longrightarrow> pc_active p"
  by (cases p) auto

lemma lined_running: "pc_lined p \<Longrightarrow> pc_running p"
  by (cases p) auto

lemma order_upd:
  assumes o: "order_inv f T taken s" and t: "t < T" and x: "same_req x (s_op s t)"
    and p: "pc_running (s_pc s t)" "pc_running p"
  shows "order_inv f T taken (upd t h x p s)"
proof -
  note d = order_invD [OF o]
  have x': "op_id x = op_id (s_op s t)" "op_key x = op_key (s_op s t)" using x by (simp_all add: same_req_def)
  have act: "pc_active (((s_pc s)(t := p)) u) = pc_active (s_pc s u)"
    "pc_running (((s_pc s)(t := p)) u) = pc_running (s_pc s u)" for u
    using p running_active by auto
  have ops: "op_id (((s_op s)(t := x)) u) = op_id (s_op s u)" "op_key (((s_op s)(t := x)) u) = op_key (s_op s u)" for u
    using x' by auto
  have lg: "logged T (upd t h x p s) = logged T s" by (simp add: logged_def)
  have bl: "blocked (upd t h x p s) u = blocked s u" for u
    unfolding blocked_ex by (simp only: upd_simps ops)
  have hold: "\<exists>r\<in>set taken. holds f (((s_op s)(t := x)) u) r" if "u < T" "pc_active (s_pc s u)" for u
    using d(3) [OF that] same_req_holds [OF x] by auto
  have "((s_pc s)(t := p)) u = P_wait False \<longrightarrow> blocked s u" if "u < T" for u
    using d(4) [OF that] p(2) by auto
  with d(1,2) hold show ?thesis unfolding order_inv_def upd_simps act ops lg bl by blast
qed

lemma order_take:
  assumes o: "order_inv f T taken s" and t: "t < T" "s_pc s t = P_read" and T: "T \<le> 32"
    and ids: "\<forall>r'\<in>set taken. req_id r' < req_id r" and h: "holds f x r"
    and s1: "s1 = s\<lparr>s_in := i, s_op := (s_op s)(t := x), s_bp := (s_bp s)(t := True)\<rparr>"
    and s2: "s2 = goto t (if blocked s1 t then P_wait False else P_call) s1"
  shows "order_inv f T (taken @ [r]) s2"
proof -
  note d = order_invD [OF o]
  have x: "op_id x = req_id r" "op_key x = req_key r" using h by (simp_all add: holds_def)
  have bp: "s_bp s1 u \<longleftrightarrow> u < T \<and> (u = t \<or> pc_active (s_pc s u))" for u using d(2) t by (auto simp: s1)
  have bl: "blocked s1 t \<longleftrightarrow> (\<exists>u<T. pc_active (s_pc s u) \<and> op_key (s_op s u) = req_key r \<and>
      op_id (s_op s u) < req_id r)"
  proof -
    have "blocked s1 t \<longleftrightarrow> (\<exists>u<32. u \<noteq> t \<and> s_bp s u \<and> op_key (s_op s u) = req_key r \<and>
        op_id (s_op s u) < req_id r)"
      unfolding blocked_ex by (auto simp: s1 x)
    also have "\<dots> \<longleftrightarrow> (\<exists>u<T. pc_active (s_pc s u) \<and> op_key (s_op s u) = req_key r \<and>
        op_id (s_op s u) < req_id r)"
      using d(2) T t by force
    finally show ?thesis .
  qed
  have bp2: "\<forall>u. s_bp s2 u \<longleftrightarrow> u < T \<and> pc_active (s_pc s2 u)" using bp by (auto simp: s2 goto_def s1)
  have bl2: "blocked s1 t \<Longrightarrow> blocked s2 t" "blocked s u \<Longrightarrow> u \<noteq> t \<Longrightarrow> blocked s2 u" for u
    using d(2) t unfolding blocked_ex by (auto simp: s2 goto_def s1)
  have A: "(\<lambda>u. pc_active (s_pc s2 u)) = (\<lambda>u. pc_active (s_pc s u))(t := True)"
    "(\<lambda>u. pc_running (s_pc s2 u)) = (\<lambda>u. pc_running (s_pc s u))(t := \<not> blocked s1 t)"
    "(\<lambda>u. op_id (s_op s2 u)) = (\<lambda>u. op_id (s_op s u))(t := req_id r)"
    "(\<lambda>u. op_key (s_op s2 u)) = (\<lambda>u. op_key (s_op s u))(t := req_key r)"
    using x by (auto simp: s2 goto_def s1)
  have lg: "logged T s2 = logged T s" by (simp add: logged_def s2 goto_def s1)
  have "dispatch (taken @ [r]) T (\<lambda>u. pc_active (s_pc s2 u)) (\<lambda>u. pc_running (s_pc s2 u))
      (\<lambda>u. op_id (s_op s2 u)) (\<lambda>u. op_key (s_op s2 u)) (logged T s2)"
    unfolding A lg by (rule dispatch_take [OF d(1)]) (use t ids bl in auto)
  moreover have "\<exists>r'\<in>set (taken @ [r]). holds f (s_op s2 u) r'" if "u < T" "pc_active (s_pc s2 u)" for u
    using d(3) [OF that(1)] that(2) h by (cases "u = t") (auto simp: s2 goto_def s1)
  moreover have "blocked s2 u" if "u < T" "s_pc s2 u = P_wait False" for u
  proof (cases "u = t")
    case True
    with that(2) have "blocked s1 t" by (auto simp: s2 goto_def split: if_splits)
    with bl2(1) True show ?thesis by simp
  next
    case False
    with that d(4) [OF that(1)] bl2(2) show ?thesis by (simp add: s2 goto_def s1)
  qed
  ultimately show ?thesis using bp2 unfolding order_inv_def by blast
qed

lemma blocked_goto [simp]: "blocked (goto t p s) u = blocked s u" "blocked (s\<lparr>s_in := i\<rparr>) u = blocked s u"
  unfolding blocked_ex by (simp_all add: goto_def)

lemma logged_goto [simp]: "logged T (goto t p s) = logged T s" "logged T (s\<lparr>s_in := i\<rparr>) = logged T s"
  by (simp_all add: logged_def goto_def)

text \<open>A change of the program counter that keeps the registration.\<close>

lemma order_goto:
  assumes o: "order_inv f T taken s" and t: "t < T" and p: "pc_active p = pc_active (s_pc s t)"
    and w: "p = P_wait False \<Longrightarrow> blocked s t"
    and r: "pc_running p \<Longrightarrow> pc_running (s_pc s t) \<or> (pc_active p \<and> \<not> blocked s t)"
      "pc_running (s_pc s t) \<Longrightarrow> pc_running p" and T: "T \<le> 32"
  shows "order_inv f T taken (goto t p s)"
proof -
  note d = order_invD [OF o]
  have A: "(\<lambda>u. pc_active (s_pc (goto t p s) u)) = (\<lambda>u. pc_active (s_pc s u))" using p by (auto simp: goto_def)
  have "dispatch taken T (\<lambda>t. pc_active (s_pc s t)) (\<lambda>u. pc_running (s_pc (goto t p s) u))
      (\<lambda>t. op_id (s_op s t)) (\<lambda>t. op_key (s_op s t)) (logged T s)"
  proof (cases "pc_running p = pc_running (s_pc s t)")
    case True
    then have "(\<lambda>u. pc_running (s_pc (goto t p s) u)) = (\<lambda>u. pc_running (s_pc s u))" by (auto simp: goto_def)
    with d(1) show ?thesis by simp
  next
    case False
    then have g: "pc_running p" "pc_active (s_pc s t)" "\<not> blocked s t" using r p by auto
    then have "(\<lambda>u. pc_running (s_pc (goto t p s) u)) = (\<lambda>u. pc_running (s_pc s u))(t := True)"
      by (auto simp: goto_def)
    moreover have "dispatch taken T (\<lambda>t. pc_active (s_pc s t)) ((\<lambda>u. pc_running (s_pc s u))(t := True))
      (\<lambda>t. op_id (s_op s t)) (\<lambda>t. op_key (s_op s t)) (logged T s)"
      by (rule dispatch_grant [OF d(1) t g(2)]) (use g(3) blocked_iff [OF d(2) T, of t] in blast)
    ultimately show ?thesis by simp
  qed
  moreover have "blocked s u" if "u < T" "s_pc (goto t p s) u = P_wait False" for u
    using that d(4) w by (cases "u = t") (auto simp: goto_def)
  ultimately show ?thesis
    using d(2,3) unfolding order_inv_def A logged_goto blocked_goto
    by (simp add: goto_def p)
qed

lemma concat_out:
  assumes "t < T"
  shows "set (concat (map ((out(t := out t @ [e])) :: nat \<Rightarrow> 'a list) [0..<T])) =
      insert e (set (concat (map out [0..<T])))"
    and "length (concat (map (out(t := out t @ [e])) [0..<T])) = Suc (length (concat (map out [0..<T])))"
    and "distinct (map g (concat (map (out(t := out t @ [e])) [0..<T]))) \<longleftrightarrow>
      g e \<notin> g ` set (concat (map out [0..<T])) \<and> distinct (map g (concat (map out [0..<T])))"
proof -
  have sp: "[0..<T] = [0..<t] @ t # [Suc t..<T]"
    using assms by (metis less_imp_add_positive upt_add_eq_append upt_conv_Cons zero_le add.commute less_imp_le_nat le0)
  have m: "map (out(t := out t @ [e])) [0..<t] = map out [0..<t]"
    "map (out(t := out t @ [e])) [Suc t..<T] = map out [Suc t..<T]" by auto
  show "set (concat (map (out(t := out t @ [e])) [0..<T])) = insert e (set (concat (map out [0..<T])))"
    "length (concat (map (out(t := out t @ [e])) [0..<T])) = Suc (length (concat (map out [0..<T])))"
    "distinct (map g (concat (map (out(t := out t @ [e])) [0..<T]))) \<longleftrightarrow>
      g e \<notin> g ` set (concat (map out [0..<T])) \<and> distinct (map g (concat (map out [0..<T])))"
    unfolding sp map_append list.map m by (auto simp: image_iff)
qed

lemma woken [simp]:
  "pc_active (case p of P_wait b \<Rightarrow> P_wait True | q \<Rightarrow> q) = pc_active p"
  "pc_running (case p of P_wait b \<Rightarrow> P_wait True | q \<Rightarrow> q) = pc_running p"
  "pc_lined (case p of P_wait b \<Rightarrow> P_wait True | q \<Rightarrow> q) = pc_lined p"
  "pc_ret (case p of P_wait b \<Rightarrow> P_wait True | q \<Rightarrow> q) = pc_ret p"
  by (cases p; simp)+

lemma order_done:
  assumes o: "order_inv f T taken s" and t: "t < T" "s_pc s t = P_done r"
  shows "order_inv f T taken (done_step t r s)"
proof -
  note d = order_invD [OF o]
  let ?s = "done_step t r s"
  have A: "(\<lambda>u. pc_active (s_pc ?s u)) = (\<lambda>u. pc_active (s_pc s u))(t := False)"
    "(\<lambda>u. pc_running (s_pc ?s u)) = (\<lambda>u. pc_running (s_pc s u))(t := False)"
    by (rule ext; simp add: done_step_def)+
  have out: "s_out ?s = (s_out s)(t := s_out s t @ [(op_id (s_op s t), op_type (s_op s t), r)])"
    by (simp add: done_step_def)
  have L: "logged T ?s = insert (op_id (s_op s t)) (logged T s)"
    by (simp only: logged_def out concat_out(1) [OF t(1)] image_insert fst_conv)
  have ops: "s_op ?s = s_op s" by (simp add: done_step_def)
  have "dispatch taken T (\<lambda>u. pc_active (s_pc ?s u)) (\<lambda>u. pc_running (s_pc ?s u))
      (\<lambda>u. op_id (s_op ?s u)) (\<lambda>u. op_key (s_op ?s u)) (logged T ?s)"
    unfolding A L ops by (rule dispatch_finish [OF d(1) t(1)]) (simp add: t(2))
  moreover have "s_pc ?s u \<noteq> P_wait False" for u by (auto simp: done_step_def split: pc.splits)
  moreover have "\<forall>u. s_bp ?s u \<longleftrightarrow> u < T \<and> pc_active (s_pc ?s u)"
    using d(2) fun_cong [OF A(1)] by (simp add: done_step_def)
  moreover have "\<exists>r\<in>set taken. holds f (s_op ?s u) r" if "u < T" "pc_active (s_pc ?s u)" for u
    using d(3) [OF that(1)] fun_cong [OF A(1), of u] that(2) by (auto simp: ops split: if_splits)
  ultimately show ?thesis unfolding order_inv_def by blast
qed

subsection \<open>The result part\<close>

lemma lin_upd:
  assumes "t < T" "same_req x (s_op s t)"
  shows "pc_lined p = pc_lined (s_pc s t) \<Longrightarrow> lin T (upd t h x p s) = lin T s"
    and "pc_lined p \<Longrightarrow> \<not> pc_lined (s_pc s t) \<Longrightarrow>
      lin T (upd t h x p s) = insert (op_id (s_op s t)) (lin T s)"
proof -
  have x: "op_id x = op_id (s_op s t)" using assms(2) by (simp add: same_req_def)
  have lg: "logged T (upd t h x p s) = logged T s" by (simp add: logged_def)
  let ?R = "\<lambda>P. {op_id (s_op s u) |u. u < T \<and> P u}"
  have "{op_id (s_op (upd t h x p s) u) |u. u < T \<and> pc_lined (s_pc (upd t h x p s) u)} =
      ?R (\<lambda>u. if u = t then pc_lined p else pc_lined (s_pc s u))"
    using x by auto
  then have eq: "lin T (upd t h x p s) =
      logged T s \<union> ?R (\<lambda>u. if u = t then pc_lined p else pc_lined (s_pc s u))"
    by (simp add: lin_def lg)
  show "lin T (upd t h x p s) = lin T s" if "pc_lined p = pc_lined (s_pc s t)"
  proof -
    have "(if u = t then pc_lined p else pc_lined (s_pc s u)) = pc_lined (s_pc s u)" for u
      using that by auto
    then show ?thesis unfolding eq by (simp add: lin_def)
  qed
  show "lin T (upd t h x p s) = insert (op_id (s_op s t)) (lin T s)"
    if "pc_lined p" "\<not> pc_lined (s_pc s t)"
    unfolding eq using assms(1) that by (auto simp: lin_def)
qed

lemma result_invD:
  assumes "result_inv f rs T taken s"
  shows "store_of f (hash_map (h_table (s_h s))) = hist taken (lin T s)"
    and "length (h_table (s_h s)) \<le> unused (h_table (s_h s)) + puts_in taken (lin T s)"
    and "\<And>t. t < T \<Longrightarrow> pc_lined (s_pc s t) \<Longrightarrow>
      (op_id (s_op s t), op_type (s_op s t), pc_ret (s_pc s t)) \<in> set (spec_log Map.empty rs)"
    and "\<And>t. t < T \<Longrightarrow> set (s_out s t) \<subseteq> set (spec_log Map.empty rs)"
    and "distinct (map fst (concat (map (s_out s) [0..<T])))"
  using assms by (auto simp: result_inv_def)

lemma result_quiet:
  assumes r: "result_inv f rs T taken s" and t: "t < T" "same_req x (s_op s t)"
    and h: "h_table h = h_table (s_h s)"
    and p: "pc_lined p = pc_lined (s_pc s t)" "pc_lined p \<Longrightarrow> pc_ret p = pc_ret (s_pc s t)"
  shows "result_inv f rs T taken (upd t h x p s)"
proof -
  note d = result_invD [OF r]
  have x: "op_id x = op_id (s_op s t)" "op_type x = op_type (s_op s t)" using t(2) by (simp_all add: same_req_def)
  have l: "lin T (upd t h x p s) = lin T s" by (rule lin_upd(1) [OF t p(1)])
  have "(op_id (((s_op s)(t := x)) u), op_type (((s_op s)(t := x)) u), pc_ret (((s_pc s)(t := p)) u))
      \<in> set (spec_log Map.empty rs)" if "u < T" "pc_lined (((s_pc s)(t := p)) u)" for u
    using d(3) [OF that(1)] that(2) x p by (cases "u = t") auto
  with d show ?thesis unfolding result_inv_def l by (simp add: h)
qed

text \<open>The step in which a request takes effect.\<close>

lemma result_linearized:
  assumes r: "result_inv f rs T taken s" and o: "order_inv f T taken s"
    and rs: "rs = taken @ todo" "sorted_wrt (\<lambda>r r'. req_id r < req_id r') rs"
    and t: "t < T" "pc_running (s_pc s t)" "\<not> pc_lined (s_pc s t)"
    and q: "q \<in> set taken" "holds f (s_op s t) q"
    and l: "linearized f T t q s s'"
  shows "result_inv f rs T taken s'"
proof -
  note d = order_invD [OF o]
  note e = result_invD [OF r]
  have id: "op_id (s_op s t) = req_id q" "op_key (s_op s t) = req_key q" "op_type (s_op s t) = req_type q"
    using q(2) by (simp_all add: holds_def)
  from q(1) obtain xs ys where tk: "taken = xs @ q # ys" by (auto simp: in_set_conv_decomp)
  have sx: "sorted_wrt (\<lambda>r r'. req_id r < req_id r') (xs @ q # ys)"
    using rs by (simp add: tk sorted_wrt_append)
  have early: "req_id r' \<in> lin T s" if "r' \<in> set xs" "req_key r' = req_key q" for r'
  proof -
    have "req_id r' < req_id q" using sx that(1) by (auto simp: sorted_wrt_append)
    then show ?thesis
      using dispatch_earlier [OF d(1) t(1,2), of r'] that id by (auto simp: tk lin_def)
  qed
  have late: "req_id r' \<notin> lin T s" if r': "r' \<in> set taken" "req_key r' = req_key q" "req_id q < req_id r'" for r'
    using dispatch_later [OF d(1) t(1,2), of r'] r' id by (auto simp: lin_def dest: lined_running)
  have late': "req_id r' \<notin> lin T s" if "r' \<in> set ys" "req_key r' = req_key q" for r'
    using late [of r'] that sx by (auto simp: tk sorted_wrt_append)
  have self: "req_id q \<notin> lin T s"
  proof -
    have a: "pc_active (s_pc s t)" using t(2) by (rule running_active)
    have "req_id q \<notin> logged T s" using dispatchD(3) [OF d(1) t(1) a] id by simp
    moreover have "u = t" if "u < T" "pc_lined (s_pc s u)" "op_id (s_op s u) = req_id q" for u
      using dispatchD(4) [OF d(1) that(1) t(1) _ a] that id by (cases "s_pc s u") auto
    ultimately show ?thesis using t(3) by (auto simp: lin_def)
  qed
  from l obtain h' x' p where s': "s' = upd t h' x' p s" "same_req x' (s_op s t)" "pc_lined p"
    and ret: "pc_ret p = req_result (store_of f (hash_map (h_table (s_h s)))) q"
    and st: "length (h_table h') = length (h_table (s_h s))"
      "store_of f (hash_map (h_table h')) = apply_req (store_of f (hash_map (h_table (s_h s)))) q"
      "unused (h_table (s_h s)) \<le> unused (h_table h') + of_bool (req_type q = op_PUT)"
    unfolding linearized_def by blast
  have ln: "lin T s' = insert (req_id q) (lin T s)"
    using lin_upd(2) [OF t(1) s'(2,3) t(3)] s'(1) id by simp
  note pt = hist_point [OF sx early late' self]
  have "hist taken (lin T s) (req_key q) = foldl apply_req Map.empty xs (req_key q)"
    unfolding tk by (rule pt(1))
  then have "pc_ret p = req_result (foldl apply_req Map.empty xs) q"
    unfolding ret e(1) by (rule req_result_key)
  then have "(req_id q, req_type q, pc_ret p) \<in> set (spec_log Map.empty rs)"
    using spec_log_mem [of q Map.empty xs "ys @ todo"] by (simp add: rs tk)
  moreover have "op_id x' = req_id q" "op_type x' = req_type q" using s'(2) id by (simp_all add: same_req_def)
  ultimately have out: "(op_id (s_op s' u), op_type (s_op s' u), pc_ret (s_pc s' u)) \<in> set (spec_log Map.empty rs)"
    if "u < T" "pc_lined (s_pc s' u)" for u
    using e(3) [OF that(1)] that(2) by (cases "u = t") (auto simp: s'(1))
  have "hist taken (lin T s') = apply_req (hist taken (lin T s)) q"
    unfolding ln tk by (rule pt(2))
  moreover have "puts_in taken (lin T s') = puts_in taken (lin T s) + of_bool (req_type q = op_PUT)"
    unfolding ln tk by (rule puts_in_insert [OF sx self])
  ultimately show ?thesis
    using st e out unfolding result_inv_def by (simp add: s'(1))
qed

lemma result_same:
  assumes r: "result_inv f rs T taken s" and h: "h_table (s_h s') = h_table (s_h s)" "s_out s' = s_out s"
    and same: "\<And>u. u < T \<Longrightarrow> pc_lined (s_pc s' u) = pc_lined (s_pc s u)"
      "\<And>u. u < T \<Longrightarrow> pc_lined (s_pc s u) \<Longrightarrow> s_op s' u = s_op s u \<and> pc_ret (s_pc s' u) = pc_ret (s_pc s u)"
    and tk: "taken' = taken \<or> (\<exists>q. taken' = taken @ [q] \<and> req_id q \<notin> lin T s)"
  shows "result_inv f rs T taken' s'"
proof -
  note d = result_invD [OF r]
  have "{op_id (s_op s' t) |t. t < T \<and> pc_lined (s_pc s' t)} = {op_id (s_op s t) |t. t < T \<and> pc_lined (s_pc s t)}"
    using same by (metis (no_types, opaque_lifting))
  then have l: "lin T s' = lin T s" using h(2) by (simp add: lin_def logged_def)
  have tk': "hist taken' (lin T s) = hist taken (lin T s)" "puts_in taken' (lin T s) = puts_in taken (lin T s)"
    using tk by (auto simp: hist_take puts_in_def)
  show ?thesis
    unfolding result_inv_def l h tk' using d same by simp
qed

lemma lin_done: "t < T \<Longrightarrow> s_pc s t = P_done r \<Longrightarrow> lin T (done_step t r s) = lin T s"
proof -
  assume t: "t < T" "s_pc s t = P_done r"
  have out: "s_out (done_step t r s) = (s_out s)(t := s_out s t @ [(op_id (s_op s t), op_type (s_op s t), r)])"
    by (simp add: done_step_def)
  have L: "logged T (done_step t r s) = insert (op_id (s_op s t)) (logged T s)"
    by (simp only: logged_def out concat_out(1) [OF t(1)] image_insert fst_conv)
  have "{op_id (s_op (done_step t r s) u) |u. u < T \<and> pc_lined (s_pc (done_step t r s) u)} =
      {op_id (s_op s u) |u. u < T \<and> u \<noteq> t \<and> pc_lined (s_pc s u)}"
    by (auto simp: done_step_def)
  moreover have lt: "pc_lined (s_pc s t)" using t(2) by simp
  moreover have "{op_id (s_op s u) |u. u < T \<and> pc_lined (s_pc s u)} =
      insert (op_id (s_op s t)) {op_id (s_op s u) |u. u < T \<and> u \<noteq> t \<and> pc_lined (s_pc s u)}"
    using t(1) lt by blast
  ultimately show ?thesis unfolding lin_def L by auto
qed

lemma result_done:
  assumes r: "result_inv f rs T taken s" and o: "order_inv f T taken s" and t: "t < T" "s_pc s t = P_done d"
  shows "result_inv f rs T taken (done_step t d s)"
proof -
  note e = result_invD [OF r]
  let ?e = "(op_id (s_op s t), op_type (s_op s t), d)"
  have new: "op_id (s_op s t) \<notin> logged T s"
    using dispatchD(3) [OF order_invD(1) [OF o] t(1)] t(2) by simp
  have mem: "?e \<in> set (spec_log Map.empty rs)" using e(3) [OF t(1)] t(2) by simp
  have out: "s_out (done_step t d s) = (s_out s)(t := s_out s t @ [?e])" by (simp add: done_step_def)
  have dist: "distinct (map fst (concat (map (s_out (done_step t d s)) [0..<T])))"
    unfolding out concat_out(3) [OF t(1)] using e(5) new by (simp only: logged_def fst_conv simp_thms)
  have "set (s_out (done_step t d s) u) \<subseteq> set (spec_log Map.empty rs)" if "u < T" for u
    using e(4) [OF that] mem by (cases "u = t") (auto simp: out)
  moreover have "(op_id (s_op (done_step t d s) u), op_type (s_op (done_step t d s) u),
      pc_ret (s_pc (done_step t d s) u)) \<in> set (spec_log Map.empty rs)"
    if "u < T" "pc_lined (s_pc (done_step t d s) u)" for u
    using e(3) [OF that(1)] that(2) by (cases "u = t") (simp_all add: done_step_def)
  moreover have "s_h (done_step t d s) = s_h s" by (simp add: done_step_def)
  ultimately show ?thesis
    using e(1,2) dist unfolding result_inv_def lin_done [OF t] by simp
qed

subsection \<open>Every step keeps the invariant\<close>

lemma par_preD:
  assumes "par_pre f rs T n"
  shows "tail_room f" "list_all req_ok rs" "sorted_wrt (\<lambda>r r'. req_id r < req_id r') rs" "T \<le> 32"
    "0 < n" "n < 2 ^ 32" "puts rs \<le> n"
  using assms unfolding par_pre_def by auto

lemma par_invD:
  assumes "par_inv f rs T n taken todo s"
  shows "s_err s = None" "rs = taken @ todo" "input_inv f todo (s_in s)"
    "\<And>t. t < T \<Longrightarrow> s_pc s t = P_exit \<Longrightarrow> todo = []" "order_inv f T taken s"
    "table_inv T (s_h s) (\<lambda>t. op_key (s_op s t)) (s_pc s)" "length (h_table (s_h s)) = n"
    "result_inv f rs T taken s"
  using assms by (auto simp: par_inv_def)

lemma concat_nil: "concat (map (\<lambda>t. []) xs) = []"
  by (induction xs) auto

lemma order_in: "order_inv f T taken (s\<lparr>s_in := i\<rparr>) = order_inv f T taken s"
  by (simp add: order_inv_def)

lemma par_init_inv:
  assumes p: "par_pre f rs T n"
  shows "par_inv f rs T n [] rs (par_init a n f x)"
proof -
  note h = init_hashtable_ok [OF par_preD(5,6) [OF p], of a]
  have "at_input f rs \<lparr>in_data = f, in_curr = 0\<rparr>" using p at_input_start by (simp add: par_pre_def)
  moreover have l: "logged T (par_init a n f x) = {}" by (simp add: logged_def par_init_def)
  moreover have "lin T (par_init a n f x) = {}" by (simp add: lin_def l) (simp add: par_init_def)
  moreover have "ncount T (\<lambda>t. P_read) v = 0" for v by (simp add: ncount_def)
  ultimately show ?thesis
    using h hash_okD [OF h(1)]
    by (simp add: par_inv_def input_inv_def order_inv_def dispatch_def table_inv_def result_inv_def
        no_clash_def hist_none puts_in_def par_init_def init_hashtable_def concat_nil)
qed

lemma taken_fresh:
  assumes "order_inv f T taken s" "\<forall>r'\<in>set taken. req_id r' < req_id r"
  shows "req_id r \<notin> lin T s"
proof -
  note d = order_invD [OF assms(1)]
  have "req_id r \<notin> logged T s" using dispatchD(6) [OF d(1)] assms(2) by fastforce
  moreover have "op_id (s_op s u) \<noteq> req_id r" if "u < T" "pc_lined (s_pc s u)" for u
    using dispatchD(2) [OF d(1) that(1)] running_active [OF lined_running [OF that(2)]] assms(2) by fastforce
  ultimately show ?thesis unfolding lin_def by fastforce
qed

lemma read_inv:
  assumes p: "par_pre f rs T n" and i: "par_inv f rs T n taken todo s" and t: "t < T" "s_pc s t = P_read"
  shows "\<exists>taken' todo'. par_inv f rs T n taken' todo' (read_step t s)"
proof (cases "\<exists>inp'. p_read_op (s_in s) (s_op s t) = Eof inp' \<and> todo = [] \<and> input_inv f [] inp'")
  case True
  then obtain inp' where e: "p_read_op (s_in s) (s_op s t) = Eof inp'" "todo = []" "input_inv f [] inp'" by blast
  note d = par_invD [OF i]
  let ?s = "goto t P_exit (s\<lparr>s_in := inp'\<rparr>)"
  have "order_inv f T taken (goto t P_exit s)"
    by (rule order_goto [OF d(5) t(1)]) (use t(2) par_preD(4) [OF p] in auto)
  moreover have "?s = (goto t P_exit s)\<lparr>s_in := inp'\<rparr>" by (simp add: goto_def)
  ultimately have o: "order_inv f T taken ?s" by (simp add: order_in)
  have r: "result_inv f rs T taken ?s"
    by (rule result_same [OF d(8)]) (use t(2) in \<open>auto simp: goto_def\<close>)
  have "table_inv T (s_h ?s) (\<lambda>t. op_key (s_op ?s t)) (s_pc ?s)"
    by (rule table_inv_quiet [where pcs = "s_pc s", where K = "\<lambda>t. op_key (s_op s t)"])
      (use d(6) t(2) in \<open>auto simp: goto_def\<close>)
  then have "par_inv f rs T n taken [] ?s"
    using d e o r unfolding par_inv_def by (simp add: goto_def)
  moreover have "read_step t s = ?s" using e(1) by (simp add: read_step_def)
  ultimately show ?thesis by metis
next
  case False
  note d = par_invD [OF i]
  note pp = par_preD [OF p]
  have "todo \<noteq> [] \<and> at_input f todo (s_in s)"
  proof (rule ccontr)
    assume "\<not> ?thesis"
    with d(3) have "todo = []" "at_input f [] (s_in s) \<or> in_data (s_in s) = f \<and> length f < in_curr (s_in s)"
      by (auto simp: input_inv_def)
    then have "\<exists>inp'. p_read_op (s_in s) (s_op s t) = Eof inp' \<and> input_inv f [] inp'"
      using at_input_end [OF pp(1)] by (auto simp: input_inv_def p_read_op_def)
    with False \<open>todo = []\<close> show False by blast
  qed
  then obtain q todo' where td: "todo = q # todo'" and at: "at_input f (q # todo') (s_in s)"
    by (cases todo) auto
  have q: "req_ok q" using pp(2) d(2) td by simp
  have ids: "\<forall>r'\<in>set taken. req_id r' < req_id q" using pp(3) d(2) td by (simp add: sorted_wrt_append)
  from at_input_next [OF pp(1) at q] obtain inp' x where
    e: "p_read_op (s_in s) (s_op s t) = Next inp' x" "at_input f todo' inp'" "holds f x q" by metis
  let ?s1 = "s\<lparr>s_in := inp', s_op := (s_op s)(t := x), s_bp := (s_bp s)(t := True)\<rparr>"
  let ?s = "goto t (if blocked ?s1 t then P_wait False else P_call) ?s1"
  have o: "order_inv f T (taken @ [q]) ?s" by (rule order_take [OF d(5) t pp(4) ids e(3) refl refl])
  have r: "result_inv f rs T (taken @ [q]) ?s"
    by (rule result_same [OF d(8)]) (use t(2) taken_fresh [OF d(5) ids] in \<open>auto simp: goto_def\<close>)
  have "table_inv T (s_h ?s) (\<lambda>t. op_key (s_op ?s t)) (s_pc ?s)"
    by (rule table_inv_quiet [where pcs = "s_pc s", where K = "\<lambda>t. op_key (s_op s t)"])
      (use d(6) t(2) in \<open>auto simp: goto_def\<close>)
  moreover have "s_pc s u \<noteq> P_exit" if "u < T" for u using d(4) [OF that] td by auto
  ultimately have "par_inv f rs T n (taken @ [q]) todo' ?s"
    using d e(2) o r td unfolding par_inv_def by (auto simp: goto_def input_inv_def)
  moreover have "read_step t s = ?s" using e(1) by (simp add: read_step_def Let_def)
  ultimately show ?thesis by metis
qed

lemma upd_inv:
  assumes i: "par_inv f rs T n taken todo s" and t: "t < T" "same_req x (s_op s t)"
    and p: "pc_running (s_pc s t)" "pc_running p"
    and h: "table_inv T h (\<lambda>u. op_key (s_op s u)) ((s_pc s)(t := p))" "length (h_table h) = n"
    and r: "result_inv f rs T taken (upd t h x p s)"
  shows "par_inv f rs T n taken todo (upd t h x p s)"
proof -
  note d = par_invD [OF i]
  have K: "(\<lambda>u. op_key (((s_op s)(t := x)) u)) = (\<lambda>u. op_key (s_op s u))"
    using t(2) by (auto simp: same_req_def)
  have "p \<noteq> P_exit" using p(2) by auto
  then show ?thesis
    using d(1-4) h r order_upd [OF d(5) t p, of h] unfolding par_inv_def upd_simps K by auto
qed

lemma wait_inv:
  assumes p: "par_pre f rs T n" and i: "par_inv f rs T n taken todo s" and t: "t < T" "s_pc s t = P_wait b"
    and q: "q = P_wait True \<or> (if blocked s t then q = P_wait False else q = P_call)"
  shows "par_inv f rs T n taken todo (goto t q s)"
proof -
  note d = par_invD [OF i]
  have o: "order_inv f T taken (goto t q s)"
    by (rule order_goto [OF d(5) t(1)]) (use t(2) q par_preD(4) [OF p] in \<open>auto split: if_splits\<close>)
  have r: "result_inv f rs T taken (goto t q s)"
    by (rule result_same [OF d(8)]) (use t(2) q in \<open>auto simp: goto_def split: if_splits\<close>)
  have "table_inv T (s_h (goto t q s)) (\<lambda>u. op_key (s_op (goto t q s) u)) (s_pc (goto t q s))"
    by (rule table_inv_quiet [where pcs = "s_pc s", where K = "\<lambda>u. op_key (s_op s u)"])
      (use d(6) t(2) q in \<open>auto simp: goto_def split: if_splits\<close>)
  moreover have "q \<noteq> P_exit" using q by (auto split: if_splits)
  ultimately show ?thesis using d o r unfolding par_inv_def by (auto simp: goto_def)
qed

lemma running_req:
  assumes p: "par_pre f rs T n" and i: "par_inv f rs T n taken todo s" and t: "t < T" "pc_running (s_pc s t)"
  obtains q where "q \<in> set taken" "holds f (s_op s t) q" "req_ok q"
    "\<not> pc_lined (s_pc s t) \<Longrightarrow> req_type q = op_PUT \<Longrightarrow> 0 < unused (h_table (s_h s))"
proof -
  note d = par_invD [OF i]
  note pp = par_preD [OF p]
  note o = order_invD [OF d(5)]
  note e = result_invD [OF d(8)]
  have a: "pc_active (s_pc s t)" using t(2) by (rule running_active)
  obtain q where q: "q \<in> set taken" "holds f (s_op s t) q" using o(3) [OF t(1) a] by blast
  have ok: "req_ok q" using q(1) d(2) pp(2) by (auto simp: list_all_iff)
  have "0 < unused (h_table (s_h s))" if nl: "\<not> pc_lined (s_pc s t)" and put: "req_type q = op_PUT"
  proof -
    from q(1) obtain xs ys where tk: "taken = xs @ q # ys" by (auto simp: in_set_conv_decomp)
    have "req_id q \<notin> lin T s"
    proof -
      have id: "op_id (s_op s t) = req_id q" using q(2) by (simp add: holds_def)
      have "req_id q \<notin> logged T s" using dispatchD(3) [OF o(1) t(1) a] id by simp
      moreover have "u = t" if "u < T" "pc_lined (s_pc s u)" "op_id (s_op s u) = req_id q" for u
        using dispatchD(4) [OF o(1) that(1) t(1) _ a] that id running_active [OF lined_running] by auto
      ultimately show ?thesis using nl by (auto simp: lin_def)
    qed
    then have "puts_in taken (lin T s) < puts taken"
      using put puts_in_le [of xs "lin T s"] puts_in_le [of ys "lin T s"] by (simp add: tk puts_in_def)
    also have "puts taken \<le> n" using pp(7) d(2) by simp
    finally show ?thesis using e(2) d(7) by linarith
  qed
  with q ok that show thesis by blast
qed

lemma call_inv:
  assumes p: "par_pre f rs T n" and i: "par_inv f rs T n taken todo s" and t: "t < T" "s_pc s t = P_call"
  shows "par_inv f rs T n taken todo (call_step t s)"
proof -
  note d = par_invD [OF i]
  note ti = table_invD [OF d(6)]
  let ?x = "s_op s t" and ?h = "s_h s"
  let ?p = "P_probe (hashfunc (op_key ?x) (h_size ?h)) 0"
  obtain q where q: "holds f ?x q" "req_ok q" "req_type q = op_PUT \<Longrightarrow> 0 < unused (h_table ?h)"
    by (rule running_req [OF p i t(1)]) (use t(2) in auto)
  have x: "op_type ?x \<in> {op_GET, op_PUT, op_DEL}" "op_key ?x \<noteq> 0" "op_type ?x = req_type q"
    using q(1,2) by (cases q; simp add: holds_def)+
  have lt: "unat (h_used ?h) < h_size ?h" if "op_type ?x = op_PUT"
    using q(3) that x(3) table_inv_bounds(3) [OF d(6)] ti(2) by simp
  have "call_step t s = upd t ?h ?x ?p s"
    using x lt ti(2,3) by (auto simp: call_step_def Let_def goto_upd)
  moreover have "slot_ok (h_table ?h) (op_key ?x) ?p"
    using ti(2,3) by (auto simp: passed_def slot_0 intro!: exI [of _ 0])
  ultimately show ?thesis
    using upd_inv [OF i t(1) same_req_refl, of ?p ?h] t(2) d(7) table_inv_probe [OF d(6) t(1)]
      result_quiet [OF d(8) t(1) same_req_refl, of ?h ?p] by simp
qed

lemma running_keys:
  assumes p: "par_pre f rs T n" and i: "par_inv f rs T n taken todo s" and t: "t < T" "pc_running (s_pc s t)"
    and u: "u < T" "u \<noteq> t" "\<not> neutral (s_pc s u)"
  shows "op_key (s_op s u) \<noteq> op_key (s_op s t) \<and> op_key (s_op s u) \<noteq> 0"
proof -
  note o = order_invD [OF par_invD(5) [OF i]]
  have ru: "pc_running (s_pc s u)" using u(3) by (cases "s_pc s u") auto
  have "op_key (s_op s u) \<noteq> op_key (s_op s t)"
  proof
    assume eq: "op_key (s_op s u) = op_key (s_op s t)"
    have "op_id (s_op s u) < op_id (s_op s t)"
      by (rule dispatchD(8) [OF o(1) u(1) t(1) ru running_active [OF t(2)] u(2) eq])
    moreover have "op_id (s_op s t) < op_id (s_op s u)"
      by (rule dispatchD(8) [OF o(1) t(1) u(1) t(2) running_active [OF ru] u(2) [symmetric] eq [symmetric]])
    ultimately show False by simp
  qed
  moreover obtain q where "holds f (s_op s u) q" "req_ok q" by (rule running_req [OF p i u(1) ru])
  then have "op_key (s_op s u) \<noteq> 0" by (cases q) (auto simp: holds_def)
  ultimately show ?thesis by blast
qed

lemma probe_inv:
  assumes p: "par_pre f rs T n" and i: "par_inv f rs T n taken todo s"
    and t: "t < T" "s_pc s t = P_probe c cnt" and lk: "\<not> entry_locked T t s c"
  shows "par_inv f rs T n taken todo (probe_step t c cnt s)"
proof -
  note d = par_invD [OF i]
  note ti = table_invD [OF d(6)]
  let ?x = "s_op s t" and ?h = "s_h s"
  let ?k = "op_key ?x" and ?tb = "h_table ?h"
  have run: "pc_running (s_pc s t)" "\<not> pc_lined (s_pc s t)" using t(2) by simp_all
  show ?thesis
  proof (cases "busy ?k (?tb ! c) \<and> (c \<noteq> hashfunc ?k (h_size ?h) \<or> cnt = 0)")
    case True
    let ?p = "P_probe ((c + 1) mod 2 ^ 32 mod h_size ?h) (if cnt = 0 then cnt + 1 else cnt)"
    obtain m where m: "m \<le> length ?tb" "c = slot (length ?tb) ?k m" "cnt = min m 1" "passed ?tb ?k m"
      using ti(5) [OF t(1)] t(2) by auto
    have ml: "m < length ?tb"
    proof (rule ccontr)
      assume "\<not> ?thesis"
      with m(1) have "m = length ?tb" by simp
      with m ti(2,3) True show False by (auto simp: slot_wrap min_def split: if_splits)
    qed
    have "passed ?tb ?k (Suc m)" using m(2,4) True by (auto simp: passed_def less_Suc_eq)
    moreover have "(c + 1) mod 2 ^ 32 mod h_size ?h = slot (length ?tb) ?k (Suc m)"
      using slot_Suc [OF ti(3,4), of ?k m] m(2) ti(2) by simp
    ultimately have "slot_ok ?tb ?k ?p" using ml m(3) by (auto intro!: exI [of _ "Suc m"])
    moreover have "probe_step t c cnt s = upd t ?h ?x ?p s"
      using True by (simp add: probe_step_def Let_def goto_upd)
    ultimately show ?thesis
      using upd_inv [OF i t(1) same_req_refl, of ?p ?h] t(2) d(7) table_inv_probe [OF d(6) t(1)]
        result_quiet [OF d(8) t(1) same_req_refl, of ?h ?p] by simp
  next
    case False
    obtain q where q: "q \<in> set taken" "holds f ?x q" "req_ok q" "req_type q = op_PUT \<Longrightarrow> 0 < unused ?tb"
      by (rule running_req [OF p i t(1) run(1)]) (use run(2) in auto)
    have free: "count_slot (s_pc s u) \<noteq> c" if "u < T" "u \<noteq> t" "is_count (s_pc s u)" for u
      using lk that by (cases "s_pc s u") (auto simp: entry_locked_def list_ex_iff)
    have "at_end f T t c cnt q s"
      unfolding at_end_def using d(6) t free running_keys [OF p i t(1) run(1)] False q by blast
    then have l: "linearized f T t q s (finish_step t c cnt s)" by (rule finish_ok)
    have r: "result_inv f rs T taken (finish_step t c cnt s)"
      by (rule result_linearized [OF d(8,5,2) par_preD(3) [OF p] t(1) run q(1,2) l])
    from l obtain h' x' pp where s': "finish_step t c cnt s = upd t h' x' pp s" "same_req x' ?x" "pc_lined pp"
      "table_inv T h' (\<lambda>u. op_key (s_op s u)) ((s_pc s)(t := pp))" "length (h_table h') = n"
      using d(7) unfolding linearized_def by metis
    have "par_inv f rs T n taken todo (upd t h' x' pp s)"
      by (rule upd_inv [OF i t(1) s'(2) run(1) lined_running [OF s'(3)] s'(4,5)]) (use r s'(1) in simp)
    moreover have "probe_step t c cnt s = finish_step t c cnt s"
      unfolding probe_step_def Let_def using False by (rule if_not_P)
    ultimately show ?thesis using s'(1) by simp
  qed
qed

lemma count_inv:
  assumes i: "par_inv f rs T n taken todo s" and t: "t < T" "s_pc s t = P_count c v r"
  shows "par_inv f rs T n taken todo (goto t (P_done r) (s\<lparr>s_h := add_used (s_h s) v\<rparr>))"
proof -
  note d = par_invD [OF i]
  note tc = table_inv_count [OF d(6) t]
  show ?thesis
    unfolding goto_upd(2)
    by (rule upd_inv [OF i t(1)])
      (use t(2) tc d(7) result_quiet [OF d(8) t(1) same_req_refl tc(2), of "P_done r"] in auto)
qed

lemma done_inv:
  assumes i: "par_inv f rs T n taken todo s" and t: "t < T" "s_pc s t = P_done r"
  shows "par_inv f rs T n taken todo (done_step t r s)"
proof -
  note d = par_invD [OF i]
  let ?s = "done_step t r s"
  have pcs: "s_pc ?s u = s_pc s u \<or> neutral (s_pc ?s u) \<and> neutral (s_pc s u)" for u
    using t(2) by (cases "s_pc s u") (auto simp: done_step_def)
  have "table_inv T (s_h ?s) (\<lambda>u. op_key (s_op ?s u)) (s_pc ?s)"
  proof (rule table_inv_quiet [where pcs = "s_pc s", where K = "\<lambda>u. op_key (s_op s u)"])
    show "table_inv T (s_h ?s) (\<lambda>u. op_key (s_op s u)) (s_pc s)" using d(6) by (simp add: done_step_def)
    fix u
    have "\<not> (neutral (s_pc s u) \<and> is_count (s_pc s u))" by (cases "s_pc s u") auto
    with pcs [of u] show "s_pc ?s u = s_pc s u \<and> op_key (s_op ?s u) = op_key (s_op s u) \<or>
        neutral (s_pc ?s u) \<and> \<not> is_count (s_pc s u)" by (auto simp: done_step_def)
  qed
  moreover have "s_pc s u = P_exit" if "s_pc ?s u = P_exit" for u
    using that by (auto simp: done_step_def split: if_splits pc.splits)
  moreover have "s_in ?s = s_in s" "s_err ?s = s_err s" "s_h ?s = s_h s" by (simp_all add: done_step_def)
  ultimately show ?thesis
    using d(1-4,7) order_done [OF d(5) t] result_done [OF d(8,5) t]
    unfolding par_inv_def by metis
qed

lemma step_inv:
  assumes p: "par_pre f rs T n" and i: "par_inv f rs T n taken todo s" and t: "t < T"
    and st: "step T t s = Some s'"
  shows "\<exists>taken' todo'. par_inv f rs T n taken' todo' s'"
proof -
  have e: "s_err s = None" by (rule par_invD(1) [OF i])
  show ?thesis
  proof (cases "s_pc s t")
    case P_read
    with st e have "s' = read_step t s" by (simp add: step_def)
    with read_inv [OF p i t P_read] show ?thesis by simp
  next
    case (P_wait b)
    with st e have "s' = wake_step t s" by (simp add: step_def split: if_splits)
    moreover have "par_inv f rs T n taken todo (wake_step t s)"
      unfolding wake_step_def by (rule wait_inv [OF p i t P_wait]) simp
    ultimately show ?thesis by blast
  next
    case P_call
    with st e have "s' = call_step t s" by (simp add: step_def)
    with call_inv [OF p i t P_call] show ?thesis by auto
  next
    case (P_probe c cnt)
    with st e have "s' = probe_step t c cnt s" "\<not> entry_locked T t s c" by (simp_all add: step_def split: if_splits)
    with probe_inv [OF p i t P_probe] show ?thesis by auto
  next
    case (P_count c v r)
    with st e have "s' = goto t (P_done r) (s\<lparr>s_h := add_used (s_h s) v\<rparr>)" by (simp add: step_def)
    with count_inv [OF i t P_count] show ?thesis by auto
  next
    case (P_done r)
    with st e have "s' = done_step t r s" by (simp add: step_def)
    with done_inv [OF i t P_done] show ?thesis by auto
  next
    case P_exit
    with st e show ?thesis by (simp add: step_def)
  qed
qed

lemma reach_inv:
  assumes p: "par_pre f rs T n" and r: "par_reach T (par_init a n f x) k w s"
  shows "\<exists>taken todo. par_inv f rs T n taken todo s"
  using r
proof induction
  case start
  show ?case using par_init_inv [OF p] by blast
next
  case (thread k w s t s')
  then show ?case using step_inv [OF p] by blast
next
  case (spurious k w s t)
  then show ?case using wait_inv [OF p, where q = "P_wait True"] by blast
qed

subsection \<open>The end of a run\<close>

lemma spec_log_ids: "map fst (spec_log m rs) = map req_id rs"
  by (induction rs arbitrary: m) auto

lemma sorted_ids_distinct: "sorted_wrt (\<lambda>r r'. req_id r < req_id r') rs \<Longrightarrow> distinct (map req_id rs)"
  by (induction rs) force+

text \<open>Two lists with the same distinct keys, one contained in the other, are permutations.\<close>

lemma mset_eq_by_key:
  assumes "set xs \<subseteq> set ys" "distinct (map fst xs)" "distinct (map fst ys)" "set (map fst ys) \<subseteq> set (map fst xs)"
  shows "mset xs = mset ys"
proof -
  have "y \<in> set xs" if y: "y \<in> set ys" for y
  proof -
    from y assms(4) obtain x where x: "x \<in> set xs" "fst x = fst y" by (auto simp: image_iff)
    with assms(1) y have "x = y" using assms(3) by (auto simp: distinct_map inj_on_def)
    with x show ?thesis by simp
  qed
  with assms show ?thesis by (intro set_eq_iff_mset_eq_distinct [THEN iffD1]) (auto simp: distinct_map)
qed

lemma all_exited:
  assumes p: "par_pre f rs T n" and i: "par_inv f rs T n taken todo s" and T: "0 < T"
    and ex: "\<forall>t<T. s_pc s t = P_exit"
  shows "mset (concat (map (s_out s) [0..<T])) = mset (spec_log Map.empty rs)"
    and "store_of f (hash_map (h_table (s_h s))) = foldl apply_req Map.empty rs"
    and "hash_ok (s_h s)"
proof -
  note d = par_invD [OF i]
  note o = order_invD [OF d(5)]
  note e = result_invD [OF d(8)]
  have rs: "rs = taken" using d(2) d(4) [OF T] ex T by simp
  have ids: "req_id ` set rs \<subseteq> logged T s"
    using dispatchD(5) [OF o(1)] ex rs by fastforce
  show "store_of f (hash_map (h_table (s_h s))) = foldl apply_req Map.empty rs"
    unfolding e(1) rs [symmetric] by (rule hist_all) (use ids in \<open>auto simp: lin_def\<close>)
  show "mset (concat (map (s_out s) [0..<T])) = mset (spec_log Map.empty rs)"
  proof (rule mset_eq_by_key)
    show "set (concat (map (s_out s) [0..<T])) \<subseteq> set (spec_log Map.empty rs)" using e(4) by fastforce
    show "distinct (map fst (concat (map (s_out s) [0..<T])))" by (rule e(5))
    show "distinct (map fst (spec_log Map.empty rs))"
      unfolding spec_log_ids by (rule sorted_ids_distinct [OF par_preD(3) [OF p]])
    show "set (map fst (spec_log Map.empty rs)) \<subseteq> set (map fst (concat (map (s_out s) [0..<T])))"
      unfolding spec_log_ids using ids by (simp only: logged_def set_map)
  qed
  have "ncount T (s_pc s) v = 0" for v using ex by (simp add: ncount_def)
  then show "hash_ok (s_h s)" using table_invD [OF d(6)] by (simp add: hash_ok_def)
qed

text \<open>
  C4. Serializability of the parallel hash program: for at most 32 threads, every
  file of requests with increasing identifiers (as inputgen.c numbers them) and
  non-zero keys, at most as many PUTs as the table has entries, and every
  interleaving of the threads, spurious wakeups included: no assertion fails and
  no access leaves the mapped file; and when all threads have ended, their logs
  together are the log of the sequential run (each line once), the table holds
  the bindings of the sequential run, is well formed, and the check of
  \<open>dump_hash_table\<close> succeeds.
\<close>

theorem parallel_serializable:
  assumes "par_pre f rs T n" and "par_reach T (par_init a n f x) k w s"
  shows "s_err s = None \<and>
    (0 < T \<and> (\<forall>t<T. s_pc s t = P_exit) \<longrightarrow>
      mset (concat (map (s_out s) [0..<T])) = mset (spec_log Map.empty rs) \<and>
      store_of f (hash_map (h_table (s_h s))) = foldl apply_req Map.empty rs \<and>
      hash_ok (s_h s) \<and> dump_hash_table (s_h s))"
proof -
  obtain taken todo where i: "par_inv f rs T n taken todo s" using reach_inv [OF assms] by blast
  show ?thesis
    using par_invD(1) [OF i] all_exited [OF assms(1) i] dump_live by blast
qed

subsection \<open>No deadlock, and every schedule ends\<close>

lemma some_thread_moves:
  assumes i: "par_inv f rs T n taken todo s" and T: "T \<le> 32" and t0: "t0 < T" "s_pc s t0 \<noteq> P_exit"
  shows "\<exists>t<T. step T t s \<noteq> None"
proof (rule ccontr)
  assume none: "\<not> (\<exists>t<T. step T t s \<noteq> None)"
  note d = par_invD [OF i]
  note o = order_invD [OF d(5)]
  have stuck: "s_pc s t = P_exit \<or> s_pc s t = P_wait False" if t: "t < T" for t
  proof (cases "s_pc s t")
    case (P_probe c cnt)
    with none t d(1) have "entry_locked T t s c" by (auto simp: step_def split: if_splits)
    then obtain u where "u < T" "case s_pc s u of P_count c' v r \<Rightarrow> c' = c | _ \<Rightarrow> False"
      by (auto simp: entry_locked_def list_ex_iff)
    with none d(1) show ?thesis by (cases "s_pc s u") (auto simp: step_def)
  qed (use none t d(1) in \<open>auto simp: step_def split: if_splits\<close>)
  let ?P = "\<lambda>t. t < T \<and> s_pc s t = P_wait False"
  have "?P t0" using stuck t0 by blast
  then obtain t where t: "?P t" and least: "\<And>u. ?P u \<Longrightarrow> unat (op_id (s_op s t)) \<le> unat (op_id (s_op s u))"
    using ex_has_least_nat [of ?P t0 "\<lambda>t. unat (op_id (s_op s t))"] by blast
  have "blocked s t" using o(4) t by blast
  then obtain u where "u < T" "pc_active (s_pc s u)" "op_id (s_op s u) < op_id (s_op s t)"
    using blocked_iff [OF o(2) T] by blast
  moreover from this have "?P u" using stuck by fastforce
  ultimately show False using least by (metis word_less_nat_alt not_le)
qed

definition probe_pos :: "nat \<Rightarrow> u64 \<Rightarrow> nat \<Rightarrow> nat \<Rightarrow> nat" where
  "probe_pos n k c cnt =
    (if cnt = 0 then 0 else if c = hashfunc k n then n else (c + n - hashfunc k n) mod n)"

lemma probe_pos_slot:
  assumes n: "0 < n" and m: "m \<le> n"
  shows "probe_pos n k (slot n k m) (min m 1) = m"
proof (cases "m = 0 \<or> m = n")
  case True
  then show ?thesis using n by (auto simp: probe_pos_def slot_wrap min_def)
next
  case False
  let ?h = "hashfunc k n"
  have h: "?h < n" by (rule hashfunc_less [OF n])
  have lt: "m < n" using False m by simp
  have "slot n k m = (if ?h + m < n then ?h + m else ?h + m - n)"
    using h lt by (auto simp: slot_def mod_if le_mod_geq)
  then have "(slot n k m + n - ?h) mod n = m" using h lt by (auto split: if_splits)
  moreover have "slot n k m \<noteq> ?h" using slot_start_iff [OF n m, of k] False by simp
  moreover have "min m 1 \<noteq> 0" using False by (simp add: min_def)
  ultimately show ?thesis unfolding probe_pos_def by presburger
qed

fun pc_measure :: "nat \<Rightarrow> nat \<Rightarrow> u64 \<Rightarrow> pc \<Rightarrow> nat" where
  "pc_measure T n k P_exit = 0"
| "pc_measure T n k P_read = 1"
| "pc_measure T n k (P_done r) = 2 + T"
| "pc_measure T n k (P_count c v r) = 3 + T"
| "pc_measure T n k (P_probe c cnt) = 4 + T + (n - probe_pos n k c cnt)"
| "pc_measure T n k P_call = 5 + T + n"
| "pc_measure T n k (P_wait b) = (if b then 7 + T + n else 6 + T + n)"

definition left_over :: "par_state \<Rightarrow> nat" where
  "left_over s = length (in_data (s_in s)) - in_curr (s_in s)"

definition par_measure :: "nat \<Rightarrow> nat \<Rightarrow> par_state \<Rightarrow> nat" where
  "par_measure T n s = (8 + T + n) * left_over s +
    (\<Sum>u<T. pc_measure T n (op_key (s_op s u)) (s_pc s u))"

lemma sum_at:
  fixes g g' :: "nat \<Rightarrow> nat"
  assumes "t < T" "\<And>u. u < T \<Longrightarrow> u \<noteq> t \<Longrightarrow> g' u \<le> g u + d"
  shows "(\<Sum>u<T. g' u) + g t \<le> (\<Sum>u<T. g u) + g' t + d * (T - 1)"
proof -
  have "(\<Sum>u\<in>{..<T} - {t}. g' u) \<le> (\<Sum>u\<in>{..<T} - {t}. g u + d)"
    by (rule sum_mono) (use assms(2) in auto)
  also have "\<dots> = (\<Sum>u\<in>{..<T} - {t}. g u) + d * (T - 1)"
    using assms(1) by (simp add: sum.distrib mult.commute)
  finally show ?thesis
    using assms(1) by (simp add: sum.remove [of "{..<T}" t])
qed

text \<open>A step that changes only thread \<open>t\<close>.\<close>

lemma measure_one:
  assumes "t < T" "\<And>u. u \<noteq> t \<Longrightarrow> s_pc s' u = s_pc s u \<and> s_op s' u = s_op s u"
    and "(8 + T + n) * left_over s' + pc_measure T n (op_key (s_op s' t)) (s_pc s' t) <
      (8 + T + n) * left_over s + pc_measure T n (op_key (s_op s t)) (s_pc s t)"
  shows "par_measure T n s' < par_measure T n s"
  using sum_at [of t T "\<lambda>u. pc_measure T n (op_key (s_op s' u)) (s_pc s' u)"
      "\<lambda>u. pc_measure T n (op_key (s_op s u)) (s_pc s u)" 0] assms
  by (simp add: par_measure_def)

lemma read_op_moves:
  "p_read_op inp x = Next inp' x' \<Longrightarrow>
    in_data inp' = in_data inp \<and> in_curr inp < in_curr inp' \<and> in_curr inp' \<le> length (in_data inp)"
  "p_read_op inp x = Eof inp' \<Longrightarrow> in_data inp' = in_data inp \<and> in_curr inp \<le> in_curr inp'"
  by (auto simp: p_read_op_def read_op_def Let_def split: if_splits)

lemma read_measure:
  assumes t: "t < T" "s_pc s t = P_read" and e: "s_err (read_step t s) = None"
  shows "par_measure T n (read_step t s) < par_measure T n s"
proof (cases "p_read_op (s_in s) (s_op s t)")
  case (Eof inp')
  have "in_data inp' = in_data (s_in s)" "in_curr (s_in s) \<le> in_curr inp'" using read_op_moves(2) [OF Eof] by auto
  then have "left_over (read_step t s) \<le> left_over s"
    by (simp add: left_over_def read_step_def Eof goto_def)
  then have le: "(8 + T + n) * left_over (read_step t s) \<le> (8 + T + n) * left_over s" by (rule mult_le_mono2)
  have pc: "s_pc (read_step t s) = (s_pc s)(t := P_exit)" "s_op (read_step t s) = s_op s"
    by (simp_all add: read_step_def goto_def Eof)
  have "(8 + T + n) * left_over (read_step t s) + 0 < (8 + T + n) * left_over s + 1" using le by linarith
  then show ?thesis by (intro measure_one [OF t(1)]) (use t(2) in \<open>simp_all only: pc fun_upd_same pc_measure.simps fun_upd_other simp_thms\<close>)
next
  case (Next inp' x')
  have m: "in_data inp' = in_data (s_in s)" "in_curr (s_in s) < in_curr inp'"
    "in_curr inp' \<le> length (in_data (s_in s))" using read_op_moves(1) [OF Next] by auto
  then have "left_over (read_step t s) + 1 \<le> left_over s"
    by (simp add: left_over_def read_step_def Next goto_def Let_def)
  then have "(8 + T + n) * (left_over (read_step t s) + 1) \<le> (8 + T + n) * left_over s" by (rule mult_le_mono2)
  then have le: "(8 + T + n) * left_over (read_step t s) + (8 + T + n) \<le> (8 + T + n) * left_over s"
    by (simp only: distrib_left mult_1_right)
  obtain p where pc: "s_pc (read_step t s) = (s_pc s)(t := p)" "p = P_wait False \<or> p = P_call"
    "s_op (read_step t s) = (s_op s)(t := x')"
    by (simp add: read_step_def goto_def Next Let_def)
  have "(8 + T + n) * left_over (read_step t s) + pc_measure T n k p < (8 + T + n) * left_over s + 1" for k
  proof -
    have "pc_measure T n k p \<le> 6 + T + n" using pc(2) by auto
    with le show ?thesis by linarith
  qed
  then show ?thesis by (intro measure_one [OF t(1)]) (use t(2) in \<open>simp_all add: pc\<close>)
qed (use e in \<open>simp_all add: read_step_def crash_def\<close>)

lemma upd_measure:
  assumes "t < T" "pc_measure T n (op_key x) p < pc_measure T n (op_key (s_op s t)) (s_pc s t)"
  shows "par_measure T n (upd t h x p s) < par_measure T n s"
  by (rule measure_one [OF assms(1)]) (use assms(2) in \<open>auto simp: left_over_def\<close>)

lemma call_measure:
  assumes t: "t < T" "s_pc s t = P_call" and e: "s_err s = None" "s_err (call_step t s) = None"
  shows "par_measure T n (call_step t s) < par_measure T n s"
proof -
  have "call_step t s = goto t (P_probe (hashfunc (op_key (s_op s t)) (h_size (s_h s))) 0) s"
    using e by (auto simp: call_step_def Let_def crash_def split: if_splits)
  then show ?thesis using t by (simp add: goto_upd upd_measure)
qed

definition moved :: "nat \<Rightarrow> par_state \<Rightarrow> par_state \<Rightarrow> bool" where
  "moved t s s' \<longleftrightarrow> (\<exists>h x p. s' = upd t h x p s \<and> pc_lined p)"

lemma moved_goto:
  "pc_lined p \<Longrightarrow> moved t s (goto t p s)" "pc_lined p \<Longrightarrow> moved t s (goto t p (s\<lparr>s_h := h\<rparr>))"
  "pc_lined p \<Longrightarrow> moved t s (goto t p (s\<lparr>s_op := (s_op s)(t := x)\<rparr>))"
  unfolding moved_def using goto_upd by blast+

lemma finish_moves: "s_err s = None \<Longrightarrow> s_err (finish_step t c cnt s) = None \<Longrightarrow> moved t s (finish_step t c cnt s)"
  unfolding finish_step_def Let_def by (auto simp: moved_goto crash_def split: if_splits)

lemma finish_measure:
  assumes t: "t < T" "s_pc s t = P_probe c cnt" and e: "s_err s = None" "s_err (finish_step t c cnt s) = None"
  shows "par_measure T n (finish_step t c cnt s) < par_measure T n s"
proof -
  obtain h x p where s': "finish_step t c cnt s = upd t h x p s" "pc_lined p"
    using finish_moves [OF e] unfolding moved_def by blast
  have "pc_measure T n (op_key x) p < pc_measure T n (op_key (s_op s t)) (s_pc s t)"
    using s'(2) t(2) by (cases p) auto
  then show ?thesis unfolding s'(1) by (rule upd_measure [OF t(1)])
qed

lemma probe_measure:
  assumes i: "par_inv f rs T n taken todo s" and t: "t < T" "s_pc s t = P_probe c cnt"
    and e: "s_err (probe_step t c cnt s) = None"
  shows "par_measure T n (probe_step t c cnt s) < par_measure T n s"
proof -
  note d = par_invD [OF i]
  note ti = table_invD [OF d(6)]
  let ?k = "op_key (s_op s t)" and ?h = "s_h s"
  show ?thesis
  proof (cases "busy ?k (h_table ?h ! c) \<and> (c \<noteq> hashfunc ?k (h_size ?h) \<or> cnt = 0)")
    case True
    obtain m where m: "m \<le> n" "c = slot n ?k m" "cnt = min m 1"
      using ti(5) [OF t(1)] t(2) d(7) by auto
    have n: "0 < n" "n < 2 ^ 32" "h_size ?h = n" using ti(2,3,4) d(7) by auto
    have mn: "m < n" using True m n slot_wrap [OF n(1), of ?k] by (cases "m = n") (auto simp: min_def split: if_splits)
    have "(if cnt = 0 then cnt + 1 else cnt) = min (Suc m) 1" using m(3) by (simp add: min_def)
    then have pos: "probe_pos n ?k ((c + 1) mod 2 ^ 32 mod n) (if cnt = 0 then cnt + 1 else cnt) = Suc m"
      using slot_Suc [OF n(1,2), of ?k m] probe_pos_slot [OF n(1), of "Suc m" ?k] m(2) mn by simp
    have old: "probe_pos n ?k c cnt = m" using probe_pos_slot [OF n(1) m(1), of ?k] m(2,3) by simp
    have "probe_step t c cnt s = upd t ?h (s_op s t)
        (P_probe ((c + 1) mod 2 ^ 32 mod n) (if cnt = 0 then cnt + 1 else cnt)) s"
      using True n(3) by (simp add: probe_step_def Let_def goto_upd)
    moreover have "n - Suc m < n - m" using mn by simp
    ultimately show ?thesis
      using pos old t(2) by (simp only:) (intro upd_measure [OF t(1)], simp)
  next
    case False
    have "probe_step t c cnt s = finish_step t c cnt s"
      unfolding probe_step_def Let_def using False by (rule if_not_P)
    then show ?thesis using finish_measure [OF t d(1)] e by simp
  qed
qed

lemma done_measure:
  assumes t: "t < T" "s_pc s t = P_done r"
  shows "par_measure T n (done_step t r s) < par_measure T n s"
proof -
  let ?s = "done_step t r s"
  let ?g = "\<lambda>s u. pc_measure T n (op_key (s_op s u)) (s_pc s u)"
  have "(\<Sum>u<T. ?g ?s u) + ?g s t \<le> (\<Sum>u<T. ?g s u) + ?g ?s t + 1 * (T - 1)"
  proof (rule sum_at [OF t(1)])
    fix u
    assume "u \<noteq> t"
    then show "?g ?s u \<le> ?g s u + 1" by (cases "s_pc s u") (auto simp: done_step_def)
  qed
  moreover have "?g s t = 2 + T" "?g ?s t = 1" using t(2) by (simp_all add: done_step_def)
  moreover have "left_over ?s = left_over s" by (simp add: left_over_def done_step_def)
  ultimately show ?thesis by (simp add: par_measure_def)
qed

lemma step_measure:
  assumes p: "par_pre f rs T n" and i: "par_inv f rs T n taken todo s" and t: "t < T"
    and st: "step T t s = Some s'"
  shows "par_measure T n s' < par_measure T n s"
proof -
  have e: "s_err s = None" by (rule par_invD(1) [OF i])
  obtain taken' todo' where "par_inv f rs T n taken' todo' s'" using step_inv [OF p i t st] by blast
  then have e': "s_err s' = None" by (rule par_invD(1))
  show ?thesis
  proof (cases "s_pc s t")
    case P_read
    with st e e' read_measure [OF t P_read, of n] show ?thesis by (simp add: step_def)
  next
    case (P_wait b)
    with st e have s': "s' = goto t (if blocked s t then P_wait False else P_call) s" "b"
      by (auto simp: step_def wake_step_def split: if_splits)
    show ?thesis unfolding s'(1) goto_upd(1) by (rule upd_measure [OF t]) (use P_wait s'(2) in auto)
  next
    case P_call
    with st e e' call_measure [OF t P_call e, of n] show ?thesis by (simp add: step_def)
  next
    case (P_probe c cnt)
    with st e have "s' = probe_step t c cnt s" by (simp add: step_def split: if_splits)
    with probe_measure [OF i t P_probe] e' show ?thesis by simp
  next
    case (P_count c v r)
    with st e have s': "s' = goto t (P_done r) (s\<lparr>s_h := add_used (s_h s) v\<rparr>)" by (simp add: step_def)
    show ?thesis unfolding s' goto_upd(2) by (rule upd_measure [OF t]) (use P_count in simp)
  next
    case (P_done r)
    with st e done_measure [OF t P_done, of n] show ?thesis by (simp add: step_def)
  next
    case P_exit
    with st e show ?thesis by (simp add: step_def)
  qed
qed

lemma reach_measure:
  assumes p: "par_pre f rs T n" and r: "par_reach T (par_init a n f x) k w s"
  shows "k + par_measure T n s \<le> (8 + T + n) * length f + T + w"
  using r
proof induction
  case start
  then show ?case by (simp add: par_measure_def left_over_def par_init_def)
next
  case (thread k w s t s')
  obtain taken todo where "par_inv f rs T n taken todo s" using reach_inv [OF p thread.hyps(1)] by blast
  from step_measure [OF p this thread.hyps(2,3)] thread.IH show ?case by simp
next
  case (spurious k w s t)
  let ?s = "goto t (P_wait True) s"
  have "(\<Sum>u<T. pc_measure T n (op_key (s_op ?s u)) (s_pc ?s u)) + pc_measure T n (op_key (s_op s t)) (s_pc s t)
      \<le> (\<Sum>u<T. pc_measure T n (op_key (s_op s u)) (s_pc s u)) +
        pc_measure T n (op_key (s_op ?s t)) (s_pc ?s t) + 0 * (T - 1)"
    by (rule sum_at [OF spurious.hyps(2)]) (simp add: goto_def)
  then have "par_measure T n ?s \<le> par_measure T n s + 1"
    using spurious.hyps(4) by (simp add: par_measure_def left_over_def goto_def)
  with spurious.IH show ?case by simp
qed

text \<open>
  C5. No deadlock and no endless run: after every schedule either all threads
  have ended or some thread can make a step, and the number of steps is bounded
  by the length of the file, the number of threads and the table size, plus one
  for each spurious wakeup.
\<close>

theorem parallel_terminates:
  assumes "par_pre f rs T n" and "par_reach T (par_init a n f x) k w s"
  shows "((\<forall>t<T. s_pc s t = P_exit) \<or> (\<exists>t<T. step T t s \<noteq> None)) \<and>
    k \<le> (8 + T + n) * length f + T + w"
proof -
  obtain taken todo where i: "par_inv f rs T n taken todo s" using reach_inv [OF assms] by blast
  have "(\<forall>t<T. s_pc s t = P_exit) \<or> (\<exists>t<T. step T t s \<noteq> None)"
    using some_thread_moves [OF i par_preD(4) [OF assms(1)]] by blast
  moreover have "k \<le> (8 + T + n) * length f + T + w" using reach_measure [OF assms] by linarith
  ultimately show ?thesis by blast
qed

lemma par_completes:
  assumes p: "par_pre f rs T n"
  shows "\<exists>k s. par_reach T (par_init a n f x) k 0 s \<and> (\<forall>t<T. s_pc s t = P_exit)"
proof -
  let ?P = "\<lambda>k. \<exists>s. par_reach T (par_init a n f x) k 0 s"
  have b: "\<forall>k. ?P k \<longrightarrow> k \<le> (8 + T + n) * length f + T"
    using reach_measure [OF p] by (metis add.right_neutral add_leD1)
  have "?P 0" using par_reach.start by blast
  from Nat.ex_has_greatest_nat [of ?P, OF this b] obtain k where
    "?P k" and max: "\<forall>j. ?P j \<longrightarrow> j \<le> k" by blast
  then obtain s where s: "par_reach T (par_init a n f x) k 0 s" by blast
  obtain taken todo where i: "par_inv f rs T n taken todo s" using reach_inv [OF p s] by blast
  have "s_pc s t = P_exit" if "t < T" for t
  proof (rule ccontr)
    assume "s_pc s t \<noteq> P_exit"
    from some_thread_moves [OF i par_preD(4) [OF p] that this] obtain u s' where
      "u < T" "step T u s = Some s'" by auto
    from par_reach.thread [OF s this] max show False by (metis Suc_n_not_le_n)
  qed
  with s show ?thesis by blast
qed

lemma par_pre_example:
  "par_pre (concat (map encode [Put 1 5 [65, 66], Get 2 5])) [Put 1 5 [65, 66], Get 2 5] 2 3"
  by (simp add: par_pre_def tail_room_def create_get_del_def puts_def)

theorem parallel_serializable_witness:
  "\<exists>k s. par_reach 2 (par_init 4096 3 (concat (map encode [Put 1 5 [65, 66], Get 2 5]))
        \<lparr>op_id = 0, op_key = 0, op_type = 0, op_datalen = 0, op_data = 0\<rparr>) k 0 s \<and>
    (\<forall>t<2. s_pc s t = P_exit) \<and> s_err s = None \<and>
    mset (concat (map (s_out s) [0..<2])) = mset (spec_log Map.empty [Put 1 5 [65, 66], Get 2 5])"
proof -
  obtain k s where r: "par_reach 2 (par_init 4096 3 (concat (map encode [Put 1 5 [65, 66], Get 2 5]))
        \<lparr>op_id = 0, op_key = 0, op_type = 0, op_datalen = 0, op_data = 0\<rparr>) k 0 s"
    "\<forall>t<2. s_pc s t = P_exit" using par_completes [OF par_pre_example] by blast
  have "(0 :: nat) < 2" by simp
  with parallel_serializable [OF par_pre_example r(1)] r show ?thesis by blast
qed

theorem parallel_terminates_witness:
  "\<exists>k s. par_reach 2 (par_init 4096 3 (concat (map encode [Put 1 5 [65, 66], Get 2 5]))
        \<lparr>op_id = 0, op_key = 0, op_type = 0, op_datalen = 0, op_data = 0\<rparr>) k 0 s \<and>
    (\<forall>t<2. s_pc s t = P_exit) \<and> k \<le> (8 + 2 + 3) * length (concat (map encode [Put 1 5 [65, 66], Get 2 5])) + 2 + 0"
proof -
  obtain k s where r: "par_reach 2 (par_init 4096 3 (concat (map encode [Put 1 5 [65, 66], Get 2 5]))
        \<lparr>op_id = 0, op_key = 0, op_type = 0, op_datalen = 0, op_data = 0\<rparr>) k 0 s"
    "\<forall>t<2. s_pc s t = P_exit" using par_completes [OF par_pre_example] by blast
  with parallel_terminates [OF par_pre_example r(1)] show ?thesis by blast
qed

text \<open>
  C22. The bound of 32 threads is needed: main.c admits 33, but the scans in
  \<open>read_op\<close> look at \<open>being_processed[0..31]\<close> only.  With 33 threads the last one can
  take a request and the first one the next request on the same key, and both
  are past their wait at the same time.
\<close>

theorem last_thread_unseen:
  assumes ok: "req_ok r1" "req_ok r2" and key: "req_key r1 = req_key r2" and id: "req_id r1 < req_id r2"
    and tail: "tail_room (concat (map encode [r1, r2]))"
  shows "\<exists>s. par_reach 33 (par_init a n (concat (map encode [r1, r2])) x) 2 0 s \<and>
    s_pc s 32 = P_call \<and> s_pc s 0 = P_call \<and> op_key (s_op s 32) = op_key (s_op s 0) \<and>
    op_id (s_op s 32) < op_id (s_op s 0)"
proof -
  let ?f = "concat (map encode [r1, r2])"
  let ?s0 = "par_init a n ?f x"
  have "at_input ?f [r1, r2] (s_in ?s0)" using at_input_start [of "[r1, r2]"] by (simp add: par_init_def)
  from at_input_next [OF tail this ok(1), of x] obtain i1 x1 where
    n1: "p_read_op (s_in ?s0) x = Next i1 x1" "at_input ?f [r2] i1" "holds ?f x1 r1" by blast
  from at_input_next [OF tail n1(2) ok(2), of x] obtain i2 x2 where
    n2: "p_read_op i1 x = Next i2 x2" "holds ?f x2 r2" by blast
  let ?s1 = "?s0\<lparr>s_in := i1, s_op := (\<lambda>t. x)(32 := x1), s_bp := (\<lambda>t. False)(32 := True),
    s_pc := (\<lambda>t. P_read)(32 := P_call)\<rparr>"
  let ?s2 = "?s1\<lparr>s_in := i2, s_op := (\<lambda>t. x)(32 := x1, 0 := x2), s_bp := (\<lambda>t. False)(32 := True, 0 := True),
    s_pc := (\<lambda>t. P_read)(32 := P_call, 0 := P_call)\<rparr>"
  have st1: "step 33 32 ?s0 = Some ?s1"
    using n1(1) by (simp add: step_def read_step_def par_init_def Let_def goto_def blocked_ex)
  have r1: "par_reach 33 ?s0 (Suc 0) 0 ?s1" by (rule par_reach.thread [OF par_reach.start _ st1]) simp
  have st2: "step 33 0 ?s1 = Some ?s2"
    using n2(1) by (auto simp: step_def read_step_def par_init_def Let_def goto_def blocked_ex)
  have "par_reach 33 ?s0 (Suc (Suc 0)) 0 ?s2" by (rule par_reach.thread [OF r1 _ st2]) simp
  then have "par_reach 33 ?s0 2 0 ?s2" by (simp only: numeral_2_eq_2)
  then show ?thesis
    using n1(3) n2(2) key id by (intro exI [of _ ?s2]) (simp add: holds_def)
qed

theorem last_thread_unseen_witness:
  "\<exists>s. par_reach 33 (par_init 4096 3 (concat (map encode [Put 1 5 [65, 66], Get 2 5]))
      \<lparr>op_id = 0, op_key = 0, op_type = 0, op_datalen = 0, op_data = 0\<rparr>) 2 0 s \<and>
    s_pc s 32 = P_call \<and> s_pc s 0 = P_call \<and> op_key (s_op s 32) = op_key (s_op s 0) \<and>
    op_id (s_op s 32) < op_id (s_op s 0)"
  by (rule last_thread_unseen) (simp_all add: tail_room_def create_get_del_def)

end
