(* ===== verification/RWLock.thy ===== *)
theory RWLock
  imports Prelude
begin

text \<open>
  The reader-writer lock of Assignment 4, part 2 (src/Assignment4/ass4/part-2:
  rwlock.c and \<open>atomic_add\<close> of common.h) with the test program main.c as its
  client: every thread adds 5 to \<open>wr_ctr\<close> under the write lock and to \<open>rd_ctr\<close> under
  the read lock, \<open>ITERS\<close> times.  Every step is one atomic instruction: an
  \<open>atomic_add\<close>, a load or a store.  The theory shows that the lock excludes what it
  has to exclude, that no update of \<open>wr_ctr\<close> is lost, and that a thread without
  competitors gets the lock.
\<close>

subsection \<open>The lock and the test program\<close>

text \<open>The new value and the sign that the flags of \<open>lock add\<close> report.\<close>

definition atomic_add :: "u64 \<Rightarrow> u64 \<Rightarrow> u64 \<times> int" where
  "atomic_add v d = (let r = v + d in (r, if bit r 63 then - 1 else if r = 0 then 0 else 1))"

definition WBIAS :: u64 where "WBIAS = 0x1000000000000"

definition init_rwlock :: u64 where "init_rwlock = WBIAS"

datatype rw_pc =
    W_try | W_undo | W_spin | W_load | W_store u64 | W_unlock
  | R_try | R_undo | R_load | R_store u64 | R_unlock | T_exit

record rw_state =
  rw_value :: u64
  rw_wr :: u64
  rw_rd :: u64
  rw_pc :: "nat \<Rightarrow> rw_pc"
  rw_ctr :: "nat \<Rightarrow> nat"

definition rw_goto :: "nat \<Rightarrow> rw_pc \<Rightarrow> rw_state \<Rightarrow> rw_state" where
  "rw_goto t p s = s\<lparr>rw_pc := (rw_pc s)(t := p)\<rparr>"

definition rw_add :: "u64 \<Rightarrow> rw_state \<Rightarrow> rw_state" where
  "rw_add d s = s\<lparr>rw_value := fst (atomic_add (rw_value s) d)\<rparr>"

text \<open>\<open>write_lock\<close>: the outer condition, the undo, the inner spin loop (a signed comparison).\<close>

definition write_try :: "nat \<Rightarrow> rw_state \<Rightarrow> rw_state" where
  "write_try t s = rw_goto t (if snd (atomic_add (rw_value s) (- WBIAS)) \<noteq> 0 then W_undo else W_load)
    (rw_add (- WBIAS) s)"

definition write_spin :: "nat \<Rightarrow> rw_state \<Rightarrow> rw_state" where
  "write_spin t s = rw_goto t (if sint (rw_value s) < sint WBIAS then W_spin else W_try) s"

definition read_try :: "nat \<Rightarrow> rw_state \<Rightarrow> rw_state" where
  "read_try t s = rw_goto t (if snd (atomic_add (rw_value s) (- 1)) = - 1 then R_undo else R_load)
    (rw_add (- 1) s)"

text \<open>One step of the thread function \<open>thfunc\<close> with \<open>M\<close> iterations.\<close>

definition rw_step :: "nat \<Rightarrow> nat \<Rightarrow> rw_state \<Rightarrow> rw_state option" where
  "rw_step M t s =
    (case rw_pc s t of
       W_try \<Rightarrow> Some (write_try t s)
     | W_undo \<Rightarrow> Some (rw_goto t W_spin (rw_add WBIAS s))
     | W_spin \<Rightarrow> Some (write_spin t s)
     | W_load \<Rightarrow> Some (rw_goto t (W_store (rw_wr s)) s)
     | W_store x \<Rightarrow> Some (rw_goto t W_unlock (s\<lparr>rw_wr := x + 5\<rparr>))
     | W_unlock \<Rightarrow> Some (rw_goto t R_try (rw_add WBIAS s))
     | R_try \<Rightarrow> Some (read_try t s)
     | R_undo \<Rightarrow> Some (rw_goto t R_try (rw_add 1 s))
     | R_load \<Rightarrow> Some (rw_goto t (R_store (rw_rd s)) s)
     | R_store x \<Rightarrow> Some (rw_goto t R_unlock (s\<lparr>rw_rd := x + 5\<rparr>))
     | R_unlock \<Rightarrow>
         let s' = (rw_add 1 s)\<lparr>rw_ctr := (rw_ctr s)(t := rw_ctr s t + 1)\<rparr>
         in Some (rw_goto t (if rw_ctr s' t < M then W_try else T_exit) s')
     | T_exit \<Rightarrow> None)"

definition rw_init :: "nat \<Rightarrow> rw_state" where
  "rw_init M = \<lparr>rw_value = init_rwlock, rw_wr = 0, rw_rd = 0,
     rw_pc = \<lambda>t. if 0 < M then W_try else T_exit, rw_ctr = \<lambda>t. 0\<rparr>"

inductive rw_reach :: "nat \<Rightarrow> nat \<Rightarrow> rw_state \<Rightarrow> bool" for N M :: nat where
  start: "rw_reach N M (rw_init M)"
| thread: "rw_reach N M s \<Longrightarrow> t < N \<Longrightarrow> rw_step M t s = Some s' \<Longrightarrow> rw_reach N M s'"

subsection \<open>The value of the lock\<close>

text \<open>Who has subtracted the bias, who has subtracted one, and who is inside.\<close>

fun wr_sub :: "rw_pc \<Rightarrow> int" where
  "wr_sub W_undo = 1" | "wr_sub W_load = 1" | "wr_sub (W_store x) = 1" | "wr_sub W_unlock = 1"
| "wr_sub _ = 0"

fun rd_sub :: "rw_pc \<Rightarrow> int" where
  "rd_sub R_undo = 1" | "rd_sub R_load = 1" | "rd_sub (R_store x) = 1" | "rd_sub R_unlock = 1"
| "rd_sub _ = 0"

fun writing :: "rw_pc \<Rightarrow> bool" where
  "writing W_load \<longleftrightarrow> True" | "writing (W_store x) \<longleftrightarrow> True" | "writing W_unlock \<longleftrightarrow> True"
| "writing _ \<longleftrightarrow> False"

fun reading :: "rw_pc \<Rightarrow> bool" where
  "reading R_load \<longleftrightarrow> True" | "reading (R_store x) \<longleftrightarrow> True" | "reading R_unlock \<longleftrightarrow> True"
| "reading _ \<longleftrightarrow> False"

definition total :: "nat \<Rightarrow> (rw_pc \<Rightarrow> int) \<Rightarrow> (nat \<Rightarrow> rw_pc) \<Rightarrow> int" where
  "total N g pcs = (\<Sum>t<N. g (pcs t))"

definition lock_val :: "nat \<Rightarrow> (nat \<Rightarrow> rw_pc) \<Rightarrow> int" where
  "lock_val N pcs = 2 ^ 48 * (1 - total N wr_sub pcs) - total N rd_sub pcs"

lemma total_upd: "t < N \<Longrightarrow> total N g (pcs(t := p)) = total N g pcs - g (pcs t) + g p"
  unfolding total_def by (simp add: sum.remove [of "{..<N}" t])

lemma sub_range: "0 \<le> wr_sub p" "wr_sub p \<le> 1" "0 \<le> rd_sub p" "rd_sub p \<le> 1" "wr_sub p + rd_sub p \<le> 1"
  by (cases p; simp)+

lemma total_range:
  assumes "\<And>p. 0 \<le> g p \<and> g p \<le> 1"
  shows "0 \<le> total N g pcs" "total N g pcs \<le> int N" "t < N \<Longrightarrow> g (pcs t) \<le> total N g pcs"
proof -
  show "0 \<le> total N g pcs" unfolding total_def by (rule sum_nonneg) (simp add: assms)
  have "total N g pcs \<le> (\<Sum>t<N. 1)" unfolding total_def by (rule sum_mono) (simp add: assms)
  then show "total N g pcs \<le> int N" by simp
  show "g (pcs t) \<le> total N g pcs" if "t < N"
    unfolding total_def by (rule member_le_sum) (use that assms in auto)
qed

lemma total_two:
  assumes g: "\<And>p. 0 \<le> g p \<and> g p \<le> 1" and tu: "t < N" "u < N" "t \<noteq> u"
  shows "g (pcs t) + g (pcs u) \<le> total N g pcs"
proof -
  have "(\<Sum>i\<in>{t, u}. g (pcs i)) \<le> (\<Sum>i<N. g (pcs i))"
    by (rule sum_mono2) (use tu g in auto)
  then show ?thesis using tu by (simp add: total_def)
qed

lemmas wr_total = total_range [of wr_sub] total_two [of wr_sub]
lemmas rd_total = total_range [of rd_sub] total_two [of rd_sub]

text \<open>With at most 64 threads (\<open>MAX_THREADS\<close>) the value stays in the range of \<open>long\<close>.\<close>

lemma lock_val_range:
  assumes "N \<le> 64"
  shows "- (2 ^ 55) \<le> lock_val N pcs" "lock_val N pcs \<le> 2 ^ 48"
  using wr_total(1,2) [of N pcs] rd_total(1,2) [of N pcs] assms sub_range
  by (simp_all add: lock_val_def)

lemma sint_small: "- (2 ^ 63) \<le> z \<Longrightarrow> z < 2 ^ 63 \<Longrightarrow> sint (word_of_int z :: u64) = z"
  by (simp add: sint_sbintrunc' signed_take_bit_int_eq_self)

lemma atomic_add_int:
  assumes "- (2 ^ 63) \<le> z + d" "z + d < 2 ^ 63"
  shows "atomic_add (word_of_int z) (word_of_int d) = (word_of_int (z + d), sgn (z + d))"
proof -
  let ?w = "word_of_int (z + d) :: u64"
  have s: "sint ?w = z + d" by (rule sint_small [OF assms])
  have "bit ?w 63 \<longleftrightarrow> z + d < 0" using s bit_last_iff [of ?w] by simp
  moreover have "?w = 0 \<longleftrightarrow> z + d = 0" using s by (metis of_int_0 signed_0)
  ultimately show ?thesis by (auto simp: atomic_add_def Let_def sgn_if)
qed

lemma lock_val_upd:
  "t < N \<Longrightarrow> lock_val N (pcs(t := q)) =
    lock_val N pcs + (2 ^ 48 * (wr_sub (pcs t) - wr_sub q) + (rd_sub (pcs t) - rd_sub q))"
  by (simp add: lock_val_def total_upd algebra_simps)

lemma bias_int: "WBIAS = word_of_int (2 ^ 48)" "- WBIAS = word_of_int (- (2 ^ 48))"
  "(1 :: u64) = word_of_int 1" "(- 1 :: u64) = word_of_int (- 1)"
  by (simp_all add: WBIAS_def)

lemma writing_sub: "writing p \<Longrightarrow> wr_sub p = 1" and reading_sub: "reading p \<Longrightarrow> rd_sub p = 1"
  by (cases p; simp)+

text \<open>The value an arriving thread sees tells it what the others have done.\<close>

lemma entered_write:
  assumes N: "N \<le> 64" and t: "t < N" "wr_sub (pcs t) = 1" and v: "lock_val N pcs = 0"
    and u: "u < N" "u \<noteq> t"
  shows "\<not> writing (pcs u)" "\<not> reading (pcs u)"
proof -
  have r: "0 \<le> total N rd_sub pcs" "total N rd_sub pcs \<le> 64" "1 \<le> total N wr_sub pcs"
    using rd_total(1,2) [of N pcs] wr_total(3) [of t N pcs] t N sub_range by simp_all
  then have "total N wr_sub pcs = 1" "total N rd_sub pcs = 0" using v by (auto simp: lock_val_def)
  moreover have "wr_sub (pcs t) + wr_sub (pcs u) \<le> total N wr_sub pcs"
    by (rule wr_total(4)) (use t u sub_range in auto)
  moreover have "rd_sub (pcs u) \<le> total N rd_sub pcs" by (rule rd_total(3)) (use u sub_range in auto)
  ultimately show "\<not> writing (pcs u)" "\<not> reading (pcs u)" using t writing_sub reading_sub by fastforce+
qed

lemma entered_read:
  assumes N: "N \<le> 64" and t: "t < N" "rd_sub (pcs t) = 1" and v: "0 \<le> lock_val N pcs"
    and u: "u < N"
  shows "\<not> writing (pcs u)"
proof -
  have r: "1 \<le> total N rd_sub pcs" "0 \<le> total N wr_sub pcs"
    using rd_total(3) [of t N pcs] wr_total(1) [of N pcs] t sub_range by simp_all
  then have "total N wr_sub pcs = 0" using v unfolding lock_val_def by auto
  moreover have "wr_sub (pcs u) \<le> total N wr_sub pcs" by (rule wr_total(3)) (use u sub_range in auto)
  ultimately show ?thesis using writing_sub by fastforce
qed

subsection \<open>The invariant\<close>

fun wrote :: "rw_pc \<Rightarrow> nat" where
  "wrote W_unlock = 1" | "wrote R_try = 1" | "wrote R_undo = 1" | "wrote R_load = 1"
| "wrote (R_store x) = 1" | "wrote R_unlock = 1" | "wrote _ = 0"

definition excl :: "nat \<Rightarrow> (nat \<Rightarrow> rw_pc) \<Rightarrow> bool" where
  "excl N pcs \<longleftrightarrow> (\<forall>t<N. \<forall>u<N. t \<noteq> u \<longrightarrow> writing (pcs t) \<longrightarrow> \<not> writing (pcs u) \<and> \<not> reading (pcs u))"

definition written :: "nat \<Rightarrow> rw_state \<Rightarrow> nat" where
  "written N s = (\<Sum>t<N. rw_ctr s t + wrote (rw_pc s t))"

definition rw_inv :: "nat \<Rightarrow> nat \<Rightarrow> rw_state \<Rightarrow> bool" where
  "rw_inv N M s \<longleftrightarrow> rw_value s = word_of_int (lock_val N (rw_pc s)) \<and> excl N (rw_pc s) \<and>
    rw_wr s = of_nat (5 * written N s) \<and>
    (\<forall>t<N. \<forall>x. rw_pc s t = W_store x \<longrightarrow> x = rw_wr s) \<and>
    (\<forall>t<N. if rw_pc s t = T_exit then rw_ctr s t = M else rw_ctr s t < M)"

lemma excl_upd:
  assumes "excl N pcs" "t < N"
    and "writing q \<Longrightarrow> writing (pcs t) \<or> (\<forall>u<N. u \<noteq> t \<longrightarrow> \<not> writing (pcs u) \<and> \<not> reading (pcs u))"
    and "reading q \<Longrightarrow> reading (pcs t) \<or> (\<forall>u<N. u \<noteq> t \<longrightarrow> \<not> writing (pcs u))"
  shows "excl N (pcs(t := q))"
  using assms unfolding excl_def by (metis fun_upd_apply)

lemma written_upd:
  assumes t: "t < N" and o: "\<And>u. u \<noteq> t \<Longrightarrow> rw_ctr s' u = rw_ctr s u \<and> rw_pc s' u = rw_pc s u"
  shows "written N s' + (rw_ctr s t + wrote (rw_pc s t)) = written N s + (rw_ctr s' t + wrote (rw_pc s' t))"
proof -
  have "(\<Sum>u\<in>{..<N} - {t}. rw_ctr s' u + wrote (rw_pc s' u)) = (\<Sum>u\<in>{..<N} - {t}. rw_ctr s u + wrote (rw_pc s u))"
    by (rule sum.cong) (use o in auto)
  then show ?thesis using t by (simp add: written_def sum.remove [of "{..<N}" t])
qed

text \<open>Steps that change neither counter.\<close>

lemma rw_inv_step:
  assumes i: "rw_inv N M s" and t: "t < N" and s': "s' = rw_goto t q (s\<lparr>rw_value := v, rw_rd := d\<rparr>)"
    and v: "v = word_of_int (lock_val N ((rw_pc s)(t := q)))"
    and e: "excl N ((rw_pc s)(t := q))" and w: "wrote q = wrote (rw_pc s t)"
    and st: "\<And>x. q = W_store x \<Longrightarrow> x = rw_wr s"
    and p: "q \<noteq> T_exit" "rw_pc s t \<noteq> T_exit"
  shows "rw_inv N M s'"
proof -
  have "written N s' = written N s"
    using written_upd [OF t, of s' s] w by (simp add: s' rw_goto_def)
  moreover have "rw_wr s' = rw_wr s" "rw_pc s' = (rw_pc s)(t := q)" "rw_ctr s' = rw_ctr s" "rw_value s' = v"
    by (simp_all add: s' rw_goto_def)
  ultimately show ?thesis using i e v st p t unfolding rw_inv_def by auto
qed

lemma rw_invD:
  assumes "rw_inv N M s"
  shows "rw_value s = word_of_int (lock_val N (rw_pc s))" "excl N (rw_pc s)" "rw_wr s = of_nat (5 * written N s)"
    "\<And>t x. t < N \<Longrightarrow> rw_pc s t = W_store x \<Longrightarrow> x = rw_wr s"
    "\<And>t. t < N \<Longrightarrow> if rw_pc s t = T_exit then rw_ctr s t = M else rw_ctr s t < M"
  using assms unfolding rw_inv_def by blast+

lemma rw_add_val:
  assumes "rw_inv N M s" "N \<le> 64" "\<bar>d\<bar> \<le> 2 ^ 48"
  shows "atomic_add (rw_value s) (word_of_int d) =
    (word_of_int (lock_val N (rw_pc s) + d), sgn (lock_val N (rw_pc s) + d))"
  unfolding rw_invD(1) [OF assms(1)]
  by (rule atomic_add_int) (use lock_val_range [OF assms(2), of "rw_pc s"] assms(3) in auto)

lemma rw_add_eq:
  assumes "rw_inv N M s" "N \<le> 64" "\<bar>d\<bar> \<le> 2 ^ 48"
  shows "rw_add (word_of_int d) s = s\<lparr>rw_value := word_of_int (lock_val N (rw_pc s) + d)\<rparr>"
  by (simp add: rw_add_def rw_add_val [OF assms])

lemma write_try_inv:
  assumes i: "rw_inv N M s" and N: "N \<le> 64" and t: "t < N" "rw_pc s t = W_try"
  shows "rw_inv N M (write_try t s)"
    and "rw_pc (write_try t s) t = W_load \<longleftrightarrow> lock_val N (rw_pc s) = 2 ^ 48"
proof -
  let ?v = "lock_val N (rw_pc s) - 2 ^ 48"
  let ?q = "if ?v \<noteq> 0 then W_undo else W_load"
  have lv: "lock_val N ((rw_pc s)(t := ?q)) = ?v" using lock_val_upd [OF t(1), of "rw_pc s" ?q] t(2) by auto
  have eq: "write_try t s = rw_goto t ?q (s\<lparr>rw_value := word_of_int ?v, rw_rd := rw_rd s\<rparr>)"
    unfolding write_try_def bias_int
    using rw_add_val [OF i N, of "- (2 ^ 48)"] rw_add_eq [OF i N, of "- (2 ^ 48)"] by (auto simp: sgn_if)
  have ex: "excl N ((rw_pc s)(t := ?q))"
  proof (rule excl_upd [OF rw_invD(2) [OF i] t(1)])
    assume w: "writing ?q"
    then have z: "?v = 0" by (auto split: if_splits)
    have "\<not> writing (rw_pc s u) \<and> \<not> reading (rw_pc s u)" if "u < N" "u \<noteq> t" for u
      using entered_write [OF N t(1), of "(rw_pc s)(t := ?q)", OF _ _ that] lv z that(2) by simp
    then show "writing (rw_pc s t) \<or> (\<forall>u<N. u \<noteq> t \<longrightarrow> \<not> writing (rw_pc s u) \<and> \<not> reading (rw_pc s u))" by blast
  qed (auto split: if_splits)
  show "rw_inv N M (write_try t s)"
    by (rule rw_inv_step [OF i t(1) eq _ ex]) (use lv t(2) in \<open>auto split: if_splits\<close>)
  show "rw_pc (write_try t s) t = W_load \<longleftrightarrow> lock_val N (rw_pc s) = 2 ^ 48"
    by (auto simp: eq rw_goto_def)
qed

lemma read_try_inv:
  assumes i: "rw_inv N M s" and N: "N \<le> 64" and t: "t < N" "rw_pc s t = R_try"
  shows "rw_inv N M (read_try t s)"
    and "rw_pc (read_try t s) t = R_load \<longleftrightarrow> 1 \<le> lock_val N (rw_pc s)"
proof -
  let ?v = "lock_val N (rw_pc s) - 1"
  let ?q = "if ?v < 0 then R_undo else R_load"
  have lv: "lock_val N ((rw_pc s)(t := ?q)) = ?v" using lock_val_upd [OF t(1), of "rw_pc s" ?q] t(2) by auto
  have eq: "read_try t s = rw_goto t ?q (s\<lparr>rw_value := word_of_int ?v, rw_rd := rw_rd s\<rparr>)"
    unfolding read_try_def bias_int
    using rw_add_val [OF i N, of "- 1"] rw_add_eq [OF i N, of "- 1"] by (auto simp: sgn_if)
  have ex: "excl N ((rw_pc s)(t := ?q))"
  proof (rule excl_upd [OF rw_invD(2) [OF i] t(1)])
    assume w: "reading ?q"
    then have z: "0 \<le> ?v" by (auto split: if_splits)
    have "\<not> writing (rw_pc s u)" if "u < N" "u \<noteq> t" for u
      using entered_read [OF N t(1), of "(rw_pc s)(t := ?q)", OF _ _ that(1)] lv z that(2) by simp
    then show "reading (rw_pc s t) \<or> (\<forall>u<N. u \<noteq> t \<longrightarrow> \<not> writing (rw_pc s u))" by blast
  qed (auto split: if_splits)
  show "rw_inv N M (read_try t s)"
    by (rule rw_inv_step [OF i t(1) eq _ ex]) (use lv t(2) in \<open>auto split: if_splits\<close>)
  show "rw_pc (read_try t s) t = R_load \<longleftrightarrow> 1 \<le> lock_val N (rw_pc s)"
    by (auto simp: eq rw_goto_def)
qed

text \<open>Steps that leave the protected sections or stay outside or inside.\<close>

lemma plain_inv:
  assumes i: "rw_inv N M s" and t: "t < N"
    and s': "s' = rw_goto t q (s\<lparr>rw_value := rw_value s +
      word_of_int (2 ^ 48 * (wr_sub (rw_pc s t) - wr_sub q) + (rd_sub (rw_pc s t) - rd_sub q)), rw_rd := d\<rparr>)"
    and p: "writing q \<Longrightarrow> writing (rw_pc s t)" "reading q \<Longrightarrow> reading (rw_pc s t)"
      "wrote q = wrote (rw_pc s t)" "\<And>x. q = W_store x \<Longrightarrow> x = rw_wr s" "q \<noteq> T_exit" "rw_pc s t \<noteq> T_exit"
  shows "rw_inv N M s'"
proof (rule rw_inv_step [OF i t s'])
  show "rw_value s + word_of_int (2 ^ 48 * (wr_sub (rw_pc s t) - wr_sub q) + (rd_sub (rw_pc s t) - rd_sub q)) =
      word_of_int (lock_val N ((rw_pc s)(t := q)))"
    unfolding rw_invD(1) [OF i] lock_val_upd [OF t] by (simp only: of_int_add)
  show "excl N ((rw_pc s)(t := q))" by (rule excl_upd [OF rw_invD(2) [OF i] t]) (use p in auto)
qed (use p in auto)

lemma store_inv:
  assumes i: "rw_inv N M s" and t: "t < N" "rw_pc s t = W_store x"
  shows "rw_inv N M (rw_goto t W_unlock (s\<lparr>rw_wr := x + 5\<rparr>))" (is "rw_inv N M ?s")
proof -
  note d = rw_invD [OF i]
  have x: "x = of_nat (5 * written N s)" using d(3,4) t by simp
  have w: "written N ?s = written N s + 1" using written_upd [OF t(1), of ?s s] t(2) by (simp add: rw_goto_def)
  have "rw_pc s u \<noteq> W_store y" if "u < N" "u \<noteq> t" for u y
  proof -
    have "\<not> writing (rw_pc s u)" using d(2) t that unfolding excl_def by (metis writing.simps(2))
    then show ?thesis by auto
  qed
  moreover have "excl N (rw_pc ?s)" by (simp add: rw_goto_def, rule excl_upd [OF d(2) t(1)]) (simp_all add: t(2))
  moreover have "lock_val N (rw_pc ?s) = lock_val N (rw_pc s)"
    using lock_val_upd [OF t(1), of "rw_pc s" W_unlock] t(2) by (simp add: rw_goto_def)
  ultimately show ?thesis
    using d(1,5) x w t unfolding rw_inv_def by (auto simp: rw_goto_def)
qed

lemma read_unlock_inv:
  assumes i: "rw_inv N M s" and N: "N \<le> 64" and t: "t < N" "rw_pc s t = R_unlock"
    and s': "s' = (rw_add 1 s)\<lparr>rw_ctr := (rw_ctr s)(t := rw_ctr s t + 1)\<rparr>"
      "s'' = rw_goto t (if rw_ctr s' t < M then W_try else T_exit) s'"
  shows "rw_inv N M s''"
proof -
  note d = rw_invD [OF i]
  have a: "rw_add 1 s = s\<lparr>rw_value := word_of_int (lock_val N (rw_pc s) + 1)\<rparr>"
    using rw_add_eq [OF i N, of 1] bias_int(3) by simp
  let ?q = "if rw_ctr s' t < M then W_try else T_exit"
  have pc: "rw_pc s'' = (rw_pc s)(t := ?q)" "rw_ctr s'' = (rw_ctr s)(t := rw_ctr s t + 1)" "rw_wr s'' = rw_wr s"
    "rw_value s'' = word_of_int (lock_val N (rw_pc s) + 1)"
    by (simp_all add: s' rw_goto_def a)
  have w: "written N s'' = written N s" using written_upd [OF t(1), of s'' s] t(2) by (simp add: pc)
  have "lock_val N (rw_pc s'') = lock_val N (rw_pc s) + 1"
    using lock_val_upd [OF t(1), of "rw_pc s" ?q] t(2) by (simp add: pc)
  moreover have "excl N (rw_pc s'')" unfolding pc by (rule excl_upd [OF d(2) t(1)]) (auto split: if_splits)
  moreover have "rw_ctr s t < M" using d(5) [OF t(1)] t(2) by simp
  ultimately show ?thesis
    using d(1,3,4,5) w unfolding rw_inv_def pc(3) by (auto simp: pc s'(1) a)
qed

lemma rw_step_inv:
  assumes i: "rw_inv N M s" and N: "N \<le> 64" and t: "t < N" and st: "rw_step M t s = Some s'"
  shows "rw_inv N M s'"
proof -
  have plain: "rw_inv N M s'" if "s' = rw_goto t q (s\<lparr>rw_value := rw_value s +
      word_of_int (2 ^ 48 * (wr_sub (rw_pc s t) - wr_sub q) + (rd_sub (rw_pc s t) - rd_sub q)), rw_rd := d\<rparr>)"
    "writing q \<longrightarrow> writing (rw_pc s t)" "reading q \<longrightarrow> reading (rw_pc s t)" "wrote q = wrote (rw_pc s t)"
    "\<forall>x. q = W_store x \<longrightarrow> x = rw_wr s" "q \<noteq> T_exit" "rw_pc s t \<noteq> T_exit" for q d
    by (rule plain_inv [OF i t that(1)]) (use that in auto)
  note defs = rw_step_def rw_add_def atomic_add_def Let_def WBIAS_def
  show ?thesis
  proof (cases "rw_pc s t")
    case W_try
    with st write_try_inv(1) [OF i N t] show ?thesis by (simp add: rw_step_def)
  next
    case W_undo
    with st show ?thesis by (intro plain [of W_spin "rw_rd s"]) (simp_all add: defs)
  next
    case W_spin
    with st show ?thesis
      by (intro plain [of "if sint (rw_value s) < sint WBIAS then W_spin else W_try" "rw_rd s"])
        (auto simp: rw_step_def write_spin_def split: if_splits)
  next
    case W_load
    with st show ?thesis by (intro plain [of "W_store (rw_wr s)" "rw_rd s"]) (simp_all add: defs)
  next
    case (W_store x)
    with st store_inv [OF i t W_store] show ?thesis by (simp add: rw_step_def)
  next
    case W_unlock
    with st show ?thesis by (intro plain [of R_try "rw_rd s"]) (simp_all add: defs)
  next
    case R_try
    with st read_try_inv(1) [OF i N t] show ?thesis by (simp add: rw_step_def)
  next
    case R_undo
    with st show ?thesis by (intro plain [of R_try "rw_rd s"]) (simp_all add: defs)
  next
    case R_load
    with st show ?thesis by (intro plain [of "R_store (rw_rd s)" "rw_rd s"]) (simp_all add: defs)
  next
    case (R_store x)
    with st show ?thesis by (intro plain [of R_unlock "x + 5"]) (simp_all add: defs)
  next
    case R_unlock
    with st show ?thesis
      by (intro read_unlock_inv [OF i N t R_unlock refl, of s']) (simp add: rw_step_def Let_def)
  next
    case T_exit
    with st show ?thesis by (simp add: rw_step_def)
  qed
qed

lemma rw_init_inv: "rw_inv N M (rw_init M)"
proof -
  have g: "wr_sub (if 0 < M then W_try else T_exit) = 0" "rd_sub (if 0 < M then W_try else T_exit) = 0"
    "wrote (if 0 < M then W_try else T_exit) = 0" "\<not> writing (if 0 < M then W_try else T_exit)" by auto
  have "lock_val N (rw_pc (rw_init M)) = 2 ^ 48" "written N (rw_init M) = 0"
    by (simp_all add: lock_val_def total_def written_def rw_init_def g)
  then show ?thesis
    using g by (auto simp: rw_inv_def rw_init_def init_rwlock_def bias_int excl_def split: if_splits)
qed

lemma rw_reach_inv: "rw_reach N M s \<Longrightarrow> N \<le> 64 \<Longrightarrow> rw_inv N M s"
  by (induction rule: rw_reach.induct) (auto intro: rw_init_inv rw_step_inv)

text \<open>A run along a schedule, for concrete executions.\<close>

fun rw_run :: "nat \<Rightarrow> nat list \<Rightarrow> rw_state \<Rightarrow> rw_state" where
  "rw_run M [] s = s"
| "rw_run M (t # ts) s = (case rw_step M t s of None \<Rightarrow> rw_run M ts s | Some s' \<Rightarrow> rw_run M ts s')"

lemma rw_run_reach: "rw_reach N M s \<Longrightarrow> \<forall>t\<in>set ts. t < N \<Longrightarrow> rw_reach N M (rw_run M ts s)"
  by (induction ts arbitrary: s) (auto intro: rw_reach.thread split: option.split)

lemmas rw_eval = rw_step_def write_try_def write_spin_def read_try_def rw_goto_def rw_add_def atomic_add_def
  rw_init_def init_rwlock_def WBIAS_def Let_def

text \<open>
  C15. Mutual exclusion: for up to 64 threads (the limit of main.c) and every
  interleaving of atomic instructions, while a thread is between \<open>write_lock\<close> and
  \<open>write_unlock\<close> no other thread is between \<open>write_lock\<close> and \<open>write_unlock\<close> or
  between \<open>read_lock\<close> and \<open>read_unlock\<close>.
\<close>

theorem rwlock_exclusion:
  assumes "rw_reach N M s" "N \<le> 64" "t < N" "u < N" "t \<noteq> u" "writing (rw_pc s t)"
  shows "\<not> writing (rw_pc s u) \<and> \<not> reading (rw_pc s u)"
  using rw_invD(2) [OF rw_reach_inv [OF assms(1,2)]] assms(3-) unfolding excl_def by blast

theorem rwlock_exclusion_witness:
  "writing (rw_pc (rw_run 1 [0, 1, 0] (rw_init 1)) 0) \<and>
    \<not> writing (rw_pc (rw_run 1 [0, 1, 0] (rw_init 1)) 1) \<and> \<not> reading (rw_pc (rw_run 1 [0, 1, 0] (rw_init 1)) 1)"
proof -
  have r: "rw_reach 2 1 (rw_run 1 [0, 1, 0] (rw_init 1))" by (rule rw_run_reach [OF rw_reach.start]) simp
  have w: "writing (rw_pc (rw_run 1 [0, 1, 0] (rw_init 1)) 0)" by (simp add: rw_eval)
  from rwlock_exclusion [OF r, of 0 1] w show ?thesis by simp
qed

text \<open>
  C20. The test program computes what it prints: when all threads have ended,
  \<open>wr_ctr\<close> is \<open>5 * ITERS * num_threads\<close> (modulo \<open>2 ^ 64\<close>), no update is lost, and the
  lock is free again.
\<close>

theorem rwlock_counter:
  assumes "rw_reach N M s" "N \<le> 64" "\<forall>t<N. rw_pc s t = T_exit"
  shows "rw_wr s = of_nat (5 * M * N) \<and> rw_value s = init_rwlock"
proof -
  note d = rw_invD [OF rw_reach_inv [OF assms(1,2)]]
  have "written N s = (\<Sum>t<N. M)" unfolding written_def by (rule sum.cong) (use assms(3) d(5) in fastforce)+
  moreover have "lock_val N (rw_pc s) = 2 ^ 48" using assms(3) by (simp add: lock_val_def total_def)
  ultimately show ?thesis using d(1,3) by (simp add: init_rwlock_def bias_int ac_simps)
qed

theorem rwlock_counter_witness:
  "rw_wr (rw_run 1 [0, 0, 0, 0, 0, 0, 0, 0] (rw_init 1)) = of_nat (5 * 1 * 1) \<and>
    rw_value (rw_run 1 [0, 0, 0, 0, 0, 0, 0, 0] (rw_init 1)) = init_rwlock"
proof -
  have r: "rw_reach 1 1 (rw_run 1 [0, 0, 0, 0, 0, 0, 0, 0] (rw_init 1))"
    by (rule rw_run_reach [OF rw_reach.start]) simp
  have e: "\<forall>t<1. rw_pc (rw_run 1 [0, 0, 0, 0, 0, 0, 0, 0] (rw_init 1)) t = T_exit" by (simp add: rw_eval)
  show ?thesis by (rule rwlock_counter [OF r _ e]) simp
qed

text \<open>
  A thread is never kept out by the traces of others: as long as no other
  thread has subtracted from the value, a writer at its \<open>atomic_add\<close> gets the lock
  with this instruction, a reader too, and the inner loop of \<open>write_lock\<close> ends.
  Several readers can be inside at once: a reader gets the lock whenever no
  writer has subtracted the bias.
\<close>

theorem rwlock_solo:
  assumes "rw_reach N M s" "N \<le> 64" "t < N" "\<forall>u<N. u \<noteq> t \<longrightarrow> wr_sub (rw_pc s u) = 0"
  shows "(rw_pc s t = R_try \<longrightarrow> rw_pc (read_try t s) t = R_load) \<and>
    ((\<forall>u<N. u \<noteq> t \<longrightarrow> rd_sub (rw_pc s u) = 0) \<longrightarrow>
      (rw_pc s t = W_try \<longrightarrow> rw_pc (write_try t s) t = W_load) \<and>
      (rw_pc s t = W_spin \<longrightarrow> rw_pc (write_spin t s) t = W_try))"
proof -
  have i: "rw_inv N M s" by (rule rw_reach_inv [OF assms(1,2)])
  have only: "total N g (rw_pc s) = g (rw_pc s t)" if "\<forall>u<N. u \<noteq> t \<longrightarrow> g (rw_pc s u) = 0" for g
    using that assms(3) by (simp add: total_def sum.remove [of "{..<N}" t])
  have rd: "total N rd_sub (rw_pc s) \<le> 64" using rd_total(2) [of N "rw_pc s"] assms(2) sub_range by simp
  have "1 \<le> lock_val N (rw_pc s)" if "rw_pc s t = R_try"
    using only [OF assms(4)] that rd by (simp add: lock_val_def)
  then have 1: "rw_pc s t = R_try \<longrightarrow> rw_pc (read_try t s) t = R_load"
    using read_try_inv(2) [OF i assms(2,3)] by blast
  have v: "lock_val N (rw_pc s) = 2 ^ 48"
    if "\<forall>u<N. u \<noteq> t \<longrightarrow> rd_sub (rw_pc s u) = 0" "rw_pc s t = W_try \<or> rw_pc s t = W_spin"
    using only [OF assms(4)] only [OF that(1)] that(2) by (auto simp: lock_val_def)
  have "rw_pc (write_spin t s) t = W_try" if "lock_val N (rw_pc s) = 2 ^ 48"
    using rw_invD(1) [OF i] that by (simp add: write_spin_def rw_goto_def bias_int)
  with v 1 write_try_inv(2) [OF i assms(2,3)] show ?thesis by blast
qed

theorem rwlock_solo_witness:
  "rw_pc (write_try 0 (rw_init 1)) 0 = W_load"
proof -
  have "\<forall>u<2. u \<noteq> 0 \<longrightarrow> wr_sub (rw_pc (rw_init 1) u) = 0" "\<forall>u<2. u \<noteq> 0 \<longrightarrow> rd_sub (rw_pc (rw_init 1) u) = 0"
    "rw_pc (rw_init 1) 0 = W_try" by (simp_all add: rw_init_def)
  with rwlock_solo [OF rw_reach.start [of 2 1], of 0] show ?thesis by simp
qed

end
