(* ===== verification/BlockHash.thy ===== *)
theory BlockHash
  imports Bytes
begin

text \<open>
  The block hash of Assignment 4, part 1 (src/Assignment4/ass4/part-1): threads
  take blocks of 64 bytes of the mapped file under a lock (\<open>hashit\<close>, thread\_func.c)
  and store the hash of each block (\<open>calculate_and_store_hash\<close>, main.c) without it.
  The theory shows that a block hash is the sum of the whole words of the block,
  and that for every schedule every block is hashed by one thread, every store is
  inside the array, and the result is that of the sequential program.
\<close>

subsection \<open>The code\<close>

text \<open>
  The loop of \<open>calculate_and_store_hash\<close>; the comparison of \<open>endptr - ptr\<close> with
  \<open>sizeof(unsigned long)\<close> is unsigned.  Pointers are offsets in the file \<open>f\<close>.
\<close>

fun hash_loop :: "u8 list \<Rightarrow> nat \<Rightarrow> nat \<Rightarrow> u64 \<Rightarrow> u64" where
  "hash_loop f 0 ptr h = h"
| "hash_loop f (Suc count) ptr h =
    (if sub64 (length f) ptr < 8 then h
     else hash_loop f count (ptr + 8) (h + le_word (take 8 (drop ptr f))))"

definition calculate_and_store_hash :: "u8 list \<Rightarrow> nat \<Rightarrow> u64" where
  "calculate_and_store_hash f ptr = hash_loop f (64 div 8) ptr 0"

definition hash_count :: "nat \<Rightarrow> nat" where
  "hash_count sz = (if sz mod 64 \<noteq> 0 then sz div 64 + 1 else sz div 64)"

datatype bh_pc = H_loop | H_calc nat nat | H_exit

record bh_state =
  bh_dataptr :: nat
  bh_optr :: nat
  bh_hashes :: "u64 list"
  bh_pc :: "nat \<Rightarrow> bh_pc"

text \<open>The critical section of \<open>hashit\<close> and the calculation after it.\<close>

definition bh_step :: "u8 list \<Rightarrow> nat \<Rightarrow> bh_state \<Rightarrow> bh_state option" where
  "bh_step f t s =
    (case bh_pc s t of
       H_loop \<Rightarrow>
         if length f \<le> bh_dataptr s then Some (s\<lparr>bh_pc := (bh_pc s)(t := H_exit)\<rparr>)
         else Some (s\<lparr>bh_dataptr := bh_dataptr s + 64, bh_optr := bh_optr s + 1,
                      bh_pc := (bh_pc s)(t := H_calc (bh_dataptr s) (bh_optr s))\<rparr>)
     | H_calc cptr chash \<Rightarrow>
         Some (s\<lparr>bh_hashes := (bh_hashes s)[chash := calculate_and_store_hash f cptr],
                 bh_pc := (bh_pc s)(t := H_loop)\<rparr>)
     | H_exit \<Rightarrow> None)"

text \<open>The state \<open>main\<close> sets up; \<open>hs\<close> is the content of the array that malloc returns.\<close>

definition bh_init :: "u64 list \<Rightarrow> bh_state" where
  "bh_init hs = \<lparr>bh_dataptr = 0, bh_optr = 0, bh_hashes = hs, bh_pc = \<lambda>t. H_loop\<rparr>"

inductive bh_reach :: "u8 list \<Rightarrow> nat \<Rightarrow> u64 list \<Rightarrow> nat \<Rightarrow> bh_state \<Rightarrow> bool"
  for f :: "u8 list" and N :: nat and hs :: "u64 list" where
  start: "bh_reach f N hs 0 (bh_init hs)"
| thread: "bh_reach f N hs k s \<Longrightarrow> t < N \<Longrightarrow> bh_step f t s = Some s' \<Longrightarrow> bh_reach f N hs (Suc k) s'"

subsection \<open>The hash of a block\<close>

definition block :: "u8 list \<Rightarrow> nat \<Rightarrow> u8 list" where
  "block f i = take 64 (drop (64 * i) f)"

definition whole_words :: "u8 list \<Rightarrow> u64 list" where
  "whole_words b = map (\<lambda>j. le_word (take 8 (drop (8 * j) b))) [0..<length b div 8]"

definition block_hash :: "u8 list \<Rightarrow> nat \<Rightarrow> u64" where
  "block_hash f i = sum_list (whole_words (block f i))"

lemma hash_loop_sum:
  assumes "ptr \<le> length f" "length f < 2 ^ 64"
  shows "hash_loop f c ptr h =
    h + sum_list (map (\<lambda>j. le_word (take 8 (drop (ptr + 8 * j) f))) [0..<min c ((length f - ptr) div 8)])"
  using assms(1)
proof (induction c arbitrary: ptr h)
  case (Suc c)
  have s: "sub64 (length f) ptr = length f - ptr" by (rule sub64_small [OF Suc.prems assms(2)])
  show ?case
  proof (cases "length f - ptr < 8")
    case False
    let ?n = "(length f - (ptr + 8)) div 8"
    have n: "(length f - ptr) div 8 = Suc ?n" using False by (simp add: le_div_geq)
    have "[0..<min (Suc c) (Suc ?n)] = 0 # map Suc [0..<min c ?n]"
      by (simp add: upt_conv_Cons map_Suc_upt del: upt_Suc)
    then show ?thesis
      using Suc.IH [of "ptr + 8"] False Suc.prems
      by (simp add: s n comp_def add.assoc del: upt_Suc)
  qed (use s in simp)
qed simp

lemma block_word: "8 * Suc j \<le> length (block f i) \<Longrightarrow> take 8 (drop (8 * j) (block f i)) = take 8 (drop (64 * i + 8 * j) f)"
proof -
  assume "8 * Suc j \<le> length (block f i)"
  then have "j \<le> 7" by (simp add: block_def)
  then have "8 \<le> 64 - 8 * j" by linarith
  then have "min 8 (64 - 8 * j) = 8" by (rule min_absorb1)
  then show ?thesis by (simp add: block_def drop_take add.commute)
qed

lemma block_hash_correct:
  assumes "64 * i \<le> length f" "length f < 2 ^ 64"
  shows "calculate_and_store_hash f (64 * i) = block_hash f i"
proof -
  let ?n = "length (block f i) div 8"
  have "min 8 ((length f - 64 * i) div 8) = ?n" by (auto simp: block_def min_def div_le_mono)
  then have "calculate_and_store_hash f (64 * i) =
      sum_list (map (\<lambda>j. le_word (take 8 (drop (64 * i + 8 * j) f))) [0..<?n])"
    using hash_loop_sum [OF assms, of "64 div 8" 0] by (simp add: calculate_and_store_hash_def)
  also have "map (\<lambda>j. le_word (take 8 (drop (64 * i + 8 * j) f))) [0..<?n] = whole_words (block f i)"
    unfolding whole_words_def by (rule map_cong [OF refl]) (simp add: block_word)
  finally show ?thesis by (simp add: block_hash_def)
qed

subsection \<open>All blocks, by all schedules\<close>

lemma hash_count_iff: "i < hash_count n \<longleftrightarrow> 64 * i < n"
proof -
  define q r where "q = n div 64" and "r = n mod 64"
  have n: "n = 64 * q + r" "r < 64" by (simp_all add: q_def r_def)
  have "hash_count n = (if r \<noteq> 0 then q + 1 else q)" by (simp add: hash_count_def q_def r_def)
  then show ?thesis using n by (cases "r = 0") auto
qed

definition bh_inv :: "u8 list \<Rightarrow> nat \<Rightarrow> bh_state \<Rightarrow> bool" where
  "bh_inv f N s \<longleftrightarrow> bh_dataptr s = 64 * bh_optr s \<and> bh_optr s \<le> hash_count (length f) \<and>
    length (bh_hashes s) = hash_count (length f) \<and>
    (\<forall>t<N. \<forall>c h. bh_pc s t = H_calc c h \<longrightarrow> c = 64 * h \<and> h < bh_optr s) \<and>
    (\<forall>t<N. \<forall>u<N. \<forall>c h c'. bh_pc s t = H_calc c h \<longrightarrow> bh_pc s u = H_calc c' h \<longrightarrow> t = u) \<and>
    (\<forall>j<bh_optr s. bh_hashes s ! j = block_hash f j \<or> (\<exists>t<N. \<exists>c. bh_pc s t = H_calc c j)) \<and>
    (\<forall>t<N. bh_pc s t = H_exit \<longrightarrow> length f \<le> bh_dataptr s)"

lemma bh_invD:
  assumes "bh_inv f N s"
  shows "bh_dataptr s = 64 * bh_optr s" "bh_optr s \<le> hash_count (length f)"
    "length (bh_hashes s) = hash_count (length f)"
    "\<And>t c h. t < N \<Longrightarrow> bh_pc s t = H_calc c h \<Longrightarrow> c = 64 * h \<and> h < bh_optr s"
    "\<And>t u c h c'. t < N \<Longrightarrow> u < N \<Longrightarrow> bh_pc s t = H_calc c h \<Longrightarrow> bh_pc s u = H_calc c' h \<Longrightarrow> t = u"
    "\<And>j. j < bh_optr s \<Longrightarrow> bh_hashes s ! j = block_hash f j \<or> (\<exists>t<N. \<exists>c. bh_pc s t = H_calc c j)"
    "\<And>t. t < N \<Longrightarrow> bh_pc s t = H_exit \<Longrightarrow> length f \<le> bh_dataptr s"
  using assms unfolding bh_inv_def by blast+

lemma bh_take_inv:
  assumes i: "bh_inv f N s" and t: "t < N" "bh_pc s t = H_loop" and lt: "bh_dataptr s < length f"
  shows "bh_inv f N (s\<lparr>bh_dataptr := bh_dataptr s + 64, bh_optr := bh_optr s + 1,
    bh_pc := (bh_pc s)(t := H_calc (bh_dataptr s) (bh_optr s))\<rparr>)" (is "bh_inv f N ?s")
proof -
  note d = bh_invD [OF i]
  have o: "bh_optr s < hash_count (length f)" using hash_count_iff d(1) lt by simp
  have calc: "\<exists>u<N. \<exists>c. bh_pc ?s u = H_calc c j"
    if "j = bh_optr s \<or> (\<exists>u<N. \<exists>c. bh_pc s u = H_calc c j)" for j
    using that t by (cases "j = bh_optr s") (auto, metis bh_pc.distinct(1))
  have "bh_hashes ?s ! j = block_hash f j \<or> (\<exists>u<N. \<exists>c. bh_pc ?s u = H_calc c j)" if "j < bh_optr ?s" for j
  proof -
    have "j = bh_optr s \<or> j < bh_optr s" "bh_hashes ?s = bh_hashes s" using that by auto
    with calc [of j] d(6) [of j] show ?thesis by metis
  qed
  moreover have "u = v" if "u < N" "v < N" "bh_pc ?s u = H_calc c h" "bh_pc ?s v = H_calc c' h" for u v c h c'
    using that d(4,5) by (auto split: if_splits)
  moreover have "c = 64 * h \<and> h < bh_optr ?s" if "u < N" "bh_pc ?s u = H_calc c h" for u c h
    using d(1) d(4) [OF that(1), of c h] that(2) by (auto split: if_splits)
  moreover have "length f \<le> bh_dataptr ?s" if "u < N" "bh_pc ?s u = H_exit" for u
    using d(7) [OF that(1)] that(2) lt by (auto split: if_splits)
  moreover have "bh_dataptr ?s = 64 * bh_optr ?s" "bh_optr ?s \<le> hash_count (length f)"
    "length (bh_hashes ?s) = hash_count (length f)" using d(1-3) o by simp_all
  ultimately show ?thesis unfolding bh_inv_def by blast
qed

lemma bh_calc_inv:
  assumes i: "bh_inv f N s" and f: "length f < 2 ^ 64" and t: "t < N" "bh_pc s t = H_calc c h"
  shows "bh_inv f N (s\<lparr>bh_hashes := (bh_hashes s)[h := calculate_and_store_hash f c],
    bh_pc := (bh_pc s)(t := H_loop)\<rparr>)" (is "bh_inv f N ?s")
proof -
  note d = bh_invD [OF i]
  have c: "c = 64 * h" "h < bh_optr s" using d(4) [OF t] by simp_all
  then have hc: "h < hash_count (length f)" using d(2) by simp
  then have v: "calculate_and_store_hash f c = block_hash f h"
    using block_hash_correct [OF _ f, of h] hash_count_iff c(1) by simp
  have "bh_hashes ?s ! j = block_hash f j \<or> (\<exists>u<N. \<exists>c. bh_pc ?s u = H_calc c j)" if j: "j < bh_optr s" for j
  proof (cases "j = h")
    case True
    then show ?thesis using v hc d(3) by simp
  next
    case False
    show ?thesis
    proof (cases "bh_hashes s ! j = block_hash f j")
      case True
      with False show ?thesis by simp
    next
      case nd: False
      then obtain u c' where u: "u < N" "bh_pc s u = H_calc c' j" using d(6) [OF j] by blast
      with t(2) False have "u \<noteq> t" by auto
      with u show ?thesis by auto
    qed
  qed
  moreover have "bh_pc s u = bh_pc ?s u \<or> bh_pc ?s u = H_loop" for u by simp
  ultimately show ?thesis
    using d(1-5,7) unfolding bh_inv_def by (auto split: if_splits)
qed

lemma bh_step_inv:
  assumes i: "bh_inv f N s" and f: "length f < 2 ^ 64" and t: "t < N" and st: "bh_step f t s = Some s'"
  shows "bh_inv f N s'"
proof (cases "bh_pc s t")
  case H_loop
  show ?thesis
  proof (cases "length f \<le> bh_dataptr s")
    case True
    with st H_loop have s': "s' = s\<lparr>bh_pc := (bh_pc s)(t := H_exit)\<rparr>" by (simp add: bh_step_def)
    note d = bh_invD [OF i]
    have fields: "bh_dataptr s' = bh_dataptr s" "bh_optr s' = bh_optr s" "bh_hashes s' = bh_hashes s"
      by (simp_all add: s')
    have old: "bh_pc s u = H_calc c h" if "bh_pc s' u = H_calc c h" for u c h
      using that by (auto simp: s' split: if_splits)
    have new: "bh_pc s' u = H_calc c h" if "bh_pc s u = H_calc c h" for u c h
      using that H_loop by (auto simp: s')
    have "\<forall>j<bh_optr s. bh_hashes s ! j = block_hash f j \<or> (\<exists>u<N. \<exists>c. bh_pc s' u = H_calc c j)"
      using d(6) new by blast
    moreover have "\<forall>u<N. \<forall>v<N. \<forall>c h c'. bh_pc s' u = H_calc c h \<longrightarrow> bh_pc s' v = H_calc c' h \<longrightarrow> u = v"
      using d(5) old by blast
    moreover have "\<forall>u<N. \<forall>c h. bh_pc s' u = H_calc c h \<longrightarrow> c = 64 * h \<and> h < bh_optr s"
      using d(4) old by blast
    ultimately show ?thesis using d(1-3) True unfolding bh_inv_def fields by blast
  next
    case False
    with st H_loop bh_take_inv [OF i t H_loop] show ?thesis by (simp add: bh_step_def)
  qed
next
  case (H_calc c h)
  with st bh_calc_inv [OF i f t H_calc] show ?thesis by (simp add: bh_step_def)
next
  case H_exit
  with st show ?thesis by (simp add: bh_step_def)
qed

lemma bh_reach_inv:
  assumes "bh_reach f N hs k s" "length f < 2 ^ 64" "length hs = hash_count (length f)"
  shows "bh_inv f N s"
  using assms(1)
proof induction
  case start
  then show ?case using assms(3) by (simp add: bh_inv_def bh_init_def)
next
  case (thread k s t s')
  then show ?case using bh_step_inv [OF _ assms(2)] by blast
qed

fun bh_pc_measure :: "bh_pc \<Rightarrow> nat" where
  "bh_pc_measure H_loop = 1" | "bh_pc_measure (H_calc c h) = 2" | "bh_pc_measure H_exit = 0"

definition bh_measure :: "u8 list \<Rightarrow> nat \<Rightarrow> bh_state \<Rightarrow> nat" where
  "bh_measure f N s = 2 * (hash_count (length f) - bh_optr s) + (\<Sum>t<N. bh_pc_measure (bh_pc s t))"

lemma bh_sum_upd:
  "t < (N :: nat) \<Longrightarrow> (\<Sum>u<N. bh_pc_measure ((pcs(t := p)) u)) + bh_pc_measure (pcs t) =
    (\<Sum>u<N. bh_pc_measure (pcs u)) + bh_pc_measure p"
proof -
  have "(\<Sum>u\<in>{..<N} - {t}. bh_pc_measure ((pcs(t := p)) u)) = (\<Sum>u\<in>{..<N} - {t}. bh_pc_measure (pcs u))"
    by (rule sum.cong) auto
  moreover assume "t < N"
  ultimately show ?thesis
    using sum.remove [OF finite_lessThan [of N], of t "\<lambda>u. bh_pc_measure ((pcs(t := p)) u)"]
      sum.remove [OF finite_lessThan [of N], of t "\<lambda>u. bh_pc_measure (pcs u)"] by simp
qed

lemma bh_step_measure:
  assumes i: "bh_inv f N s" and t: "t < N" and st: "bh_step f t s = Some s'"
  shows "bh_measure f N s' < bh_measure f N s"
proof -
  have up: "(\<Sum>u<N. bh_pc_measure (((bh_pc s)(t := p)) u)) + bh_pc_measure (bh_pc s t) =
      (\<Sum>u<N. bh_pc_measure (bh_pc s u)) + bh_pc_measure p" for p by (rule bh_sum_upd [OF t])
  show ?thesis
  proof (cases "bh_pc s t")
    case H_loop
    have "bh_optr s < hash_count (length f)" if "\<not> length f \<le> bh_dataptr s"
      using hash_count_iff bh_invD(1) [OF i] that by simp
    with st H_loop up [of H_exit] up [of "H_calc (bh_dataptr s) (bh_optr s)"] show ?thesis
      by (auto simp: bh_step_def bh_measure_def split: if_splits)
  next
    case (H_calc c h)
    with st up [of H_loop] show ?thesis by (auto simp: bh_step_def bh_measure_def)
  next
    case H_exit
    with st show ?thesis by (simp add: bh_step_def)
  qed
qed

lemma bh_reach_measure:
  assumes "bh_reach f N hs k s" "length f < 2 ^ 64" "length hs = hash_count (length f)"
  shows "k + bh_measure f N s \<le> 2 * hash_count (length f) + N"
  using assms(1)
proof induction
  case start
  then show ?case by (simp add: bh_measure_def bh_init_def)
next
  case (thread k s t s')
  with bh_step_measure [OF bh_reach_inv [OF thread.hyps(1) assms(2,3)] thread.hyps(2,3)] show ?case by simp
qed

text \<open>
  C16. The parallel block hash is correct: with any number of threads and under
  every schedule, every store goes inside the array, two threads never store to
  the same element, the run ends after at most two steps per block and one per
  thread, and when all threads have ended the array holds, for every block of 64
  bytes (the last one may be shorter), the sum of its whole 64-bit words.
\<close>

theorem blockhash_correct:
  assumes "bh_reach f N hs k s" "length f < 2 ^ 64" "length hs = hash_count (length f)"
  shows "(\<forall>t<N. \<forall>c h. bh_pc s t = H_calc c h \<longrightarrow> h < length (bh_hashes s) \<and>
      (\<forall>u<N. \<forall>c'. bh_pc s u = H_calc c' h \<longrightarrow> t = u)) \<and>
    k \<le> 2 * hash_count (length f) + N \<and>
    (0 < N \<and> (\<forall>t<N. bh_pc s t = H_exit) \<longrightarrow>
      bh_hashes s = map (block_hash f) [0..<hash_count (length f)])"
proof -
  note d = bh_invD [OF bh_reach_inv [OF assms]]
  have "bh_hashes s = map (block_hash f) [0..<hash_count (length f)]"
    if N: "0 < N" and ex: "\<forall>t<N. bh_pc s t = H_exit"
  proof (rule nth_equalityI)
    show "length (bh_hashes s) = length (map (block_hash f) [0..<hash_count (length f)])" using d(3) by simp
    fix j
    assume "j < length (bh_hashes s)"
    then have "64 * j < length f" using d(3) hash_count_iff by simp
    also have "\<dots> \<le> 64 * bh_optr s" using d(1) d(7) [OF N] ex N by simp
    finally show "bh_hashes s ! j = map (block_hash f) [0..<hash_count (length f)] ! j"
      using d(6) [of j] ex \<open>j < length (bh_hashes s)\<close> d(3) by auto
  qed
  moreover have "h < length (bh_hashes s)" if "t < N" "bh_pc s t = H_calc c h" for t c h
    using d(4) [OF that] d(2,3) by simp
  moreover have "k \<le> 2 * hash_count (length f) + N" using bh_reach_measure [OF assms] by simp
  ultimately show ?thesis using d(5) by blast
qed

fun bh_run :: "u8 list \<Rightarrow> nat list \<Rightarrow> bh_state \<Rightarrow> bh_state" where
  "bh_run f [] s = s"
| "bh_run f (t # ts) s = (case bh_step f t s of None \<Rightarrow> bh_run f ts s | Some s' \<Rightarrow> bh_run f ts s')"

lemma bh_run_reach: "bh_reach f N hs k s \<Longrightarrow> \<forall>t\<in>set ts. t < N \<Longrightarrow> \<exists>k. bh_reach f N hs k (bh_run f ts s)"
proof (induction ts arbitrary: k s)
  case (Cons t ts)
  then show ?case by (auto intro: bh_reach.thread split: option.split)
qed auto

theorem blockhash_correct_witness:
  "bh_hashes (bh_run (replicate 70 1) [0, 1, 1, 0, 0, 1] (bh_init [0, 0])) =
    map (block_hash (replicate 70 1)) [0..<hash_count 70]"
proof -
  let ?f = "replicate 70 (1 :: u8)"
  let ?s = "bh_run ?f [0, 1, 1, 0, 0, 1] (bh_init [0, 0])"
  obtain k where r: "bh_reach ?f 2 [0, 0] k ?s"
    using bh_run_reach [OF bh_reach.start, of "[0, 1, 1, 0, 0, 1]" 2 ?f "[0, 0]"] by auto
  have e: "\<forall>t<2. bh_pc ?s t = H_exit"
    by (simp add: bh_step_def bh_init_def less_2_cases_iff)
  have "hash_count 70 = 2" by (simp add: hash_count_def)
  with blockhash_correct [OF r] e show ?thesis by simp
qed

end
