(* ===== verification/Pipe.thy ===== *)
theory Pipe
  imports Prelude
begin

text \<open>
  The pipe buffer of the Assignment 2 kernel (gemOS/src/pipe.c): \<open>struct pipe_info\<close>
  and the functions \<open>pipe_read\<close> and \<open>pipe_write\<close> on it, with their three copy loops.
  The locale \<open>byte_queue\<close> states what a pipe promises, a first-in-first-out queue of
  bytes; it is interpreted on the two functions.  The mode of the file object is an
  argument; the checks for null pointers are in theory FileTable.
\<close>

abbreviation EINVAL :: int where "EINVAL \<equiv> 1"
abbreviation EACCES :: int where "EACCES \<equiv> 4"
abbreviation EOTHERS :: int where "EOTHERS \<equiv> 6"
abbreviation O_READ :: u32 where "O_READ \<equiv> 1"
abbreviation O_WRITE :: u32 where "O_WRITE \<equiv> 2"
abbreviation O_CREAT :: u32 where "O_CREAT \<equiv> 8"

subsection \<open>The code\<close>

record pipe_info =
  pi_read :: int
  pi_write :: int
  pi_buff :: "u8 list"
  pi_len :: int
  pi_ropen :: int
  pi_wopen :: int

text \<open>
  The first loop of \<open>pipe_read\<close>; \<open>i - read_start == count\<close> compares a converted \<open>int\<close>
  with a \<open>u32\<close>.  It returns \<open>i\<close>, \<open>j\<close> and the bytes put into the buffer of the caller.
\<close>

function read_loop :: "u8 list \<Rightarrow> int \<Rightarrow> int \<Rightarrow> int \<Rightarrow> int \<Rightarrow> int \<Rightarrow> u8 list \<Rightarrow> int \<times> int \<times> u8 list" where
  "read_loop b start len count i j acc =
    (if i < start + len \<and> (i - start) mod 2 ^ 32 \<noteq> count
     then read_loop b start len count (i + 1) (j + 1) (acc @ [b ! nat i])
     else (i, j, acc))"
  by pat_completeness auto
termination by (relation "measure (\<lambda>(b, start, len, count, i, j, acc). nat (start + len - i))") auto

function shift_loop :: "int \<Rightarrow> int \<Rightarrow> int \<Rightarrow> u8 list \<Rightarrow> u8 list" where
  "shift_loop e i j b = (if i < e then shift_loop e (i + 1) j (b[nat (i - j) := b ! nat i]) else b)"
  by pat_completeness auto
termination by (relation "measure (\<lambda>(e, i, j, b). nat (e - i))") auto

definition pipe_read :: "u32 \<Rightarrow> pipe_info \<Rightarrow> int \<Rightarrow> int \<times> u8 list \<times> pipe_info" where
  "pipe_read mode p count =
    (if pi_ropen p \<noteq> 1 \<or> mode \<noteq> O_READ then (- EACCES, [], p)
     else if (pi_read p + count) mod 2 ^ 32 > pi_len p mod 2 ^ 32 then (- EOTHERS, [], p)
     else let (i, j, out) = read_loop (pi_buff p) (pi_read p) (pi_len p) count (pi_read p) 0 [] in
       (j, out, p\<lparr>pi_buff := shift_loop (pi_read p + pi_len p) i j (pi_buff p),
                  pi_len := pi_len p - j, pi_write := pi_write p - j\<rparr>))"

text \<open>The loop of \<open>pipe_write\<close>; \<open>d\<close> is the memory at the pointer of the caller.\<close>

function write_loop :: "(nat \<Rightarrow> u8) \<Rightarrow> int \<Rightarrow> int \<Rightarrow> int \<Rightarrow> u8 list \<Rightarrow> int \<times> int \<times> u8 list" where
  "write_loop d count i j b =
    (if i < 4096 \<and> j mod 2 ^ 32 \<noteq> count
     then write_loop d count (i + 1) (j + 1) (b[nat i := d (nat j)])
     else (i, j, b))"
  by pat_completeness auto
termination by (relation "measure (\<lambda>(d, count, i, j, b). nat (4096 - i))") auto

definition pipe_write :: "u32 \<Rightarrow> pipe_info \<Rightarrow> (nat \<Rightarrow> u8) \<Rightarrow> int \<Rightarrow> int \<times> pipe_info" where
  "pipe_write mode p d count =
    (if pi_wopen p \<noteq> 1 \<or> mode \<noteq> O_WRITE then (- EACCES, p)
     else if (pi_write p + count) mod 2 ^ 32 > 4096 then (- EOTHERS, p)
     else let (i, j, b) = write_loop d count (pi_write p) 0 (pi_buff p) in
       (j, p\<lparr>pi_buff := b, pi_len := pi_len p + j, pi_write := i\<rparr>))"

declare read_loop.simps [simp del] shift_loop.simps [simp del] write_loop.simps [simp del]

subsection \<open>The loops\<close>

definition pipe_ok :: "pipe_info \<Rightarrow> bool" where
  "pipe_ok p \<longleftrightarrow> pi_read p = 0 \<and> 0 \<le> pi_len p \<and> pi_len p \<le> 4096 \<and> pi_write p = pi_len p \<and>
    length (pi_buff p) = 4096"

definition contents :: "pipe_info \<Rightarrow> u8 list" where
  "contents p = take (nat (pi_len p)) (pi_buff p)"

lemma read_loop_eq:
  assumes "i \<le> n" "n \<le> m" "m \<le> length b" "m < 2 ^ 32"
  shows "read_loop b 0 (int m) (int n) (int i) (int i) acc = (int n, int n, acc @ take (n - i) (drop i b))"
  using assms
proof (induction "n - i" arbitrary: i acc)
  case 0
  then show ?case by (subst read_loop.simps) simp
next
  case (Suc k)
  then have "i < n" "i < length b" by auto
  then have "take (n - i) (drop i b) = b ! i # take (n - Suc i) (drop (Suc i) b)"
    by (metis Cons_nth_drop_Suc Suc_diff_Suc take_Suc_Cons)
  moreover have "read_loop b 0 (int m) (int n) (int i) (int i) acc =
      read_loop b 0 (int m) (int n) (int (Suc i)) (int (Suc i)) (acc @ [b ! i])"
    using Suc.prems \<open>i < n\<close> by (subst read_loop.simps) (simp add: add.commute)
  ultimately show ?case using Suc.hyps(1) [of "Suc i"] Suc.hyps(2) Suc.prems \<open>i < n\<close> by simp
qed

lemma shift_loop_eq:
  assumes "n \<le> i" "i \<le> m" "m \<le> length b"
  shows "length (shift_loop (int m) (int i) (int n) b) = length b \<and>
    (\<forall>k<m - n. shift_loop (int m) (int i) (int n) b ! k = (if k < i - n then b ! k else b ! (k + n)))"
  using assms
proof (induction "m - i" arbitrary: i b)
  case 0
  then show ?case by (subst shift_loop.simps, subst shift_loop.simps) simp
next
  case (Suc d)
  have im: "i < m" using Suc.hyps(2) by simp
  let ?b = "b[i - n := b ! i]"
  have step: "shift_loop (int m) (int i) (int n) b = shift_loop (int m) (int (Suc i)) (int n) ?b"
    using Suc.prems(1) im by (subst shift_loop.simps) (simp add: add.commute nat_diff_distrib)
  have IH: "length (shift_loop (int m) (int (Suc i)) (int n) ?b) = length ?b \<and>
      (\<forall>k<m - n. shift_loop (int m) (int (Suc i)) (int n) ?b ! k =
        (if k < Suc i - n then ?b ! k else ?b ! (k + n)))"
    by (rule Suc.hyps(1)) (use Suc.prems Suc.hyps(2) im in auto)
  have "(if k < Suc i - n then ?b ! k else ?b ! (k + n)) = (if k < i - n then b ! k else b ! (k + n))" for k
    using Suc.prems im by (auto simp: nth_list_update)
  with IH step show ?case by simp
qed

lemma write_loop_eq:
  assumes "i + n \<le> 4096" "length b = 4096" "n < 2 ^ 32" "int n = c \<or> i + n = 4096 \<and> int n < c" "c < 2 ^ 32"
    and "j \<le> n"
  shows "write_loop d c (int (i + j)) (int j) b =
    (int (i + n), int n, take (i + j) b @ map d [j..<n] @ drop (i + n) b)"
  using assms
proof (induction "n - j" arbitrary: j b)
  case 0
  then show ?case by (subst write_loop.simps) auto
next
  case (Suc k)
  have jn: "j < n" using Suc.hyps(2) by simp
  let ?b = "b[i + j := d j]"
  have ne: "int j mod 2 ^ 32 \<noteq> c" using Suc.prems(3,4) jn by auto
  have step: "write_loop d c (int (i + j)) (int j) b = write_loop d c (int (i + Suc j)) (int (Suc j)) ?b"
    using Suc.prems(1) jn ne by (subst write_loop.simps) (simp add: ac_simps nat_add_distrib)
  have IH: "write_loop d c (int (i + Suc j)) (int (Suc j)) ?b =
      (int (i + n), int n, take (i + Suc j) ?b @ map d [Suc j..<n] @ drop (i + n) ?b)"
    by (rule Suc.hyps(1)) (use Suc.prems Suc.hyps(2) jn in auto)
  have "take (i + Suc j) ?b = take (i + j) b @ [d j]"
    using Suc.prems(1,2) jn by (simp add: take_Suc_conv_app_nth)
  moreover have "drop (i + n) ?b = drop (i + n) b" using jn by simp
  moreover have "[j..<n] = j # [Suc j..<n]" using jn by (simp add: upt_conv_Cons)
  ultimately show ?case using step IH by simp
qed

subsection \<open>Reading and writing\<close>

lemma contents_length: "pipe_ok p \<Longrightarrow> length (contents p) = nat (pi_len p)"
  by (auto simp: contents_def pipe_ok_def min_def)

lemma pipe_read_ok:
  assumes p: "pipe_ok p" and o: "pi_ropen p = 1" "mode = O_READ" and c: "0 \<le> count" "count < 2 ^ 32"
  shows "pi_len p < count \<Longrightarrow> pipe_read mode p count = (- EOTHERS, [], p)"
    and "count \<le> pi_len p \<Longrightarrow> \<exists>p'. pipe_read mode p count = (count, take (nat count) (contents p), p') \<and>
      pipe_ok p' \<and> contents p' = drop (nat count) (contents p) \<and>
      pi_ropen p' = pi_ropen p \<and> pi_wopen p' = pi_wopen p"
proof -
  obtain m n where mn: "pi_len p = int m" "count = int n" using p c by (metis pipe_ok_def nonneg_int_cases)
  have ok: "pi_read p = 0" "m \<le> 4096" "pi_write p = int m" "length (pi_buff p) = 4096"
    using p mn by (auto simp: pipe_ok_def)
  show "pi_len p < count \<Longrightarrow> pipe_read mode p count = (- EOTHERS, [], p)"
    using o c ok mn by (simp add: pipe_read_def)
  assume "count \<le> pi_len p"
  then have nm: "n \<le> m" using mn by simp
  let ?b = "shift_loop (int m) (int n) (int n) (pi_buff p)"
  let ?p = "p\<lparr>pi_buff := ?b, pi_len := int m - int n, pi_write := int m - int n\<rparr>"
  note sh = shift_loop_eq [of n n m "pi_buff p"]
  have "read_loop (pi_buff p) 0 (int m) (int n) 0 0 [] = (int n, int n, take n (pi_buff p))"
    using read_loop_eq [of 0 n m "pi_buff p" "[]"] nm ok by simp
  then have "pipe_read mode p count = (count, take n (pi_buff p), ?p)"
    using o ok mn nm c by (simp add: pipe_read_def)
  moreover have "take n (pi_buff p) = take (nat count) (contents p)" using nm mn by (simp add: contents_def min_absorb1)
  moreover have "pipe_ok ?p" using sh ok nm by (simp add: pipe_ok_def)
  moreover have "contents ?p = drop (nat count) (contents p)"
  proof (rule nth_equalityI)
    show "length (contents ?p) = length (drop (nat count) (contents p))"
      using sh ok nm mn by (simp add: contents_def)
    fix k
    assume "k < length (contents ?p)"
    then have "k < m - n" using ok nm mn sh by (simp add: contents_def)
    then show "contents ?p ! k = drop (nat count) (contents p) ! k"
      using sh ok nm mn by (simp add: contents_def add.commute)
  qed
  ultimately show "\<exists>p'. pipe_read mode p count = (count, take (nat count) (contents p), p') \<and> pipe_ok p' \<and>
      contents p' = drop (nat count) (contents p) \<and> pi_ropen p' = pi_ropen p \<and> pi_wopen p' = pi_wopen p" by auto
qed

lemma pipe_write_ok:
  assumes p: "pipe_ok p" and o: "pi_wopen p = 1" "mode = O_WRITE" and c: "0 \<le> count" "count < 2 ^ 32"
  shows "4096 < (pi_len p + count) mod 2 ^ 32 \<Longrightarrow> pipe_write mode p d count = (- EOTHERS, p)"
    and "(pi_len p + count) mod 2 ^ 32 \<le> 4096 \<Longrightarrow>
      \<exists>p'. pipe_write mode p d count = (min count (4096 - pi_len p), p') \<and> pipe_ok p' \<and>
        contents p' = contents p @ map d [0..<nat (min count (4096 - pi_len p))] \<and>
        pi_ropen p' = pi_ropen p \<and> pi_wopen p' = pi_wopen p"
proof -
  obtain m where m: "pi_len p = int m" using p by (metis pipe_ok_def nonneg_int_cases)
  have ok: "pi_read p = 0" "m \<le> 4096" "pi_write p = int m" "length (pi_buff p) = 4096"
    using p m by (auto simp: pipe_ok_def)
  show "4096 < (pi_len p + count) mod 2 ^ 32 \<Longrightarrow> pipe_write mode p d count = (- EOTHERS, p)"
    using o ok m by (simp add: pipe_write_def)
  assume le: "(pi_len p + count) mod 2 ^ 32 \<le> 4096"
  define n where "n = nat (min count (4096 - pi_len p))"
  have n: "min count (4096 - pi_len p) = int n" using c m ok by (simp add: n_def)
  have mn: "m + n \<le> 4096" "int n = count \<or> m + n = 4096 \<and> int n < count" using n m ok by (auto simp: min_def split: if_splits)
  let ?b = "take m (pi_buff p) @ map d [0..<n] @ drop (m + n) (pi_buff p)"
  let ?p = "p\<lparr>pi_buff := ?b, pi_len := int m + int n, pi_write := int (m + n)\<rparr>"
  have "write_loop d count (int m) 0 (pi_buff p) = (int (m + n), int n, ?b)"
    using write_loop_eq [of m n "pi_buff p" count 0 d] mn ok c by simp
  then have "pipe_write mode p d count = (int n, ?p)"
    using o ok m le by (simp add: pipe_write_def)
  moreover have "pipe_ok ?p" using ok mn by (simp add: pipe_ok_def)
  moreover have "contents ?p = contents p @ map d [0..<n]"
    using ok mn m by (simp add: contents_def nat_add_distrib)
  ultimately show "\<exists>p'. pipe_write mode p d count = (min count (4096 - pi_len p), p') \<and> pipe_ok p' \<and>
      contents p' = contents p @ map d [0..<nat (min count (4096 - pi_len p))] \<and>
      pi_ropen p' = pi_ropen p \<and> pi_wopen p' = pi_wopen p" unfolding n by auto
qed

subsection \<open>The promise of a pipe\<close>

datatype pipe_call = Wr "nat \<Rightarrow> u8" int | Rd int

fun call_ok :: "pipe_call \<Rightarrow> bool" where
  "call_ok (Wr d n) \<longleftrightarrow> 0 \<le> n \<and> n < 2 ^ 32"
| "call_ok (Rd n) \<longleftrightarrow> 0 \<le> n \<and> n < 2 ^ 32"

text \<open>A sequence of calls: the bytes accepted, the bytes delivered and the final state.\<close>

fun run_calls :: "('q \<Rightarrow> (nat \<Rightarrow> u8) \<Rightarrow> int \<Rightarrow> int \<times> 'q) \<Rightarrow> ('q \<Rightarrow> int \<Rightarrow> int \<times> u8 list \<times> 'q) \<Rightarrow>
    'q \<Rightarrow> pipe_call list \<Rightarrow> u8 list \<times> u8 list \<times> 'q" where
  "run_calls enq deq q [] = ([], [], q)"
| "run_calls enq deq q (Wr d n # cs) =
    (let (r, q1) = enq q d n; (w, o', q2) = run_calls enq deq q1 cs in (map d [0..<nat r] @ w, o', q2))"
| "run_calls enq deq q (Rd n # cs) =
    (let (r, bs, q1) = deq q n; (w, o', q2) = run_calls enq deq q1 cs in (w, bs @ o', q2))"

locale byte_queue =
  fixes enq :: "'q \<Rightarrow> (nat \<Rightarrow> u8) \<Rightarrow> int \<Rightarrow> int \<times> 'q"
    and deq :: "'q \<Rightarrow> int \<Rightarrow> int \<times> u8 list \<times> 'q"
    and invar :: "'q \<Rightarrow> bool"
    and bytes :: "'q \<Rightarrow> u8 list"
  assumes enq_law: "invar q \<Longrightarrow> 0 \<le> n \<Longrightarrow> n < 2 ^ 32 \<Longrightarrow> enq q d n = (r, q') \<Longrightarrow>
      invar q' \<and> bytes q' = bytes q @ map d [0..<nat r]"
    and deq_law: "invar q \<Longrightarrow> 0 \<le> n \<Longrightarrow> n < 2 ^ 32 \<Longrightarrow> deq q n = (r, bs, q') \<Longrightarrow>
      invar q' \<and> bytes q = bs @ bytes q'"
begin

lemma fifo:
  "invar q \<Longrightarrow> list_all call_ok cs \<Longrightarrow> run_calls enq deq q cs = (w, out, q') \<Longrightarrow>
    invar q' \<and> bytes q @ w = out @ bytes q'"
proof (induction cs arbitrary: q w out q')
  case (Cons c cs)
  show ?case
  proof (cases c)
    case (Wr d n)
    obtain r q1 where e: "enq q d n = (r, q1)" by (cases "enq q d n")
    obtain w1 o1 q2 where u: "run_calls enq deq q1 cs = (w1, o1, q2)" by (cases "run_calls enq deq q1 cs")
    have q1: "invar q1" "bytes q1 = bytes q @ map d [0..<nat r]"
      using enq_law [OF Cons.prems(1) _ _ e] Cons.prems(2) Wr by auto
    have "w = map d [0..<nat r] @ w1" "out = o1" "q' = q2" using Cons.prems(3) Wr e u by auto
    with Cons.IH [OF q1(1) _ u] Cons.prems(2) q1(2) show ?thesis by auto
  next
    case (Rd n)
    obtain r bs q1 where e: "deq q n = (r, bs, q1)" by (cases "deq q n")
    obtain w1 o1 q2 where u: "run_calls enq deq q1 cs = (w1, o1, q2)" by (cases "run_calls enq deq q1 cs")
    have q1: "invar q1" "bytes q = bs @ bytes q1"
      using deq_law [OF Cons.prems(1) _ _ e] Cons.prems(2) Rd by auto
    have "w = w1" "out = bs @ o1" "q' = q2" using Cons.prems(3) Rd e u by auto
    with Cons.IH [OF q1(1) _ u] Cons.prems(2) q1(2) show ?thesis by auto
  qed
qed auto

end

interpretation gempipe: byte_queue "pipe_write wmode" "pipe_read rmode" pipe_ok contents
  for wmode rmode
proof
  fix p d n r p'
  assume p: "pipe_ok p" and n: "0 \<le> n" "n < 2 ^ 32" and e: "pipe_write wmode p d n = (r, p')"
  show "pipe_ok p' \<and> contents p' = contents p @ map d [0..<nat r]"
  proof (cases "pi_wopen p = 1 \<and> wmode = O_WRITE")
    case True
    then show ?thesis
      using pipe_write_ok [OF p _ _ n, of wmode d] e p by (cases "4096 < (pi_len p + n) mod 2 ^ 32") auto
  next
    case False
    then have "r = - EACCES" "p' = p" using e by (auto simp: pipe_write_def)
    with p show ?thesis by simp
  qed
next
  fix p n r bs p'
  assume p: "pipe_ok p" and n: "0 \<le> n" "n < 2 ^ 32" and e: "pipe_read rmode p n = (r, bs, p')"
  show "pipe_ok p' \<and> contents p = bs @ contents p'"
  proof (cases "pi_ropen p = 1 \<and> rmode = O_READ")
    case True
    then show ?thesis using pipe_read_ok [OF p _ _ n, of rmode] e p by (cases "pi_len p < n") auto
  next
    case False
    then have "bs = []" "p' = p" using e by (auto simp: pipe_read_def)
    with p show ?thesis by simp
  qed
qed

text \<open>
  C33. A pipe is a first-in-first-out queue of bytes: for every sequence of calls
  of \<open>pipe_write\<close> and \<open>pipe_read\<close> with any counts, refused calls included, what was in
  the pipe followed by all bytes accepted equals all bytes delivered followed by
  what is in the pipe at the end; never more than 4096 bytes are inside.
\<close>

theorem pipe_fifo:
  assumes "pipe_ok p" "list_all call_ok cs" "run_calls (pipe_write m1) (pipe_read m2) p cs = (w, out, p')"
  shows "contents p @ w = out @ contents p' \<and> pipe_ok p' \<and> length (contents p') \<le> 4096"
  using gempipe.fifo [OF assms] by (auto simp: contents_def pipe_ok_def)

theorem pipe_fifo_witness:
  "\<exists>w out p'. run_calls (pipe_write O_WRITE) (pipe_read O_READ)
      \<lparr>pi_read = 0, pi_write = 0, pi_buff = replicate 4096 0, pi_len = 0, pi_ropen = 1, pi_wopen = 1\<rparr>
      [Wr (\<lambda>i. of_nat i) 3, Rd 2] = (w, out, p') \<and> w = out @ contents p'"
proof -
  let ?p = "\<lparr>pi_read = 0, pi_write = 0, pi_buff = replicate 4096 0, pi_len = 0, pi_ropen = 1, pi_wopen = 1\<rparr>"
  obtain w out p' where e: "run_calls (pipe_write O_WRITE) (pipe_read O_READ) ?p [Wr (\<lambda>i. of_nat i) 3, Rd 2] = (w, out, p')"
    by (metis prod_cases3)
  have ok: "pipe_ok ?p" "contents ?p = []" by (simp_all add: pipe_ok_def contents_def)
  have "contents ?p @ w = out @ contents p' \<and> pipe_ok p' \<and> length (contents p') \<le> 4096"
    by (rule pipe_fifo [OF ok(1) _ e]) simp
  with ok(2) e show ?thesis by auto
qed

text \<open>
  Success and failure of a single call: \<open>pipe_read\<close> fails exactly when more bytes
  are asked for than are in the pipe and otherwise delivers exactly the number
  asked for; \<open>pipe_write\<close> with room for all bytes stores all of them; a write that
  does not fit is refused and changes nothing.  The sum in the test of \<open>pipe_write\<close>
  is a 32-bit sum: a count that makes it wrap is accepted and fills the buffer.
\<close>

theorem pipe_calls:
  assumes p: "pipe_ok p" and o: "pi_ropen p = 1" "pi_wopen p = 1" and c: "0 \<le> count" "count < 2 ^ 32"
  shows "(fst (pipe_read O_READ p count) = (if count \<le> pi_len p then count else - EOTHERS)) \<and>
    (fst (pipe_write O_WRITE p d count) =
      (if pi_len p + count \<le> 4096 then count
       else if pi_len p + count < 2 ^ 32 then - EOTHERS else 4096 - pi_len p)) \<and>
    (pi_len p + count < 2 ^ 32 \<longrightarrow> 4096 < pi_len p + count \<longrightarrow> snd (pipe_write O_WRITE p d count) = p)"
proof -
  have b: "0 \<le> pi_len p" "pi_len p \<le> 4096" using p by (auto simp: pipe_ok_def)
  have r: "fst (pipe_read O_READ p count) = (if count \<le> pi_len p then count else - EOTHERS)"
    using pipe_read_ok [OF p o(1) refl c] by (cases "count \<le> pi_len p") auto
  note w = pipe_write_ok [OF p o(2) refl c, of d]
  show ?thesis
  proof (cases "pi_len p + count < 2 ^ 32")
    case True
    then have "(pi_len p + count) mod 2 ^ 32 = pi_len p + count" using b c by simp
    with w r True show ?thesis by (cases "pi_len p + count \<le> 4096") (auto simp: min_def)
  next
    case False
    have "(pi_len p + count) mod 2 ^ 32 = (pi_len p + count - 2 ^ 32) mod 2 ^ 32" by (rule minus_mod_self2 [symmetric])
    also have "\<dots> = pi_len p + count - 2 ^ 32" by (rule mod_pos_pos_trivial) (use False b c in auto)
    finally have "(pi_len p + count) mod 2 ^ 32 = pi_len p + count - 2 ^ 32" .
    with w(2) r False b c show ?thesis by (auto simp: min_def)
  qed
qed

theorem pipe_calls_witness:
  "fst (pipe_read O_READ \<lparr>pi_read = 0, pi_write = 2, pi_buff = replicate 4096 7, pi_len = 2, pi_ropen = 1, pi_wopen = 1\<rparr> 3) = - 6 \<and>
   fst (pipe_write O_WRITE \<lparr>pi_read = 0, pi_write = 2, pi_buff = replicate 4096 7, pi_len = 2, pi_ropen = 1, pi_wopen = 1\<rparr> (\<lambda>i. 0) 3) = 3"
  using pipe_calls [of "\<lparr>pi_read = 0, pi_write = 2, pi_buff = replicate 4096 7, pi_len = 2, pi_ropen = 1, pi_wopen = 1\<rparr>" 3 "\<lambda>i. 0"]
  by (simp add: pipe_ok_def)

end
