(* ===== verification/FlatFS.thy ===== *)
theory FlatFS
  imports PhysMem
begin

text \<open>
  The file system of the Assignment 2 kernel (gemOS/src/fs.c): a flat directory of 32
  inodes, each with one page of storage that is reserved at boot.  The state is the
  super block with its inodes and the bytes of physical memory.  C integers are
  integers with the reduction written out; file names are the characters before
  the terminating null byte.  A function returns \<open>None\<close> where the source follows a
  null pointer, writes behind the end of an array or copies a number of bytes that
  was negative before its conversion to \<open>u64\<close>.

  The list of bytes of a file is the abstract view.  The locale \<open>byte_file\<close> states
  what reading and writing promise about it.
\<close>

subsection \<open>The code\<close>

definition NUM_FILES :: nat where "NUM_FILES = 32"

record inode =
  i_valid :: int
  i_name :: string
  i_mode :: u32
  i_no :: int
  i_ref :: int
  i_s :: int
  i_e :: int
  i_max :: int
  i_size :: int

record super_block =
  sb_num :: int
  sb_inode :: "nat \<Rightarrow> inode"
  sb_mem :: "nat \<Rightarrow> u8"

fun strcmp :: "string \<Rightarrow> string \<Rightarrow> int" where
  "strcmp [] [] = 0"
| "strcmp (x # xs) (y # ys) = (if x = y then strcmp xs ys else - 1)"
| "strcmp _ _ = - 1"

text \<open>\<open>os_pfn_alloc\<close> for the two regions of the file system, on the page list of the region.\<close>

definition pfn_alloc :: "page_list \<Rightarrow> nat \<times> page_list" where
  "pfn_alloc pgl = (if free_pages pgl = 0 then (0, pgl) else get_free_page pgl)"

definition get_contigous_pages :: "nat \<Rightarrow> page_list \<Rightarrow> (nat \<Rightarrow> u8) \<Rightarrow> nat \<times> page_list \<times> (nat \<Rightarrow> u8)" where
  "get_contigous_pages n pgl mem =
    (let (pfn, pgl1) = pfn_alloc pgl;
         pgl2 = ((\<lambda>p. snd (pfn_alloc p)) ^^ (n - 1)) pgl1;
         first = pfn * 4096
     in (first, pgl2, \<lambda>a. if first \<le> a \<and> a < first + 4096 * n then 0 else mem a))"

definition fresh_inode :: "nat \<Rightarrow> nat \<Rightarrow> inode" where
  "fresh_inode i s = \<lparr>i_valid = 0, i_name = [], i_mode = 0, i_no = int i, i_ref = 0,
     i_s = int s mod 2 ^ 32, i_e = (int s + 4096) mod 2 ^ 32, i_max = int s mod 2 ^ 32, i_size = 0\<rparr>"

definition alloc_step :: "nat \<Rightarrow> nat \<Rightarrow> page_list \<times> super_block \<Rightarrow> page_list \<times> super_block" where
  "alloc_step start i = (\<lambda>(pgl, sb).
    if i = 0 then
      (let (p, pgl', mem) = get_contigous_pages 0 pgl (sb_mem sb)
       in (pgl', sb\<lparr>sb_inode := (sb_inode sb)(i := fresh_inode i start), sb_mem := mem\<rparr>))
    else
      (let (p, pgl', mem) = get_contigous_pages 1 pgl (sb_mem sb)
       in (pgl', sb\<lparr>sb_inode := (sb_inode sb)(i := fresh_inode i p), sb_mem := mem\<rparr>)))"

definition alloc_inodes :: "page_list \<Rightarrow> super_block \<Rightarrow> page_list \<times> super_block" where
  "alloc_inodes pgl sb =
    (let (start, pgl1, mem) = get_contigous_pages 1 pgl (sb_mem sb)
     in fold (alloc_step start) [0..<NUM_FILES] (pgl1, sb\<lparr>sb_mem := mem\<rparr>))"

definition init_file_system :: "page_list \<Rightarrow> super_block \<Rightarrow> page_list \<times> super_block" where
  "init_file_system pgl sb = (let (pgl', sb') = alloc_inodes pgl sb in (pgl', sb'\<lparr>sb_num := 0\<rparr>))"

definition flat_lookup_inode :: "super_block \<Rightarrow> string \<Rightarrow> nat option" where
  "flat_lookup_inode sb name =
    find (\<lambda>i. i_valid (sb_inode sb i) \<noteq> 0 \<and> strcmp (i_name (sb_inode sb i)) name = 0) [0..<NUM_FILES]"

definition flat_get_inode_no :: "super_block \<Rightarrow> string \<Rightarrow> int" where
  "flat_get_inode_no sb name =
    (case find (\<lambda>i. i_valid (sb_inode sb i) \<noteq> 0 \<and> strcmp (i_name (sb_inode sb i)) name = 0) [0..<NUM_FILES] of
       Some i \<Rightarrow> int i | None \<Rightarrow> - 1)"

definition get_free_inode :: "super_block \<Rightarrow> int" where
  "get_free_inode sb =
    (case find (\<lambda>i. i_valid (sb_inode sb i) = 0) [0..<NUM_FILES] of Some i \<Rightarrow> int i | None \<Rightarrow> - 1)"

text \<open>The result of \<open>get_free_inode\<close> is stored in a \<open>u32\<close>; a name of 256 characters does not fit.\<close>

definition flat_create_inode :: "super_block \<Rightarrow> string \<Rightarrow> u32 \<Rightarrow> (int \<times> super_block) option" where
  "flat_create_inode sb name mode =
    (let no = get_free_inode sb mod 2 ^ 32 in
     if flat_lookup_inode sb name \<noteq> None then Some (- 1, sb)
     else if 0 \<le> no \<and> no < int NUM_FILES then
       (let n = sb_inode sb (nat no) in
        if 256 \<le> length name then None
        else Some (no, sb\<lparr>sb_inode := (sb_inode sb)(nat no := n\<lparr>i_valid := 1, i_mode := mode, i_name := name,
                            i_max := i_s n, i_size := 0, i_ref := 0\<rparr>),
                          sb_num := s32 (sb_num sb + 1)\<rparr>))
     else Some (- 1, sb))"

definition flat_remove_inode :: "super_block \<Rightarrow> nat option \<Rightarrow> (int \<times> super_block) option" where
  "flat_remove_inode sb ino =
    (case ino of None \<Rightarrow> None
     | Some i \<Rightarrow>
       (let n = sb_inode sb i in
        Some (0, sb\<lparr>sb_inode := (sb_inode sb)(i := n\<lparr>i_valid := 0, i_name := [], i_max := i_s n,
                                                     i_size := 0, i_mode := 0\<rparr>),
                    sb_num := s32 (sb_num sb - 1)\<rparr>)))"

definition flat_get_num_files :: "super_block \<Rightarrow> int" where
  "flat_get_num_files sb = sb_num sb"

text \<open>\<open>s_pos + *offp + i\<close> is a sum of \<open>u64\<close> values.\<close>

definition flat_addr :: "inode \<Rightarrow> int \<Rightarrow> nat \<Rightarrow> nat" where
  "flat_addr n off i = nat ((i_s n + off + int i) mod 2 ^ 64)"

definition flat_read :: "super_block \<Rightarrow> nat \<Rightarrow> int \<Rightarrow> int \<Rightarrow> (int \<times> u8 list) option" where
  "flat_read sb ino count off =
    (let n = sb_inode sb ino; remain_len = i_size n - off in
     if remain_len \<le> 0 then Some (0, [])
     else let size = (if count > remain_len then remain_len else count) in
       if size < 0 then None
       else Some (size, map (\<lambda>i. sb_mem sb (flat_addr n off i)) [0..<nat size]))"

fun put_bytes :: "inode \<Rightarrow> int \<Rightarrow> (nat \<Rightarrow> u8) \<Rightarrow> nat \<Rightarrow> (nat \<Rightarrow> u8) \<Rightarrow> nat \<Rightarrow> u8" where
  "put_bytes n off d 0 mem = mem"
| "put_bytes n off d (Suc k) mem = (put_bytes n off d k mem)(flat_addr n off k := d k)"

definition flat_write :: "super_block \<Rightarrow> nat \<Rightarrow> (nat \<Rightarrow> u8) \<Rightarrow> int \<Rightarrow> int \<Rightarrow> (int \<times> super_block) option" where
  "flat_write sb ino d count off =
    (let n = sb_inode sb ino; max_len = i_e n - off - i_s n in
     if count > max_len then Some (- 1, sb)
     else if count < 0 then None
     else
       let mem = put_bytes n off d (nat count) (sb_mem sb);
           top = (i_s n + off + count) mod 2 ^ 32;
           n1 = (if top > i_max n then n\<lparr>i_max := top\<rparr> else n)
       in Some (count, sb\<lparr>sb_inode := (sb_inode sb)(ino := n1\<lparr>i_size := (i_max n1 - i_s n1) mod 2 ^ 32\<rparr>),
                          sb_mem := mem\<rparr>))"

definition get_inode :: "super_block \<Rightarrow> nat \<Rightarrow> int \<times> super_block" where
  "get_inode sb ino =
    (let r = (i_ref (sb_inode sb ino) + 1) mod 2 ^ 32
     in (s32 r, sb\<lparr>sb_inode := (sb_inode sb)(ino := (sb_inode sb ino)\<lparr>i_ref := r\<rparr>)\<rparr>))"

definition put_inode :: "super_block \<Rightarrow> nat \<Rightarrow> int \<times> super_block" where
  "put_inode sb ino =
    (let r = (i_ref (sb_inode sb ino) - 1) mod 2 ^ 32
     in (s32 r, sb\<lparr>sb_inode := (sb_inode sb)(ino := (sb_inode sb ino)\<lparr>i_ref := r\<rparr>)\<rparr>))"

definition flat_open :: "super_block \<Rightarrow> nat \<Rightarrow> int \<times> super_block" where
  "flat_open sb ino = (0, snd (get_inode sb ino))"

definition flat_close :: "super_block \<Rightarrow> nat \<Rightarrow> int \<times> super_block" where
  "flat_close sb ino = (0, snd (put_inode sb ino))"

definition lookup_inode :: "super_block \<Rightarrow> string \<Rightarrow> nat option" where
  "lookup_inode sb name = flat_lookup_inode sb name"

definition create_inode :: "super_block \<Rightarrow> string \<Rightarrow> u64 \<Rightarrow> (nat option \<times> super_block) option" where
  "create_inode sb name mode =
    (case flat_create_inode sb name (ucast mode) of None \<Rightarrow> None
     | Some (no, sb') \<Rightarrow> Some (if no < 0 then None else Some (nat no), sb'))"

subsection \<open>The invariant\<close>

text \<open>
  Every inode has its own 4096 bytes, \<open>max_pos\<close> and \<open>file_size\<close> agree and stay inside,
  the names in use are different, and \<open>num_files\<close> counts them.
\<close>

definition inode_ok :: "inode \<Rightarrow> bool" where
  "inode_ok n \<longleftrightarrow> 0 \<le> i_s n \<and> i_s n + 4096 < 2 ^ 32 \<and> i_e n = i_s n + 4096 \<and>
     0 \<le> i_size n \<and> i_size n \<le> 4096 \<and> i_max n = i_s n + i_size n"

definition extents_ok :: "super_block \<Rightarrow> bool" where
  "extents_ok sb \<longleftrightarrow> (\<forall>i<NUM_FILES. inode_ok (sb_inode sb i)) \<and>
     (\<forall>i<NUM_FILES. \<forall>j<NUM_FILES. i \<noteq> j \<longrightarrow>
        i_e (sb_inode sb i) \<le> i_s (sb_inode sb j) \<or> i_e (sb_inode sb j) \<le> i_s (sb_inode sb i))"

definition valid_inodes :: "super_block \<Rightarrow> nat set" where
  "valid_inodes sb = {i. i < NUM_FILES \<and> i_valid (sb_inode sb i) \<noteq> 0}"

definition directory_ok :: "super_block \<Rightarrow> bool" where
  "directory_ok sb \<longleftrightarrow> inj_on (\<lambda>i. i_name (sb_inode sb i)) (valid_inodes sb) \<and>
     sb_num sb = int (card (valid_inodes sb))"

definition flatfs_ok :: "super_block \<Rightarrow> bool" where
  "flatfs_ok sb \<longleftrightarrow> extents_ok sb \<and> directory_ok sb"

definition file_bytes :: "super_block \<Rightarrow> nat \<Rightarrow> u8 list" where
  "file_bytes sb i = map (\<lambda>k. sb_mem sb (flat_addr (sb_inode sb i) 0 k)) [0..<nat (i_size (sb_inode sb i))]"

lemma extents_upd:
  assumes ok: "extents_ok sb" and i: "i < NUM_FILES" and n: "inode_ok n" "i_s n = i_s (sb_inode sb i)"
    and u: "sb_inode sb' = (sb_inode sb)(i := n)"
  shows "extents_ok sb'"
proof -
  have e: "i_e n = i_e (sb_inode sb i)" using ok i n by (simp add: extents_ok_def inode_ok_def)
  have s: "i_s (sb_inode sb' j) = i_s (sb_inode sb j)" "i_e (sb_inode sb' j) = i_e (sb_inode sb j)" for j
    using e n(2) u by simp_all
  have "inode_ok (sb_inode sb' j)" if "j < NUM_FILES" for j using ok n(1) u that by (simp add: extents_ok_def)
  moreover have "\<forall>i<NUM_FILES. \<forall>j<NUM_FILES. i \<noteq> j \<longrightarrow>
      i_e (sb_inode sb i) \<le> i_s (sb_inode sb j) \<or> i_e (sb_inode sb j) \<le> i_s (sb_inode sb i)"
    using ok by (simp add: extents_ok_def)
  ultimately show ?thesis unfolding extents_ok_def s by blast
qed

subsection \<open>Names\<close>

lemma strcmp_0: "strcmp s d = 0 \<longleftrightarrow> s = d"
  by (induction s d rule: strcmp.induct) auto

lemma find_upt_Some:
  "find P [0..<n] = Some i \<longleftrightarrow> i < n \<and> P i \<and> (\<forall>j<i. \<not> P j)"
  by (auto simp: find_Some_iff)

lemma find_upt_None: "find P [0..<n] = None \<longleftrightarrow> (\<forall>i<n. \<not> P i)"
  by (auto simp: find_None_iff)

lemma lookup_Some:
  assumes "directory_ok sb"
  shows "flat_lookup_inode sb name = Some i \<longleftrightarrow> i \<in> valid_inodes sb \<and> i_name (sb_inode sb i) = name"
proof
  assume "flat_lookup_inode sb name = Some i"
  then show "i \<in> valid_inodes sb \<and> i_name (sb_inode sb i) = name"
    by (auto simp: flat_lookup_inode_def find_upt_Some strcmp_0 valid_inodes_def)
next
  assume i: "i \<in> valid_inodes sb \<and> i_name (sb_inode sb i) = name"
  have "j = i" if "j < NUM_FILES" "i_valid (sb_inode sb j) \<noteq> 0" "i_name (sb_inode sb j) = name" for j
    using assms i that unfolding directory_ok_def inj_on_def valid_inodes_def by blast
  then have "j < i \<Longrightarrow> \<not> (i_valid (sb_inode sb j) \<noteq> 0 \<and> i_name (sb_inode sb j) = name)" for j
    using i by (metis less_irrefl less_trans mem_Collect_eq valid_inodes_def)
  with i show "flat_lookup_inode sb name = Some i"
    by (simp add: flat_lookup_inode_def find_upt_Some strcmp_0 valid_inodes_def)
qed

lemma lookup_None:
  "flat_lookup_inode sb name = None \<longleftrightarrow> (\<forall>i\<in>valid_inodes sb. i_name (sb_inode sb i) \<noteq> name)"
  by (auto simp: flat_lookup_inode_def find_upt_None strcmp_0 valid_inodes_def)

lemma valid_finite [simp]: "finite (valid_inodes sb)"
  by (rule finite_subset [of _ "{..<NUM_FILES}"]) (auto simp: valid_inodes_def)

lemma valid_card: "card (valid_inodes sb) \<le> NUM_FILES"
  using card_mono [of "{..<NUM_FILES}" "valid_inodes sb"] by (auto simp: valid_inodes_def)

lemma get_free_inode_cases:
  "get_free_inode sb = - 1 \<and> valid_inodes sb = {..<NUM_FILES} \<or>
   (\<exists>i. get_free_inode sb = int i \<and> i < NUM_FILES \<and> i \<notin> valid_inodes sb)"
proof (cases "find (\<lambda>i. i_valid (sb_inode sb i) = 0) [0..<NUM_FILES]")
  case None
  then have "\<forall>i<NUM_FILES. i_valid (sb_inode sb i) \<noteq> 0" by (simp add: find_upt_None)
  with None show ?thesis by (auto simp: get_free_inode_def valid_inodes_def)
next
  case (Some i)
  then have "i < NUM_FILES" "i_valid (sb_inode sb i) = 0" by (simp_all add: find_upt_Some)
  with Some show ?thesis by (auto simp: get_free_inode_def valid_inodes_def)
qed

lemma create_new:
  assumes ok: "flatfs_ok sb" and new: "flat_lookup_inode sb name = None"
    and len: "length name < 256" and room: "valid_inodes sb \<noteq> {..<NUM_FILES}"
  shows "\<exists>i sb'. flat_create_inode sb name mode = Some (int i, sb') \<and> flatfs_ok sb' \<and>
     i < NUM_FILES \<and> i \<notin> valid_inodes sb \<and> valid_inodes sb' = insert i (valid_inodes sb) \<and>
     i_name (sb_inode sb' i) = name \<and> i_mode (sb_inode sb' i) = mode \<and> file_bytes sb' i = [] \<and>
     sb_mem sb' = sb_mem sb \<and> (\<forall>j. j \<noteq> i \<longrightarrow> sb_inode sb' j = sb_inode sb j)"
proof -
  obtain i where i: "get_free_inode sb = int i" "i < NUM_FILES" "i \<notin> valid_inodes sb"
    using get_free_inode_cases [of sb] room by auto
  let ?n = "sb_inode sb i"
  let ?sb = "sb\<lparr>sb_inode := (sb_inode sb)(i := ?n\<lparr>i_valid := 1, i_mode := mode, i_name := name,
      i_max := i_s ?n, i_size := 0, i_ref := 0\<rparr>), sb_num := s32 (sb_num sb + 1)\<rparr>"
  have no: "int i mod 2 ^ 32 = int i" using i(2) by (simp add: NUM_FILES_def)
  have e: "flat_create_inode sb name mode = Some (int i, ?sb)"
    using new len unfolding flat_create_inode_def Let_def i(1) no using i(2) by simp
  have v: "valid_inodes ?sb = insert i (valid_inodes sb)" using i by (auto simp: valid_inodes_def)
  have x: "inode_ok ?n" "extents_ok sb" using ok i by (simp_all add: flatfs_ok_def extents_ok_def)
  have "extents_ok ?sb" by (rule extents_upd [OF x(2) i(2)]) (use x(1) in \<open>auto simp: inode_ok_def\<close>)
  moreover have "directory_ok ?sb"
  proof -
    have "sb_num sb = int (card (valid_inodes sb))" using ok by (simp add: flatfs_ok_def directory_ok_def)
    then have "s32 (sb_num sb + 1) = int (card (valid_inodes ?sb))"
      using valid_card [of sb] i(3) unfolding v by (simp add: s32_small NUM_FILES_def)
    moreover have "inj_on (\<lambda>j. i_name (sb_inode ?sb j)) (insert i (valid_inodes sb))"
      using ok new i(3) by (auto simp: flatfs_ok_def directory_ok_def lookup_None inj_on_def)
    ultimately show ?thesis unfolding directory_ok_def v by simp
  qed
  ultimately have "flatfs_ok ?sb" by (simp add: flatfs_ok_def)
  with e i v show ?thesis by (intro exI [of _ i] exI [of _ ?sb]) (auto simp: file_bytes_def)
qed

lemma create_full:
  assumes "valid_inodes sb = {..<NUM_FILES}"
  shows "flat_create_inode sb name mode = Some (- 1, sb)"
proof -
  have "get_free_inode sb = - 1" using get_free_inode_cases [of sb] assms by auto
  then show ?thesis by (simp add: flat_create_inode_def NUM_FILES_def)
qed

text \<open>
  C35. Creating a file: a new name of at most 255 characters gets an unused inode with
  the requested permissions and no bytes, the directory gains exactly this name,
  every other inode and all stored bytes stay as they were; looking the name up
  finds the inode.  A name in use and a full directory are refused with \<open>-1\<close> and
  nothing changes.
\<close>

theorem flat_create_inode_correct:
  assumes ok: "flatfs_ok sb" and len: "length name < 256"
  shows "\<exists>r sb'. flat_create_inode sb name mode = Some (r, sb') \<and> flatfs_ok sb' \<and>
    (if flat_lookup_inode sb name \<noteq> None \<or> valid_inodes sb = {..<NUM_FILES} then r = - 1 \<and> sb' = sb
     else nat r \<in> valid_inodes sb' - valid_inodes sb \<and>
       flat_lookup_inode sb' = (flat_lookup_inode sb)(name \<mapsto> nat r) \<and>
       flat_get_num_files sb' = flat_get_num_files sb + 1 \<and>
       i_mode (sb_inode sb' (nat r)) = mode \<and> file_bytes sb' (nat r) = [] \<and>
       (\<forall>j. j \<noteq> nat r \<longrightarrow> sb_inode sb' j = sb_inode sb j) \<and> sb_mem sb' = sb_mem sb)"
proof (cases "flat_lookup_inode sb name \<noteq> None \<or> valid_inodes sb = {..<NUM_FILES}")
  case True
  then have "flat_create_inode sb name mode = Some (- 1, sb)"
    by (elim disjE) (simp add: flat_create_inode_def Let_def, simp add: create_full)
  with ok True show ?thesis by auto
next
  case False
  then have new: "flat_lookup_inode sb name = None" "valid_inodes sb \<noteq> {..<NUM_FILES}" by auto
  from create_new [OF ok new(1) len new(2), of mode] obtain i sb' where
    e: "flat_create_inode sb name mode = Some (int i, sb')" "flatfs_ok sb'"
    "i < NUM_FILES" "i \<notin> valid_inodes sb" "valid_inodes sb' = insert i (valid_inodes sb)"
    "i_name (sb_inode sb' i) = name" "i_mode (sb_inode sb' i) = mode" "file_bytes sb' i = []"
    "sb_mem sb' = sb_mem sb" "\<forall>j. j \<noteq> i \<longrightarrow> sb_inode sb' j = sb_inode sb j" by blast
  have d: "directory_ok sb" "directory_ok sb'" using ok e(2) by (auto simp: flatfs_ok_def)
  have "flat_lookup_inode sb' nm = ((flat_lookup_inode sb)(name \<mapsto> i)) nm" for nm
  proof (cases "flat_lookup_inode sb' nm")
    case None
    then have n: "nm \<noteq> name" "\<forall>k\<in>valid_inodes sb. i_name (sb_inode sb' k) \<noteq> nm"
      using e(5,6) by (auto simp: lookup_None)
    then have "\<forall>k\<in>valid_inodes sb. i_name (sb_inode sb k) \<noteq> nm" using e(4,10) by metis
    then have "flat_lookup_inode sb nm = None" by (simp add: lookup_None)
    with None n(1) show ?thesis by simp
  next
    case (Some k)
    then have k: "k = i \<or> k \<in> valid_inodes sb" "i_name (sb_inode sb' k) = nm"
      using e(5) by (auto simp: lookup_Some [OF d(2)])
    show ?thesis
    proof (cases "k = i")
      case True
      with k(2) e(6) Some show ?thesis by simp
    next
      case False
      with k e(10) have k': "flat_lookup_inode sb nm = Some k" by (auto simp: lookup_Some [OF d(1)])
      with new(1) have "nm \<noteq> name" by auto
      with k' Some show ?thesis by simp
    qed
  qed
  moreover have "flat_get_num_files sb' = flat_get_num_files sb + 1"
    using d e(4,5) by (simp add: directory_ok_def flat_get_num_files_def)
  ultimately show ?thesis using False e by (intro exI [of _ "int i"] exI [of _ sb']) (auto simp: fun_eq_iff)
qed

definition sample_sb :: super_block where
  "sample_sb = \<lparr>sb_num = 0, sb_inode = (\<lambda>i. fresh_inode i ((i + 1) * 4096)), sb_mem = (\<lambda>_. 0)\<rparr>"

lemma sample_sb_ok: "flatfs_ok sample_sb"
proof -
  have m: "int ((i + 1) * 4096) mod 2 ^ 32 = int i * 4096 + 4096"
    "(int ((i + 1) * 4096) + 4096) mod 2 ^ 32 = int i * 4096 + 8192" if "i < NUM_FILES" for i
    using that by (auto simp: NUM_FILES_def)
  have d: "int i * 4096 + 8192 \<le> int j * 4096 + 4096 \<or> int j * 4096 + 8192 \<le> int i * 4096 + 4096" if "i \<noteq> j" for i j
    using that by arith
  have pos: "i_s (sb_inode sample_sb i) = int i * 4096 + 4096" "i_e (sb_inode sample_sb i) = int i * 4096 + 8192"
    "i_max (sb_inode sample_sb i) = int i * 4096 + 4096" "i_size (sb_inode sample_sb i) = 0" if "i < NUM_FILES" for i
    using m [OF that] by (simp_all add: sample_sb_def fresh_inode_def)
  have "inode_ok (sb_inode sample_sb i)" if "i < NUM_FILES" for i
    using that unfolding inode_ok_def pos [OF that] by (simp add: NUM_FILES_def)
  then have "extents_ok sample_sb" unfolding extents_ok_def using pos d by simp
  moreover have "valid_inodes sample_sb = {}" by (simp add: valid_inodes_def sample_sb_def fresh_inode_def)
  ultimately show ?thesis by (simp add: flatfs_ok_def directory_ok_def sample_sb_def)
qed

theorem flat_create_inode_correct_witness:
  "\<exists>r sb'. flat_create_inode sample_sb ''notes'' 3 = Some (r, sb') \<and> flat_lookup_inode sb' ''notes'' = Some (nat r)"
proof -
  have v: "valid_inodes sample_sb = {}" by (simp add: valid_inodes_def sample_sb_def fresh_inode_def)
  then have "flat_lookup_inode sample_sb ''notes'' = None" by (simp add: lookup_None)
  moreover have "{} \<noteq> {..<NUM_FILES}" by (metis NUM_FILES_def empty_iff lessThan_iff zero_less_numeral)
  ultimately show ?thesis using v flat_create_inode_correct [OF sample_sb_ok, of "''notes''" 3] by auto
qed

subsection \<open>Reading and writing\<close>

text \<open>The byte at position \<open>k\<close> of the storage of an inode.\<close>

definition stored :: "super_block \<Rightarrow> nat \<Rightarrow> nat \<Rightarrow> u8" where
  "stored sb i k = sb_mem sb (nat (i_s (sb_inode sb i)) + k)"

lemma flat_addr_in:
  "inode_ok n \<Longrightarrow> 0 \<le> off \<Longrightarrow> off + int k \<le> 4096 \<Longrightarrow> flat_addr n off k = nat (i_s n) + nat off + k"
  by (auto simp: flat_addr_def inode_ok_def)

lemma put_bytes_eq:
  assumes "inode_ok n" "0 \<le> off" "off + int c \<le> 4096"
  shows "put_bytes n off d c mem a =
    (if nat (i_s n) + nat off \<le> a \<and> a < nat (i_s n) + nat off + c then d (a - nat (i_s n) - nat off) else mem a)"
  using assms(3) by (induction c) (auto simp: flat_addr_in [OF assms(1,2)])

lemma file_bytes_stored:
  "extents_ok sb \<Longrightarrow> i < NUM_FILES \<Longrightarrow> file_bytes sb i = map (stored sb i) [0..<nat (i_size (sb_inode sb i))]"
  by (auto simp: file_bytes_def stored_def extents_ok_def flat_addr_in inode_ok_def)

lemma flat_read_in:
  assumes ok: "extents_ok sb" "i < NUM_FILES" and off: "0 \<le> off" "off \<le> int (length (file_bytes sb i))" and c: "0 \<le> count"
  shows "flat_read sb i count off =
    Some (min count (int (length (file_bytes sb i)) - off), take (nat count) (drop (nat off) (file_bytes sb i)))"
proof -
  let ?n = "sb_inode sb i"
  have n: "inode_ok ?n" using ok by (simp add: extents_ok_def)
  then have sz: "0 \<le> i_size ?n" "i_size ?n \<le> 4096" by (simp_all add: inode_ok_def)
  have len: "length (file_bytes sb i) = nat (i_size ?n)" by (simp add: file_bytes_def)
  let ?m = "nat (min count (i_size ?n - off))"
  have "map (\<lambda>k. sb_mem sb (flat_addr ?n off k)) [0..<?m] = take (nat count) (drop (nat off) (file_bytes sb i))"
    by (rule nth_equalityI)
       (use n sz off c len in \<open>auto simp: file_bytes_stored [OF ok] stored_def flat_addr_in add.assoc\<close>)
  with off c sz len show ?thesis by (auto simp: flat_read_def Let_def min_def)
qed

lemma flat_write_in:
  assumes ok: "extents_ok sb" "i < NUM_FILES" and c: "0 \<le> off" "0 \<le> count" "off + count \<le> 4096"
  obtains sb' where "flat_write sb i d count off = Some (count, sb')" "extents_ok sb'"
    "i_size (sb_inode sb' i) = max (i_size (sb_inode sb i)) (off + count)"
    "\<And>k. k < 4096 \<Longrightarrow> stored sb' i k = (if nat off \<le> k \<and> k < nat (off + count) then d (k - nat off) else stored sb i k)"
    "\<And>j. j \<noteq> i \<Longrightarrow> sb_inode sb' j = sb_inode sb j"
    "\<And>j k. j < NUM_FILES \<Longrightarrow> j \<noteq> i \<Longrightarrow> k < 4096 \<Longrightarrow> stored sb' j k = stored sb j k"
    "\<And>j. i_valid (sb_inode sb' j) = i_valid (sb_inode sb j) \<and> i_name (sb_inode sb' j) = i_name (sb_inode sb j) \<and>
      i_mode (sb_inode sb' j) = i_mode (sb_inode sb j)" "sb_num sb' = sb_num sb"
proof -
  let ?n = "sb_inode sb i"
  have n: "inode_ok ?n" using ok by (simp add: extents_ok_def)
  let ?top = "i_s ?n + off + count"
  let ?n1 = "?n\<lparr>i_max := max (i_max ?n) ?top, i_size := max (i_size ?n) (off + count)\<rparr>"
  let ?sb = "sb\<lparr>sb_inode := (sb_inode sb)(i := ?n1), sb_mem := put_bytes ?n off d (nat count) (sb_mem sb)\<rparr>"
  have top: "?top mod 2 ^ 32 = ?top" using n c by (intro mod_pos_pos_trivial) (auto simp: inode_ok_def)
  have sz: "(i_max ?n - i_s ?n) mod 2 ^ 32 = i_size ?n" "(?top - i_s ?n) mod 2 ^ 32 = off + count"
    using n c by (auto simp: inode_ok_def)
  have "flat_write sb i d count off = Some (count, ?sb)"
  proof (cases "i_max ?n < ?top")
    case True
    then have "?n1 = ?n\<lparr>i_max := ?top, i_size := (?top - i_s ?n) mod 2 ^ 32\<rparr>"
      using n sz(2) by (simp add: inode_ok_def max_def)
    then show ?thesis using True n c by (simp add: flat_write_def Let_def top [simplified]) (simp add: inode_ok_def)
  next
    case False
    then have "?n1 = ?n\<lparr>i_size := (i_max ?n - i_s ?n) mod 2 ^ 32\<rparr>"
      using n sz(1) by (simp add: inode_ok_def max_def)
    then show ?thesis using False n c by (simp add: flat_write_def Let_def top [simplified]) (simp add: inode_ok_def)
  qed
  moreover have "inode_ok ?n1" using n c by (auto simp: inode_ok_def max_def)
  then have "extents_ok ?sb" by (rule extents_upd [OF ok]) auto
  moreover have p: "sb_mem ?sb a = (if nat (i_s ?n) + nat off \<le> a \<and> a < nat (i_s ?n) + nat off + nat count
      then d (a - nat (i_s ?n) - nat off) else sb_mem sb a)" for a
    using put_bytes_eq [OF n c(1), of "nat count"] c by simp
  moreover have "stored ?sb j k = stored sb j k" if "j < NUM_FILES" "j \<noteq> i" "k < 4096" for j k
  proof -
    have "inode_ok (sb_inode sb j)" using ok that by (simp add: extents_ok_def)
    moreover have "i_e ?n \<le> i_s (sb_inode sb j) \<or> i_e (sb_inode sb j) \<le> i_s ?n"
      using ok that by (auto simp: extents_ok_def)
    ultimately have "\<not> (nat (i_s ?n) + nat off \<le> nat (i_s (sb_inode sb j)) + k \<and>
        nat (i_s (sb_inode sb j)) + k < nat (i_s ?n) + nat off + nat count)"
      using n c that(3) by (auto simp: inode_ok_def)
    then show ?thesis using that(2) unfolding stored_def p by auto
  qed
  moreover have "stored ?sb i k = (if nat off \<le> k \<and> k < nat (off + count) then d (k - nat off) else stored sb i k)" for k
    unfolding stored_def p using c by (auto simp: nat_add_distrib)
  ultimately show thesis using that [of ?sb] by auto
qed

lemma file_bytes_write:
  assumes ok: "extents_ok sb" "i < NUM_FILES" and c: "0 \<le> off" "0 \<le> count" "off + count \<le> 4096"
    and off: "off \<le> int (length (file_bytes sb i))" and w: "flat_write sb i d count off = Some (r, sb')"
  shows "extents_ok sb' \<and> r = count \<and>
    file_bytes sb' i = take (nat off) (file_bytes sb i) @ map d [0..<nat count] @ drop (nat (off + count)) (file_bytes sb i) \<and>
    (\<forall>j<NUM_FILES. j \<noteq> i \<longrightarrow> file_bytes sb' j = file_bytes sb j)"
proof -
  obtain sb1 where e: "flat_write sb i d count off = Some (count, sb1)" and x: "extents_ok sb1"
    and sz: "i_size (sb_inode sb1 i) = max (i_size (sb_inode sb i)) (off + count)"
    and st: "\<And>k. k < 4096 \<Longrightarrow> stored sb1 i k = (if nat off \<le> k \<and> k < nat (off + count) then d (k - nat off) else stored sb i k)"
    and oth: "\<And>j. j \<noteq> i \<Longrightarrow> sb_inode sb1 j = sb_inode sb j"
    "\<And>j k. j < NUM_FILES \<Longrightarrow> j \<noteq> i \<Longrightarrow> k < 4096 \<Longrightarrow> stored sb1 j k = stored sb j k"
    by (rule flat_write_in [OF ok c, of d]) blast
  have b: "inode_ok (sb_inode sb j)" if "j < NUM_FILES" for j using ok that by (simp add: extents_ok_def)
  have sz0: "0 \<le> i_size (sb_inode sb i)" "i_size (sb_inode sb i) \<le> 4096" "off \<le> i_size (sb_inode sb i)"
    using b [OF ok(2)] off by (simp_all add: inode_ok_def file_bytes_def)
  have "file_bytes sb1 i = take (nat off) (file_bytes sb i) @ map d [0..<nat count] @ drop (nat (off + count)) (file_bytes sb i)"
  proof (rule nth_equalityI)
    show "length (file_bytes sb1 i) =
        length (take (nat off) (file_bytes sb i) @ map d [0..<nat count] @ drop (nat (off + count)) (file_bytes sb i))"
      using sz sz0 c by (auto simp: file_bytes_def max_def nat_add_distrib)
    fix k
    assume "k < length (file_bytes sb1 i)"
    then have k: "k < nat (max (i_size (sb_inode sb i)) (off + count))" by (simp add: file_bytes_def sz)
    then have "k < 4096" using sz0 c by auto
    then show "file_bytes sb1 i ! k =
        (take (nat off) (file_bytes sb i) @ map d [0..<nat count] @ drop (nat (off + count)) (file_bytes sb i)) ! k"
      using k sz0 c by (auto simp: file_bytes_stored [OF ok] file_bytes_stored [OF x ok(2)] sz st nth_append
          nat_add_distrib max_def split: if_splits)
  qed
  moreover have "file_bytes sb1 j = file_bytes sb j" if j: "j < NUM_FILES" "j \<noteq> i" for j
    using b [OF j(1)] oth(1) [OF j(2)] oth(2) [OF j]
    by (auto simp: file_bytes_stored [OF ok(1) j(1)] file_bytes_stored [OF x j(1)] inode_ok_def)
  ultimately show ?thesis using w e x by auto
qed

subsection \<open>The promise of a file\<close>

locale byte_file =
  fixes rd :: "'s \<Rightarrow> int \<Rightarrow> int \<Rightarrow> (int \<times> u8 list) option"
    and wr :: "'s \<Rightarrow> (nat \<Rightarrow> u8) \<Rightarrow> int \<Rightarrow> int \<Rightarrow> (int \<times> 's) option"
    and bytes :: "'s \<Rightarrow> u8 list"
    and invar :: "'s \<Rightarrow> bool"
    and cap :: int
  assumes wr_law: "invar s \<Longrightarrow> 0 \<le> off \<Longrightarrow> off \<le> int (length (bytes s)) \<Longrightarrow> 0 \<le> n \<Longrightarrow> off + n \<le> cap \<Longrightarrow>
      \<exists>s'. wr s d n off = Some (n, s') \<and> invar s' \<and>
        bytes s' = take (nat off) (bytes s) @ map d [0..<nat n] @ drop (nat (off + n)) (bytes s)"
    and rd_law: "invar s \<Longrightarrow> 0 \<le> off \<Longrightarrow> off \<le> int (length (bytes s)) \<Longrightarrow> 0 \<le> n \<Longrightarrow>
      rd s n off = Some (min n (int (length (bytes s)) - off), take (nat n) (drop (nat off) (bytes s)))"
begin

lemma wr_rd:
  assumes "invar s" "0 \<le> off" "off \<le> int (length (bytes s))" "0 \<le> n" "off + n \<le> cap"
  shows "\<exists>s'. wr s d n off = Some (n, s') \<and> invar s' \<and> rd s' n off = Some (n, map d [0..<nat n])"
proof -
  obtain s' where s': "wr s d n off = Some (n, s')" "invar s'"
    "bytes s' = take (nat off) (bytes s) @ map d [0..<nat n] @ drop (nat (off + n)) (bytes s)"
    using wr_law [OF assms, of d] by auto
  have l: "off + n \<le> int (length (bytes s'))" "take (nat n) (drop (nat off) (bytes s')) = map d [0..<nat n]"
    using assms(2-4) by (auto simp: s'(3))
  have "rd s' n off = Some (min n (int (length (bytes s')) - off), take (nat n) (drop (nat off) (bytes s')))"
    by (rule rd_law [OF s'(2) assms(2) _ assms(4)]) (use l(1) assms(4) in linarith)
  with l s'(1,2) show ?thesis by (auto simp: min_def)
qed

end

interpretation flat: byte_file "\<lambda>sb. flat_read sb i" "\<lambda>sb. flat_write sb i" "\<lambda>sb. file_bytes sb i"
  "\<lambda>sb. extents_ok sb \<and> i < NUM_FILES" 4096 for i
proof
  fix sb off n d
  assume "extents_ok sb \<and> i < NUM_FILES" "0 \<le> off" "off \<le> int (length (file_bytes sb i))" "0 \<le> n" "off + n \<le> 4096"
  then show "\<exists>s'. flat_write sb i d n off = Some (n, s') \<and> (extents_ok s' \<and> i < NUM_FILES) \<and>
      file_bytes s' i = take (nat off) (file_bytes sb i) @ map d [0..<nat n] @ drop (nat (off + n)) (file_bytes sb i)"
    using flat_write_in [of sb i off n d] file_bytes_write [of sb i off n d] by (metis (no_types, lifting))
qed (rule flat_read_in, auto)

lemma flatfs_write:
  assumes "flatfs_ok sb" "i < NUM_FILES" "0 \<le> off" "0 \<le> count" "off + count \<le> 4096"
  obtains sb' where "flat_write sb i d count off = Some (count, sb')" "flatfs_ok sb'"
    "flat_lookup_inode sb' = flat_lookup_inode sb" "\<And>j. i_mode (sb_inode sb' j) = i_mode (sb_inode sb j)"
proof -
  have x: "extents_ok sb" using assms(1) by (simp add: flatfs_ok_def)
  obtain sb' where e: "flat_write sb i d count off = Some (count, sb')" "extents_ok sb'"
    and k: "\<And>j. i_valid (sb_inode sb' j) = i_valid (sb_inode sb j) \<and> i_name (sb_inode sb' j) = i_name (sb_inode sb j) \<and>
      i_mode (sb_inode sb' j) = i_mode (sb_inode sb j)" "sb_num sb' = sb_num sb"
    by (rule flat_write_in [OF x assms(2-5), of d]) blast
  have "valid_inodes sb' = valid_inodes sb" using k(1) by (simp add: valid_inodes_def)
  then have "directory_ok sb'" using assms(1) k by (simp add: flatfs_ok_def directory_ok_def)
  moreover have "flat_lookup_inode sb' = flat_lookup_inode sb" using k(1) by (simp add: flat_lookup_inode_def fun_eq_iff)
  ultimately show thesis using that e k(1) by (simp add: flatfs_ok_def)
qed

text \<open>
  C34. A file is an array of at most 4096 bytes.  Writing \<open>count\<close> bytes at an offset
  inside the file replaces or extends exactly this part, and a file is never
  larger than its page; no other file changes, whatever its inode; names and
  permissions stay.  Reading the same part back delivers the bytes written.
\<close>

theorem flat_write_correct:
  assumes "flatfs_ok sb" "i < NUM_FILES" "0 \<le> off" "off \<le> int (length (file_bytes sb i))"
    "0 \<le> count" "off + count \<le> 4096"
  shows "\<exists>sb'. flat_write sb i d count off = Some (count, sb') \<and> flatfs_ok sb' \<and>
    file_bytes sb' i = take (nat off) (file_bytes sb i) @ map d [0..<nat count] @ drop (nat (off + count)) (file_bytes sb i) \<and>
    length (file_bytes sb' i) \<le> 4096 \<and>
    (\<forall>j<NUM_FILES. j \<noteq> i \<longrightarrow> file_bytes sb' j = file_bytes sb j) \<and>
    flat_lookup_inode sb' = flat_lookup_inode sb \<and>
    flat_read sb' i count off = Some (count, map d [0..<nat count])"
proof -
  have x: "extents_ok sb" using assms(1) by (simp add: flatfs_ok_def)
  obtain sb' where e: "flat_write sb i d count off = Some (count, sb')" "flatfs_ok sb'"
    "flat_lookup_inode sb' = flat_lookup_inode sb" by (rule flatfs_write [OF assms(1-3,5,6)])
  have w: "file_bytes sb' i = take (nat off) (file_bytes sb i) @ map d [0..<nat count] @ drop (nat (off + count)) (file_bytes sb i)"
    "\<forall>j<NUM_FILES. j \<noteq> i \<longrightarrow> file_bytes sb' j = file_bytes sb j"
    using file_bytes_write [OF x assms(2,3,5,6,4) e(1)] by auto
  have "flat_read sb' i count off = Some (count, map d [0..<nat count])"
    using flat.wr_rd [of sb i off count d] x assms e by auto
  moreover have "length (file_bytes sb' i) \<le> 4096"
    using e(2) assms(2) by (auto simp: flatfs_ok_def file_bytes_def extents_ok_def inode_ok_def nat_le_iff)
  ultimately show ?thesis using e w by auto
qed

theorem flat_write_correct_witness:
  "\<exists>sb'. flat_write sample_sb 4 (\<lambda>k. of_nat k + 65) 3 0 = Some (3, sb') \<and> file_bytes sb' 4 = [65, 66, 67]"
proof -
  have "length (file_bytes sample_sb 4) = 0" by (simp add: file_bytes_def sample_sb_def fresh_inode_def)
  moreover have "(4 :: nat) < NUM_FILES" by (simp add: NUM_FILES_def)
  moreover have "[0..<3] = [0, 1, 2 :: nat]" by (simp add: upt_rec)
  ultimately show ?thesis
    using flat_write_correct [OF sample_sb_ok, of 4 0 3 "\<lambda>k. of_nat k + 65"] by auto
qed

subsection \<open>Boot\<close>

text \<open>A page list whose first \<open>k\<close> pages, and no others where the allocator looks, are in use.\<close>

definition prefix_used :: "nat \<Rightarrow> page_list \<Rightarrow> bool" where
  "prefix_used k pgl \<longleftrightarrow> pl_size pgl = 0x5E000 \<and> start_address pgl = 0x22000000 \<and>
     free_pages pgl + k = 0x5E000 \<and> last_free_pos pgl \<le> k div 32 \<and>
     (\<forall>i<0xBC00. bm_bit (bitmap pgl) i \<longleftrightarrow> i < k)"

lemma prefix_word:
  assumes "prefix_used k pgl" "k < 0xBC00"
  shows "w < k div 32 \<Longrightarrow> bitmap pgl w = 0xffffffff" "\<not> bit (bitmap pgl (k div 32)) (k mod 32)"
    "b < k mod 32 \<Longrightarrow> bit (bitmap pgl (k div 32)) b"
proof -
  have p: "i < 0xBC00 \<Longrightarrow> bit (bitmap pgl (i div 32)) (i mod 32) \<longleftrightarrow> i < k" for i
    using assms(1) by (simp add: prefix_used_def bm_bit_def)
  show "\<not> bit (bitmap pgl (k div 32)) (k mod 32)" using p [OF assms(2)] by simp
  have at: "bit (bitmap pgl w) b" if "b < 32" "w * 32 + b < k" for w b
    using p [of "w * 32 + b"] that assms(2) by simp
  show "bitmap pgl w = 0xffffffff" if "w < k div 32"
    unfolding full_word_iff
  proof (intro allI impI at)
    fix b :: nat
    assume "b < 32"
    then show "w * 32 + b < k" using that by arith
  qed
  show "bit (bitmap pgl (k div 32)) b" if "b < k mod 32"
  proof (rule at)
    show "b < 32" using that by arith
    show "k div 32 * 32 + b < k" using that by arith
  qed
qed

lemma prefix_index:
  assumes "prefix_used k pgl" "k < 0xBC00"
  shows "scan_word pgl = k div 32 \<and> page_index pgl = k"
proof -
  note w = prefix_word [OF assms]
  have n: "pl_size pgl div 2 ^ 8 = 0x5E0" "last_free_pos pgl \<le> k div 32" "k div 32 < 0x5E0"
    using assms by (auto simp: prefix_used_def)
  have nf: "bitmap pgl (k div 32) \<noteq> 0xffffffff" using w(2) unfolding full_word_iff by (metis mod_less_divisor zero_less_numeral)
  let ?p = "skip_full (bitmap pgl) 0x5E0 (last_free_pos pgl)"
  have "?p \<le> k div 32" using skip_full_le [of "last_free_pos pgl" "k div 32" "0x5E0" "bitmap pgl"] n nf by simp
  moreover have "\<not> ?p < k div 32" using skip_full_stop [of "bitmap pgl" "0x5E0" "last_free_pos pgl"] w(1) n(3) by (meson less_trans)
  ultimately have sw: "scan_word pgl = k div 32" using n by (simp add: scan_word_def Let_def)
  have "first_clear (bitmap pgl (k div 32)) 0 \<le> k mod 32 \<and>
      \<not> bit (bitmap pgl (k div 32)) (first_clear (bitmap pgl (k div 32)) 0)"
    using first_clear_found [of "k mod 32" "bitmap pgl (k div 32)" 0] w(2) by auto
  then have "first_clear (bitmap pgl (k div 32)) 0 = k mod 32" using w(3) by (metis le_neq_implies_less)
  then show ?thesis using sw by (simp add: page_index_def)
qed

lemma prefix_alloc:
  assumes "prefix_used k pgl" "k < 0xBBFF"
  shows "\<exists>pgl'. pfn_alloc pgl = (0x22000 + k, pgl') \<and> prefix_used (Suc k) pgl'"
proof -
  have i: "scan_word pgl = k div 32" "page_index pgl = k" using prefix_index [OF assms(1)] assms(2) by auto
  have "Suc k div 32 \<ge> k div 32" by (simp add: div_le_mono)
  then show ?thesis
    using assms by (auto simp: pfn_alloc_def get_free_page_eq i prefix_used_def bm_bit_set)
qed

lemma prefix_contig:
  assumes "prefix_used k pgl" "k < 0xBBFF" "n \<le> 1"
  shows "\<exists>pgl'. get_contigous_pages n pgl mem = ((0x22000 + k) * 4096, pgl',
      \<lambda>a. if (0x22000 + k) * 4096 \<le> a \<and> a < (0x22000 + k) * 4096 + 4096 * n then 0 else mem a) \<and> prefix_used (Suc k) pgl'"
  using prefix_alloc [OF assms(1,2)] assms(3) by (auto simp: get_contigous_pages_def Let_def)

definition store_addr :: "nat \<Rightarrow> nat" where
  "store_addr i = (if i = 0 then 0x2200C000 else 0x2200D000 + i * 4096)"

lemma alloc_steps:
  assumes "prefix_used 13 pgl" "n \<le> NUM_FILES" "\<forall>a. 0x2200C000 \<le> a \<and> a < 0x2200D000 \<longrightarrow> sb_mem sb a = 0"
  shows "case fold (alloc_step 0x2200C000) [0..<n] (pgl, sb) of (pgl', sb') \<Rightarrow> prefix_used (13 + n) pgl' \<and>
    (\<forall>i<n. sb_inode sb' i = fresh_inode i (store_addr i)) \<and>
    (\<forall>i<n. \<forall>k<4096. sb_mem sb' (store_addr i + k) = 0) \<and>
    (\<forall>a. 0x2200C000 \<le> a \<and> a < 0x2200D000 \<longrightarrow> sb_mem sb' a = 0)"
  using assms(2)
proof (induction n)
  case 0
  then show ?case using assms by simp
next
  case (Suc n)
  obtain pgl1 sb1 where f: "fold (alloc_step 0x2200C000) [0..<n] (pgl, sb) = (pgl1, sb1)"
    by (cases "fold (alloc_step 0x2200C000) [0..<n] (pgl, sb)")
  have IH: "prefix_used (13 + n) pgl1" "\<forall>i<n. sb_inode sb1 i = fresh_inode i (store_addr i)"
    "\<forall>i<n. \<forall>k<4096. sb_mem sb1 (store_addr i + k) = 0"
    "\<forall>a. 0x2200C000 \<le> a \<and> a < 0x2200D000 \<longrightarrow> sb_mem sb1 a = 0"
    using Suc f by auto
  have k: "13 + n < 0xBBFF" using Suc.prems by (simp add: NUM_FILES_def)
  have addr: "(0x22000 + (13 + n)) * 4096 = 0x2200D000 + n * 4096" by simp
  show ?case
  proof (cases "n = 0")
    case True
    have same: "(\<lambda>a. if x \<le> a \<and> a < x then 0 else sb_mem sb1 a) = sb_mem sb1" for x :: nat by (rule ext) auto
    obtain pgl2 where c: "get_contigous_pages 0 pgl1 (sb_mem sb1) = (0x2200D000 + n * 4096, pgl2, sb_mem sb1)"
      "prefix_used (Suc (13 + n)) pgl2"
      using prefix_contig [OF IH(1) k, of 0 "sb_mem sb1"] unfolding addr by (auto simp: same)
    have "alloc_step 0x2200C000 n (pgl1, sb1) =
        (pgl2, sb1\<lparr>sb_inode := (sb_inode sb1)(0 := fresh_inode 0 0x2200C000)\<rparr>)"
      using True c by (simp add: alloc_step_def)
    with f c IH True show ?thesis by (simp add: store_addr_def)
  next
    case False
    obtain pgl2 where c: "get_contigous_pages 1 pgl1 (sb_mem sb1) = (0x2200D000 + n * 4096, pgl2,
        \<lambda>a. if 0x2200D000 + n * 4096 \<le> a \<and> a < 0x2200D000 + n * 4096 + 4096 * 1 then 0 else sb_mem sb1 a)"
      "prefix_used (Suc (13 + n)) pgl2"
      using prefix_contig [OF IH(1) k, of 1 "sb_mem sb1"] unfolding addr by auto
    have "alloc_step 0x2200C000 n (pgl1, sb1) =
        (pgl2, sb1\<lparr>sb_inode := (sb_inode sb1)(n := fresh_inode n (store_addr n)),
          sb_mem := (\<lambda>a. if 0x2200D000 + n * 4096 \<le> a \<and> a < 0x2200D000 + n * 4096 + 4096 * 1 then 0 else sb_mem sb1 a)\<rparr>)"
      using False c by (simp add: alloc_step_def store_addr_def)
    with f c(2) IH False show ?thesis by (auto simp: less_Suc_eq store_addr_def)
  qed
qed

text \<open>
  After \<open>init_file_system\<close> on an empty storage region the file system is well
  formed: each of the 32 inodes has a page of its own, disjoint from all others and
  filled with zeros, and there are no files.
\<close>

theorem init_file_system_ok:
  "case init_file_system (init_pagelist 0x22000000 0x80000000 (\<lambda>_. 0)) sb of (pgl, sb') \<Rightarrow>
     flatfs_ok sb' \<and> flat_get_num_files sb' = 0 \<and> (\<forall>name. lookup_inode sb' name = None) \<and>
     (\<forall>i<NUM_FILES. \<forall>k<4096. stored sb' i k = 0) \<and> free_pages pgl = 0x5E000 - 45"
proof -
  let ?p0 = "init_pagelist 0x22000000 0x80000000 (\<lambda>_. 0)"
  have "prefix_used 12 ?p0"
    by (auto simp: prefix_used_def init_pagelist_def bm_bit_set_upto) (simp add: bm_bit_def)
  from prefix_contig [OF this, of 1 "sb_mem sb"] obtain pgl1 where
    c: "get_contigous_pages 1 ?p0 (sb_mem sb) = (0x2200C000, pgl1, \<lambda>a. if 0x2200C000 \<le> a \<and> a < 0x2200D000 then 0 else sb_mem sb a)"
    "prefix_used 13 pgl1" by auto
  let ?sb1 = "sb\<lparr>sb_mem := \<lambda>a. if 0x2200C000 \<le> a \<and> a < 0x2200D000 then 0 else sb_mem sb a\<rparr>"
  obtain pgl2 sb2 where f: "fold (alloc_step 0x2200C000) [0..<NUM_FILES] (pgl1, ?sb1) = (pgl2, sb2)"
    by (cases "fold (alloc_step 0x2200C000) [0..<NUM_FILES] (pgl1, ?sb1)")
  have r: "prefix_used (13 + NUM_FILES) pgl2" "\<forall>i<NUM_FILES. sb_inode sb2 i = fresh_inode i (store_addr i)"
    "\<forall>i<NUM_FILES. \<forall>k<4096. sb_mem sb2 (store_addr i + k) = 0"
    using alloc_steps [OF c(2) order_refl, of ?sb1] f by auto
  let ?sb = "sb2\<lparr>sb_num := 0\<rparr>"
  have init: "init_file_system ?p0 sb = (pgl2, ?sb)"
    using c(1) f by (simp add: init_file_system_def alloc_inodes_def)
  have sa: "store_addr i + 4096 < 2 ^ 32" if "i < NUM_FILES" for i using that by (simp add: store_addr_def NUM_FILES_def)
  have pos: "i_s (sb_inode ?sb i) = int (store_addr i)" "i_e (sb_inode ?sb i) = int (store_addr i) + 4096"
    "inode_ok (sb_inode ?sb i)" "i_valid (sb_inode ?sb i) = 0" if "i < NUM_FILES" for i
    using r(2) that sa [OF that] by (simp_all add: fresh_inode_def inode_ok_def)
  have "store_addr i + 4096 \<le> store_addr j \<or> store_addr j + 4096 \<le> store_addr i" if "i \<noteq> j" for i j
    using that by (auto simp: store_addr_def)
  then have d: "int (store_addr i) + 4096 \<le> int (store_addr j) \<or> int (store_addr j) + 4096 \<le> int (store_addr i)"
    if "i \<noteq> j" for i j using that by fastforce
  have "extents_ok ?sb" unfolding extents_ok_def using pos d by simp
  moreover have "valid_inodes ?sb = {}" using pos(4) by (auto simp: valid_inodes_def)
  moreover have "stored ?sb i k = 0" if "i < NUM_FILES" "k < 4096" for i k
    using r(3) that pos(1) [OF that(1)] by (simp add: stored_def)
  moreover have "free_pages pgl2 = 0x5E000 - 45" using r(1) by (simp add: prefix_used_def NUM_FILES_def)
  ultimately show ?thesis
    by (simp add: init flatfs_ok_def directory_ok_def flat_get_num_files_def lookup_inode_def lookup_None)
qed

theorem init_file_system_ok_witness:
  "stored (snd (init_file_system (init_pagelist 0x22000000 0x80000000 (\<lambda>_. 0)) sample_sb)) 5 7 = 0"
proof -
  have "(5 :: nat) < NUM_FILES" by (simp add: NUM_FILES_def)
  then show ?thesis using init_file_system_ok [of sample_sb] by (simp add: case_prod_beta)
qed

end
