(* ===== verification/FileTable.thy ===== *)
theory FileTable
  imports Pipe FlatFS
begin

text \<open>
  File objects and descriptors of the Assignment 2 kernel: gemOS/src/file.c, the
  allocation and the checks of gemOS/src/pipe.c, and the system-call handlers of
  gemOS/src/entry.c that use them.  File objects, pipes and pipe buffers live in pages
  of the region \<open>OS_DS_REG\<close> of the page allocator (theory PhysMem); a pointer is the
  number of the page, 0 for a null pointer.  The table \<open>ofile\<close> is the array \<open>files\<close> of
  every execution context.

  A handler returns \<open>None\<close> where the source follows a null pointer, reads or writes
  outside an array or does not end.  The record \<open>world\<close> holds what a call takes from
  outside: the contents of pages that are not initialised, the keyboard and the
  result of \<open>do_write\<close> on the console.
\<close>

abbreviation ENOMEM :: int where "ENOMEM \<equiv> 5"

definition MAX_OPEN_FILES :: nat where "MAX_OPEN_FILES = 32"
definition FILE_SIZE :: int where "FILE_SIZE = 0x1000"

datatype file_type = STDIN | STDOUT | STDERR | REGULAR | PIPE
datatype file_read_op = Do_read_kbd | Do_read_regular | Pipe_read
datatype file_write_op = Do_write_console | Do_write_regular | Pipe_write

record file_obj =
  f_type :: file_type
  f_mode :: u32
  f_offp :: int
  f_ref :: int
  f_inode :: "nat option"
  f_pipe :: nat
  f_read :: "file_read_op option"
  f_write :: "file_write_op option"
  f_lseek :: bool
  f_close :: bool

record fstate =
  km :: kmem
  fpage :: "nat \<Rightarrow> file_obj"
  ppage :: "nat \<Rightarrow> pipe_info"
  pbuf :: "nat \<Rightarrow> nat"
  file_objects :: int
  ofile :: "nat \<Rightarrow> nat \<Rightarrow> nat"
  fsb :: super_block

record world =
  w_file :: "nat \<Rightarrow> file_obj"
  w_pipe :: "nat \<Rightarrow> pipe_info"
  w_page :: "nat \<Rightarrow> nat \<Rightarrow> u8"
  w_kbd :: "u8 list"
  w_console :: "int \<Rightarrow> int"

subsection \<open>Allocation\<close>

definition set_fd :: "nat \<Rightarrow> nat \<Rightarrow> nat \<Rightarrow> fstate \<Rightarrow> fstate" where
  "set_fd p fd q s = s\<lparr>ofile := (ofile s)(p := (ofile s p)(fd := q))\<rparr>"

definition upd_file :: "nat \<Rightarrow> (file_obj \<Rightarrow> file_obj) \<Rightarrow> fstate \<Rightarrow> fstate" where
  "upd_file q u s = s\<lparr>fpage := (fpage s)(q := u (fpage s q))\<rparr>"

definition free_file_object :: "nat \<Rightarrow> fstate \<Rightarrow> fstate" where
  "free_file_object q s = (if q \<noteq> 0 then
     s\<lparr>km := os_pfn_free OS_DS_REG q (km s), file_objects := file_objects s - 1\<rparr> else s)"

definition alloc_file :: "world \<Rightarrow> fstate \<Rightarrow> nat \<times> fstate" where
  "alloc_file w s =
    (let (q, k) = os_pfn_alloc OS_DS_REG (km s)
     in (q, s\<lparr>km := k, fpage := (fpage s)(q := (w_file w q)\<lparr>f_read := None, f_write := None, f_lseek := False, f_close := False\<rparr>),
              file_objects := file_objects s + 1\<rparr>))"

definition page_bytes :: "(nat \<Rightarrow> u8) \<Rightarrow> u8 list" where
  "page_bytes f = map f [0..<4096]"

definition alloc_pipe_info :: "world \<Rightarrow> fstate \<Rightarrow> nat \<times> fstate" where
  "alloc_pipe_info w s =
    (let (q, k1) = os_pfn_alloc OS_DS_REG (km s); (b, k2) = os_pfn_alloc OS_DS_REG k1
     in (q, s\<lparr>km := k2, ppage := (ppage s)(q := (w_pipe w q)\<lparr>pi_buff := page_bytes (w_page w b)\<rparr>),
              pbuf := (pbuf s)(q := b)\<rparr>))"

definition free_pipe_info :: "nat \<Rightarrow> fstate \<Rightarrow> fstate" where
  "free_pipe_info q s = (if q \<noteq> 0 then
     s\<lparr>km := os_pfn_free OS_DS_REG q (os_pfn_free OS_DS_REG (pbuf s q) (km s))\<rparr> else s)"

subsection \<open>Standard input and output\<close>

definition create_standard_IO :: "world \<Rightarrow> file_type \<Rightarrow> fstate \<Rightarrow> (nat \<times> fstate) option" where
  "create_standard_IO w t s =
    (let (q, s1) = alloc_file w s in
     if q = 0 then None
     else Some (q, upd_file q (\<lambda>f. f\<lparr>f_type := t, f_mode := (if t = STDIN then O_READ else O_WRITE),
         f_read := (if t = STDIN then Some Do_read_kbd else f_read f),
         f_write := (if t = STDIN then f_write f else Some Do_write_console),
         f_close := True, f_ref := 1\<rparr>) s1))"

definition std_fd :: "file_type \<Rightarrow> nat" where
  "std_fd t = (case t of STDIN \<Rightarrow> 0 | STDOUT \<Rightarrow> 1 | STDERR \<Rightarrow> 2 | REGULAR \<Rightarrow> 3 | PIPE \<Rightarrow> 4)"

definition inc_ref :: "nat \<Rightarrow> fstate \<Rightarrow> fstate" where
  "inc_ref q = upd_file q (\<lambda>f. f\<lparr>f_ref := (f_ref f + 1) mod 2 ^ 32\<rparr>)"

definition open_standard_IO :: "world \<Rightarrow> nat \<Rightarrow> file_type \<Rightarrow> fstate \<Rightarrow> (int \<times> fstate) option" where
  "open_standard_IO w p t s =
    (let q = ofile s p (std_fd t) in
     if q = 0 then
       (case create_standard_IO w t s of None \<Rightarrow> None
        | Some (q', s1) \<Rightarrow> Some (int (std_fd t), set_fd p (std_fd t) q' s1))
     else let s1 = inc_ref q s in
       (case find (\<lambda>fd. ofile s1 p fd = 0) [3..<MAX_OPEN_FILES] of None \<Rightarrow> None
        | Some fd \<Rightarrow> Some (int fd, set_fd p fd q s1)))"

subsection \<open>Fork, exit and close\<close>

definition do_file_fork :: "nat \<Rightarrow> fstate \<Rightarrow> fstate" where
  "do_file_fork c s = fold (\<lambda>i s. if ofile s c i \<noteq> 0 then inc_ref (ofile s c i) s else s) [0..<MAX_OPEN_FILES] s"

text \<open>\<open>*new_ctx = *ctx\<close> copies the array before \<open>setup_child_context\<close> calls \<open>do_file_fork\<close>.\<close>

definition fork_files :: "nat \<Rightarrow> nat \<Rightarrow> fstate \<Rightarrow> fstate" where
  "fork_files p c s = do_file_fork c (s\<lparr>ofile := (ofile s)(c := ofile s p)\<rparr>)"

definition close_end :: "u32 \<Rightarrow> pipe_info \<Rightarrow> pipe_info" where
  "close_end mode p =
    (let p1 = (if mode = O_READ then p\<lparr>pi_ropen := 0\<rparr> else p)
     in if mode = O_WRITE then p1\<lparr>pi_wopen := 0\<rparr> else p1)"

definition generic_close :: "nat \<Rightarrow> fstate \<Rightarrow> (int \<times> fstate) option" where
  "generic_close q s =
    (let f = fpage s q in
     if q = 0 then Some (- EINVAL, s)
     else if f_ref f = 1 then
       (if f_type f = PIPE then
          (if f_pipe f = 0 then None
           else
             let s1 = s\<lparr>ppage := (ppage s)(f_pipe f := close_end (f_mode f) (ppage s (f_pipe f)))\<rparr>;
                 s2 = (if pi_wopen (ppage s1 (f_pipe f)) = 0 \<and> pi_ropen (ppage s1 (f_pipe f)) = 0
                       then free_pipe_info (f_pipe f) s1 else s1)
             in Some (0, free_file_object q s2))
        else Some (0, free_file_object q s))
     else Some (0, upd_file q (\<lambda>f. f\<lparr>f_ref := (f_ref f - 1) mod 2 ^ 32\<rparr>) s))"

fun exit_loop :: "nat \<Rightarrow> nat list \<Rightarrow> fstate \<Rightarrow> fstate option" where
  "exit_loop p [] s = Some s"
| "exit_loop p (i # is) s =
    (if ofile s p i \<noteq> 0 then
       (case generic_close (ofile s p i) s of None \<Rightarrow> None | Some (r, s1) \<Rightarrow> exit_loop p is (set_fd p i 0 s1))
     else exit_loop p is s)"

definition do_file_exit :: "nat \<Rightarrow> fstate \<Rightarrow> fstate option" where
  "do_file_exit p s = exit_loop p [0..<MAX_OPEN_FILES] s"

subsection \<open>Regular files\<close>

definition do_read_regular :: "nat \<Rightarrow> int \<Rightarrow> fstate \<Rightarrow> (int \<times> u8 list \<times> fstate) option" where
  "do_read_regular q count s =
    (let f = fpage s q in
     case f_inode f of None \<Rightarrow> Some (- EINVAL, [], s)
     | Some ino \<Rightarrow>
       let n = sb_inode (fsb s) ino in
       if (f_offp f + count) mod 2 ^ 32 > i_size n then Some (- EOTHERS, [], s)
       else if f_mode f AND O_READ \<noteq> 0 \<and> i_mode n AND O_READ = 0 then Some (- EACCES, [], s)
       else if f_mode f AND O_READ = 0 then Some (- EACCES, [], s)
       else if i_size n > FILE_SIZE then Some (- EOTHERS, [], s)
       else (case flat_read (fsb s) ino (s32 count) (s32 (f_offp f)) of None \<Rightarrow> None
         | Some (sz, out) \<Rightarrow>
             Some (sz, out, upd_file q (\<lambda>f. f\<lparr>f_offp := (f_offp f + sz) mod 2 ^ 32\<rparr>) s)))"

definition do_write_regular :: "nat \<Rightarrow> (nat \<Rightarrow> u8) \<Rightarrow> int \<Rightarrow> fstate \<Rightarrow> (int \<times> fstate) option" where
  "do_write_regular q d count s =
    (let f = fpage s q in
     case f_inode f of None \<Rightarrow> Some (- EINVAL, s)
     | Some ino \<Rightarrow>
       let n = sb_inode (fsb s) ino in
       if (f_offp f + count) mod 2 ^ 32 > FILE_SIZE then Some (- EOTHERS, s)
       else if f_mode f AND O_WRITE \<noteq> 0 \<and> i_mode n AND O_WRITE = 0 then Some (- EACCES, s)
       else if f_mode f AND O_WRITE = 0 then Some (- EACCES, s)
       else if i_size n > FILE_SIZE then Some (- EOTHERS, s)
       else (case flat_write (fsb s) ino d (s32 count) (s32 (f_offp f)) of None \<Rightarrow> None
         | Some (sz, fs) \<Rightarrow>
             if sz = - 1 then Some (- EOTHERS, s\<lparr>fsb := fs\<rparr>)
             else Some (sz, upd_file q (\<lambda>f. f\<lparr>f_offp := (f_offp f + sz) mod 2 ^ 32\<rparr>) (s\<lparr>fsb := fs\<rparr>))))"

text \<open>The result of \<open>do_lseek_regular\<close> is the \<open>u32\<close> offset converted to \<open>long\<close>.\<close>

definition do_lseek_regular :: "nat \<Rightarrow> int \<Rightarrow> int \<Rightarrow> fstate \<Rightarrow> (int \<times> fstate) option" where
  "do_lseek_regular q offset whence s =
    (let f = fpage s q; cur = s32 (f_offp f);
         seek = (\<lambda>newoffset. if newoffset \<ge> FILE_SIZE then Some (- EOTHERS, s)
                  else Some (newoffset mod 2 ^ 32, upd_file q (\<lambda>f. f\<lparr>f_offp := newoffset mod 2 ^ 32\<rparr>) s))
     in if whence = 1 then seek (s32 (cur + offset))
        else if whence = 2 then
          (case f_inode f of None \<Rightarrow> None | Some ino \<Rightarrow> seek (s32 (i_size (sb_inode (fsb s) ino) + offset)))
        else if whence = 0 then seek (s32 offset)
        else seek cur)"

definition install_file :: "world \<Rightarrow> nat \<Rightarrow> nat \<Rightarrow> nat \<Rightarrow> u64 \<Rightarrow> fstate \<Rightarrow> int \<times> fstate" where
  "install_file w p fd ino flags s =
    (let (q, s1) = alloc_file w s; s2 = set_fd p fd q s1 in
     if q = 0 then (- ENOMEM, s2)
     else (int fd, upd_file q (\<lambda>f. f\<lparr>f_inode := Some ino, f_type := REGULAR, f_mode := ucast flags, f_offp := 0,
            f_ref := 1, f_pipe := 0, f_read := Some Do_read_regular, f_write := Some Do_write_regular,
            f_close := True, f_lseek := True\<rparr>) s2))"

definition open_inode :: "world \<Rightarrow> nat \<Rightarrow> nat \<Rightarrow> u64 \<Rightarrow> fstate \<Rightarrow> int \<times> fstate" where
  "open_inode w p ino flags s =
    (let n = sb_inode (fsb s) ino in
     if i_size n > FILE_SIZE then (- EOTHERS, s)
     else if flags AND 1 \<noteq> 0 \<and> i_mode n AND O_READ = 0 \<or> flags AND 2 \<noteq> 0 \<and> i_mode n AND O_WRITE = 0
     then (- EACCES, s)
     else (case find (\<lambda>fd. ofile s p fd = 0) [3..<MAX_OPEN_FILES] of
             None \<Rightarrow> (- EINVAL, s) | Some fd \<Rightarrow> install_file w p fd ino flags s))"

definition do_regular_file_open :: "world \<Rightarrow> nat \<Rightarrow> string \<Rightarrow> u64 \<Rightarrow> u64 \<Rightarrow> fstate \<Rightarrow> (int \<times> fstate) option" where
  "do_regular_file_open w p filename flags mode s =
    (if length filename \<ge> 256 then Some (- EOTHERS, s)
     else
       let temp = lookup_inode (fsb s) filename in
       if flags AND 8 \<noteq> 0 then
         (if temp = None then
            (case create_inode (fsb s) filename mode of None \<Rightarrow> None
             | Some (None, fs) \<Rightarrow> Some (- ENOMEM, s\<lparr>fsb := fs\<rparr>)
             | Some (Some ino, fs) \<Rightarrow> Some (open_inode w p ino flags (s\<lparr>fsb := fs\<rparr>)))
          else Some (- EOTHERS, s))
       else (case temp of None \<Rightarrow> Some (- EINVAL, s) | Some ino \<Rightarrow> Some (open_inode w p ino flags s)))"

subsection \<open>Duplicates\<close>

definition fd_dup :: "nat \<Rightarrow> int \<Rightarrow> fstate \<Rightarrow> int \<times> fstate" where
  "fd_dup p oldfd s =
    (if \<not> (0 \<le> oldfd \<and> oldfd < int MAX_OPEN_FILES) then (- EINVAL, s)
     else let q = ofile s p (nat oldfd) in
       if q = 0 then (- EINVAL, s)
       else (case find (\<lambda>fd. ofile s p fd = 0) [0..<MAX_OPEN_FILES] of
               None \<Rightarrow> (- EINVAL, s) | Some fd \<Rightarrow> (int fd, inc_ref q (set_fd p fd q s))))"

definition fd_dup2 :: "nat \<Rightarrow> int \<Rightarrow> int \<Rightarrow> fstate \<Rightarrow> (int \<times> fstate) option" where
  "fd_dup2 p oldfd newfd s =
    (if \<not> (0 \<le> oldfd \<and> oldfd < int MAX_OPEN_FILES) then Some (- EINVAL, s)
     else if \<not> (0 \<le> newfd \<and> newfd < int MAX_OPEN_FILES) then Some (- EINVAL, s)
     else let q = ofile s p (nat oldfd); r = ofile s p (nat newfd) in
       if q = 0 then Some (- EINVAL, s)
       else if oldfd = newfd then Some (newfd, s)
       else (case (if r \<noteq> 0 then generic_close r s else Some (0, s)) of None \<Rightarrow> None
             | Some (v, s1) \<Rightarrow> Some (newfd, inc_ref q (set_fd p (nat newfd) q s1))))"

subsection \<open>Pipes\<close>

definition pipe_file_read :: "nat \<Rightarrow> int \<Rightarrow> fstate \<Rightarrow> int \<times> u8 list \<times> fstate" where
  "pipe_file_read q count s =
    (let f = fpage s q in
     if q = 0 \<or> f_pipe f = 0 then (- EINVAL, [], s)
     else let (r, out, p) = pipe_read (f_mode f) (ppage s (f_pipe f)) count
       in (r, out, s\<lparr>ppage := (ppage s)(f_pipe f := p)\<rparr>))"

definition pipe_file_write :: "nat \<Rightarrow> (nat \<Rightarrow> u8) \<Rightarrow> int \<Rightarrow> fstate \<Rightarrow> int \<times> fstate" where
  "pipe_file_write q d count s =
    (let f = fpage s q in
     if q = 0 \<or> f_pipe f = 0 then (- EINVAL, s)
     else let (r, p) = pipe_write (f_mode f) (ppage s (f_pipe f)) d count
       in (r, s\<lparr>ppage := (ppage s)(f_pipe f := p)\<rparr>))"

text \<open>The values put into \<open>fd[0]\<close> and \<open>fd[1]\<close> are the second and third component.\<close>

definition create_pipe :: "world \<Rightarrow> nat \<Rightarrow> fstate \<Rightarrow> int \<times> nat \<times> nat \<times> fstate" where
  "create_pipe w p s =
    (case find (\<lambda>fd. ofile s p fd = 0) [3..<MAX_OPEN_FILES] of None \<Rightarrow> (- EINVAL, 0, 0, s)
     | Some fd0 \<Rightarrow>
     (case find (\<lambda>fd. ofile s p fd = 0) [fd0 + 1..<MAX_OPEN_FILES] of None \<Rightarrow> (- EINVAL, fd0, 0, s)
      | Some fd1 \<Rightarrow>
        let (q0, s1) = alloc_file w s; s2 = set_fd p fd0 q0 s1;
            (q1, s3) = alloc_file w s2; s4 = set_fd p fd1 q1 s3 in
        if q0 = 0 then (- ENOMEM, fd0, fd1, s4)
        else if q1 = 0 then (- ENOMEM, fd0, fd1, s4)
        else
          let s5 = upd_file q0 (\<lambda>f. f\<lparr>f_inode := None, f_type := PIPE, f_mode := O_READ, f_ref := 1\<rparr>) s4;
              s6 = upd_file q1 (\<lambda>f. f\<lparr>f_inode := None, f_type := PIPE, f_mode := O_WRITE, f_ref := 1\<rparr>) s5;
              (t, s7) = alloc_pipe_info w s6 in
          if t = 0 then (- ENOMEM, fd0, fd1, s7)
          else
            let s8 = upd_file q0 (\<lambda>f. f\<lparr>f_pipe := t, f_read := Some Pipe_read, f_close := True\<rparr>) s7;
                s9 = upd_file q1 (\<lambda>f. f\<lparr>f_pipe := t, f_write := Some Pipe_write, f_close := True\<rparr>) s8
            in (0, fd0, fd1,
                s9\<lparr>ppage := (ppage s9)(t := (ppage s9 t)\<lparr>pi_read := 0, pi_write := 0, pi_len := 0, pi_ropen := 1, pi_wopen := 1\<rparr>)\<rparr>)))"

subsection \<open>The system calls\<close>

definition do_file_open :: "world \<Rightarrow> nat \<Rightarrow> string \<Rightarrow> u64 \<Rightarrow> u64 \<Rightarrow> fstate \<Rightarrow> (int \<times> fstate) option" where
  "do_file_open w p filename flag mode s =
    (if strcmp filename ''stdin'' = 0 then open_standard_IO w p STDIN s
     else if strcmp filename ''stdout'' = 0 then open_standard_IO w p STDOUT s
     else if strcmp filename ''stderr'' = 0 then open_standard_IO w p STDERR s
     else do_regular_file_open w p filename flag mode s)"

definition do_file_read :: "world \<Rightarrow> nat \<Rightarrow> nat \<Rightarrow> int \<Rightarrow> fstate \<Rightarrow> (int \<times> u8 list \<times> fstate) option" where
  "do_file_read w p fd count s =
    (if fd \<ge> MAX_OPEN_FILES then None
     else let q = ofile s p fd in
       if q = 0 then Some (- EINVAL, [], s)
       else (case f_read (fpage s q) of None \<Rightarrow> Some (- EINVAL, [], s)
         | Some Do_read_kbd \<Rightarrow> Some (1, w_kbd w, s)
         | Some Do_read_regular \<Rightarrow> do_read_regular q (count mod 2 ^ 32) s
         | Some Pipe_read \<Rightarrow> Some (pipe_file_read q (count mod 2 ^ 32) s)))"

definition do_file_write :: "world \<Rightarrow> nat \<Rightarrow> nat \<Rightarrow> (nat \<Rightarrow> u8) \<Rightarrow> int \<Rightarrow> fstate \<Rightarrow> (int \<times> fstate) option" where
  "do_file_write w p fd d count s =
    (if fd \<ge> MAX_OPEN_FILES then None
     else let q = ofile s p fd in
       if q = 0 then Some (- EINVAL, s)
       else (case f_write (fpage s q) of None \<Rightarrow> Some (- EINVAL, s)
         | Some Do_write_console \<Rightarrow> Some (w_console w (count mod 2 ^ 32), s)
         | Some Do_write_regular \<Rightarrow> do_write_regular q d (count mod 2 ^ 32) s
         | Some Pipe_write \<Rightarrow> Some (pipe_file_write q d (count mod 2 ^ 32) s)))"

text \<open>\<open>do_close\<close> has no return statement after the call: then its result is not determined.\<close>

definition do_close :: "nat \<Rightarrow> int \<Rightarrow> fstate \<Rightarrow> (int option \<times> fstate) option" where
  "do_close p fd s =
    (if \<not> (0 \<le> fd \<and> fd < int MAX_OPEN_FILES) then None
     else let q = ofile s p (nat fd) in
       if q = 0 \<or> \<not> f_close (fpage s q) then Some (Some (- EINVAL), s)
       else (case generic_close q (set_fd p (nat fd) 0 s) of None \<Rightarrow> None | Some (r, s1) \<Rightarrow> Some (None, s1)))"

definition do_lseek :: "nat \<Rightarrow> int \<Rightarrow> int \<Rightarrow> int \<Rightarrow> fstate \<Rightarrow> (int \<times> fstate) option" where
  "do_lseek p fd offset whence s =
    (if \<not> (0 \<le> fd \<and> fd < int MAX_OPEN_FILES) then None
     else let q = ofile s p (nat fd) in
       if q \<noteq> 0 \<and> f_lseek (fpage s q) then do_lseek_regular q offset whence s else Some (- EINVAL, s))"

end
