(* ===== verification/FileInv.thy ===== *)
theory FileInv
  imports FileTable
begin

text \<open>
  The invariant of the descriptor tables, file objects and pipes of the Assignment 2
  kernel, and that every system call on files keeps it.  The reference count of a
  file object is the number of descriptors of all processes that refer to it; the
  pages in use are exactly those of the rest of the kernel, of the open file objects
  and of the pipes with an open end, all different.  So no call follows a pointer to
  a page that was freed, and no page is lost.
\<close>

section \<open>The invariant\<close>

definition MAX_PROCS :: nat where "MAX_PROCS = 7"

definition descs :: "fstate \<Rightarrow> nat \<Rightarrow> (nat \<times> nat) set" where
  "descs s q = {(p, i). p < MAX_PROCS \<and> i < MAX_OPEN_FILES \<and> ofile s p i = q}"

definition opened :: "fstate \<Rightarrow> nat set" where
  "opened s = {q. q \<noteq> 0 \<and> descs s q \<noteq> {}}"

definition core :: "file_obj \<Rightarrow> file_type \<times> u32 \<times> nat option \<times> nat \<times> file_read_op option \<times> file_write_op option \<times> bool \<times> bool" where
  "core f = (f_type f, f_mode f, f_inode f, f_pipe f, f_read f, f_write f, f_lseek f, f_close f)"

definition file_ok :: "file_obj \<Rightarrow> bool" where
  "file_ok f \<longleftrightarrow> f_close f \<and>
     (f_read f = Some Do_read_regular \<or> f_write f = Some Do_write_regular \<or> f_lseek f \<longrightarrow> f_type f = REGULAR) \<and>
     (f_read f = Some Pipe_read \<or> f_write f = Some Pipe_write \<longrightarrow> f_type f = PIPE) \<and>
     (f_type f = REGULAR \<longrightarrow> (\<exists>ino<NUM_FILES. f_inode f = Some ino)) \<and>
     (f_type f = PIPE \<longrightarrow> f_mode f = O_READ \<or> f_mode f = O_WRITE)"

definition pipe_files :: "nat set \<Rightarrow> fstate \<Rightarrow> nat set" where
  "pipe_files A s = {q \<in> A. f_type (fpage s q) = PIPE}"

definition pipes :: "nat set \<Rightarrow> fstate \<Rightarrow> nat set" where
  "pipes A s = (\<lambda>q. f_pipe (fpage s q)) ` pipe_files A s"

text \<open>There is an open file object for the end of pipe \<open>t\<close> with this mode.\<close>

definition end_open :: "nat set \<Rightarrow> fstate \<Rightarrow> nat \<Rightarrow> u32 \<Rightarrow> bool" where
  "end_open A s t m \<longleftrightarrow> (\<exists>q\<in>pipe_files A s. f_pipe (fpage s q) = t \<and> f_mode (fpage s q) = m)"

text \<open>The file objects in the pages \<open>A\<close>, their pipes and the pages they occupy.\<close>

definition frames_ok :: "nat set \<Rightarrow> nat set \<Rightarrow> fstate \<Rightarrow> bool" where
  "frames_ok B A s \<longleftrightarrow> kmem_ok (km s) \<and> first_pfn OS_DS_REG (km s) \<in> B \<and>
     used_frames OS_DS_REG (km s) = B \<union> A \<union> pipes A s \<union> pbuf s ` pipes A s \<and>
     B \<inter> (A \<union> pipes A s \<union> pbuf s ` pipes A s) = {} \<and> A \<inter> (pipes A s \<union> pbuf s ` pipes A s) = {} \<and>
     pipes A s \<inter> pbuf s ` pipes A s = {} \<and> inj_on (pbuf s) (pipes A s)"

definition pipes_ok :: "nat set \<Rightarrow> fstate \<Rightarrow> bool" where
  "pipes_ok A s \<longleftrightarrow>
     (\<forall>t\<in>pipes A s. pipe_ok (ppage s t) \<and>
        pi_ropen (ppage s t) = (if end_open A s t O_READ then 1 else 0) \<and>
        pi_wopen (ppage s t) = (if end_open A s t O_WRITE then 1 else 0)) \<and>
     inj_on (\<lambda>q. (f_pipe (fpage s q), f_mode (fpage s q))) (pipe_files A s)"

definition objs_ok :: "nat set \<Rightarrow> nat set \<Rightarrow> fstate \<Rightarrow> bool" where
  "objs_ok B A s \<longleftrightarrow> frames_ok B A s \<and> pipes_ok A s \<and> (\<forall>q\<in>A. file_ok (fpage s q))"

definition ft_ok :: "nat set \<Rightarrow> fstate \<Rightarrow> bool" where
  "ft_ok B s \<longleftrightarrow> objs_ok B (opened s) s \<and> flatfs_ok (fsb s) \<and>
     (\<forall>q\<in>opened s. f_ref (fpage s q) = int (card (descs s q)) \<and>
        (f_type (fpage s q) = REGULAR \<longrightarrow> 0 \<le> f_offp (fpage s q) \<and> f_offp (fpage s q) \<le> FILE_SIZE))"

section \<open>Pages\<close>

lemma start_alloc [simp]:
  "first_pfn OS_DS_REG (snd (os_pfn_alloc r k)) = first_pfn OS_DS_REG k"
  by (simp add: pglists_os_pfn_alloc get_free_page_eq)

lemma start_free [simp]: "first_pfn OS_DS_REG (os_pfn_free r q k) = first_pfn OS_DS_REG k"
  by (simp add: pglists_os_pfn_free os_page_free_def Let_def)

lemma used_pos: "kmem_ok k \<Longrightarrow> q \<in> used_frames OS_DS_REG k \<Longrightarrow> 0 < q"
proof -
  assume k: "kmem_ok k" and q: "q \<in> used_frames OS_DS_REG k"
  have "0 < start_address (pglists k OS_DS_REG)" "start_address (pglists k OS_DS_REG) mod 4096 = 0"
    using k by (auto simp: kmem_ok_def pgl_ok_def)
  then have "0 < first_pfn OS_DS_REG k" by (auto intro!: div_greater_zero_iff [THEN iffD2] dvd_imp_le simp: mod_eq_0_iff_dvd)
  then show ?thesis using q by (auto simp: used_frames_def)
qed

lemma alloc_ds:
  assumes "kmem_ok k" "room OS_DS_REG k"
  obtains q k' where "os_pfn_alloc OS_DS_REG k = (q, k')" "q \<notin> used_frames OS_DS_REG k" "0 < q"
    "used_frames OS_DS_REG k' = insert q (used_frames OS_DS_REG k)" "kmem_ok k'"
    "first_pfn OS_DS_REG k' = first_pfn OS_DS_REG k"
proof -
  obtain q k' where a: "os_pfn_alloc OS_DS_REG k = (q, k')" by (cases "os_pfn_alloc OS_DS_REG k")
  have f: "q \<notin> used_frames OS_DS_REG k" "used_frames OS_DS_REG k' = insert q (used_frames OS_DS_REG k)" "kmem_ok k'"
    using frames.alloc_fresh [OF assms a] frames.alloc_used [OF assms a] frames.alloc_inv [OF assms a] by auto
  moreover have "0 < q" using used_pos [OF f(3), of q] f(2) by simp
  moreover have "first_pfn OS_DS_REG k' = first_pfn OS_DS_REG k" using start_alloc [of OS_DS_REG k] a by simp
  ultimately show thesis using that a by blast
qed

lemma free_ds:
  assumes "kmem_ok k" "q \<in> used_frames OS_DS_REG k" "q \<noteq> first_pfn OS_DS_REG k"
  shows "used_frames OS_DS_REG (os_pfn_free OS_DS_REG q k) = used_frames OS_DS_REG k - {q} \<and>
    kmem_ok (os_pfn_free OS_DS_REG q k)"
  using frames.free_used [OF assms] frames.free_inv [OF assms] by blast

section \<open>Adding and removing file objects\<close>

lemma pipe_files_cong:
  assumes "\<And>q. q \<in> A \<Longrightarrow> core (fpage s' q) = core (fpage s q)"
  shows "pipe_files A s' = pipe_files A s" "pipes A s' = pipes A s" "end_open A s' t m = end_open A s t m"
proof -
  have c: "f_type (fpage s' q) = f_type (fpage s q)" "f_pipe (fpage s' q) = f_pipe (fpage s q)"
    "f_mode (fpage s' q) = f_mode (fpage s q)" if "q \<in> A" for q
    using assms [OF that] by (auto simp: core_def)
  show p: "pipe_files A s' = pipe_files A s" using c(1) by (auto simp: pipe_files_def)
  have A: "q \<in> A" if "q \<in> pipe_files A s" for q using that by (simp add: pipe_files_def)
  show "pipes A s' = pipes A s" unfolding pipes_def p by (rule image_cong [OF refl]) (simp add: c A)
  show "end_open A s' t m = end_open A s t m" unfolding end_open_def p by (rule bex_cong [OF refl]) (simp add: c A)
qed

lemma file_ok_core: "core f = core g \<Longrightarrow> file_ok f = file_ok g"
  by (auto simp: core_def file_ok_def)

text \<open>Nothing in \<^const>\<open>objs_ok\<close> depends on reference counts, offsets, descriptors or the file system.\<close>

lemma objs_cong:
  assumes ok: "objs_ok B A s" and c: "\<And>q. q \<in> A \<Longrightarrow> core (fpage s' q) = core (fpage s q)"
    and k: "km s' = km s" "pbuf s' = pbuf s"
    and p: "\<And>t. t \<in> pipes A s \<Longrightarrow> pipe_ok (ppage s' t) \<and> pi_ropen (ppage s' t) = pi_ropen (ppage s t) \<and>
      pi_wopen (ppage s' t) = pi_wopen (ppage s t)"
  shows "objs_ok B A s'"
proof -
  note pf = pipe_files_cong [of A s' s, OF c]
  have "frames_ok B A s'" using ok unfolding objs_ok_def frames_ok_def by (simp add: pf k)
  moreover have "inj_on (\<lambda>q. (f_pipe (fpage s' q), f_mode (fpage s' q))) (pipe_files A s)"
  proof -
    have "inj_on (\<lambda>q. (f_pipe (fpage s q), f_mode (fpage s q))) (pipe_files A s)"
      using ok by (simp add: objs_ok_def pipes_ok_def)
    then show ?thesis by (rule inj_on_cong [THEN iffD1, rotated]) (use c in \<open>auto simp: pipe_files_def core_def\<close>)
  qed
  then have "pipes_ok A s'" using ok p unfolding objs_ok_def pipes_ok_def by (simp add: pf)
  moreover have "\<forall>q\<in>A. file_ok (fpage s' q)" using ok c file_ok_core unfolding objs_ok_def by blast
  ultimately show ?thesis by (simp add: objs_ok_def)
qed

lemma objs_pipe_ok: "objs_ok B A s \<Longrightarrow> t \<in> pipes A s \<Longrightarrow> pipe_ok (ppage s t)"
  by (simp add: objs_ok_def pipes_ok_def)

lemma objs_used:
  "objs_ok B A s \<Longrightarrow> used_frames OS_DS_REG (km s) = B \<union> A \<union> pipes A s \<union> pbuf s ` pipes A s"
  by (simp add: objs_ok_def frames_ok_def)

text \<open>A new object that is not a pipe.\<close>

lemma objs_add:
  assumes ok: "objs_ok B A s" and q: "q \<notin> used_frames OS_DS_REG (km s)"
    and k: "used_frames OS_DS_REG (km s') = insert q (used_frames OS_DS_REG (km s))" "kmem_ok (km s')"
      "first_pfn OS_DS_REG (km s') = first_pfn OS_DS_REG (km s)"
    and s': "pbuf s' = pbuf s" "ppage s' = ppage s" "\<And>r. r \<noteq> q \<Longrightarrow> fpage s' r = fpage s r"
    and f: "file_ok (fpage s' q)" "f_type (fpage s' q) \<noteq> PIPE"
  shows "objs_ok B (insert q A) s'"
proof -
  have qA: "q \<notin> A" "q \<notin> pipes A s" "q \<notin> B" "q \<notin> pbuf s ` pipes A s"
    using q unfolding objs_used [OF ok] by auto
  have c: "core (fpage s' r) = core (fpage s r)" if "r \<in> A" for r using that qA(1) s'(3) by metis
  note pf = pipe_files_cong [of A s' s, OF c]
  have e: "pipe_files (insert q A) s' = pipe_files A s" using f(2) pf(1) by (auto simp: pipe_files_def)
  have fe: "fpage s' r = fpage s r" if "r \<in> pipe_files A s" for r
    by (rule s'(3)) (use that qA(1) in \<open>auto simp: pipe_files_def\<close>)
  then have e2: "pipes (insert q A) s' = pipes A s" "end_open (insert q A) s' t m = end_open A s t m" for t m
    unfolding pipes_def end_open_def e by (auto intro!: image_cong)
  have "frames_ok B (insert q A) s'"
    using ok k qA unfolding objs_ok_def frames_ok_def e2 s' by auto
  moreover have "inj_on (\<lambda>q. (f_pipe (fpage s' q), f_mode (fpage s' q))) (pipe_files A s)"
    using ok fe unfolding objs_ok_def pipes_ok_def by (simp add: inj_on_def)
  then have "pipes_ok (insert q A) s'" using ok unfolding objs_ok_def pipes_ok_def e e2 s' by blast
  moreover have "\<forall>r\<in>insert q A. file_ok (fpage s' r)" using ok f(1) c file_ok_core unfolding objs_ok_def by blast
  ultimately show ?thesis by (simp add: objs_ok_def)
qed

text \<open>Removing one object; its page is freed.  Other files of a pipe keep it alive.\<close>

lemma pipe_files_Diff: "pipe_files (A - {q}) s = pipe_files A s - {q}"
  by (auto simp: pipe_files_def)

lemma frames_ok_shrink:
  assumes ok: "objs_ok B A s" and q: "q \<in> A" and p: "pipes (A - {q}) s = pipes A s - T" "T \<subseteq> pipes A s"
    and k: "kmem_ok (km s')" "first_pfn OS_DS_REG (km s') = first_pfn OS_DS_REG (km s)"
      "used_frames OS_DS_REG (km s') = used_frames OS_DS_REG (km s) - insert q (T \<union> pbuf s ` T)"
    and s': "pbuf s' = pbuf s" "fpage s' = fpage s"
  shows "frames_ok B (A - {q}) s'"
proof -
  have e: "pipes (A - {q}) s' = pipes A s - T" using p(1) s'(2) by (simp add: pipes_def pipe_files_def)
  have f: "first_pfn OS_DS_REG (km s) \<in> B" "B \<inter> (A \<union> pipes A s \<union> pbuf s ` pipes A s) = {}"
    "A \<inter> (pipes A s \<union> pbuf s ` pipes A s) = {}" "pipes A s \<inter> pbuf s ` pipes A s = {}" "inj_on (pbuf s) (pipes A s)"
    using ok by (simp_all add: objs_ok_def frames_ok_def)
  have i: "pbuf s ` (pipes A s - T) = pbuf s ` pipes A s - pbuf s ` T"
    by (rule inj_on_image_set_diff [OF f(5)]) (use p(2) in auto)
  have "used_frames OS_DS_REG (km s') = B \<union> (A - {q}) \<union> (pipes A s - T) \<union> (pbuf s ` pipes A s - pbuf s ` T)"
    unfolding k(3) objs_used [OF ok] using f(2-4) q p(2) by blast
  moreover have "inj_on (pbuf s) (pipes A s - T)" using f(5) by (rule inj_on_subset) auto
  moreover have "B \<inter> ((A - {q}) \<union> (pipes A s - T) \<union> (pbuf s ` pipes A s - pbuf s ` T)) = {}" using f(2) by blast
  moreover have "(A - {q}) \<inter> ((pipes A s - T) \<union> (pbuf s ` pipes A s - pbuf s ` T)) = {}" using f(3) by blast
  moreover have "(pipes A s - T) \<inter> (pbuf s ` pipes A s - pbuf s ` T) = {}" using f(4) by blast
  ultimately show ?thesis unfolding frames_ok_def e s'(1) i using k(1,2) f(1) by simp
qed

lemma objs_not_first:
  assumes "objs_ok B A s" "q \<in> A \<union> pipes A s \<union> pbuf s ` pipes A s"
  shows "q \<in> used_frames OS_DS_REG (km s)" "q \<noteq> first_pfn OS_DS_REG (km s)"
proof -
  have "B \<inter> (A \<union> pipes A s \<union> pbuf s ` pipes A s) = {}" "first_pfn OS_DS_REG (km s) \<in> B"
    using assms(1) by (simp_all add: objs_ok_def frames_ok_def)
  with assms(2) show "q \<noteq> first_pfn OS_DS_REG (km s)" by blast
  show "q \<in> used_frames OS_DS_REG (km s)" using assms objs_used by blast
qed

lemma objs_kmem: "objs_ok B A s \<Longrightarrow> kmem_ok (km s)"
  by (simp add: objs_ok_def frames_ok_def)

lemma objs_file: "objs_ok B A s \<Longrightarrow> q \<in> A \<Longrightarrow> file_ok (fpage s q)"
  by (simp add: objs_ok_def)

lemma objs_inj: "objs_ok B A s \<Longrightarrow> inj_on (\<lambda>q. (f_pipe (fpage s q), f_mode (fpage s q))) (pipe_files A s)"
  by (simp add: objs_ok_def pipes_ok_def)

lemma objs_remove_plain:
  assumes ok: "objs_ok B A s" and q: "q \<in> A" "f_type (fpage s q) \<noteq> PIPE"
  shows "objs_ok B (A - {q}) (free_file_object q s)"
proof -
  let ?s = "free_file_object q s"
  have n: "q \<in> used_frames OS_DS_REG (km s)" "q \<noteq> first_pfn OS_DS_REG (km s)" using objs_not_first [OF ok] q(1) by auto
  have s': "fpage ?s = fpage s" "pbuf ?s = pbuf s" "ppage ?s = ppage s" by (simp_all add: free_file_object_def)
  have k: "km ?s = os_pfn_free OS_DS_REG q (km s)"
    using used_pos [OF objs_kmem [OF ok] n(1)] by (simp add: free_file_object_def)
  note fr = free_ds [OF objs_kmem [OF ok] n]
  have pf: "pipe_files (A - {q}) s = pipe_files A s" using q(2) by (auto simp: pipe_files_def)
  then have pf2: "pipes (A - {q}) s = pipes A s" "end_open (A - {q}) s t m = end_open A s t m" for t m
    by (simp_all add: pipes_def end_open_def)
  have "frames_ok B (A - {q}) ?s"
    by (rule frames_ok_shrink [OF ok q(1), of "{}"]) (use pf2 fr k s' in auto)
  moreover have "pipe_files (A - {q}) ?s = pipe_files A s" "pipes (A - {q}) ?s = pipes A s"
    "end_open (A - {q}) ?s t m = end_open A s t m" for t m
    using pf pf2 s' by (simp_all add: pipe_files_def pipes_def end_open_def)
  then have "pipes_ok (A - {q}) ?s" using ok unfolding objs_ok_def pipes_ok_def s' by simp
  ultimately show ?thesis using ok s' by (simp add: objs_ok_def)
qed

text \<open>The last descriptor of one end of a pipe is closed.\<close>

lemma ends_after:
  assumes ok: "objs_ok B A s" and q: "q \<in> pipe_files A s" and t: "t = f_pipe (fpage s q)"
  shows "end_open (A - {q}) s t' m \<longleftrightarrow> end_open A s t' m \<and> \<not> (t' = t \<and> m = f_mode (fpage s q))"
proof -
  have "\<And>r. r \<in> pipe_files A s \<Longrightarrow> f_pipe (fpage s r) = t \<Longrightarrow> f_mode (fpage s r) = f_mode (fpage s q) \<Longrightarrow> r = q"
    using objs_inj [OF ok] q t unfolding inj_on_def by blast
  then show ?thesis unfolding end_open_def pipe_files_Diff using t by blast
qed

lemma image_Diff_one:
  assumes "q \<in> X"
  shows "g ` (X - {q}) = (if \<exists>r\<in>X - {q}. g r = g q then g ` X else g ` X - {g q})"
proof (cases "\<exists>r\<in>X - {q}. g r = g q")
  case True
  then have "g q \<in> g ` (X - {q})" by (metis imageI)
  then have "g ` insert q (X - {q}) = g ` (X - {q})" unfolding image_insert by (rule insert_absorb)
  moreover have "insert q (X - {q}) = X" using assms by auto
  ultimately have "g ` (X - {q}) = g ` X" by metis
  with True show ?thesis by simp
qed auto

lemma pipes_after:
  assumes ok: "objs_ok B A s" and q: "q \<in> pipe_files A s" and t: "t = f_pipe (fpage s q)"
  shows "pipes (A - {q}) s =
    (if end_open (A - {q}) s t O_READ \<or> end_open (A - {q}) s t O_WRITE then pipes A s else pipes A s - {t})"
proof -
  have m: "f_mode (fpage s r) = O_READ \<or> f_mode (fpage s r) = O_WRITE" if "r \<in> pipe_files A s" for r
    using objs_file [OF ok] that by (auto simp: pipe_files_def file_ok_def)
  have "(end_open (A - {q}) s t O_READ \<or> end_open (A - {q}) s t O_WRITE) \<longleftrightarrow>
      (\<exists>r\<in>pipe_files A s - {q}. f_pipe (fpage s r) = t)"
    unfolding end_open_def pipe_files_Diff using m by blast
  then show ?thesis
    using image_Diff_one [OF q, of "\<lambda>r. f_pipe (fpage s r)"] t unfolding pipes_def pipe_files_Diff by simp
qed

lemma pipes_ok_shrink:
  assumes ok: "objs_ok B A s" and q: "q \<in> pipe_files A s" and t: "t = f_pipe (fpage s q)"
    and s': "fpage s' = fpage s" "ppage s' = (ppage s)(t := close_end (f_mode (fpage s q)) (ppage s t))"
  shows "pipes_ok (A - {q}) s'"
proof -
  have pf: "pipe_files (A - {q}) s' = pipe_files A s - {q}" using s'(1) by (auto simp: pipe_files_def)
  have e: "pipes (A - {q}) s' = pipes (A - {q}) s" "end_open (A - {q}) s' t' m = end_open (A - {q}) s t' m" for t' m
    using s'(1) by (simp_all add: pipes_def end_open_def pipe_files_def)
  have sub: "pipes (A - {q}) s \<subseteq> pipes A s" by (auto simp: pipes_def pipe_files_def)
  have p: "pipe_ok (ppage s u)" "pi_ropen (ppage s u) = (if end_open A s u O_READ then 1 else 0)"
    "pi_wopen (ppage s u) = (if end_open A s u O_WRITE then 1 else 0)" if "u \<in> pipes A s" for u
    using ok that by (simp_all add: objs_ok_def pipes_ok_def)
  have "f_mode (fpage s q) = O_READ \<or> f_mode (fpage s q) = O_WRITE"
    using objs_file [OF ok] q by (auto simp: pipe_files_def file_ok_def)
  then have "pipe_ok (ppage s' u) \<and> pi_ropen (ppage s' u) = (if end_open (A - {q}) s u O_READ then 1 else 0) \<and>
      pi_wopen (ppage s' u) = (if end_open (A - {q}) s u O_WRITE then 1 else 0)" if "u \<in> pipes A s" for u
    using p [OF that] by (auto simp: s' close_end_def pipe_ok_def ends_after [OF ok q t])
  moreover have "inj_on (\<lambda>q. (f_pipe (fpage s q), f_mode (fpage s q))) (pipe_files A s - {q})"
    using objs_inj [OF ok] by (rule inj_on_subset) auto
  ultimately show ?thesis using sub unfolding pipes_ok_def pf e s'(1) by blast
qed

lemma objs_remove_end:
  assumes ok: "objs_ok B A s" and q: "q \<in> A" "f_type (fpage s q) = PIPE" "f_ref (fpage s q) = 1"
  shows "\<exists>s'. generic_close q s = Some (0, s') \<and> objs_ok B (A - {q}) s' \<and>
    fpage s' = fpage s \<and> ofile s' = ofile s \<and> fsb s' = fsb s"
proof -
  define t where "t = f_pipe (fpage s q)"
  have qp: "q \<in> pipe_files A s" using q by (simp add: pipe_files_def)
  then have tp: "t \<in> pipes A s" by (simp add: pipes_def t_def)
  have n: "x \<in> used_frames OS_DS_REG (km s)" "x \<noteq> first_pfn OS_DS_REG (km s)" if "x \<in> {q, t, pbuf s t}" for x
    using objs_not_first [OF ok, of x] that q(1) tp by auto
  have pos: "q \<noteq> 0" "t \<noteq> 0" using used_pos [OF objs_kmem [OF ok]] n(1) by fastforce+
  let ?pp = "(ppage s)(t := close_end (f_mode (fpage s q)) (ppage s t))"
  let ?s1 = "s\<lparr>ppage := ?pp\<rparr>"
  let ?dead = "pi_wopen (?pp t) = 0 \<and> pi_ropen (?pp t) = 0"
  let ?s2 = "if ?dead then free_pipe_info t ?s1 else ?s1"
  let ?s3 = "free_file_object q ?s2"
  have run: "generic_close q s = Some (0, ?s3)"
    using q pos by (simp add: generic_close_def Let_def t_def)
  have same: "fpage ?s3 = fpage s" "ofile ?s3 = ofile s" "fsb ?s3 = fsb s" "pbuf ?s3 = pbuf s" "ppage ?s3 = ?pp"
    by (simp_all add: free_file_object_def free_pipe_info_def)
  have po: "pipes_ok (A - {q}) ?s3" by (rule pipes_ok_shrink [OF ok qp t_def same(1,5)])
  have flags: "?dead \<longleftrightarrow> \<not> end_open (A - {q}) s t O_READ \<and> \<not> end_open (A - {q}) s t O_WRITE"
  proof -
    have "f_mode (fpage s q) = O_READ \<or> f_mode (fpage s q) = O_WRITE" using objs_file [OF ok q(1)] q(2) by (simp add: file_ok_def)
    moreover have "pi_ropen (ppage s t) = (if end_open A s t O_READ then 1 else 0)"
      "pi_wopen (ppage s t) = (if end_open A s t O_WRITE then 1 else 0)"
      using ok tp by (simp_all add: objs_ok_def pipes_ok_def)
    ultimately show ?thesis by (auto simp: close_end_def ends_after [OF ok qp t_def])
  qed
  have "frames_ok B (A - {q}) ?s3"
  proof (cases ?dead)
    case True
    let ?k = "os_pfn_free OS_DS_REG t (os_pfn_free OS_DS_REG (pbuf s t) (km s))"
    have k3: "km ?s3 = os_pfn_free OS_DS_REG q ?k" using True pos by (simp add: free_file_object_def free_pipe_info_def)
    have "q \<noteq> t" "q \<noteq> pbuf s t" "t \<noteq> pbuf s t" using ok q(1) tp unfolding objs_ok_def frames_ok_def by blast+
    moreover note f1 = free_ds [OF objs_kmem [OF ok] n [of "pbuf s t"]]
    moreover note f2 = free_ds [of "os_pfn_free OS_DS_REG (pbuf s t) (km s)" t]
    moreover note f3 = free_ds [of ?k q]
    ultimately have "kmem_ok (km ?s3)" "used_frames OS_DS_REG (km ?s3) = used_frames OS_DS_REG (km s) - insert q ({t} \<union> pbuf s ` {t})"
      unfolding k3 using n by auto
    moreover have "pipes (A - {q}) s = pipes A s - {t}" using pipes_after [OF ok qp t_def] True flags by auto
    ultimately show ?thesis using tp k3 same by (intro frames_ok_shrink [OF ok q(1), of "{t}"]) auto
  next
    case False
    then have k3: "km ?s3 = os_pfn_free OS_DS_REG q (km s)" using pos by (auto simp: free_file_object_def)
    have "pipes (A - {q}) s = pipes A s" using pipes_after [OF ok qp t_def] False flags by auto
    then show ?thesis using free_ds [OF objs_kmem [OF ok] n [of q]] k3 same
      by (intro frames_ok_shrink [OF ok q(1), of "{}"]) auto
  qed
  then have "objs_ok B (A - {q}) ?s3" using ok po same(1) by (simp add: objs_ok_def)
  with run same show ?thesis by blast
qed

section \<open>Descriptors\<close>

lemma descs_sub: "descs s q \<subseteq> {..<MAX_PROCS} \<times> {..<MAX_OPEN_FILES}"
  by (auto simp: descs_def)

lemma descs_finite [simp]: "finite (descs s q)"
  by (rule finite_subset [OF descs_sub]) simp

lemma descs_card: "card (descs s q) \<le> 224"
  using card_mono [OF _ descs_sub, of s q] by (simp add: MAX_PROCS_def MAX_OPEN_FILES_def card_cartesian_product)

lemma descs_ofile: "ofile s' = ofile s \<Longrightarrow> descs s' = descs s \<and> opened s' = opened s"
  by (simp add: fun_eq_iff descs_def opened_def)

lemma opened_cong: "(\<And>x. x \<noteq> 0 \<Longrightarrow> (descs s' x = {}) = (descs s x = {})) \<Longrightarrow> opened s' = opened s"
  unfolding opened_def by blast

lemma descs_set_fd:
  "p < MAX_PROCS \<Longrightarrow> i < MAX_OPEN_FILES \<Longrightarrow>
    descs (set_fd p i r s) x = (if x = r then insert (p, i) (descs s x) else descs s x - {(p, i)})"
  by (auto simp: descs_def set_fd_def split: if_splits)

lemma ofile_opened: "p < MAX_PROCS \<Longrightarrow> i < MAX_OPEN_FILES \<Longrightarrow> ofile s p i \<noteq> 0 \<Longrightarrow> ofile s p i \<in> opened s"
  by (auto simp: opened_def descs_def)

lemma set_fd_sel [simp]:
  "km (set_fd p i r s) = km s" "fpage (set_fd p i r s) = fpage s" "ppage (set_fd p i r s) = ppage s"
  "pbuf (set_fd p i r s) = pbuf s" "fsb (set_fd p i r s) = fsb s"
  "ofile (set_fd p i r s) = (ofile s)(p := (ofile s p)(i := r))"
  by (simp_all add: set_fd_def)

lemma upd_file_sel [simp]:
  "km (upd_file q u s) = km s" "fpage (upd_file q u s) = (fpage s)(q := u (fpage s q))"
  "ppage (upd_file q u s) = ppage s" "pbuf (upd_file q u s) = pbuf s" "fsb (upd_file q u s) = fsb s"
  "ofile (upd_file q u s) = ofile s"
  by (simp_all add: upd_file_def)

lemma objs_set_fd: "objs_ok B A s \<Longrightarrow> objs_ok B A (set_fd p i r s)"
  by (rule objs_cong [of B A s]) (auto intro: objs_pipe_ok)

lemma objs_upd_file:
  "objs_ok B A s \<Longrightarrow> core (u (fpage s q)) = core (fpage s q) \<Longrightarrow> objs_ok B A (upd_file q u s)"
  by (rule objs_cong [of B A s]) (auto intro: objs_pipe_ok)

lemma ft_ref: "ft_ok B s \<Longrightarrow> q \<in> opened s \<Longrightarrow> f_ref (fpage s q) = int (card (descs s q))"
  by (simp add: ft_ok_def)

text \<open>A descriptor that is free comes to share an open file object.\<close>

lemma ft_attach:
  assumes ok: "ft_ok B s" and p: "p < MAX_PROCS" "i < MAX_OPEN_FILES" "ofile s p i = 0" and q: "q \<in> opened s"
  shows "ft_ok B (inc_ref q (set_fd p i q s))"
proof -
  let ?s = "inc_ref q (set_fd p i q s)"
  have q0: "q \<noteq> 0" "(p, i) \<notin> descs s x" if "x \<noteq> 0" for x using q p(3) that by (auto simp: opened_def descs_def)
  have d: "descs ?s x = (if x = q then insert (p, i) (descs s q) else descs s x)" if "x \<noteq> 0" for x
    using descs_set_fd [OF p(1,2), of q s x] q0 [OF that] descs_ofile [of ?s "set_fd p i q s"]
    by (auto simp: inc_ref_def)
  have o: "opened ?s = opened s"
    by (rule opened_cong) (use d q in \<open>simp add: opened_def split: if_splits\<close>)
  have "objs_ok B (opened s) ?s"
    unfolding inc_ref_def by (intro objs_upd_file objs_set_fd) (use ok in \<open>auto simp: ft_ok_def core_def\<close>)
  moreover have "f_ref (fpage ?s x) = int (card (descs ?s x)) \<and>
      (f_type (fpage ?s x) = REGULAR \<longrightarrow> 0 \<le> f_offp (fpage ?s x) \<and> f_offp (fpage ?s x) \<le> FILE_SIZE)" if x: "x \<in> opened s" for x
  proof -
    have x0: "x \<noteq> 0" using x by (simp add: opened_def)
    have "(int (card (descs s q)) + 1) mod 2 ^ 32 = int (card (descs s q)) + 1" using descs_card [of s q] by simp
    then show ?thesis
      using d [OF x0] ok x q0(2) [OF x0] by (auto simp: ft_ok_def inc_ref_def)
  qed
  ultimately show ?thesis using ok o by (auto simp: ft_ok_def inc_ref_def)
qed

text \<open>A descriptor is closed.\<close>

lemma generic_close_set_fd:
  "generic_close q (set_fd p i r s) = map_option (map_prod id (set_fd p i r)) (generic_close q s)"
  by (simp add: generic_close_def Let_def free_file_object_def free_pipe_info_def upd_file_def set_fd_def)

lemma ft_detach:
  assumes ok: "ft_ok B s" and p: "p < MAX_PROCS" "i < MAX_OPEN_FILES" "ofile s p i \<noteq> 0"
  shows "\<exists>s'. generic_close (ofile s p i) s = Some (0, s') \<and> ofile s' = ofile s \<and> ft_ok B (set_fd p i 0 s')"
proof -
  define q where "q = ofile s p i"
  have q: "q \<in> opened s" "(p, i) \<in> descs s q" "q \<noteq> 0" using p ofile_opened by (auto simp: q_def descs_def)
  have objs: "objs_ok B (opened s) s" using ok by (simp add: ft_ok_def)
  have other: "(p, i) \<notin> descs s x" if "x \<noteq> q" for x using that by (auto simp: descs_def q_def)
  have dd: "descs (set_fd p i 0 s') x = descs s x - {(p, i)}" if "x \<noteq> 0" "ofile s' = ofile s" for x s'
    using descs_set_fd [OF p(1,2), of 0 s'] descs_ofile [OF that(2)] that(1) by simp
  show ?thesis
  proof (cases "f_ref (fpage s q) = 1")
    case True
    then have "card (descs s q) = 1" using ft_ref [OF ok q(1)] by simp
    then have one: "descs s q = {(p, i)}" using q(2) by (metis card_1_singletonE singletonD)
    have "\<exists>s'. generic_close q s = Some (0, s') \<and> objs_ok B (opened s - {q}) s' \<and>
        fpage s' = fpage s \<and> ofile s' = ofile s \<and> fsb s' = fsb s"
    proof (cases "f_type (fpage s q) = PIPE")
      case True
      with objs_remove_end [OF objs q(1)] \<open>f_ref (fpage s q) = 1\<close> show ?thesis by blast
    next
      case False
      then have "generic_close q s = Some (0, free_file_object q s)"
        using q(3) \<open>f_ref (fpage s q) = 1\<close> by (simp add: generic_close_def Let_def)
      with objs_remove_plain [OF objs q(1) False] show ?thesis by (auto simp: free_file_object_def)
    qed
    then obtain s' where s': "generic_close q s = Some (0, s')" "objs_ok B (opened s - {q}) s'"
      "fpage s' = fpage s" "ofile s' = ofile s" "fsb s' = fsb s" by blast
    have "opened (set_fd p i 0 s') = opened s - {q}"
      using dd [OF _ s'(4)] one other by (auto simp: opened_def)
    moreover have "descs (set_fd p i 0 s') x = descs s x" if "x \<noteq> 0" "x \<noteq> q" for x
      using dd [OF that(1) s'(4)] other [OF that(2)] by simp
    ultimately have "ft_ok B (set_fd p i 0 s')"
      using ok s' objs_set_fd [OF s'(2)] by (auto simp: ft_ok_def opened_def)
    with s' show ?thesis unfolding q_def by blast
  next
    case False
    let ?s = "upd_file q (\<lambda>f. f\<lparr>f_ref := (f_ref f - 1) mod 2 ^ 32\<rparr>) s"
    have gt: "1 < card (descs s q)" using False ft_ref [OF ok q(1)] q(2) by (metis card_0_eq descs_finite empty_iff
          less_one linorder_neqE_nat of_nat_1)
    then have c: "card (descs s q - {(p, i)}) = card (descs s q) - 1" "descs s q - {(p, i)} \<noteq> {}"
      using q(2) by (simp, metis card.empty card_Diff_singleton diff_is_0_eq not_less)
    have e: "generic_close q s = Some (0, ?s)" using False q(3) by (simp add: generic_close_def Let_def)
    have dx: "descs (set_fd p i 0 ?s) x = (if x = q then descs s q - {(p, i)} else descs s x)" if "x \<noteq> 0" for x
      using dd [OF that, of ?s] other by auto
    have op: "opened (set_fd p i 0 ?s) = opened s"
      by (rule opened_cong) (use dx c(2) q(2) in auto)
    have "objs_ok B (opened s) (set_fd p i 0 ?s)"
      by (intro objs_set_fd objs_upd_file objs) (simp add: core_def)
    moreover have "(int (card (descs s q)) - 1) mod 2 ^ 32 = int (card (descs s q) - 1)"
      using descs_card [of s q] gt by (simp add: of_nat_diff)
    then have "f_ref (fpage (set_fd p i 0 ?s) x) = int (card (descs (set_fd p i 0 ?s) x))" if "x \<in> opened s" for x
      using dx [of x] c(1) ok that by (auto simp: ft_ok_def opened_def)
    ultimately have "ft_ok B (set_fd p i 0 ?s)" using ok op by (auto simp: ft_ok_def)
    with e show ?thesis unfolding q_def by auto
  qed
qed

end
