(* ===== verification/FileCalls.thy ===== *)
theory FileCalls
  imports FileInv
begin

text \<open>
  The system calls on files of the Assignment 2 kernel keep the invariant of theory
  FileInv: opening, reading, writing, seeking, pipes, duplicates, closing, fork and
  exit.  Sequences of calls by all processes start from the empty table; each legal
  call returns, and the pages of closed files and pipes are free again.
\<close>

section \<open>New file objects\<close>

lemma alloc_file_ok:
  assumes ok: "objs_ok B A s" and r: "room OS_DS_REG (km s)"
  obtains q s1 where "alloc_file w s = (q, s1)" "q \<notin> used_frames OS_DS_REG (km s)" "0 < q"
    "used_frames OS_DS_REG (km s1) = insert q (used_frames OS_DS_REG (km s))" "kmem_ok (km s1)"
    "first_pfn OS_DS_REG (km s1) = first_pfn OS_DS_REG (km s)"
    "ofile s1 = ofile s" "fsb s1 = fsb s" "pbuf s1 = pbuf s" "ppage s1 = ppage s" "km s1 = snd (os_pfn_alloc OS_DS_REG (km s))"
    "fpage s1 = (fpage s)(q := (w_file w q)\<lparr>f_read := None, f_write := None, f_lseek := False, f_close := False\<rparr>)"
proof -
  obtain q k where k: "os_pfn_alloc OS_DS_REG (km s) = (q, k)" "q \<notin> used_frames OS_DS_REG (km s)" "0 < q"
    "used_frames OS_DS_REG k = insert q (used_frames OS_DS_REG (km s))" "kmem_ok k"
    "first_pfn OS_DS_REG k = first_pfn OS_DS_REG (km s)"
    by (rule alloc_ds [OF objs_kmem [OF ok] r]) blast
  then show thesis using that [of q "snd (alloc_file w s)"] by (simp add: alloc_file_def)
qed

lemma unused_descs: "objs_ok B (opened s) s \<Longrightarrow> q \<notin> used_frames OS_DS_REG (km s) \<Longrightarrow> 0 < q \<Longrightarrow> descs s q = {}"
  using objs_used [of B "opened s" s] by (auto simp: opened_def)

lemma ft_add:
  assumes ok: "ft_ok B s" and p: "p < MAX_PROCS" "i < MAX_OPEN_FILES" "ofile s p i = 0"
    and r: "room OS_DS_REG (km s)" and a: "alloc_file w s = (q, s1)"
    and u: "file_ok (u (fpage s1 q))" "f_type (u (fpage s1 q)) \<noteq> PIPE" "f_ref (u (fpage s1 q)) = 1"
      "f_type (u (fpage s1 q)) = REGULAR \<Longrightarrow> f_offp (u (fpage s1 q)) = 0"
  shows "q \<noteq> 0 \<and> ft_ok B (upd_file q u (set_fd p i q s1))"
proof -
  let ?s = "upd_file q u (set_fd p i q s1)"
  have objs: "objs_ok B (opened s) s" using ok by (simp add: ft_ok_def)
  have s1: "q \<notin> used_frames OS_DS_REG (km s)" "0 < q"
    "used_frames OS_DS_REG (km s1) = insert q (used_frames OS_DS_REG (km s))" "kmem_ok (km s1)"
    "first_pfn OS_DS_REG (km s1) = first_pfn OS_DS_REG (km s)" "ofile s1 = ofile s" "fsb s1 = fsb s"
    "pbuf s1 = pbuf s" "ppage s1 = ppage s" "\<And>x. x \<noteq> q \<Longrightarrow> fpage s1 x = fpage s x"
    using a by (auto intro: alloc_file_ok [OF objs r, of w])
  have new: "descs s q = {}" by (rule unused_descs [OF objs s1(1,2)])
  have d: "descs ?s x = (if x = q then {(p, i)} else descs s x)" if "x \<noteq> 0" for x
  proof -
    have "(p, i) \<notin> descs s x" using that p(3) by (auto simp: descs_def)
    then show ?thesis
      using descs_set_fd [OF p(1,2), of q s1 x] descs_ofile [of ?s "set_fd p i q s1"] descs_ofile [OF s1(6)] new by auto
  qed
  have op: "opened ?s = insert q (opened s)"
  proof (rule set_eqI)
    fix x
    show "x \<in> opened ?s \<longleftrightarrow> x \<in> insert q (opened s)"
      using d [of x] s1(2) by (cases "x = 0") (auto simp: opened_def split: if_splits)
  qed
  have "objs_ok B (insert q (opened s)) ?s"
    by (rule objs_add [OF objs s1(1)]) (use s1 u in auto)
  moreover have "f_ref (fpage ?s x) = int (card (descs ?s x)) \<and>
      (f_type (fpage ?s x) = REGULAR \<longrightarrow> 0 \<le> f_offp (fpage ?s x) \<and> f_offp (fpage ?s x) \<le> FILE_SIZE)"
    if x: "x \<in> insert q (opened s)" for x
  proof (cases "x = q")
    case True
    then show ?thesis using d [of q] s1(2) u(3,4) by (simp add: FILE_SIZE_def)
  next
    case False
    then have "x \<in> opened s" "x \<noteq> 0" using x by (auto simp: opened_def)
    then show ?thesis using d [of x] False ok s1(10) [OF False] by (simp add: ft_ok_def)
  qed
  ultimately show ?thesis using ok op s1(2,7) by (simp add: ft_ok_def)
qed

text \<open>The ends of a new pipe.\<close>

lemma objs_add_pipe:
  assumes ok: "objs_ok B A s"
    and new: "distinct [q0, q1, t, b]" "set [q0, q1, t, b] \<inter> used_frames OS_DS_REG (km s) = {}"
    and k: "used_frames OS_DS_REG (km s') = set [q0, q1, t, b] \<union> used_frames OS_DS_REG (km s)" "kmem_ok (km s')"
      "first_pfn OS_DS_REG (km s') = first_pfn OS_DS_REG (km s)"
    and s': "pbuf s' = (pbuf s)(t := b)" "\<And>x. x \<noteq> t \<Longrightarrow> ppage s' x = ppage s x" "\<And>x. x \<notin> {q0, q1} \<Longrightarrow> fpage s' x = fpage s x"
    and t: "pipe_ok (ppage s' t)" "pi_ropen (ppage s' t) = 1" "pi_wopen (ppage s' t) = 1"
    and f: "\<And>x. x \<in> {q0, q1} \<Longrightarrow> file_ok (fpage s' x) \<and> f_type (fpage s' x) = PIPE \<and> f_pipe (fpage s' x) = t"
      "f_mode (fpage s' q0) = O_READ" "f_mode (fpage s' q1) = O_WRITE"
  shows "objs_ok B ({q0, q1} \<union> A) s'"
proof -
  have n: "x \<notin> B \<union> A \<union> pipes A s \<union> pbuf s ` pipes A s" if "x \<in> {q0, q1, t, b}" for x
    using new(2) that unfolding objs_used [OF ok] by auto
  have fe: "fpage s' x = fpage s x" if "x \<in> A" for x by (rule s'(3)) (use that n in blast)
  have pf: "pipe_files ({q0, q1} \<union> A) s' = {q0, q1} \<union> pipe_files A s"
    using fe f(1) by (auto simp: pipe_files_def)
  have fe': "fpage s' x = fpage s x" if "x \<in> pipe_files A s" for x using fe that by (simp add: pipe_files_def)
  have ps: "pipes ({q0, q1} \<union> A) s' = insert t (pipes A s)"
    unfolding pipes_def pf image_Un using f(1) fe' by (auto intro!: image_cong)
  have nt: "f_pipe (fpage s x) \<noteq> t" if "x \<in> pipe_files A s" for x using n [of t] that by (auto simp: pipes_def)
  have eo: "end_open ({q0, q1} \<union> A) s' x m \<longleftrightarrow> (if x = t then m = O_READ \<or> m = O_WRITE else end_open A s x m)" for x m
    unfolding end_open_def pf using f fe' nt by auto
  have bufs: "pbuf s' ` insert t (pipes A s) = insert b (pbuf s ` pipes A s)"
    using s'(1) n [of t] by (auto intro!: image_cong)
  have F: "first_pfn OS_DS_REG (km s) \<in> B" "B \<inter> (A \<union> pipes A s \<union> pbuf s ` pipes A s) = {}"
    "A \<inter> (pipes A s \<union> pbuf s ` pipes A s) = {}" "pipes A s \<inter> pbuf s ` pipes A s = {}" "inj_on (pbuf s) (pipes A s)"
    using ok by (simp_all add: objs_ok_def frames_ok_def)
  have "inj_on (pbuf s') (insert t (pipes A s))"
    using F(5) n [of t] n [of b] by (auto simp: s'(1) inj_on_def)
  moreover have "used_frames OS_DS_REG (km s') =
      B \<union> ({q0, q1} \<union> A) \<union> insert t (pipes A s) \<union> insert b (pbuf s ` pipes A s)"
    unfolding k(1) objs_used [OF ok] by auto
  moreover have "B \<inter> (({q0, q1} \<union> A) \<union> insert t (pipes A s) \<union> insert b (pbuf s ` pipes A s)) = {}"
    using F(2) n by blast
  moreover have "({q0, q1} \<union> A) \<inter> (insert t (pipes A s) \<union> insert b (pbuf s ` pipes A s)) = {}"
    using F(3) n new(1) by auto
  moreover have "insert t (pipes A s) \<inter> insert b (pbuf s ` pipes A s) = {}" using F(4) n new(1) by auto
  ultimately have "frames_ok B ({q0, q1} \<union> A) s'"
    unfolding frames_ok_def ps bufs using F(1) k(2,3) by simp
  moreover have "pipes_ok ({q0, q1} \<union> A) s'"
  proof -
    have "pipe_ok (ppage s x) \<and> pi_ropen (ppage s x) = (if end_open A s x O_READ then 1 else 0) \<and>
        pi_wopen (ppage s x) = (if end_open A s x O_WRITE then 1 else 0)" if "x \<in> pipes A s" for x
      using ok that by (simp add: objs_ok_def pipes_ok_def)
    moreover have "t \<notin> pipes A s" using n [of t] by blast
    ultimately have "\<forall>x\<in>insert t (pipes A s). pipe_ok (ppage s' x) \<and>
        pi_ropen (ppage s' x) = (if end_open ({q0, q1} \<union> A) s' x O_READ then 1 else 0) \<and>
        pi_wopen (ppage s' x) = (if end_open ({q0, q1} \<union> A) s' x O_WRITE then 1 else 0)"
      using t s'(2) unfolding eo by auto
    moreover have "inj_on (\<lambda>q. (f_pipe (fpage s' q), f_mode (fpage s' q))) ({q0, q1} \<union> pipe_files A s)"
      using objs_inj [OF ok] fe' nt f by (auto simp: inj_on_def)
    ultimately show ?thesis unfolding pipes_ok_def pf ps by blast
  qed
  moreover have "\<forall>x\<in>{q0, q1} \<union> A. file_ok (fpage s' x)" using ok fe f(1) by (auto simp: objs_ok_def)
  ultimately show ?thesis by (simp add: objs_ok_def)
qed

lemma find_from:
  assumes "find P [m..<n] = Some i"
  shows "m \<le> i" "i < n" "P i"
  using assms by (auto simp: find_Some_iff)

text \<open>Room for \<open>n\<close> pages, one allocation after the other.\<close>

abbreviation pages_left :: "nat \<Rightarrow> fstate \<Rightarrow> bool" where
  "pages_left n s \<equiv> frames.avail_many OS_DS_REG n (km s)"

lemma four_pages:
  assumes "kmem_ok k" "frames.avail_many OS_DS_REG 4 k"
  obtains q0 k1 q1 k2 t k3 b k4 where "os_pfn_alloc OS_DS_REG k = (q0, k1)" "os_pfn_alloc OS_DS_REG k1 = (q1, k2)"
    "os_pfn_alloc OS_DS_REG k2 = (t, k3)" "os_pfn_alloc OS_DS_REG k3 = (b, k4)"
    "distinct [q0, q1, t, b]" "set [q0, q1, t, b] \<inter> used_frames OS_DS_REG k = {}"
    "used_frames OS_DS_REG k4 = set [q0, q1, t, b] \<union> used_frames OS_DS_REG k" "kmem_ok k4"
    "first_pfn OS_DS_REG k4 = first_pfn OS_DS_REG k" "q0 \<noteq> 0" "q1 \<noteq> 0" "t \<noteq> 0"
proof -
  obtain q0 k1 where a0: "os_pfn_alloc OS_DS_REG k = (q0, k1)" by (cases "os_pfn_alloc OS_DS_REG k")
  obtain q1 k2 where a1: "os_pfn_alloc OS_DS_REG k1 = (q1, k2)" by (cases "os_pfn_alloc OS_DS_REG k1")
  obtain t k3 where a2: "os_pfn_alloc OS_DS_REG k2 = (t, k3)" by (cases "os_pfn_alloc OS_DS_REG k2")
  obtain b k4 where a3: "os_pfn_alloc OS_DS_REG k3 = (b, k4)" by (cases "os_pfn_alloc OS_DS_REG k3")
  have "frames.alloc_many OS_DS_REG 4 k = ([q0, q1, t, b], k4)"
    using a0 a1 a2 a3 by (simp add: numeral_eq_Suc)
  from frames.alloc_many_fresh [OF assms this]
  have f: "distinct [q0, q1, t, b]" "set [q0, q1, t, b] \<inter> used_frames OS_DS_REG k = {}"
    "used_frames OS_DS_REG k4 = set [q0, q1, t, b] \<union> used_frames OS_DS_REG k" "kmem_ok k4" by auto
  have "first_pfn OS_DS_REG k4 = first_pfn OS_DS_REG k"
    using start_alloc [of OS_DS_REG k] start_alloc [of OS_DS_REG k1] start_alloc [of OS_DS_REG k2]
      start_alloc [of OS_DS_REG k3] a0 a1 a2 a3 by simp
  moreover have "x \<noteq> 0" if "x \<in> {q0, q1, t}" for x using used_pos [OF f(4), of x] f(3) that by auto
  ultimately show thesis using that a0 a1 a2 a3 f by simp
qed

lemma page_bytes_length [simp]: "length (page_bytes f) = 4096"
  by (simp add: page_bytes_def)

lemma pipe_info_set:
  "(r :: pipe_info)\<lparr>pi_buff := bs, pi_read := a, pi_write := c, pi_len := n, pi_ropen := x, pi_wopen := y\<rparr> =
    \<lparr>pi_read = a, pi_write = c, pi_buff = bs, pi_len = n, pi_ropen = x, pi_wopen = y\<rparr>"
  by (cases r) simp

lemma create_pipe_run:
  assumes ok: "objs_ok B A s" and r: "pages_left 4 s"
    and fd: "find (\<lambda>fd. ofile s p fd = 0) [3..<MAX_OPEN_FILES] = Some fd0"
      "find (\<lambda>fd. ofile s p fd = 0) [fd0 + 1..<MAX_OPEN_FILES] = Some fd1"
  obtains q0 q1 t s' where "create_pipe w p s = (0, fd0, fd1, s')" "objs_ok B ({q0, q1} \<union> A) s'"
    "set [q0, q1] \<inter> used_frames OS_DS_REG (km s) = {}" "q0 \<noteq> q1" "q0 \<noteq> 0" "q1 \<noteq> 0"
    "ofile s' = ofile (set_fd p fd1 q1 (set_fd p fd0 q0 s))" "fsb s' = fsb s"
    "\<And>x. x \<notin> {q0, q1} \<Longrightarrow> fpage s' x = fpage s x" "f_ref (fpage s' q0) = 1" "f_ref (fpage s' q1) = 1"
    "f_type (fpage s' q0) = PIPE" "f_type (fpage s' q1) = PIPE" "ppage s' t = \<lparr>pi_read = 0, pi_write = 0,
      pi_buff = pi_buff (ppage s' t), pi_len = 0, pi_ropen = 1, pi_wopen = 1\<rparr>"
    "f_pipe (fpage s' q0) = t" "f_pipe (fpage s' q1) = t"
proof -
  obtain q0 k1 q1 k2 t k3 b k4 where a: "os_pfn_alloc OS_DS_REG (km s) = (q0, k1)" "os_pfn_alloc OS_DS_REG k1 = (q1, k2)"
    "os_pfn_alloc OS_DS_REG k2 = (t, k3)" "os_pfn_alloc OS_DS_REG k3 = (b, k4)"
    and new: "distinct [q0, q1, t, b]" "set [q0, q1, t, b] \<inter> used_frames OS_DS_REG (km s) = {}"
    and k4: "used_frames OS_DS_REG k4 = set [q0, q1, t, b] \<union> used_frames OS_DS_REG (km s)" "kmem_ok k4"
      "first_pfn OS_DS_REG k4 = first_pfn OS_DS_REG (km s)" and z: "q0 \<noteq> 0" "q1 \<noteq> 0" "t \<noteq> 0"
    by (rule four_pages [OF objs_kmem [OF ok] r])
  define s' where "s' = snd (snd (snd (create_pipe w p s)))"
  have run: "create_pipe w p s = (0, fd0, fd1, s')"
    using fd a z by (simp add: s'_def create_pipe_def alloc_file_def alloc_pipe_info_def Let_def)
  have e: "km s' = k4" "pbuf s' = (pbuf s)(t := b)" "fsb s' = fsb s"
      "ofile s' = ofile (set_fd p fd1 q1 (set_fd p fd0 q0 s))"
      "ppage s' = (ppage s)(t := \<lparr>pi_read = 0, pi_write = 0, pi_buff = page_bytes (w_page w b), pi_len = 0, pi_ropen = 1, pi_wopen = 1\<rparr>)"
    using fd a z by (simp_all add: s'_def create_pipe_def alloc_file_def alloc_pipe_info_def Let_def pipe_info_set)
  have g: "fpage s' = (fpage s)
      (q0 := (w_file w q0)\<lparr>f_write := None, f_lseek := False, f_inode := None, f_type := PIPE, f_mode := O_READ,
         f_ref := 1, f_pipe := t, f_read := Some Pipe_read, f_close := True\<rparr>,
       q1 := (w_file w q1)\<lparr>f_read := None, f_lseek := False, f_inode := None, f_type := PIPE, f_mode := O_WRITE,
         f_ref := 1, f_pipe := t, f_write := Some Pipe_write, f_close := True\<rparr>)"
    using fd a z new(1) by (simp add: s'_def create_pipe_def alloc_file_def alloc_pipe_info_def Let_def fun_upd_twist)
  have "objs_ok B ({q0, q1} \<union> A) s'"
    by (rule objs_add_pipe [OF ok new]) (use k4 e g new(1) in \<open>auto simp: pipe_ok_def file_ok_def\<close>)
  moreover have "set [q0, q1] \<inter> used_frames OS_DS_REG (km s) = {}" "q0 \<noteq> q1" using new by auto
  ultimately show thesis using that [of s' q0 q1 t] run z e g by auto
qed

lemma create_pipe_ok:
  assumes ok: "ft_ok B s" and p: "p < MAX_PROCS" and r: "pages_left 4 s"
  shows "ft_ok B (snd (snd (snd (create_pipe w p s))))"
proof (cases "find (\<lambda>fd. ofile s p fd = 0) [3..<MAX_OPEN_FILES]")
  case None
  then show ?thesis using ok by (simp add: create_pipe_def)
next
  case (Some fd0)
  note fd0 = find_from [OF Some]
  show ?thesis
  proof (cases "find (\<lambda>fd. ofile s p fd = 0) [fd0 + 1..<MAX_OPEN_FILES]")
    case None
    then show ?thesis using ok Some by (simp add: create_pipe_def)
  next
    case fd: (Some fd1)
    note fd1 = find_from [OF fd]
    have objs: "objs_ok B (opened s) s" using ok by (simp add: ft_ok_def)
    obtain q0 q1 s' where run: "create_pipe w p s = (0, fd0, fd1, s')" and o': "objs_ok B ({q0, q1} \<union> opened s) s'"
      and new: "set [q0, q1] \<inter> used_frames OS_DS_REG (km s) = {}" "q0 \<noteq> q1" "q0 \<noteq> 0" "q1 \<noteq> 0"
      and e: "ofile s' = ofile (set_fd p fd1 q1 (set_fd p fd0 q0 s))" "fsb s' = fsb s"
        "\<And>x. x \<notin> {q0, q1} \<Longrightarrow> fpage s' x = fpage s x" "f_ref (fpage s' q0) = 1" "f_ref (fpage s' q1) = 1"
        "f_type (fpage s' q0) = PIPE" "f_type (fpage s' q1) = PIPE"
      by (rule create_pipe_run [OF objs r Some fd, of w]) blast
    have un: "descs s q0 = {}" "descs s q1 = {}" using unused_descs [OF objs] new by auto
    have d: "descs s' x = (if x = q0 then {(p, fd0)} else if x = q1 then {(p, fd1)} else descs s x)" if "x \<noteq> 0" for x
    proof -
      have "(p, fd0) \<notin> descs s x" "(p, fd1) \<notin> descs s x" using that fd0(3) fd1(3) by (auto simp: descs_def)
      moreover have "descs s' = descs (set_fd p fd1 q1 (set_fd p fd0 q0 s))" using descs_ofile [OF e(1)] by simp
      ultimately show ?thesis
        using descs_set_fd [OF p fd1(2), of q1 "set_fd p fd0 q0 s" x] descs_set_fd [OF p fd0(2), of q0 s x] un new(2) fd1(1)
        by (auto split: if_splits)
    qed
    have op: "opened s' = {q0, q1} \<union> opened s"
    proof (rule set_eqI)
      fix x
      show "x \<in> opened s' \<longleftrightarrow> x \<in> {q0, q1} \<union> opened s"
        using d [of x] new(3,4) by (cases "x = 0") (auto simp: opened_def split: if_splits)
    qed
    have "f_ref (fpage s' x) = int (card (descs s' x)) \<and>
        (f_type (fpage s' x) = REGULAR \<longrightarrow> 0 \<le> f_offp (fpage s' x) \<and> f_offp (fpage s' x) \<le> FILE_SIZE)"
      if x: "x \<in> opened s'" for x
    proof (cases "x \<in> {q0, q1}")
      case True
      then show ?thesis using d [of x] new e by auto
    next
      case False
      then have "x \<in> opened s" "x \<noteq> 0" using x op by (auto simp: opened_def)
      then show ?thesis using d [of x] False ok e(3) [OF False] by (simp add: ft_ok_def)
    qed
    then show ?thesis using ok op o' run e(2) by (simp add: ft_ok_def)
  qed
qed

section \<open>Fork and exit\<close>

lemma fork_fold:
  "let s' = fold (\<lambda>i s. if ofile s c i \<noteq> 0 then inc_ref (ofile s c i) s else s) xs s in
    km s' = km s \<and> pbuf s' = pbuf s \<and> ppage s' = ppage s \<and> ofile s' = ofile s \<and> fsb s' = fsb s \<and>
    core (fpage s' q) = core (fpage s q) \<and> f_offp (fpage s' q) = f_offp (fpage s q) \<and>
    (q \<noteq> 0 \<longrightarrow> 0 \<le> f_ref (fpage s q) \<longrightarrow> f_ref (fpage s q) + int (length xs) < 2 ^ 32 \<longrightarrow>
      f_ref (fpage s' q) = f_ref (fpage s q) + int (length (filter (\<lambda>i. ofile s c i = q) xs)))"
proof (induction xs arbitrary: s)
  case (Cons i xs)
  let ?s = "if ofile s c i \<noteq> 0 then inc_ref (ofile s c i) s else s"
  have e: "km ?s = km s" "pbuf ?s = pbuf s" "ppage ?s = ppage s" "ofile ?s = ofile s" "fsb ?s = fsb s"
    "core (fpage ?s q) = core (fpage s q)" "f_offp (fpage ?s q) = f_offp (fpage s q)"
    by (simp_all add: inc_ref_def core_def)
  have f: "f_ref (fpage ?s q) = f_ref (fpage s q) + (if ofile s c i = q then 1 else 0)"
    if "q \<noteq> 0" "0 \<le> f_ref (fpage s q)" "f_ref (fpage s q) + int (length (i # xs)) < 2 ^ 32"
    using that by (simp add: inc_ref_def)
  show ?case using Cons.IH [of ?s] e f by (auto simp: Let_def)
qed (simp add: Let_def)

lemma fork_files_ok:
  assumes ok: "ft_ok B s" and pc: "p < MAX_PROCS" "c < MAX_PROCS" "c \<noteq> p" and free: "\<And>i. ofile s c i = 0"
  shows "ft_ok B (fork_files p c s)"
proof -
  let ?s1 = "s\<lparr>ofile := (ofile s)(c := ofile s p)\<rparr>"
  let ?s = "fork_files p c s"
  have of: "ofile ?s = (ofile s)(c := ofile s p)" "km ?s = km s" "pbuf ?s = pbuf s" "ppage ?s = ppage s" "fsb ?s = fsb s"
    using fork_fold [of c "[0..<MAX_OPEN_FILES]" ?s1] by (simp_all add: fork_files_def do_file_fork_def Let_def)
  have fl: "core (fpage ?s q) = core (fpage s q)" "f_offp (fpage ?s q) = f_offp (fpage s q)" for q
    using fork_fold [of c "[0..<MAX_OPEN_FILES]" ?s1 q] by (simp_all add: fork_files_def do_file_fork_def Let_def)
  let ?I = "\<lambda>q. {i. i < MAX_OPEN_FILES \<and> ofile s p i = q}"
  have d: "descs ?s q = descs s q \<union> {c} \<times> ?I q" if "q \<noteq> 0" for q
    unfolding descs_def of(1) using that pc free by (auto split: if_splits)
  have disj: "descs s q \<inter> {c} \<times> ?I q = {}" if "q \<noteq> 0" for q using free that by (auto simp: descs_def)
  have sub: "?I q \<noteq> {} \<Longrightarrow> descs s q \<noteq> {}" for q using pc(1) by (auto simp: descs_def)
  have op: "opened ?s = opened s" by (rule opened_cong) (use d sub in auto)
  have "objs_ok B (opened s) ?s"
    by (rule objs_cong [of B "opened s" s]) (use ok of fl objs_pipe_ok in \<open>auto simp: ft_ok_def\<close>)
  moreover have "f_ref (fpage ?s q) = int (card (descs ?s q))" if q: "q \<in> opened s" for q
  proof -
    have q0: "q \<noteq> 0" using q by (simp add: opened_def)
    have "card (descs ?s q) = card (descs s q) + card ({c} \<times> ?I q)"
      unfolding d [OF q0] by (rule card_Un_disjoint) (use disj [OF q0] in auto)
    moreover have "card ({c} \<times> ?I q) = length (filter (\<lambda>i. ofile s p i = q) [0..<MAX_OPEN_FILES])"
    proof -
      have "?I q = set (filter (\<lambda>i. ofile s p i = q) [0..<MAX_OPEN_FILES])" by auto
      then show ?thesis using distinct_card [of "filter (\<lambda>i. ofile s p i = q) [0..<MAX_OPEN_FILES]"]
        by (simp add: card_cartesian_product)
    qed
    moreover have "f_ref (fpage ?s q) = f_ref (fpage s q) + int (length (filter (\<lambda>i. ofile s p i = q) [0..<MAX_OPEN_FILES]))"
      using fork_fold [of c "[0..<MAX_OPEN_FILES]" ?s1 q] q0 ft_ref [OF ok q] descs_card [of s q]
      by (simp add: fork_files_def do_file_fork_def Let_def MAX_OPEN_FILES_def)
    ultimately show ?thesis using ft_ref [OF ok q] by simp
  qed
  moreover have "f_type (fpage ?s q) = f_type (fpage s q)" for q using fl(1) [of q] by (simp add: core_def)
  ultimately show ?thesis using ok op of fl by (simp add: ft_ok_def)
qed

lemma exit_loop_ok:
  assumes "ft_ok B s" "p < MAX_PROCS" "\<forall>i\<in>set is. i < MAX_OPEN_FILES"
  shows "\<exists>s'. exit_loop p is s = Some s' \<and> ft_ok B s' \<and>
    ofile s' = (ofile s)(p := (\<lambda>i. if i \<in> set is then 0 else ofile s p i))"
  using assms
proof (induction "is" arbitrary: s)
  case (Cons i "is")
  show ?case
  proof (cases "ofile s p i = 0")
    case True
    then show ?thesis using Cons.IH [OF Cons.prems(1,2)] Cons.prems(3) by (auto simp: fun_eq_iff)
  next
    case False
    obtain s1 where s1: "generic_close (ofile s p i) s = Some (0, s1)" "ofile s1 = ofile s" "ft_ok B (set_fd p i 0 s1)"
      using ft_detach [OF Cons.prems(1,2) _ False] Cons.prems(3) by auto
    then show ?thesis using Cons.IH [OF s1(3) Cons.prems(2)] Cons.prems(3) False by (auto simp: fun_eq_iff)
  qed
qed (auto simp: fun_eq_iff)

section \<open>Duplicates and close\<close>

lemma fd_dup_ok:
  assumes ok: "ft_ok B s" and p: "p < MAX_PROCS"
  shows "ft_ok B (snd (fd_dup p oldfd s))"
proof (cases "find (\<lambda>fd. ofile s p fd = 0) [0..<MAX_OPEN_FILES]")
  case None
  then show ?thesis using ok by (simp add: fd_dup_def Let_def)
next
  case (Some fd)
  note fd = find_from [OF Some]
  show ?thesis
  proof (cases "0 \<le> oldfd \<and> oldfd < int MAX_OPEN_FILES \<and> ofile s p (nat oldfd) \<noteq> 0")
    case True
    then have "ofile s p (nat oldfd) \<in> opened s" by (intro ofile_opened [OF p]) auto
    from ft_attach [OF ok p fd(2,3) this] show ?thesis using True Some by (simp add: fd_dup_def Let_def)
  next
    case False
    then show ?thesis using ok by (auto simp: fd_dup_def Let_def)
  qed
qed

lemma fd_dup2_ok:
  assumes ok: "ft_ok B s" and p: "p < MAX_PROCS"
  shows "\<exists>r s'. fd_dup2 p oldfd newfd s = Some (r, s') \<and> ft_ok B s'"
proof (cases "0 \<le> oldfd \<and> oldfd < int MAX_OPEN_FILES \<and> 0 \<le> newfd \<and> newfd < int MAX_OPEN_FILES \<and>
    ofile s p (nat oldfd) \<noteq> 0 \<and> oldfd \<noteq> newfd")
  case False
  then show ?thesis using ok by (auto simp: fd_dup2_def Let_def)
next
  case True
  define i where "i = nat newfd"
  define q where "q = ofile s p (nat oldfd)"
  have i: "i < MAX_OPEN_FILES" "nat oldfd \<noteq> i" using True by (auto simp: i_def)
  obtain s1 where s1: "(if ofile s p i \<noteq> 0 then generic_close (ofile s p i) s else Some (0, s)) = Some (0, s1)"
    "ofile s1 = ofile s" "ft_ok B (set_fd p i 0 s1)"
  proof (cases "ofile s p i = 0")
    case True
    then have "(ofile s p)(i := 0) = ofile s p" by auto
    then have "set_fd p i 0 s = s" by (simp add: set_fd_def)
    with True ok show ?thesis using that [of s] by simp
  next
    case False
    with ft_detach [OF ok p i(1)] that show ?thesis by auto
  qed
  have "q \<in> opened (set_fd p i 0 s1)"
    using ofile_opened [OF p, of "nat oldfd" "set_fd p i 0 s1"] True i(2) s1(2) by (auto simp: q_def)
  from ft_attach [OF s1(3) p i(1) _ this] have "ft_ok B (inc_ref q (set_fd p i q (set_fd p i 0 s1)))" by simp
  moreover have "set_fd p i q (set_fd p i 0 s1) = set_fd p i q s1" by (simp add: set_fd_def)
  moreover have "fd_dup2 p oldfd newfd s = Some (newfd, inc_ref q (set_fd p i q s1))"
    unfolding fd_dup2_def Let_def i_def [symmetric] q_def [symmetric] s1(1) using True by (simp add: q_def)
  ultimately show ?thesis by simp
qed

lemma do_close_ok:
  assumes ok: "ft_ok B s" and p: "p < MAX_PROCS" and fd: "0 \<le> fd" "fd < int MAX_OPEN_FILES"
  shows "\<exists>r s'. do_close p fd s = Some (r, s') \<and> ft_ok B s' \<and> ofile s' = (ofile s)(p := (ofile s p)(nat fd := 0))"
proof (cases "ofile s p (nat fd) = 0")
  case True
  then show ?thesis using ok fd by (auto simp: do_close_def Let_def fun_eq_iff)
next
  case False
  have i: "nat fd < MAX_OPEN_FILES" using fd by auto
  have "f_close (fpage s (ofile s p (nat fd)))"
    using ok ofile_opened [OF p i False] by (auto simp: ft_ok_def objs_ok_def file_ok_def)
  with ft_detach [OF ok p i False] False fd show ?thesis
    by (auto simp: do_close_def Let_def generic_close_set_fd)
qed

section \<open>Reading, writing and seeking\<close>

lemma ft_objs: "ft_ok B s \<Longrightarrow> objs_ok B (opened s) s"
  by (simp add: ft_ok_def)

lemma ft_flat: "ft_ok B s \<Longrightarrow> flatfs_ok (fsb s)"
  by (simp add: ft_ok_def)

lemma ft_seek:
  assumes ok: "ft_ok B s" and h: "0 \<le> h (fpage s q)" "h (fpage s q) \<le> FILE_SIZE"
  shows "ft_ok B (upd_file q (\<lambda>f. f\<lparr>f_offp := h f\<rparr>) s)"
proof -
  let ?s = "upd_file q (\<lambda>f. f\<lparr>f_offp := h f\<rparr>) s"
  have "objs_ok B (opened s) ?s" by (rule objs_upd_file [OF ft_objs [OF ok]]) (simp add: core_def)
  moreover have "descs ?s = descs s" "opened ?s = opened s" using descs_ofile [of ?s s] by simp_all
  ultimately show ?thesis using ok h by (simp add: ft_ok_def)
qed

lemma ft_fsb: "ft_ok B s \<Longrightarrow> flatfs_ok fs \<Longrightarrow> ft_ok B (s\<lparr>fsb := fs\<rparr>)"
proof -
  assume ok: "ft_ok B s" and fs: "flatfs_ok fs"
  have "objs_ok B (opened s) (s\<lparr>fsb := fs\<rparr>)"
    by (rule objs_cong [OF ft_objs [OF ok]]) (use objs_pipe_ok [OF ft_objs [OF ok]] in auto)
  moreover have "descs (s\<lparr>fsb := fs\<rparr>) = descs s" "opened (s\<lparr>fsb := fs\<rparr>) = opened s"
    using descs_ofile [of "s\<lparr>fsb := fs\<rparr>" s] by simp_all
  ultimately show ?thesis using ok fs by (simp add: ft_ok_def)
qed

lemma ft_regular:
  assumes "ft_ok B s" "q \<in> opened s" "f_type (fpage s q) = REGULAR"
  obtains ino where "f_inode (fpage s q) = Some ino" "ino < NUM_FILES" "inode_ok (sb_inode (fsb s) ino)"
    "0 \<le> f_offp (fpage s q)" "f_offp (fpage s q) \<le> 4096" "s32 (f_offp (fpage s q)) = f_offp (fpage s q)"
proof -
  have "file_ok (fpage s q)" using objs_file [OF ft_objs [OF assms(1)] assms(2)] .
  then obtain ino where i: "f_inode (fpage s q) = Some ino" "ino < NUM_FILES" using assms(3) by (auto simp: file_ok_def)
  moreover have "inode_ok (sb_inode (fsb s) ino)" using ft_flat [OF assms(1)] i(2) by (simp add: flatfs_ok_def extents_ok_def)
  moreover have "0 \<le> f_offp (fpage s q)" "f_offp (fpage s q) \<le> 4096" using assms by (auto simp: ft_ok_def FILE_SIZE_def)
  ultimately show thesis using that by (simp add: s32_small)
qed

lemma do_read_regular_ok:
  assumes ok: "ft_ok B s" and q: "q \<in> opened s" "f_type (fpage s q) = REGULAR" and c: "0 \<le> count" "count < 2 ^ 31"
  shows "\<exists>r out s'. do_read_regular q count s = Some (r, out, s') \<and> ft_ok B s'"
proof -
  obtain ino where ino: "f_inode (fpage s q) = Some ino" "ino < NUM_FILES" "inode_ok (sb_inode (fsb s) ino)"
    and off: "0 \<le> f_offp (fpage s q)" "f_offp (fpage s q) \<le> 4096" "s32 (f_offp (fpage s q)) = f_offp (fpage s q)"
    by (rule ft_regular [OF ok q])
  let ?o = "f_offp (fpage s q)" and ?n = "sb_inode (fsb s) ino"
  have sum: "(?o + count) mod 2 ^ 32 = ?o + count" "s32 count = count" using off c by (simp_all add: s32_small)
  show ?thesis
  proof (cases "i_size ?n < ?o + count \<or> f_mode (fpage s q) AND O_READ = 0 \<or> i_mode ?n AND O_READ = 0 \<or> i_size ?n > FILE_SIZE")
    case True
    then show ?thesis using ok ino(1) sum by (auto simp: do_read_regular_def Let_def)
  next
    case False
    have len: "int (length (file_bytes (fsb s) ino)) = i_size ?n" using ino(3) by (simp add: file_bytes_def inode_ok_def)
    have "flat_read (fsb s) ino count ?o = Some (count, take (nat count) (drop (nat ?o) (file_bytes (fsb s) ino)))"
      using flat_read_in [of "fsb s" ino ?o count] ft_flat [OF ok] ino(2) off(1) c(1) False unfolding len
      by (auto simp: flatfs_ok_def min_def)
    then have e: "do_read_regular q count s = Some (count, take (nat count) (drop (nat ?o) (file_bytes (fsb s) ino)),
        upd_file q (\<lambda>f. f\<lparr>f_offp := (f_offp f + count) mod 2 ^ 32\<rparr>) s)"
      using False ino(1) sum off(3) by (auto simp: do_read_regular_def Let_def)
    have "?o + count \<le> FILE_SIZE" using False ino(3) by (auto simp: inode_ok_def FILE_SIZE_def)
    then have "ft_ok B (upd_file q (\<lambda>f. f\<lparr>f_offp := (f_offp f + count) mod 2 ^ 32\<rparr>) s)"
      using sum off c by (intro ft_seek [OF ok, of "\<lambda>f. (f_offp f + count) mod 2 ^ 32"]) simp_all
    with e show ?thesis by blast
  qed
qed

lemma do_write_regular_ok:
  assumes ok: "ft_ok B s" and q: "q \<in> opened s" "f_type (fpage s q) = REGULAR" and c: "0 \<le> count" "count < 2 ^ 31"
  shows "\<exists>r s'. do_write_regular q d count s = Some (r, s') \<and> ft_ok B s'"
proof -
  obtain ino where ino: "f_inode (fpage s q) = Some ino" "ino < NUM_FILES" "inode_ok (sb_inode (fsb s) ino)"
    and off: "0 \<le> f_offp (fpage s q)" "f_offp (fpage s q) \<le> 4096" "s32 (f_offp (fpage s q)) = f_offp (fpage s q)"
    by (rule ft_regular [OF ok q])
  let ?o = "f_offp (fpage s q)" and ?n = "sb_inode (fsb s) ino"
  have sum: "(?o + count) mod 2 ^ 32 = ?o + count" "s32 count = count" using off c by (simp_all add: s32_small)
  show ?thesis
  proof (cases "FILE_SIZE < ?o + count \<or> f_mode (fpage s q) AND O_WRITE = 0 \<or> i_mode ?n AND O_WRITE = 0 \<or> i_size ?n > FILE_SIZE")
    case True
    then show ?thesis using ok ino(1) sum by (auto simp: do_write_regular_def Let_def)
  next
    case False
    then have le: "?o + count \<le> 4096" by (simp add: FILE_SIZE_def)
    obtain fs where w: "flat_write (fsb s) ino d count ?o = Some (count, fs)" "flatfs_ok fs"
      by (rule flatfs_write [OF ft_flat [OF ok] ino(2) off(1) c(1) le])
    have e: "do_write_regular q d count s =
        Some (count, upd_file q (\<lambda>f. f\<lparr>f_offp := (f_offp f + count) mod 2 ^ 32\<rparr>) (s\<lparr>fsb := fs\<rparr>))"
      using False ino(1) sum off(3) c(1) w(1) by (auto simp: do_write_regular_def Let_def)
    have "ft_ok B (upd_file q (\<lambda>f. f\<lparr>f_offp := (f_offp f + count) mod 2 ^ 32\<rparr>) (s\<lparr>fsb := fs\<rparr>))"
      using sum off c le by (intro ft_seek [OF ft_fsb [OF ok w(2)], of "\<lambda>f. (f_offp f + count) mod 2 ^ 32"])
        (simp_all add: FILE_SIZE_def)
    with e show ?thesis by blast
  qed
qed

lemma pipe_flags:
  "pipe_read m p c = (r, out, p') \<Longrightarrow> pi_ropen p' = pi_ropen p \<and> pi_wopen p' = pi_wopen p"
  "pipe_write m p d c = (r, p') \<Longrightarrow> pi_ropen p' = pi_ropen p \<and> pi_wopen p' = pi_wopen p"
  by (auto simp: pipe_read_def pipe_write_def Let_def split: prod.splits if_splits)

lemma ft_ppage:
  assumes ok: "ft_ok B s" and p: "t \<in> pipes (opened s) s \<Longrightarrow> pipe_ok p' \<and> pi_ropen p' = pi_ropen (ppage s t) \<and> pi_wopen p' = pi_wopen (ppage s t)"
  shows "ft_ok B (s\<lparr>ppage := (ppage s)(t := p')\<rparr>)"
proof -
  let ?s = "s\<lparr>ppage := (ppage s)(t := p')\<rparr>"
  have "objs_ok B (opened s) ?s"
    by (rule objs_cong [OF ft_objs [OF ok]]) (use p objs_pipe_ok [OF ft_objs [OF ok]] in auto)
  moreover have "descs ?s = descs s" "opened ?s = opened s" using descs_ofile [of ?s s] by simp_all
  ultimately show ?thesis using ok by (simp add: ft_ok_def)
qed

lemma pipe_file_ok:
  assumes ok: "ft_ok B s" and c: "0 \<le> count" "count < 2 ^ 32"
  shows "ft_ok B (snd (snd (pipe_file_read q count s)))" "ft_ok B (snd (pipe_file_write q d count s))"
proof -
  let ?t = "f_pipe (fpage s q)"
  obtain r out p' where r: "pipe_read (f_mode (fpage s q)) (ppage s ?t) count = (r, out, p')"
    by (cases "pipe_read (f_mode (fpage s q)) (ppage s ?t) count")
  have "ft_ok B (s\<lparr>ppage := (ppage s)(?t := p')\<rparr>)"
    using ft_ppage [OF ok] gempipe.deq_law [OF objs_pipe_ok [OF ft_objs [OF ok]] c r] pipe_flags(1) [OF r] by blast
  then show "ft_ok B (snd (snd (pipe_file_read q count s)))" using ok r by (simp add: pipe_file_read_def Let_def)
  obtain v p2 where v: "pipe_write (f_mode (fpage s q)) (ppage s ?t) d count = (v, p2)"
    by (cases "pipe_write (f_mode (fpage s q)) (ppage s ?t) d count")
  have "ft_ok B (s\<lparr>ppage := (ppage s)(?t := p2)\<rparr>)"
    using ft_ppage [OF ok] gempipe.enq_law [OF objs_pipe_ok [OF ft_objs [OF ok]] c v] pipe_flags(2) [OF v] by blast
  then show "ft_ok B (snd (pipe_file_write q d count s))" using ok v by (simp add: pipe_file_write_def Let_def)
qed

lemma ft_kind:
  assumes "ft_ok B s" "p < MAX_PROCS" "fd < MAX_OPEN_FILES" "ofile s p fd \<noteq> 0"
  shows "f_read (fpage s (ofile s p fd)) = Some Do_read_regular \<or> f_write (fpage s (ofile s p fd)) = Some Do_write_regular \<or>
    f_lseek (fpage s (ofile s p fd)) \<Longrightarrow> f_type (fpage s (ofile s p fd)) = REGULAR"
  using objs_file [OF ft_objs [OF assms(1)] ofile_opened [OF assms(2-4)]] by (auto simp: file_ok_def)

lemma read_op_cases: "x = None \<or> x = Some Do_read_kbd \<or> x = Some Do_read_regular \<or> x = Some Pipe_read"
proof (cases x)
  case (Some a)
  then show ?thesis by (cases a) simp_all
qed simp

lemma write_op_cases: "x = None \<or> x = Some Do_write_console \<or> x = Some Do_write_regular \<or> x = Some Pipe_write"
proof (cases x)
  case (Some a)
  then show ?thesis by (cases a) simp_all
qed simp

lemma do_file_read_ok:
  assumes ok: "ft_ok B s" and p: "p < MAX_PROCS" "fd < MAX_OPEN_FILES" and c: "count mod 2 ^ 32 < 2 ^ 31"
  shows "\<exists>r out s'. do_file_read w p fd count s = Some (r, out, s') \<and> ft_ok B s'"
proof (cases "ofile s p fd = 0")
  case True
  then show ?thesis using ok p by (simp add: do_file_read_def)
next
  case False
  let ?q = "ofile s p fd"
  note o = ofile_opened [OF p False]
  have m: "0 \<le> count mod 2 ^ 32" "count mod 2 ^ 32 < 2 ^ 32" by simp_all
  consider "f_read (fpage s ?q) = None" | "f_read (fpage s ?q) = Some Do_read_kbd"
    | "f_read (fpage s ?q) = Some Do_read_regular" | "f_read (fpage s ?q) = Some Pipe_read"
    using read_op_cases [of "f_read (fpage s ?q)"] by (elim disjE) simp_all
  then show ?thesis
  proof cases
    case 3
    then have "do_file_read w p fd count s = do_read_regular ?q (count mod 2 ^ 32) s"
      using False p unfolding do_file_read_def Let_def by simp
    moreover have "f_type (fpage s ?q) = REGULAR" by (rule ft_kind [OF ok p False]) (simp add: 3)
    ultimately show ?thesis using do_read_regular_ok [OF ok o _ m(1) c] by metis
  next
    case 4
    obtain r out s' where e: "pipe_file_read ?q (count mod 2 ^ 32) s = (r, out, s')" by (metis prod_cases3)
    have "do_file_read w p fd count s = Some (r, out, s')" using False p 4 e unfolding do_file_read_def Let_def by simp
    with pipe_file_ok(1) [OF ok m, of ?q] e show ?thesis by (metis snd_conv)
  qed (use ok False p in \<open>simp_all add: do_file_read_def\<close>)
qed

lemma do_file_write_ok:
  assumes ok: "ft_ok B s" and p: "p < MAX_PROCS" "fd < MAX_OPEN_FILES" and c: "count mod 2 ^ 32 < 2 ^ 31"
  shows "\<exists>r s'. do_file_write w p fd d count s = Some (r, s') \<and> ft_ok B s'"
proof (cases "ofile s p fd = 0")
  case True
  then show ?thesis using ok p by (simp add: do_file_write_def)
next
  case False
  let ?q = "ofile s p fd"
  note o = ofile_opened [OF p False]
  have m: "0 \<le> count mod 2 ^ 32" "count mod 2 ^ 32 < 2 ^ 32" by simp_all
  consider "f_write (fpage s ?q) = None" | "f_write (fpage s ?q) = Some Do_write_console"
    | "f_write (fpage s ?q) = Some Do_write_regular" | "f_write (fpage s ?q) = Some Pipe_write"
    using write_op_cases [of "f_write (fpage s ?q)"] by (elim disjE) simp_all
  then show ?thesis
  proof cases
    case 3
    then have "do_file_write w p fd d count s = do_write_regular ?q d (count mod 2 ^ 32) s"
      using False p unfolding do_file_write_def Let_def by simp
    moreover have "f_type (fpage s ?q) = REGULAR" by (rule ft_kind [OF ok p False]) (simp add: 3)
    ultimately show ?thesis using do_write_regular_ok [OF ok o _ m(1) c] by metis
  next
    case 4
    obtain r s' where e: "pipe_file_write ?q d (count mod 2 ^ 32) s = (r, s')" by (metis surj_pair)
    have "do_file_write w p fd d count s = Some (r, s')" using False p 4 e unfolding do_file_write_def Let_def by simp
    with pipe_file_ok(2) [OF ok m, of ?q d] e show ?thesis by (metis snd_conv)
  qed (use ok False p in \<open>simp_all add: do_file_write_def\<close>)
qed

lemma do_lseek_ok:
  assumes ok: "ft_ok B s" and p: "p < MAX_PROCS" and fd: "0 \<le> fd" "fd < int MAX_OPEN_FILES"
    and l: "\<And>r s'. do_lseek p fd offset whence s = Some (r, s') \<Longrightarrow> r < 2 ^ 31"
  shows "\<exists>r s'. do_lseek p fd offset whence s = Some (r, s') \<and> ft_ok B s'"
proof (cases "ofile s p (nat fd) \<noteq> 0 \<and> f_lseek (fpage s (ofile s p (nat fd)))")
  case False
  then show ?thesis using ok fd by (auto simp: do_lseek_def Let_def)
next
  case True
  let ?q = "ofile s p (nat fd)"
  have i: "nat fd < MAX_OPEN_FILES" using fd by auto
  have q: "?q \<in> opened s" using ofile_opened [OF p i] True by simp
  have "f_type (fpage s ?q) = REGULAR" by (rule ft_kind [OF ok p i]) (use True in auto)
  then obtain ino where ino: "f_inode (fpage s ?q) = Some ino" by (rule ft_regular [OF ok q])
  have run: "do_lseek p fd offset whence s = do_lseek_regular ?q offset whence s"
    using True fd by (simp add: do_lseek_def Let_def)
  define n where "n = (if whence = 1 then s32 (f_offp (fpage s ?q)) + offset
    else if whence = 2 then i_size (sb_inode (fsb s) ino) + offset
    else if whence = 0 then offset else f_offp (fpage s ?q))"
  have n: "do_lseek_regular ?q offset whence s =
      (if s32 n \<ge> FILE_SIZE then Some (- EOTHERS, s)
       else Some (s32 n mod 2 ^ 32, upd_file ?q (\<lambda>f. f\<lparr>f_offp := s32 n mod 2 ^ 32\<rparr>) s))"
    using ino by (simp add: do_lseek_regular_def Let_def n_def)
  show ?thesis
  proof (cases "s32 n \<ge> FILE_SIZE")
    case True
    then show ?thesis using ok run n by simp
  next
    case False
    then have m: "s32 n mod 2 ^ 32 < 2 ^ 31" using l run n by simp
    have "0 \<le> s32 n"
    proof (rule ccontr)
      assume neg: "\<not> 0 \<le> s32 n"
      have "s32 n mod 2 ^ 32 = (s32 n + 2 ^ 32) mod 2 ^ 32" by simp
      also have "\<dots> = s32 n + 2 ^ 32" by (rule mod_pos_pos_trivial) (use neg s32_range [of n] in auto)
      finally show False using m s32_range [of n] by simp
    qed
    then have "s32 n mod 2 ^ 32 = s32 n" using s32_range [of n] by simp
    then have "ft_ok B (upd_file ?q (\<lambda>f. f\<lparr>f_offp := s32 n mod 2 ^ 32\<rparr>) s)"
      using \<open>0 \<le> s32 n\<close> False by (intro ft_seek [OF ok, of "\<lambda>f. s32 n mod 2 ^ 32"]) simp_all
    with False run n show ?thesis by simp
  qed
qed

section \<open>Opening\<close>

lemma open_inode_ok:
  assumes ok: "ft_ok B s" and p: "p < MAX_PROCS" and r: "room OS_DS_REG (km s)" and ino: "ino < NUM_FILES"
  shows "ft_ok B (snd (open_inode w p ino flags s))"
proof (cases "find (\<lambda>fd. ofile s p fd = 0) [3..<MAX_OPEN_FILES]")
  case None
  then show ?thesis using ok by (auto simp: open_inode_def Let_def)
next
  case (Some fd)
  note fd = find_from [OF Some]
  obtain q s1 where a: "alloc_file w s = (q, s1)" by (cases "alloc_file w s")
  let ?u = "\<lambda>f. f\<lparr>f_inode := Some ino, f_type := REGULAR, f_mode := ucast flags, f_offp := 0,
            f_ref := 1, f_pipe := 0, f_read := Some Do_read_regular, f_write := Some Do_write_regular,
            f_close := True, f_lseek := True\<rparr>"
  have "q \<noteq> 0 \<and> ft_ok B (upd_file q ?u (set_fd p fd q s1))"
    by (rule ft_add [OF ok p fd(2,3) r a]) (use ino in \<open>simp_all add: file_ok_def\<close>)
  then have "ft_ok B (snd (install_file w p fd ino flags s))" using a by (simp add: install_file_def)
  then show ?thesis using ok Some by (auto simp: open_inode_def Let_def)
qed

lemma create_inode_cases:
  assumes ok: "flatfs_ok fs" and len: "length name < 256"
  shows "\<exists>r fs'. create_inode fs name mode = Some (r, fs') \<and> flatfs_ok fs' \<and> (\<forall>i. r = Some i \<longrightarrow> i < NUM_FILES)"
proof (cases "flat_lookup_inode fs name \<noteq> None \<or> valid_inodes fs = {..<NUM_FILES}")
  case True
  then have "flat_create_inode fs name (ucast mode) = Some (- 1, fs)"
    by (elim disjE) (simp add: flat_create_inode_def Let_def, simp add: create_full)
  then show ?thesis using ok by (simp add: create_inode_def)
next
  case False
  then show ?thesis using create_new [OF ok _ len, of "ucast mode"] by (fastforce simp: create_inode_def)
qed

lemma do_regular_file_open_ok:
  assumes ok: "ft_ok B s" and p: "p < MAX_PROCS" and r: "room OS_DS_REG (km s)"
  shows "\<exists>v s'. do_regular_file_open w p name flags mode s = Some (v, s') \<and> ft_ok B s'"
proof (cases "256 \<le> length name")
  case True
  then show ?thesis using ok by (simp add: do_regular_file_open_def)
next
  case False
  then obtain x fs where c: "create_inode (fsb s) name mode = Some (x, fs)" "flatfs_ok fs" "\<And>i. x = Some i \<Longrightarrow> i < NUM_FILES"
    using create_inode_cases [OF ft_flat [OF ok], of name mode] by auto
  have o1: "ft_ok B (snd (open_inode w p i flags (s\<lparr>fsb := fs\<rparr>)))" if "x = Some i" for i
    by (rule open_inode_ok [OF ft_fsb [OF ok c(2)] p _ c(3) [OF that]]) (use r in simp)
  have o2: "ft_ok B (snd (open_inode w p i flags s))" if "lookup_inode (fsb s) name = Some i" for i
  proof (rule open_inode_ok [OF ok p r])
    have "directory_ok (fsb s)" using ft_flat [OF ok] by (simp add: flatfs_ok_def)
    then show "i < NUM_FILES" using that lookup_Some by (auto simp: lookup_inode_def valid_inodes_def)
  qed
  show ?thesis
  proof (cases "flags AND 8 = 0")
    case True
    then show ?thesis
      using False ok o2 by (cases "lookup_inode (fsb s) name")
        (auto simp: do_regular_file_open_def Let_def, metis prod.collapse)
  next
    case create: False
    then show ?thesis
      using False ok c(1) o1 ft_fsb [OF ok c(2)] by (cases x)
        (auto simp: do_regular_file_open_def Let_def, metis prod.collapse)
  qed
qed

lemma open_standard_IO_ok:
  assumes ok: "ft_ok B s" and p: "p < MAX_PROCS" and r: "room OS_DS_REG (km s)" and t: "t \<in> {STDIN, STDOUT, STDERR}"
    and free: "\<exists>fd. 3 \<le> fd \<and> fd < MAX_OPEN_FILES \<and> ofile s p fd = 0"
  shows "\<exists>v s'. open_standard_IO w p t s = Some (v, s') \<and> ft_ok B s'"
proof (cases "ofile s p (std_fd t) = 0")
  case True
  have i: "std_fd t < MAX_OPEN_FILES" using t by (auto simp: std_fd_def MAX_OPEN_FILES_def)
  obtain q s1 where a: "alloc_file w s = (q, s1)" by (cases "alloc_file w s")
  have fr: "f_read (fpage s1 q) = None" "f_write (fpage s1 q) = None" "\<not> f_lseek (fpage s1 q)"
    using a by (auto simp: alloc_file_def Let_def split: prod.splits)
  let ?u = "\<lambda>f. f\<lparr>f_type := t, f_mode := (if t = STDIN then O_READ else O_WRITE),
         f_read := (if t = STDIN then Some Do_read_kbd else f_read f),
         f_write := (if t = STDIN then f_write f else Some Do_write_console), f_close := True, f_ref := 1\<rparr>"
  have "q \<noteq> 0 \<and> ft_ok B (upd_file q ?u (set_fd p (std_fd t) q s1))"
    by (rule ft_add [OF ok p i True r a]) (use t fr in \<open>auto simp: file_ok_def\<close>)
  moreover have "set_fd p (std_fd t) q (upd_file q ?u s1) = upd_file q ?u (set_fd p (std_fd t) q s1)"
    by (simp add: set_fd_def upd_file_def)
  ultimately show ?thesis using True a by (simp add: open_standard_IO_def create_standard_IO_def)
next
  case False
  let ?q = "ofile s p (std_fd t)"
  have i: "std_fd t < MAX_OPEN_FILES" using t by (auto simp: std_fd_def MAX_OPEN_FILES_def)
  obtain fd where fd: "find (\<lambda>fd. ofile s p fd = 0) [3..<MAX_OPEN_FILES] = Some fd"
    using free by (cases "find (\<lambda>fd. ofile s p fd = 0) [3..<MAX_OPEN_FILES]") (auto simp: find_None_iff)
  have "ft_ok B (inc_ref ?q (set_fd p fd ?q s))"
    by (rule ft_attach [OF ok p find_from(2,3) [OF fd] ofile_opened [OF p i False]])
  moreover have "set_fd p fd ?q (inc_ref ?q s) = inc_ref ?q (set_fd p fd ?q s)"
    by (simp add: set_fd_def inc_ref_def upd_file_def)
  ultimately show ?thesis using False fd by (simp add: open_standard_IO_def Let_def inc_ref_def)
qed

end
