(* ===== verification/FileSys.thy ===== *)
theory FileSys
  imports FileCalls
begin

text \<open>
  The file calls of the Assignment 2 kernel as one transition system, for any number
  of calls by up to seven processes, and what a program sees: nothing is lost or
  freed too early, and bytes written through a descriptor are read back.
\<close>

section \<open>Sequences of calls\<close>

datatype fcall =
    Open string u64 u64
  | Read nat int
  | Write nat "nat \<Rightarrow> u8" int
  | Pipe_call
  | Dup int
  | Dup2 int int
  | Close int
  | Lseek int int int
  | Fork nat
  | Exit

text \<open>The state after a call of process \<open>p\<close>.\<close>

fun file_call :: "world \<Rightarrow> nat \<Rightarrow> fcall \<Rightarrow> fstate \<Rightarrow> fstate option" where
  "file_call w p (Open name flag mode) s = map_option snd (do_file_open w p name flag mode s)"
| "file_call w p (Read fd count) s = map_option (\<lambda>(r, out, s'). s') (do_file_read w p fd count s)"
| "file_call w p (Write fd d count) s = map_option snd (do_file_write w p fd d count s)"
| "file_call w p Pipe_call s = Some (snd (snd (snd (create_pipe w p s))))"
| "file_call w p (Dup oldfd) s = Some (snd (fd_dup p oldfd s))"
| "file_call w p (Dup2 oldfd newfd) s = map_option snd (fd_dup2 p oldfd newfd s)"
| "file_call w p (Close fd) s = map_option snd (do_close p fd s)"
| "file_call w p (Lseek fd offset whence) s = map_option snd (do_lseek p fd offset whence s)"
| "file_call w p (Fork c) s = Some (fork_files p c s)"
| "file_call w p Exit s = do_file_exit p s"

text \<open>
  What a caller has to respect because the source does not test it: descriptors of
  \<open>read\<close>, \<open>write\<close>, \<open>close\<close> and \<open>lseek\<close> index the table, counts are positive C integers,
  \<open>lseek\<close> does not go before the start of the file, and a standard stream that is open
  is opened again only when a descriptor is free.  \<open>fork\<close> gets an unused context, and
  \<open>open\<close> and \<open>pipe\<close> need free pages.
\<close>

fun legal_call :: "nat \<Rightarrow> fcall \<Rightarrow> fstate \<Rightarrow> bool" where
  "legal_call p (Open name flag mode) s \<longleftrightarrow> room OS_DS_REG (km s) \<and>
     (name \<in> {''stdin'', ''stdout'', ''stderr''} \<longrightarrow> (\<exists>fd. 3 \<le> fd \<and> fd < MAX_OPEN_FILES \<and> ofile s p fd = 0))"
| "legal_call p (Read fd count) s \<longleftrightarrow> fd < MAX_OPEN_FILES \<and> count mod 2 ^ 32 < 2 ^ 31"
| "legal_call p (Write fd d count) s \<longleftrightarrow> fd < MAX_OPEN_FILES \<and> count mod 2 ^ 32 < 2 ^ 31"
| "legal_call p Pipe_call s \<longleftrightarrow> pages_left 4 s"
| "legal_call p (Dup oldfd) s \<longleftrightarrow> True"
| "legal_call p (Dup2 oldfd newfd) s \<longleftrightarrow> True"
| "legal_call p (Close fd) s \<longleftrightarrow> 0 \<le> fd \<and> fd < int MAX_OPEN_FILES"
| "legal_call p (Lseek fd offset whence) s \<longleftrightarrow> 0 \<le> fd \<and> fd < int MAX_OPEN_FILES \<and>
     (\<forall>r s'. do_lseek p fd offset whence s = Some (r, s') \<longrightarrow> r < 2 ^ 31)"
| "legal_call p (Fork c) s \<longleftrightarrow> c < MAX_PROCS \<and> c \<noteq> p \<and> (\<forall>i. ofile s c i = 0)"
| "legal_call p Exit s \<longleftrightarrow> True"

lemma do_file_open_ok:
  assumes ok: "ft_ok B s" and p: "p < MAX_PROCS" and l: "legal_call p (Open name flag mode) s"
  shows "\<exists>v s'. do_file_open w p name flag mode s = Some (v, s') \<and> ft_ok B s'"
proof -
  have r: "room OS_DS_REG (km s)" using l by simp
  show ?thesis
  proof (cases "name \<in> {''stdin'', ''stdout'', ''stderr''}")
    case True
    then have "\<exists>fd. 3 \<le> fd \<and> fd < MAX_OPEN_FILES \<and> ofile s p fd = 0" using l by simp
    from open_standard_IO_ok [OF ok p r _ this] True show ?thesis by (auto simp: do_file_open_def strcmp_0)
  next
    case False
    then show ?thesis using do_regular_file_open_ok [OF ok p r] by (simp add: do_file_open_def strcmp_0)
  qed
qed

lemma file_call_ok:
  assumes ok: "ft_ok B s" and p: "p < MAX_PROCS" and l: "legal_call p c s"
  shows "\<exists>s'. file_call w p c s = Some s' \<and> ft_ok B s'"
proof (cases c)
  case (Open name flag mode)
  obtain v s' where "do_file_open w p name flag mode s = Some (v, s')" "ft_ok B s'"
    using do_file_open_ok [OF ok p l [unfolded Open], of w] by blast
  then show ?thesis unfolding Open by simp
next
  case (Read fd count)
  with do_file_read_ok [OF ok p, of fd count w] l show ?thesis by auto
next
  case (Write fd d count)
  with do_file_write_ok [OF ok p, of fd count w d] l show ?thesis by auto
next
  case Pipe_call
  with create_pipe_ok [OF ok p] l show ?thesis by simp
next
  case (Dup oldfd)
  with fd_dup_ok [OF ok p] show ?thesis by simp
next
  case (Dup2 oldfd newfd)
  with fd_dup2_ok [OF ok p, of oldfd newfd] show ?thesis by auto
next
  case (Close fd)
  with do_close_ok [OF ok p, of fd] l show ?thesis by auto
next
  case (Lseek fd offset whence)
  with do_lseek_ok [OF ok p, of fd offset whence] l show ?thesis by auto
next
  case (Fork c)
  with fork_files_ok [OF ok p, of c] l show ?thesis by simp
next
  case Exit
  with exit_loop_ok [OF ok p, of "[0..<MAX_OPEN_FILES]"] show ?thesis by (auto simp: do_file_exit_def)
qed

text \<open>The state before the first process: no descriptors, a well-formed file system.\<close>

definition file_boot :: "fstate \<Rightarrow> bool" where
  "file_boot s \<longleftrightarrow> kmem_ok (km s) \<and> first_pfn OS_DS_REG (km s) \<in> used_frames OS_DS_REG (km s) \<and>
     flatfs_ok (fsb s) \<and> (\<forall>p i. ofile s p i = 0)"

inductive file_reach :: "fstate \<Rightarrow> fstate \<Rightarrow> bool" for s0 where
  start: "file_reach s0 s0"
| call: "file_reach s0 s \<Longrightarrow> p < MAX_PROCS \<Longrightarrow> legal_call p c s \<Longrightarrow> file_call w p c s = Some s' \<Longrightarrow> file_reach s0 s'"

lemma boot_ft_ok: "file_boot s \<Longrightarrow> ft_ok (used_frames OS_DS_REG (km s)) s"
proof -
  assume b: "file_boot s"
  then have "opened s = {}" by (auto simp: file_boot_def opened_def descs_def)
  moreover from this have "pipe_files (opened s) s = {}" "pipes (opened s) s = {}" by (simp_all add: pipe_files_def pipes_def)
  ultimately show ?thesis using b
    by (simp add: ft_ok_def objs_ok_def frames_ok_def pipes_ok_def file_boot_def pipe_files_def pipes_def)
qed

lemma reach_ft_ok: "file_reach s0 s \<Longrightarrow> file_boot s0 \<Longrightarrow> ft_ok (used_frames OS_DS_REG (km s0)) s"
proof (induction rule: file_reach.induct)
  case start
  then show ?case by (rule boot_ft_ok)
next
  case (call s p c w s')
  then show ?case using file_call_ok [of _ s p c w] by fastforce
qed

text \<open>
  C31. After any sequence of legal calls of up to seven processes: every further
  legal call returns; the reference count of each open file object is the number
  of descriptors that refer to it; every page that a descriptor refers to is in use
  and none of the rest of the kernel (so nothing is freed while it is referred to),
  and the same holds for the pipe of a pipe end; and once no descriptor is left, the
  pages in use are exactly those of the beginning (nothing is lost).
\<close>

theorem file_reach_ok:
  assumes "file_boot s0" "file_reach s0 s"
  shows "(\<forall>w p c. p < MAX_PROCS \<longrightarrow> legal_call p c s \<longrightarrow> (\<exists>s'. file_call w p c s = Some s')) \<and>
    (\<forall>q\<in>opened s. f_ref (fpage s q) = int (card (descs s q)) \<and>
       q \<in> used_frames OS_DS_REG (km s) - used_frames OS_DS_REG (km s0) \<and>
       (f_type (fpage s q) = PIPE \<longrightarrow>
          f_pipe (fpage s q) \<in> used_frames OS_DS_REG (km s) - used_frames OS_DS_REG (km s0) \<and>
          pipe_ok (ppage s (f_pipe (fpage s q))))) \<and>
    (opened s = {} \<longrightarrow> used_frames OS_DS_REG (km s) = used_frames OS_DS_REG (km s0))"
proof -
  let ?B = "used_frames OS_DS_REG (km s0)"
  have ok: "ft_ok ?B s" using reach_ft_ok assms by blast
  note objs = ft_objs [OF ok]
  have disj: "?B \<inter> (opened s \<union> pipes (opened s) s) = {}" using objs unfolding objs_ok_def frames_ok_def by blast
  have pip: "f_pipe (fpage s q) \<in> pipes (opened s) s" if "q \<in> opened s" "f_type (fpage s q) = PIPE" for q
    using that by (auto simp: pipes_def pipe_files_def)
  have "\<forall>w p c. p < MAX_PROCS \<longrightarrow> legal_call p c s \<longrightarrow> (\<exists>s'. file_call w p c s = Some s')"
    using file_call_ok [OF ok] by blast
  moreover have "opened s = {} \<longrightarrow> used_frames OS_DS_REG (km s) = ?B"
    using objs_used [OF objs] by (auto simp: pipes_def pipe_files_def)
  ultimately show ?thesis
    using ft_ref [OF ok] disj pip objs_used [OF objs] objs_pipe_ok [OF objs] by blast
qed

lemma boot_mem_ds:
  "pglists boot_mem OS_DS_REG =
     \<lparr>pl_size = 0x1800, free_pages = 0x17FF, last_free_pos = 0, start_address = 0x800000,
      bitmap = (\<lambda>_. 0)(0 := 1)\<rparr>"
  by (simp add: boot_mem_def init_pagelists_def init_pagelist_def pgl_bmap_set_def Let_def)

lemma alloc_ds_word:
  assumes "pglists k OS_DS_REG = \<lparr>pl_size = 0x1800, free_pages = n, last_free_pos = 0, start_address = 0x800000,
      bitmap = (\<lambda>_. 0)(0 := x)\<rparr>" "n \<noteq> 0" "x \<noteq> 0xffffffff" "first_clear x 0 = b" "b < 32"
  shows "room OS_DS_REG k \<and> pglists (snd (os_pfn_alloc OS_DS_REG k)) OS_DS_REG =
    \<lparr>pl_size = 0x1800, free_pages = n - 1, last_free_pos = 0, start_address = 0x800000,
      bitmap = (\<lambda>_. 0)(0 := x OR push_bit (b mod 32) 1)\<rparr>"
  using assms
  by (simp add: room_def has_room_def pglists_os_pfn_alloc get_free_page_def Let_def skip_full.simps [of _ _ 0] pgl_bmap_set_def)

lemma boot_mem_pages: "frames.avail_many OS_DS_REG 4 boot_mem"
proof -
  have f: "first_clear 1 0 = 1" "first_clear 3 0 = 2" "first_clear 7 0 = 3" "first_clear 15 0 = 4"
    by (simp_all add: first_clear.simps)
  note a = alloc_ds_word
  note s1 = a [OF boot_mem_ds _ _ f(1), simplified]
  note s2 = a [OF conjunct2 [OF s1] _ _ f(2), simplified]
  note s3 = a [OF conjunct2 [OF s2] _ _ f(3), simplified]
  note s4 = a [OF conjunct2 [OF s3] _ _ f(4), simplified]
  have "(4 :: nat) = Suc (Suc (Suc (Suc 0)))" by simp
  then show ?thesis using s1 s2 s3 s4 by (simp only: frames.avail_many.simps)
qed

definition boot_world :: world where
  "boot_world = \<lparr>w_file = (\<lambda>_. \<lparr>f_type = STDIN, f_mode = 0, f_offp = 0, f_ref = 0, f_inode = None, f_pipe = 0,
       f_read = None, f_write = None, f_lseek = False, f_close = False\<rparr>),
     w_pipe = (\<lambda>_. \<lparr>pi_read = 0, pi_write = 0, pi_buff = [], pi_len = 0, pi_ropen = 0, pi_wopen = 0\<rparr>),
     w_page = (\<lambda>_ _. 0), w_kbd = [], w_console = (\<lambda>n. n)\<rparr>"

definition boot_fs :: fstate where
  "boot_fs = \<lparr>km = boot_mem, fpage = w_file boot_world, ppage = w_pipe boot_world, pbuf = (\<lambda>_. 0), file_objects = 0,
     ofile = (\<lambda>_ _. 0), fsb = sample_sb\<rparr>"

lemma boot_fs_ok: "file_boot boot_fs"
proof -
  have "bm_bit ((\<lambda>_. 0)(0 := 1)) 0" by (simp add: bm_bit_def)
  then have "first_pfn OS_DS_REG boot_mem \<in> used_frames OS_DS_REG boot_mem"
    by (force simp: used_frames_def in_use_def boot_mem_ds)
  then show ?thesis by (simp add: file_boot_def boot_fs_def boot_mem_ok sample_sb_ok)
qed

theorem file_reach_ok_witness:
  "\<exists>s. file_call boot_world 1 Pipe_call boot_fs = Some s \<and> (\<forall>q\<in>opened s. f_ref (fpage s q) = int (card (descs s q)))"
proof -
  let ?s = "snd (snd (snd (create_pipe boot_world 1 boot_fs)))"
  have "file_reach boot_fs ?s"
    by (rule file_reach.call [OF file_reach.start, of 1 Pipe_call _ boot_world])
       (simp_all add: MAX_PROCS_def boot_fs_def boot_mem_pages)
  from file_reach_ok [OF boot_fs_ok this] show ?thesis by simp
qed

section \<open>Bytes through a descriptor\<close>

text \<open>Descriptor \<open>fd\<close> of process \<open>p\<close> is open for reading and writing on a file that permits both.\<close>

definition stream :: "nat \<Rightarrow> nat \<Rightarrow> nat \<Rightarrow> fstate \<Rightarrow> bool" where
  "stream p fd ino s \<longleftrightarrow> p < MAX_PROCS \<and> fd < MAX_OPEN_FILES \<and> ofile s p fd \<noteq> 0 \<and> ino < NUM_FILES \<and>
     (let f = fpage s (ofile s p fd) in f_type f = REGULAR \<and> f_read f = Some Do_read_regular \<and>
        f_write f = Some Do_write_regular \<and> f_lseek f \<and> f_inode f = Some ino \<and>
        f_mode f AND O_READ \<noteq> 0 \<and> f_mode f AND O_WRITE \<noteq> 0) \<and>
     i_mode (sb_inode (fsb s) ino) AND O_READ \<noteq> 0 \<and> i_mode (sb_inode (fsb s) ino) AND O_WRITE \<noteq> 0"

abbreviation pos :: "nat \<Rightarrow> nat \<Rightarrow> fstate \<Rightarrow> int" where
  "pos p fd s \<equiv> f_offp (fpage s (ofile s p fd))"

lemma stream_write:
  assumes ok: "ft_ok B s" and st: "stream p fd ino s"
    and n: "pos p fd s = int (length (file_bytes (fsb s) ino))" "pos p fd s + int n \<le> 4096"
  shows "\<exists>s'. do_file_write w p fd d (int n) s = Some (int n, s') \<and> ft_ok B s' \<and> stream p fd ino s' \<and>
    pos p fd s' = pos p fd s + int n \<and> file_bytes (fsb s') ino = file_bytes (fsb s) ino @ map d [0..<n]"
proof -
  let ?q = "ofile s p fd" and ?o = "pos p fd s"
  have q: "?q \<in> opened s" "f_type (fpage s ?q) = REGULAR"
    using st ofile_opened [of p fd s] by (auto simp: stream_def Let_def)
  have o: "0 \<le> ?o" "s32 ?o = ?o" by (rule ft_regular [OF ok q], assumption)+
  have ino: "ino < NUM_FILES" using st by (simp add: stream_def)
  have x: "extents_ok (fsb s)" using ft_flat [OF ok] by (simp add: flatfs_ok_def)
  have c: "int n mod 2 ^ 32 = int n" "s32 (int n) = int n" "(?o + int n) mod 2 ^ 32 = ?o + int n"
    using n(2) o(1) by (simp_all add: s32_small)
  obtain fs where fs: "flat_write (fsb s) ino d (int n) ?o = Some (int n, fs)" "flatfs_ok fs"
    "\<And>j. i_mode (sb_inode fs j) = i_mode (sb_inode (fsb s) j)"
    by (rule flatfs_write [OF ft_flat [OF ok] ino o(1) of_nat_0_le_iff n(2)]) blast
  have b: "file_bytes fs ino = file_bytes (fsb s) ino @ map d [0..<n]"
    using file_bytes_write [OF x ino o(1) of_nat_0_le_iff n(2) _ fs(1)] n(1) by simp
  let ?s = "upd_file ?q (\<lambda>f. f\<lparr>f_offp := (f_offp f + int n) mod 2 ^ 32\<rparr>) (s\<lparr>fsb := fs\<rparr>)"
  have sz: "\<not> i_size (sb_inode (fsb s) ino) > FILE_SIZE"
    using x ino by (auto simp: extents_ok_def inode_ok_def FILE_SIZE_def)
  have "do_file_write w p fd d (int n) s = Some (int n, ?s)"
    using st c o(2) n(2) fs(1) sz unfolding do_file_write_def do_write_regular_def stream_def Let_def
    by (simp add: FILE_SIZE_def)
  moreover have "ft_ok B ?s"
    using c(3) o(1) n(2) by (intro ft_seek [OF ft_fsb [OF ok fs(2)], of "\<lambda>f. (f_offp f + int n) mod 2 ^ 32"])
      (simp_all add: FILE_SIZE_def)
  moreover have "stream p fd ino ?s" using st fs(3) by (simp add: stream_def Let_def)
  ultimately show ?thesis using b c(3) by auto
qed

text \<open>A program that writes chunks one after the other.\<close>

fun write_chunks :: "world \<Rightarrow> nat \<Rightarrow> nat \<Rightarrow> ((nat \<Rightarrow> u8) \<times> nat) list \<Rightarrow> fstate \<Rightarrow> fstate option" where
  "write_chunks w p fd [] s = Some s"
| "write_chunks w p fd ((d, n) # cs) s =
    (case do_file_write w p fd d (int n) s of None \<Rightarrow> None
     | Some (r, s') \<Rightarrow> if r = int n then write_chunks w p fd cs s' else None)"

lemma stream_chunks:
  assumes "ft_ok B s" "stream p fd ino s" "pos p fd s = int (length (file_bytes (fsb s) ino))"
    and "pos p fd s + int (sum_list (map snd cs)) \<le> 4096"
  shows "\<exists>s'. write_chunks w p fd cs s = Some s' \<and> ft_ok B s' \<and> stream p fd ino s' \<and>
    file_bytes (fsb s') ino = file_bytes (fsb s) ino @ concat (map (\<lambda>(d, n). map d [0..<n]) cs)"
  using assms
proof (induction cs arbitrary: s)
  case (Cons c cs)
  obtain d n where c: "c = (d, n)" by (cases c)
  have "pos p fd s + int n \<le> 4096" using Cons.prems(4) c by simp
  then obtain s1 where s1: "do_file_write w p fd d (int n) s = Some (int n, s1)" "ft_ok B s1" "stream p fd ino s1"
    "pos p fd s1 = pos p fd s + int n" "file_bytes (fsb s1) ino = file_bytes (fsb s) ino @ map d [0..<n]"
    using stream_write [OF Cons.prems(1-3)] by blast
  then show ?case using Cons.IH [OF s1(2,3)] Cons.prems(3,4) c by auto
qed auto

lemma stream_rewind:
  assumes ok: "ft_ok B s" and st: "stream p fd ino s"
  shows "\<exists>s'. do_lseek p (int fd) 0 0 s = Some (0, s') \<and> ft_ok B s' \<and> stream p fd ino s' \<and>
    pos p fd s' = 0 \<and> fsb s' = fsb s"
proof -
  let ?s = "upd_file (ofile s p fd) (\<lambda>f. f\<lparr>f_offp := 0\<rparr>) s"
  have "do_lseek p (int fd) 0 0 s = Some (0, ?s)"
    using st by (simp add: do_lseek_def do_lseek_regular_def stream_def Let_def s32_def FILE_SIZE_def)
  moreover have "ft_ok B ?s" by (rule ft_seek [OF ok, of "\<lambda>f. 0"]) (simp_all add: FILE_SIZE_def)
  moreover have "stream p fd ino ?s" using st by (simp add: stream_def Let_def)
  ultimately show ?thesis by auto
qed

lemma stream_read_all:
  assumes ok: "ft_ok B s" and st: "stream p fd ino s" and z: "pos p fd s = 0"
  shows "\<exists>s'. do_file_read w p fd (int (length (file_bytes (fsb s) ino))) s =
    Some (int (length (file_bytes (fsb s) ino)), file_bytes (fsb s) ino, s')"
proof -
  let ?l = "int (length (file_bytes (fsb s) ino))"
  have ino: "ino < NUM_FILES" using st by (simp add: stream_def)
  have x: "extents_ok (fsb s)" using ft_flat [OF ok] by (simp add: flatfs_ok_def)
  then have n: "inode_ok (sb_inode (fsb s) ino)" using ino by (simp add: extents_ok_def)
  then have l: "i_size (sb_inode (fsb s) ino) = ?l" "?l \<le> 4096" by (auto simp: file_bytes_def inode_ok_def)
  have c: "?l mod 2 ^ 32 = ?l" "s32 ?l = ?l" "s32 0 = 0" using l(2) by (simp_all add: s32_small)
  have "flat_read (fsb s) ino ?l 0 = Some (?l, file_bytes (fsb s) ino)"
    using flat_read_in [OF x ino, of 0 ?l] by simp
  then show ?thesis
    using st z c l unfolding do_file_read_def do_read_regular_def stream_def Let_def
    by (simp add: FILE_SIZE_def)
qed

lemma open_new:
  assumes ok: "ft_ok B s" and p: "p < MAX_PROCS" and r: "room OS_DS_REG (km s)"
    and name: "name \<notin> {''stdin'', ''stdout'', ''stderr''}" "length name < 256" "lookup_inode (fsb s) name = None"
      "valid_inodes (fsb s) \<noteq> {..<NUM_FILES}"
    and fd: "find (\<lambda>fd. ofile s p fd = 0) [3..<MAX_OPEN_FILES] = Some fd"
  shows "\<exists>s' ino. do_file_open w p name 11 3 s = Some (int fd, s') \<and> ft_ok B s' \<and> stream p fd ino s' \<and>
    pos p fd s' = 0 \<and> file_bytes (fsb s') ino = []"
proof -
  obtain ino fs where c: "flat_create_inode (fsb s) name 3 = Some (int ino, fs)" "flatfs_ok fs" "ino < NUM_FILES"
    "i_mode (sb_inode fs ino) = 3" "file_bytes fs ino = []"
    using create_new [OF ft_flat [OF ok] _ name(2,4), of 3] name(3) by (auto simp: lookup_inode_def)
  let ?s = "s\<lparr>fsb := fs\<rparr>"
  have sz: "\<not> i_size (sb_inode fs ino) > FILE_SIZE"
    using c(2,3) by (auto simp: flatfs_ok_def extents_ok_def inode_ok_def FILE_SIZE_def)
  obtain q s1 where a: "alloc_file w ?s = (q, s1)" by (cases "alloc_file w ?s")
  have q: "q \<noteq> 0" "ofile s1 = ofile s" "fsb s1 = fs"
    using a by (auto intro: alloc_file_ok [OF ft_objs [OF ft_fsb [OF ok c(2)]], of w] simp: r)
  have w: "(11 :: u64) AND 8 \<noteq> 0" "ucast (3 :: u64) = (3 :: u32)" "ucast (11 :: u64) = (11 :: u32)"
    "(3 :: u32) AND O_READ \<noteq> 0" "(3 :: u32) AND O_WRITE \<noteq> 0" "(11 :: u32) AND O_READ \<noteq> 0" "(11 :: u32) AND O_WRITE \<noteq> 0"
    by simp_all
  have cr: "create_inode (fsb s) name 3 = Some (Some ino, fs)" using c(1) w(2) by (simp add: create_inode_def)
  have run: "do_file_open w p name 11 3 s = Some (open_inode w p ino 11 ?s)"
    using name(1-3) w(1) cr by (simp add: do_file_open_def strcmp_0 do_regular_file_open_def)
  have e: "open_inode w p ino 11 ?s = install_file w p fd ino 11 ?s"
    using fd sz c(4) w(4,5) by (simp add: open_inode_def)
  have ok': "ft_ok B (snd (open_inode w p ino 11 ?s))"
    by (rule open_inode_ok [OF ft_fsb [OF ok c(2)] p _ c(3)]) (simp add: r)
  obtain s' where s': "install_file w p fd ino 11 ?s = (int fd, s')" using a q(1) by (simp add: install_file_def)
  have "stream p fd ino s' \<and> pos p fd s' = 0 \<and> file_bytes (fsb s') ino = []"
    using s' a q p find_from(2) [OF fd] c(3-5) w by (auto simp: install_file_def stream_def Let_def)
  with run e s' ok' show ?thesis by auto
qed

text \<open>
  C32. Round trip through the file system calls: a new file is created with read and
  write permission, any chunks of together at most 4096 bytes are written one
  after the other, the descriptor is set back to the start, and reading delivers
  exactly the bytes written, in order.
\<close>

theorem file_roundtrip:
  assumes "ft_ok B s" "p < MAX_PROCS" "room OS_DS_REG (km s)"
    and "name \<notin> {''stdin'', ''stdout'', ''stderr''}" "length name < 256" "lookup_inode (fsb s) name = None"
      "valid_inodes (fsb s) \<noteq> {..<NUM_FILES}"
    and "find (\<lambda>fd. ofile s p fd = 0) [3..<MAX_OPEN_FILES] = Some fd"
    and "sum_list (map snd cs) \<le> 4096"
  shows "\<exists>s1 s2 s3 s4. do_file_open w p name 11 3 s = Some (int fd, s1) \<and> write_chunks w p fd cs s1 = Some s2 \<and>
    do_lseek p (int fd) 0 0 s2 = Some (0, s3) \<and>
    do_file_read w p fd (int (sum_list (map snd cs))) s3 =
      Some (int (sum_list (map snd cs)), concat (map (\<lambda>(d, n). map d [0..<n]) cs), s4)"
proof -
  obtain s1 ino where s1: "do_file_open w p name 11 3 s = Some (int fd, s1)" "ft_ok B s1" "stream p fd ino s1"
    "pos p fd s1 = 0" "file_bytes (fsb s1) ino = []" using open_new [OF assms(1-8)] by blast
  obtain s2 where s2: "write_chunks w p fd cs s1 = Some s2" "ft_ok B s2" "stream p fd ino s2"
    "file_bytes (fsb s2) ino = concat (map (\<lambda>(d, n). map d [0..<n]) cs)"
    using stream_chunks [OF s1(2,3)] s1(4,5) assms(9) by fastforce
  obtain s3 where s3: "do_lseek p (int fd) 0 0 s2 = Some (0, s3)" "ft_ok B s3" "stream p fd ino s3"
    "pos p fd s3 = 0" "fsb s3 = fsb s2" using stream_rewind [OF s2(2,3)] by blast
  have "length (concat (map (\<lambda>(d, n). map d [0..<n]) cs)) = sum_list (map snd cs)"
    by (induction cs) auto
  then show ?thesis using stream_read_all [OF s3(2-4), of w] s1(1) s2(1,4) s3(1,5) by auto
qed

lemma boot_fs_room: "room OS_DS_REG (km boot_fs)"
proof -
  have "(4 :: nat) = Suc 3" by simp
  then show ?thesis using boot_mem_pages frames.avail_many.simps(2) [of OS_DS_REG 3 boot_mem] by (simp add: boot_fs_def)
qed

lemma boot_fs_free:
  "lookup_inode (fsb boot_fs) name = None" "valid_inodes (fsb boot_fs) \<noteq> {..<NUM_FILES}"
  "find (\<lambda>fd. ofile boot_fs p fd = 0) [3..<MAX_OPEN_FILES] = Some 3"
proof -
  have v: "valid_inodes sample_sb = {}" by (simp add: valid_inodes_def sample_sb_def fresh_inode_def)
  then show "lookup_inode (fsb boot_fs) name = None" by (simp add: boot_fs_def lookup_inode_def lookup_None)
  have "{} \<noteq> {..<NUM_FILES}" by (metis NUM_FILES_def empty_iff lessThan_iff zero_less_numeral)
  with v show "valid_inodes (fsb boot_fs) \<noteq> {..<NUM_FILES}" by (simp add: boot_fs_def)
  show "find (\<lambda>fd. ofile boot_fs p fd = 0) [3..<MAX_OPEN_FILES] = Some 3"
    by (simp add: boot_fs_def MAX_OPEN_FILES_def upt_rec [of 3])
qed

theorem file_roundtrip_witness:
  "\<exists>s1 s2 s3 s4. do_file_open boot_world 2 ''a.txt'' 11 3 boot_fs = Some (3, s1) \<and>
    write_chunks boot_world 2 3 [(\<lambda>k. of_nat k + 97, 2), (\<lambda>k. 33, 1)] s1 = Some s2 \<and> do_lseek 2 3 0 0 s2 = Some (0, s3) \<and>
    do_file_read boot_world 2 3 3 s3 = Some (3, [97, 98, 33], s4)"
proof -
  have "[0..<2] = [0, 1 :: nat]" by (simp add: upt_rec)
  then show ?thesis
    using file_roundtrip [OF boot_ft_ok [OF boot_fs_ok] _ boot_fs_room, of 2 "''a.txt''" 3
        "[(\<lambda>k. of_nat k + 97, 2), (\<lambda>k. 33, 1)]" boot_world] boot_fs_free
    by (simp add: MAX_PROCS_def)
qed

text \<open>
  C36. The offset of a file and the count of a call are not checked against negative
  values.  \<open>lseek\<close> to \<open>-1\<close> succeeds (with the result \<open>2^32 - 1\<close>), and the next write of one
  byte goes to the byte before the storage of the file, which belongs to another
  file.  A read with the count \<open>2^32 - offset\<close> passes the test against the size of the
  file because the 32-bit sum is 0, and then copies without end.
\<close>

theorem file_offset_unchecked:
  assumes ok: "ft_ok B s" and st: "stream p fd ino s"
  shows "(\<exists>s1 s2. do_lseek p (int fd) (- 1) 0 s = Some (2 ^ 32 - 1, s1) \<and>
      do_file_write w p fd d 1 s1 = Some (1, s2) \<and>
      (0 < i_s (sb_inode (fsb s) ino) \<longrightarrow> sb_mem (fsb s2) (nat (i_s (sb_inode (fsb s) ino) - 1)) = d 0)) \<and>
    (0 < pos p fd s \<and> pos p fd s < i_size (sb_inode (fsb s) ino) \<longrightarrow>
      do_file_read w p fd (2 ^ 32 - pos p fd s) s = None)"
proof
  let ?q = "ofile s p fd" and ?n = "sb_inode (fsb s) ino"
  have n: "inode_ok ?n" using ft_flat [OF ok] st by (simp add: flatfs_ok_def extents_ok_def stream_def)
  have sz: "\<not> i_size ?n > FILE_SIZE" using n by (auto simp: inode_ok_def FILE_SIZE_def)
  show "\<exists>s1 s2. do_lseek p (int fd) (- 1) 0 s = Some (2 ^ 32 - 1, s1) \<and> do_file_write w p fd d 1 s1 = Some (1, s2) \<and>
      (0 < i_s ?n \<longrightarrow> sb_mem (fsb s2) (nat (i_s ?n - 1)) = d 0)"
  proof -
    let ?s1 = "upd_file ?q (\<lambda>f. f\<lparr>f_offp := 2 ^ 32 - 1\<rparr>) s"
    have l: "do_lseek p (int fd) (- 1) 0 s = Some (2 ^ 32 - 1, ?s1)"
      using st by (simp add: do_lseek_def do_lseek_regular_def stream_def Let_def s32_def FILE_SIZE_def)
    have fw: "\<exists>fs. flat_write (fsb s) ino d 1 (- 1) = Some (1, fs) \<and>
        (0 < i_s ?n \<longrightarrow> sb_mem fs (nat (i_s ?n - 1)) = d 0)"
      using n by (auto simp: flat_write_def Let_def inode_ok_def flat_addr_def)
    then obtain fs where fs: "flat_write (fsb s) ino d 1 (- 1) = Some (1, fs)"
      "0 < i_s ?n \<longrightarrow> sb_mem fs (nat (i_s ?n - 1)) = d 0" by blast
    have s1: "stream p fd ino ?s1" "pos p fd ?s1 = 2 ^ 32 - 1" "fsb ?s1 = fsb s" using st by (simp_all add: stream_def Let_def)
    have c: "s32 1 = 1" "s32 (2 ^ 32 - 1) = - 1" by (simp_all add: s32_def)
    have "do_file_write w p fd d 1 ?s1 =
        Some (1, upd_file ?q (\<lambda>f. f\<lparr>f_offp := (f_offp f + 1) mod 2 ^ 32\<rparr>) (?s1\<lparr>fsb := fs\<rparr>))"
      using s1 c fs(1) sz unfolding do_file_write_def do_write_regular_def stream_def Let_def
      by (simp add: FILE_SIZE_def)
    with l fs(2) show ?thesis by auto
  qed
  show "0 < pos p fd s \<and> pos p fd s < i_size ?n \<longrightarrow> do_file_read w p fd (2 ^ 32 - pos p fd s) s = None"
  proof
    assume o: "0 < pos p fd s \<and> pos p fd s < i_size ?n"
    then have b: "pos p fd s \<le> 4096" using n by (simp add: inode_ok_def)
    have c: "(2 ^ 32 - pos p fd s) mod 2 ^ 32 = 2 ^ 32 - pos p fd s"
      by (rule mod_pos_pos_trivial) (use o b in auto)
    have c2: "s32 (pos p fd s) = pos p fd s" using o b by (simp add: s32_small)
    have m: "s32 (2 ^ 32 - pos p fd s) = - pos p fd s"
    proof -
      have "(2 ^ 32 - pos p fd s + 2 ^ 31) mod 2 ^ 32 = (2 ^ 31 - pos p fd s) mod (2 ^ 32 :: int)"
        by (metis (no_types, opaque_lifting) add_diff_eq diff_add_eq mod_add_self1)
      also have "\<dots> = 2 ^ 31 - pos p fd s" using o b by simp
      finally show ?thesis by (simp add: s32_def)
    qed
    have "flat_read (fsb s) ino (- pos p fd s) (pos p fd s) = None"
      using o by (simp add: flat_read_def Let_def)
    then show "do_file_read w p fd (2 ^ 32 - pos p fd s) s = None"
      using st c c2 m o n sz unfolding do_file_read_def do_read_regular_def stream_def Let_def
      by (simp add: inode_ok_def)
  qed
qed

theorem file_offset_unchecked_witness:
  "\<exists>s s1 s2. do_file_open boot_world 2 ''a.txt'' 11 3 boot_fs = Some (3, s) \<and>
    do_lseek 2 3 (- 1) 0 s = Some (2 ^ 32 - 1, s1) \<and> do_file_write boot_world 2 3 (\<lambda>k. 7) 1 s1 = Some (1, s2)"
proof -
  obtain s ino where s: "do_file_open boot_world 2 ''a.txt'' 11 3 boot_fs = Some (3, s)"
    "ft_ok (used_frames OS_DS_REG (km boot_fs)) s" "stream 2 3 ino s"
    using open_new [OF boot_ft_ok [OF boot_fs_ok] _ boot_fs_room, of 2 "''a.txt''" 3 boot_world] boot_fs_free
    by (auto simp: MAX_PROCS_def)
  from file_offset_unchecked [OF s(2,3), of boot_world "\<lambda>k. 7"] s(1) show ?thesis by auto
qed

end
