(* ===== verification/TextSearch.thy ===== *)
theory TextSearch
  imports Prelude
begin

text \<open>
  The text search of src/Assignment1/Part_1/src/part1.c.  The file system is a tree with
  symbolic links; the list of a directory is what \<open>readdir\<close> delivers, in its order, and
  may contain the names \<open>.\<close> and \<open>..\<close>, whose nodes are never looked at.  The first component
  of a file says whether it can be opened; directories can always be entered and
  opened.  The program changes its working directory as it descends, and every name is
  looked up from there; a directory is known by its path from the root, links
  resolved.  \<open>None\<close> is a write behind the end of an array (or a read before its start).
\<close>

datatype fsnode =
    RegFile bool string
  | Directory "(string \<times> fsnode) list"
  | SymLink string
  | OtherNode

abbreviation newline :: char where "newline \<equiv> CHR 0x0A"
abbreviation slash :: char where "slash \<equiv> CHR ''/''"

section \<open>Names in the file system\<close>

fun split_path :: "string \<Rightarrow> string list" where
  "split_path [] = [[]]"
| "split_path (c # cs) =
    (if c = slash then [] # split_path cs
     else (case split_path cs of [] \<Rightarrow> [[c]] | p # ps \<Rightarrow> (c # p) # ps))"

fun node_at :: "fsnode \<Rightarrow> string list \<Rightarrow> fsnode option" where
  "node_at t [] = Some t"
| "node_at (Directory es) (n # ns) = (case map_of es n of None \<Rightarrow> None | Some t \<Rightarrow> node_at t ns)"
| "node_at t (n # ns) = None"

text \<open>
  The walk along the components of a path; it fails after \<open>k\<close> symbolic links.
\<close>

fun namei :: "nat \<Rightarrow> fsnode \<Rightarrow> string list \<Rightarrow> string list \<Rightarrow> string list option" where
  "namei k root cwd [] = Some cwd"
| "namei k root cwd (c # cs) =
    (case node_at root cwd of
       Some (Directory es) \<Rightarrow>
         (if c = [] \<or> c = ''.'' then namei k root cwd cs
          else if c = ''..'' then namei k root (butlast cwd) cs
          else (case map_of es c of
              None \<Rightarrow> None
            | Some (SymLink target) \<Rightarrow>
                (case k of
                   0 \<Rightarrow> None
                 | Suc k' \<Rightarrow>
                     if target = [] then None
                     else namei k' root (if hd target = slash then [] else cwd) (split_path target @ cs))
            | Some t \<Rightarrow> namei k root (cwd @ [c]) cs))
     | _ \<Rightarrow> None)"

definition lookup_path :: "fsnode \<Rightarrow> string list \<Rightarrow> string \<Rightarrow> string list option" where
  "lookup_path root cwd path =
    (if path = [] then None
     else namei 40 root (if hd path = slash then [] else cwd) (split_path path))"

definition stat :: "fsnode \<Rightarrow> string list \<Rightarrow> string \<Rightarrow> fsnode option" where
  "stat root cwd path = (case lookup_path root cwd path of None \<Rightarrow> None | Some p \<Rightarrow> node_at root p)"

definition chdir :: "fsnode \<Rightarrow> string list \<Rightarrow> string \<Rightarrow> string list" where
  "chdir root cwd path =
    (case lookup_path root cwd path of
       None \<Rightarrow> cwd
     | Some p \<Rightarrow> (case node_at root p of Some (Directory es) \<Rightarrow> p | _ \<Rightarrow> cwd))"

definition dir_names :: "fsnode \<Rightarrow> string list \<Rightarrow> string list" where
  "dir_names root cwd = (case node_at root cwd of Some (Directory es) \<Rightarrow> map fst es | _ \<Rightarrow> [])"

section \<open>Searching a file\<close>

text \<open>C strings end at the first null byte.\<close>

definition cstr :: "string \<Rightarrow> string" where
  "cstr s = takeWhile (\<lambda>c. c \<noteq> CHR 0x00) s"

fun is_prefix :: "string \<Rightarrow> string \<Rightarrow> bool" where
  "is_prefix [] s = True"
| "is_prefix (p # ps) [] = False"
| "is_prefix (p # ps) (c # s) = (p = c \<and> is_prefix ps s)"

fun strstr :: "string \<Rightarrow> string \<Rightarrow> bool" where
  "strstr [] pat = (pat = [])"
| "strstr (c # s) pat = (is_prefix pat (c # s) \<or> strstr s pat)"

definition print_line :: "bool \<Rightarrow> string \<Rightarrow> string \<Rightarrow> string" where
  "print_line fileordir loc line = (if \<not> fileordir then loc @ '':'' @ cstr line else cstr line)"

fun grep_loop :: "string \<Rightarrow> string \<Rightarrow> bool \<Rightarrow> string \<Rightarrow> string \<Rightarrow> string list \<Rightarrow> (string \<times> string list) option" where
  "grep_loop pat loc fod [] line out = Some (line, out)"
| "grep_loop pat loc fod (c # cs) line out =
    (if 1000009 \<le> length line then None
     else if c = newline then
       grep_loop pat loc fod cs [] (if strstr (cstr line) pat then out @ [print_line fod loc line] else out)
     else grep_loop pat loc fod cs (line @ [c]) out)"

text \<open>The lines printed, and whether the program has ended with \<open>exit(1)\<close>.\<close>

definition grep :: "string \<Rightarrow> string \<Rightarrow> bool \<Rightarrow> bool \<Rightarrow> string \<Rightarrow> (string list \<times> bool) option" where
  "grep pat loc fod readable bytes =
    (if \<not> readable then Some ([], True)
     else (case grep_loop pat loc fod bytes [] [] of None \<Rightarrow> None
       | Some (line, out) \<Rightarrow>
         if 1000009 \<le> length line then None
         else if line \<noteq> [] \<and> strstr (cstr line) pat then Some (out @ [print_line fod loc line], False)
         else Some (out, False)))"

definition join_path :: "string \<Rightarrow> string \<Rightarrow> string" where
  "join_path complete name = (if last complete \<noteq> CHR ''/'' then complete @ ''/'' @ name else complete @ name)"

section \<open>The walk\<close>

text \<open>
  If \<open>stat\<close> fails, the two tests read a structure that has no value: \<open>junk\<close>, which may be
  different for the two tests and for every directory and name.
\<close>

type_synonym undefined_stat = "bool \<Rightarrow> string list \<Rightarrow> string \<Rightarrow> bool"

definition is_file :: "undefined_stat \<Rightarrow> fsnode \<Rightarrow> string list \<Rightarrow> string \<Rightarrow> bool" where
  "is_file junk root cwd loc =
    (case stat root cwd loc of None \<Rightarrow> junk True cwd loc | Some (RegFile r bs) \<Rightarrow> True | Some _ \<Rightarrow> False)"

definition is_dir :: "undefined_stat \<Rightarrow> fsnode \<Rightarrow> string list \<Rightarrow> string \<Rightarrow> bool" where
  "is_dir junk root cwd loc =
    (case stat root cwd loc of None \<Rightarrow> junk False cwd loc | Some (Directory es) \<Rightarrow> True | Some _ \<Rightarrow> False)"

text \<open>
  \<open>grep\<close> from its \<open>open\<close> on.  It is called only after \<open>is_file\<close>; on a directory \<open>read\<close> would fail
  for ever and fill the array.
\<close>

definition grep_at :: "fsnode \<Rightarrow> string list \<Rightarrow> string \<Rightarrow> string \<Rightarrow> string \<Rightarrow> bool \<Rightarrow> (string list \<times> bool) option" where
  "grep_at root cwd pat name loc fileordir =
    (case stat root cwd name of
       None \<Rightarrow> Some ([], True)
     | Some (RegFile r bs) \<Rightarrow> grep pat loc fileordir r bs
     | Some _ \<Rightarrow> None)"

text \<open>
  The lines printed, whether the program has ended with \<open>exit(1)\<close>, and the working directory.
  \<open>entries_loop\<close> is the loop over the names; the list of names is that of the directory
  which was opened, also when a call returns to another working directory.
\<close>

type_synonym walk_result = "(string list \<times> bool \<times> string list) option"

fun entries_loop ::
  "(string \<Rightarrow> string \<Rightarrow> string list \<Rightarrow> walk_result) \<Rightarrow> undefined_stat \<Rightarrow> fsnode \<Rightarrow> string \<Rightarrow> string \<Rightarrow>
   string list \<Rightarrow> string list \<Rightarrow> walk_result" where
  "entries_loop rcall junk root pat complete [] cwd = Some ([], False, cwd)"
| "entries_loop rcall junk root pat complete (name # names) cwd =
    (if name = ''.'' \<or> name = ''..'' then entries_loop rcall junk root pat complete names cwd
     else let loc = join_path complete name in
       if complete = [] \<or> 5000 \<le> length loc then None
       else (case (if is_file junk root cwd name then grep_at root cwd pat name loc False else Some ([], False)) of
           None \<Rightarrow> None
         | Some (out1, stop1) \<Rightarrow>
             if stop1 then Some (out1, True, cwd)
             else (case (if is_dir junk root cwd name then rcall name loc cwd else Some ([], False, cwd)) of
                 None \<Rightarrow> None
               | Some (out2, stop2, cwd2) \<Rightarrow>
                   if stop2 then Some (out1 @ out2, True, cwd2)
                   else (case entries_loop rcall junk root pat complete names cwd2 of
                       None \<Rightarrow> None
                     | Some (out3, stop3, cwd3) \<Rightarrow> Some (out1 @ out2 @ out3, stop3, cwd3)))))"

text \<open>
  The first argument bounds the depth.  Each level makes the path at least one character
  longer and it has to stay below 5000, so that 5000 levels are always enough: the
  array overflows before.
\<close>

primrec recurse ::
  "nat \<Rightarrow> undefined_stat \<Rightarrow> fsnode \<Rightarrow> string \<Rightarrow> string \<Rightarrow> string \<Rightarrow> string list \<Rightarrow> walk_result" where
  "recurse 0 = (\<lambda>junk root pat dir complete cwd. None)"
| "recurse (Suc n) = (\<lambda>junk root pat dir complete cwd.
     let cwd1 = chdir root cwd dir in
     case entries_loop (recurse n junk root pat) junk root pat complete (dir_names root cwd1) cwd1 of
       None \<Rightarrow> None
     | Some (out, stop, cwd2) \<Rightarrow> Some (out, stop, if stop then cwd2 else chdir root cwd2 ''..''))"

text \<open>The main program: both tests are made, the second one where the first has left the process.\<close>

definition grep_main :: "undefined_stat \<Rightarrow> fsnode \<Rightarrow> string list \<Rightarrow> string \<Rightarrow> string \<Rightarrow> (string list \<times> bool) option" where
  "grep_main junk root cwd pat path =
    (case (if is_dir junk root cwd path then recurse 5000 junk root pat path path cwd else Some ([], False, cwd)) of
       None \<Rightarrow> None
     | Some (out, stop, cwd1) \<Rightarrow>
         if stop then Some (out, True)
         else if is_file junk root cwd1 path
         then (case grep_at root cwd1 pat path path True of None \<Rightarrow> None | Some (out', stop') \<Rightarrow> Some (out @ out', stop'))
         else Some (out, False))"

section \<open>Reference definitions\<close>

function file_lines :: "string \<Rightarrow> string list" where
  "file_lines bs = (if bs = [] then [] else
     takeWhile (\<lambda>c. c \<noteq> newline) bs # file_lines (drop (Suc (length (takeWhile (\<lambda>c. c \<noteq> newline) bs))) bs))"
  by pat_completeness auto
termination by (relation "measure length") auto

declare file_lines.simps [simp del]

definition contains :: "string \<Rightarrow> string \<Rightarrow> bool" where
  "contains s pat \<longleftrightarrow> (\<exists>a b. s = a @ pat @ b)"

definition matches :: "string \<Rightarrow> string \<Rightarrow> string list" where
  "matches pat bs = filter (\<lambda>l. contains l pat) (map cstr (file_lines bs))"

text \<open>The files below a directory with their paths.\<close>

fun node_files :: "string \<Rightarrow> fsnode \<Rightarrow> (string \<times> string) list"
  and entry_files :: "string \<Rightarrow> (string \<times> fsnode) list \<Rightarrow> (string \<times> string) list" where
  "node_files loc (RegFile r bs) = [(loc, bs)]"
| "node_files loc (Directory es) = entry_files loc es"
| "node_files loc (SymLink t) = []"
| "node_files loc OtherNode = []"
| "entry_files loc [] = []"
| "entry_files loc ((name, t) # es) =
    (if name = ''.'' \<or> name = ''..'' then [] else node_files (join_path loc name) t) @ entry_files loc es"

text \<open>
  A tree without symbolic links and with proper names, in which every file can be opened
  and every line and every path fits into its array.
\<close>

fun node_fits :: "string \<Rightarrow> fsnode \<Rightarrow> bool"
  and entries_fit :: "string \<Rightarrow> (string \<times> fsnode) list \<Rightarrow> bool" where
  "node_fits loc (RegFile r bs) \<longleftrightarrow> r \<and> (\<forall>l\<in>set (file_lines bs). length l < 1000009)"
| "node_fits loc (Directory es) \<longleftrightarrow> distinct (map fst es) \<and> entries_fit loc es"
| "node_fits loc (SymLink t) \<longleftrightarrow> False"
| "node_fits loc OtherNode \<longleftrightarrow> True"
| "entries_fit loc [] \<longleftrightarrow> True"
| "entries_fit loc ((name, t) # es) \<longleftrightarrow>
    (name = ''.'' \<or> name = ''..'' \<or>
     name \<noteq> [] \<and> slash \<notin> set name \<and> length (join_path loc name) < 5000 \<and> node_fits (join_path loc name) t) \<and>
    entries_fit loc es"

definition with_paths :: "string \<Rightarrow> (string \<times> string) list \<Rightarrow> string list" where
  "with_paths pat fs = concat (map (\<lambda>(loc, bs). map (\<lambda>l. loc @ '':'' @ l) (matches pat bs)) fs)"

text \<open>What the program is meant to print, and what its second test finds from the directory \<open>cwd\<close>.\<close>

definition found :: "string \<Rightarrow> string \<Rightarrow> fsnode \<Rightarrow> string list" where
  "found pat path t =
    (case t of Directory es \<Rightarrow> with_paths pat (node_files path t) | RegFile r bs \<Rightarrow> matches pat bs | _ \<Rightarrow> [])"

definition second_find :: "string \<Rightarrow> fsnode \<Rightarrow> string list \<Rightarrow> string \<Rightarrow> string list" where
  "second_find pat root cwd path =
    (case stat root cwd path of Some (RegFile r bs) \<Rightarrow> if r then matches pat bs else [] | _ \<Rightarrow> [])"

section \<open>Correctness\<close>

lemma containsI: "s = a @ pat @ b \<Longrightarrow> contains s pat"
  by (auto simp: contains_def)

lemma is_prefix_iff: "is_prefix p s \<longleftrightarrow> (\<exists>b. s = p @ b)"
  by (induction p s rule: is_prefix.induct) auto

lemma strstr_iff: "strstr s pat \<longleftrightarrow> contains s pat"
proof (induction s)
  case Nil
  then show ?case by (auto simp: contains_def)
next
  case (Cons c s)
  have "contains (c # s) pat \<longleftrightarrow> (\<exists>b. c # s = pat @ b) \<or> contains s pat"
  proof
    assume "contains (c # s) pat"
    then obtain a b where "c # s = a @ pat @ b" by (auto simp: contains_def)
    then show "(\<exists>b. c # s = pat @ b) \<or> contains s pat" by (cases a) (auto simp: contains_def)
  next
    assume "(\<exists>b. c # s = pat @ b) \<or> contains s pat"
    then consider b where "c # s = [] @ pat @ b" | a b where "c # s = (c # a) @ pat @ b"
      by (auto simp: contains_def)
    then show "contains (c # s) pat" by cases (erule containsI)+
  qed
  then show ?case using Cons by (simp add: is_prefix_iff)
qed

lemma grep_loop_eq:
  assumes "newline \<notin> set line" "\<forall>l\<in>set (file_lines (line @ cs)). length l < 1000009"
  shows "\<exists>line' out'. grep_loop pat loc fod cs line out = Some (line', out') \<and> length line' < 1000009 \<and>
    out' @ (if line' \<noteq> [] \<and> strstr (cstr line') pat then [print_line fod loc line'] else []) =
    out @ map (print_line fod loc) (filter (\<lambda>l. strstr (cstr l) pat) (file_lines (line @ cs)))"
  using assms
proof (induction cs arbitrary: line out)
  case Nil
  have tw: "takeWhile (\<lambda>c. c \<noteq> newline) line = line" using Nil.prems(1) by (auto simp: takeWhile_eq_all_conv)
  have "file_lines line = (if line = [] then [] else [line])"
    unfolding file_lines.simps [of line] tw by (simp add: file_lines.simps [of "[]"])
  with Nil.prems(2) show ?case by (cases "line = []") auto
next
  case (Cons c cs)
  show ?case
  proof (cases "c = newline")
    case True
    have "takeWhile (\<lambda>c. c \<noteq> newline) (line @ c # cs) = line"
      using Cons.prems(1) True by (subst takeWhile_append2) auto
    then have fl: "file_lines (line @ c # cs) = line # file_lines cs" by (subst file_lines.simps) simp
    let ?out = "if strstr (cstr line) pat then out @ [print_line fod loc line] else out"
    have len: "length line < 1000009" "\<forall>l\<in>set (file_lines ([] @ cs)). length l < 1000009"
      using Cons.prems(2) unfolding fl by simp_all
    obtain line' out' where r: "grep_loop pat loc fod cs [] ?out = Some (line', out')" "length line' < 1000009"
      "out' @ (if line' \<noteq> [] \<and> strstr (cstr line') pat then [print_line fod loc line'] else []) =
        ?out @ map (print_line fod loc) (filter (\<lambda>l. strstr (cstr l) pat) (file_lines cs))"
      using Cons.IH [of "[]" ?out, OF _ len(2)] by auto
    have e: "grep_loop pat loc fod (c # cs) line out = Some (line', out')" using r(1) len(1) True by simp
    have "?out @ map (print_line fod loc) (filter (\<lambda>l. strstr (cstr l) pat) (file_lines cs)) =
        out @ map (print_line fod loc) (filter (\<lambda>l. strstr (cstr l) pat) (file_lines (line @ c # cs)))"
      unfolding fl by simp
    with e r(2,3) show ?thesis by metis
  next
    case False
    have "length line < length (takeWhile (\<lambda>c. c \<noteq> newline) (line @ c # cs))"
      using Cons.prems(1) False by (subst takeWhile_append2) auto
    moreover have "takeWhile (\<lambda>c. c \<noteq> newline) (line @ c # cs) \<in> set (file_lines (line @ c # cs))"
      by (simp add: file_lines.simps [of "line @ c # cs"])
    ultimately have "length line < 1000009" using Cons.prems(2) by fastforce
    then show ?thesis using Cons.IH [of "line @ [c]" out] Cons.prems False by simp
  qed
qed

lemma grep_eq:
  assumes "\<forall>l\<in>set (file_lines bs). length l < 1000009"
  shows "grep pat loc fod True bs = Some (map (if fod then (\<lambda>l. l) else (\<lambda>l. loc @ '':'' @ l)) (matches pat bs), False)"
proof -
  obtain line' out' where g: "grep_loop pat loc fod bs [] [] = Some (line', out')" "length line' < 1000009"
    "out' @ (if line' \<noteq> [] \<and> strstr (cstr line') pat then [print_line fod loc line'] else []) =
      map (print_line fod loc) (filter (\<lambda>l. strstr (cstr l) pat) (file_lines bs))"
    using grep_loop_eq [of "[]" bs pat loc fod "[]"] assms by auto
  have "map (print_line fod loc) (filter (\<lambda>l. strstr (cstr l) pat) (file_lines bs)) =
      map (if fod then (\<lambda>l. l) else (\<lambda>l. loc @ '':'' @ l)) (matches pat bs)"
    by (simp add: matches_def filter_map strstr_iff print_line_def comp_def)
  with g show ?thesis by (auto simp: grep_def)
qed

subsection \<open>Looking up names\<close>

lemma node_at_append: "node_at t (p @ q) = (case node_at t p of None \<Rightarrow> None | Some u \<Rightarrow> node_at u q)"
  by (induction t p rule: node_at.induct) (auto split: option.splits)

lemma node_at_butlast:
  assumes "node_at root p = Some (Directory es)"
  shows "\<exists>es'. node_at root (butlast p) = Some (Directory es')"
proof (cases p rule: rev_cases)
  case (snoc q n)
  then obtain u where u: "node_at root q = Some u" "node_at u [n] = Some (Directory es)"
    using assms by (auto simp: node_at_append split: option.splits)
  then show ?thesis using snoc by (cases u) auto
qed (use assms in simp)

lemma split_path_name: "slash \<notin> set n \<Longrightarrow> split_path n = [n]"
  by (induction n) auto

lemma lookup_name:
  assumes "node_at root p = Some (Directory es)" "map_of es name = Some t" "\<And>g. t \<noteq> SymLink g"
    and "name \<noteq> []" "slash \<notin> set name" "name \<noteq> ''.''" "name \<noteq> ''..''"
  shows "lookup_path root p name = Some (p @ [name])" "node_at root (p @ [name]) = Some t" "stat root p name = Some t"
proof -
  have "hd name \<noteq> slash" using assms(4,5) by (cases name) auto
  then show l: "lookup_path root p name = Some (p @ [name])"
    using assms by (cases t) (auto simp: lookup_path_def split_path_name)
  show n: "node_at root (p @ [name]) = Some t" using assms(1,2) by (simp add: node_at_append)
  show "stat root p name = Some t" using l n by (simp add: stat_def)
qed

lemma chdir_up:
  assumes "node_at root p = Some (Directory es)"
  shows "chdir root p ''..'' = butlast p"
  using assms node_at_butlast [OF assms] by (auto simp: chdir_def lookup_path_def)

lemma join_path_longer: "name \<noteq> [] \<Longrightarrow> length complete < length (join_path complete name)"
  by (cases name) (auto simp: join_path_def)

text \<open>The bound on the depth is never felt: names are not empty, so the path array overflows before.\<close>

lemma entries_loop_cong:
  assumes "\<And>name loc cwd. length complete < length loc \<Longrightarrow> length loc < 5000 \<Longrightarrow> f name loc cwd = g name loc cwd"
  shows "[] \<notin> set names \<Longrightarrow>
    entries_loop f junk root pat complete names cwd = entries_loop g junk root pat complete names cwd"
proof (induction names arbitrary: cwd)
  case (Cons name names)
  then have "length complete < length (join_path complete name)" by (intro join_path_longer) auto
  then have "f name (join_path complete name) cwd = g name (join_path complete name) cwd"
    if "length (join_path complete name) < 5000" using assms that by blast
  with Cons show ?case by (simp add: Let_def cong: if_cong option.case_cong prod.case_cong)
qed simp

lemma recurse_depth:
  assumes names: "\<And>p. [] \<notin> set (dir_names root p)"
  shows "length complete < 5000 \<Longrightarrow> 5000 \<le> n + length complete \<Longrightarrow>
    recurse (n + m) junk root pat dir complete cwd = recurse n junk root pat dir complete cwd"
proof (induction n arbitrary: dir complete cwd)
  case (Suc n)
  have "recurse (n + m) junk root pat name loc c = recurse n junk root pat name loc c"
    if "length complete < length loc" "length loc < 5000" for name loc c
    using Suc.IH [of loc name c] Suc.prems(2) that by simp
  from entries_loop_cong [OF this names] show ?case by simp
qed simp

subsection \<open>The walk over a tree\<close>

lemma with_paths_append: "with_paths pat (fs @ gs) = with_paths pat fs @ with_paths pat gs"
  by (simp add: with_paths_def)

lemma with_paths_Nil [simp]: "with_paths pat [] = []" by (simp add: with_paths_def)

text \<open>One name of the loop, whatever its node is.\<close>

lemma entries_loop_step:
  assumes "name \<noteq> ''.''" "name \<noteq> ''..''" "complete \<noteq> []" "length (join_path complete name) < 5000"
    and st: "stat root p name = Some t" and fit: "node_fits (join_path complete name) t"
    and sub: "\<And>es. t = Directory es \<Longrightarrow> rcall name (join_path complete name) p =
      Some (with_paths pat (node_files (join_path complete name) t), False, p)"
    and rest: "entries_loop rcall junk root pat complete names p = Some (out, False, p)"
  shows "entries_loop rcall junk root pat complete (name # names) p =
    Some (with_paths pat (node_files (join_path complete name) t) @ out, False, p)"
proof (cases t)
  case (RegFile r bs)
  then show ?thesis
    using assms grep_eq [of bs pat "join_path complete name" False]
    by (simp add: is_file_def is_dir_def grep_at_def Let_def with_paths_def)
next
  case (Directory es)
  then show ?thesis using assms sub [OF Directory] by (simp add: is_file_def is_dir_def Let_def)
qed (use assms in \<open>simp_all add: is_file_def is_dir_def Let_def\<close>)

lemma walk_tree:
  "node_fits loc t \<Longrightarrow> t = Directory es0 \<Longrightarrow> lookup_path root cwd dir = Some p \<Longrightarrow> node_at root p = Some t \<Longrightarrow>
    loc \<noteq> [] \<Longrightarrow> length loc < 5000 \<Longrightarrow> 5000 \<le> n + length loc \<Longrightarrow>
    recurse n junk root pat dir loc cwd = Some (with_paths pat (node_files loc t), False, butlast p)"
  "entries_fit loc es \<Longrightarrow> node_at root q = Some (Directory es1) \<Longrightarrow>
    (\<And>name u. (name, u) \<in> set es \<Longrightarrow> map_of es1 name = Some u) \<Longrightarrow>
    loc \<noteq> [] \<Longrightarrow> 5000 \<le> Suc k + length loc \<Longrightarrow>
    entries_loop (recurse k junk root pat) junk root pat loc (map fst es) q =
      Some (with_paths pat (entry_files loc es), False, q)"
proof (induction loc t and loc es arbitrary: n cwd dir p es0 and k q es1 rule: node_fits_entries_fit.induct)
  case (2 loc es)
  obtain n' where n: "n = Suc n'" using "2.prems"(6,7) by (cases n) auto
  have cd: "chdir root cwd dir = p" "dir_names root p = map fst es"
    using "2.prems"(3,4) by (simp_all add: chdir_def dir_names_def)
  have nd: "node_at root p = Some (Directory es)" by (rule "2.prems"(4))
  have "entries_loop (recurse n' junk root pat) junk root pat loc (map fst es) p =
      Some (with_paths pat (entry_files loc es), False, p)"
    using "2.IH" [OF _ nd, of n'] "2.prems"(1,5,7) n by (auto simp: map_of_is_SomeI)
  then show ?case using n cd "2.prems"(5) chdir_up [OF nd] by simp
next
  case (6 loc name u es)
  have rest: "entries_loop (recurse k junk root pat) junk root pat loc (map fst es) q =
      Some (with_paths pat (entry_files loc es), False, q)"
    using "6.IH"(2) [OF _ "6.prems"(2) _ "6.prems"(4,5)] "6.prems"(1,3) by auto
  show ?case
  proof (cases "name = ''.'' \<or> name = ''..''")
    case True
    then show ?thesis using rest by auto
  next
    case False
    let ?loc = "join_path loc name"
    have f: "name \<noteq> []" "slash \<notin> set name" "length ?loc < 5000" "node_fits ?loc u" using "6.prems"(1) False by auto
    have m: "map_of es1 name = Some u" using "6.prems"(3) by simp
    have nl: "u \<noteq> SymLink g" for g using f(4) by auto
    have lk: "lookup_path root q name = Some (q @ [name])" "node_at root (q @ [name]) = Some u" "stat root q name = Some u"
      using lookup_name [OF "6.prems"(2) m nl f(1,2)] False by auto
    have longer: "length loc < length ?loc" by (rule join_path_longer [OF f(1)])
    then have ne: "?loc \<noteq> []" by auto
    have "recurse k junk root pat name ?loc q = Some (with_paths pat (node_files ?loc u), False, q)"
      if "u = Directory es2" for es2
      using "6.IH"(1) [OF f(4) that lk(1,2), of k] f(3) ne longer "6.prems"(4,5) False by auto
    then show ?thesis
      using entries_loop_step [OF _ _ "6.prems"(4) f(3) lk(3) f(4) _ rest] False by (simp add: with_paths_append)
  qed
qed simp_all

text \<open>
  C37. The text search.  Let the path given on the command line name a file or a directory
  with a proper tree below it.  For a file the program prints the lines that contain
  the pattern; for a directory it prints these lines of every file below it, in the
  order of \<open>readdir\<close>, each with the path of the file, and it comes back to the parent of
  the directory.  A line is what stands between newlines, the last one may lack its
  newline.  But then the program tests the path a second time, from the parent of the
  directory: if the path names a regular file there, the lines of that file follow.
  Nothing else is printed.  For an absolute path, or one that names an entry of the
  working directory, the second test sees the directory again and adds nothing.
\<close>

theorem grep_main_correct:
  assumes look: "lookup_path root cwd path = Some p" "node_at root p = Some t"
    and fits: "node_fits path t" "length path < 5000"
    and lines: "\<forall>r bs. stat root (butlast p) path = Some (RegFile r bs) \<longrightarrow> (\<forall>l\<in>set (file_lines bs). length l < 1000009)"
  shows "(\<exists>stop. grep_main junk root cwd pat path =
      Some (found pat path t @ (case t of Directory es \<Rightarrow> second_find pat root (butlast p) path | _ \<Rightarrow> []), stop)) \<and>
    (hd path = slash \<or> butlast p = cwd \<longrightarrow> grep_main junk root cwd pat path = Some (found pat path t, False))"
proof -
  have st: "stat root cwd path = Some t" using look by (simp add: stat_def)
  have ne: "path \<noteq> []" using look(1) by (auto simp: lookup_path_def)
  show ?thesis
  proof (cases t)
    case (RegFile r bs)
    then show ?thesis
      using st fits(1) grep_eq [of bs pat path True] by (auto simp: grep_main_def is_dir_def is_file_def grep_at_def found_def)
  next
    case (Directory es)
    have rec: "recurse 5000 junk root pat path path cwd = Some (with_paths pat (node_files path t), False, butlast p)"
      by (rule walk_tree(1) [OF fits(1) Directory look ne fits(2)]) simp
    have dir: "is_dir junk root cwd path" using st Directory by (simp add: is_dir_def)
    have same: "stat root (butlast p) path = Some t" if "hd path = slash \<or> butlast p = cwd"
      using that st ne by (auto simp: stat_def lookup_path_def)
    show ?thesis
    proof (cases "stat root (butlast p) path")
      case None
      then show ?thesis
        using same rec dir Directory by (auto simp: grep_main_def is_file_def grep_at_def found_def second_find_def)
    next
      case (Some u)
      show ?thesis
      proof (cases u)
        case (RegFile r bs)
        then show ?thesis
          using same rec dir Directory Some lines grep_eq [of bs pat path True]
          by (cases r) (auto simp: grep_main_def is_file_def grep_at_def found_def second_find_def grep_def)
      qed (use same rec dir Directory Some in \<open>auto simp: grep_main_def is_file_def found_def second_find_def\<close>)
    qed
  qed (use st fits(1) in \<open>auto simp: grep_main_def is_dir_def is_file_def found_def\<close>)
qed

text \<open>
  A tree in which the second test strikes: the search of \<open>a/b\<close> from \<open>/w\<close>, where \<open>a/a/b\<close> is a file.
\<close>

definition sample_root :: fsnode where
  "sample_root = Directory [(''w'', Directory [(''.'', OtherNode), (''a'', Directory
     [(''b'', Directory [(''f'', RegFile True ([CHR ''x'', newline] @ ''hi x'')), (''d'', Directory [(''g'', RegFile True ''x'')])]),
      (''a'', Directory [(''b'', RegFile True ''x!'')])])])]"

lemma file_lines_Cons:
  "file_lines (c # cs) = (if c = newline then [] # file_lines cs else
     (case file_lines cs of [] \<Rightarrow> [[c]] | l # ls \<Rightarrow> (c # l) # ls))"
proof (cases cs)
  case Nil
  then show ?thesis by (simp add: file_lines.simps [of "[c]"] file_lines.simps [of "[]"])
next
  case (Cons a list)
  then show ?thesis by (simp add: file_lines.simps [of "c # a # list"] file_lines.simps [of "a # list"])
qed

theorem grep_main_correct_witness:
  "(\<exists>stop. grep_main (\<lambda>_ _ _. True) sample_root [''w''] ''x'' ''a/b'' =
     Some ([''a/b/f:x'', ''a/b/f:hi x'', ''a/b/d/g:x'', ''x!''], stop)) \<and>
   grep_main (\<lambda>_ _ _. True) sample_root [''w''] ''x'' ''/w/a/b/'' =
     Some ([''/w/a/b/f:x'', ''/w/a/b/f:hi x'', ''/w/a/b/d/g:x''], False)"
proof -
  let ?b = "Directory [(''f'', RegFile True ([CHR ''x'', newline] @ ''hi x'')), (''d'', Directory [(''g'', RegFile True ''x'')])]"
  have fl: "file_lines [] = []" by (simp add: file_lines.simps)
  have m: "matches ''x'' ([CHR ''x'', newline] @ ''hi x'') = [''x'', ''hi x'']" "matches ''x'' ''x'' = [''x'']"
    "matches ''x'' ''x!'' = [''x!'']"
    by (simp_all add: matches_def cstr_def file_lines_Cons fl flip: strstr_iff)
  have l: "lookup_path sample_root [''w''] ''a/b'' = Some [''w'', ''a'', ''b'']" "lookup_path sample_root [''w''] ''/w/a/b/'' = Some [''w'', ''a'', ''b'']"
    "node_at sample_root [''w'', ''a'', ''b''] = Some ?b"
    "stat sample_root (butlast [''w'', ''a'', ''b'']) ''a/b'' = Some (RegFile True ''x!'')"
    "stat sample_root (butlast [''w'', ''a'', ''b'']) ''/w/a/b/'' = Some ?b"
    by (simp_all add: lookup_path_def stat_def sample_root_def)
  have fit: "node_fits ''a/b'' ?b" "node_fits ''/w/a/b/'' ?b"
    by (simp_all add: join_path_def file_lines_Cons fl)
  have e: "found ''x'' ''a/b'' ?b = [''a/b/f:x'', ''a/b/f:hi x'', ''a/b/d/g:x'']"
    "found ''x'' ''/w/a/b/'' ?b = [''/w/a/b/f:x'', ''/w/a/b/f:hi x'', ''/w/a/b/d/g:x'']"
    "second_find ''x'' sample_root (butlast [''w'', ''a'', ''b'']) ''a/b'' = [''x!'']"
    using m l(4) by (simp_all add: found_def with_paths_def join_path_def second_find_def)
  have "\<exists>stop. grep_main (\<lambda>_ _ _. True) sample_root [''w''] ''x'' ''a/b'' =
      Some (found ''x'' ''a/b'' ?b @ second_find ''x'' sample_root (butlast [''w'', ''a'', ''b'']) ''a/b'', stop)"
    using grep_main_correct [OF l(1,3) fit(1), of "\<lambda>_ _ _. True" "''x''"] l(4) by (simp add: file_lines_Cons fl)
  moreover have "grep_main (\<lambda>_ _ _. True) sample_root [''w''] ''x'' ''/w/a/b/'' = Some (found ''x'' ''/w/a/b/'' ?b, False)"
    using grep_main_correct [OF l(2,3) fit(2), of "\<lambda>_ _ _. True" "''x''"] l(5) by simp
  ultimately show ?thesis unfolding e by simp
qed

end
