(* ===== verification/DirTools.thy ===== *)
theory DirTools
  imports Prelude
begin

text \<open>
  The directory sizes of src/Assignment1/Part_3/src/part3.c.  A directory is a tree
  without symbolic links, so that every \<open>chdir("..")\<close> of the program undoes its \<open>chdir\<close> into
  the sub-directory and all names are looked up in the directory that is being read.
  The list of a directory is what \<open>readdir\<close> delivers, in its order, and may contain the
  names \<open>.\<close> and \<open>..\<close>, whose nodes are never looked at.  The first component of a file says
  whether it can be opened.  Directories can always be entered.
\<close>

datatype fnode = File bool string | Dir "(string \<times> fnode) list" | Special int

section \<open>Sizes\<close>

text \<open>
  Part 3.  \<open>recurse\<close> sums in a \<open>long long\<close> but returns an \<open>int\<close>; a file that cannot be
  opened contributes the \<open>-1\<close> of \<open>lseek\<close>.
\<close>

definition s64 :: "int \<Rightarrow> int" where
  "s64 i = (i + 2 ^ 63) mod 2 ^ 64 - 2 ^ 63"

fun seek_end :: "fnode \<Rightarrow> int" where
  "seek_end (File r bs) = (if r then int (length bs) else - 1)"
| "seek_end (Special k) = k"
| "seek_end (Dir es) = 0"

fun recurse_size :: "fnode \<Rightarrow> int"
  and size_loop :: "(string \<times> fnode) list \<Rightarrow> int \<Rightarrow> int" where
  "recurse_size (Dir es) = s32 (size_loop es 0)"
| "recurse_size (File r bs) = seek_end (File r bs)"
| "recurse_size (Special k) = seek_end (Special k)"
| "size_loop [] acc = acc"
| "size_loop ((name, t) # es) acc =
    (if name = ''.'' \<or> name = ''..'' then size_loop es acc else size_loop es (s64 (acc + recurse_size t)))"

text \<open>The loop of \<open>main\<close>: the lines the children print, and the sum read from the pipes.\<close>

fun main_loop :: "(string \<times> fnode) list \<Rightarrow> int \<Rightarrow> (string \<times> int) list \<times> int" where
  "main_loop [] ans = ([], ans)"
| "main_loop ((name, t) # es) ans =
    (if name = ''.'' \<or> name = ''..'' then main_loop es ans
     else let v = recurse_size t; (out, r) = main_loop es (s64 (ans + v)) in
       (case t of Dir sub \<Rightarrow> ((name, v) # out, r) | _ \<Rightarrow> (out, r)))"

fun extract_loop :: "string \<Rightarrow> string" where
  "extract_loop [] = []"
| "extract_loop (c # cs) = (if c = CHR ''/'' then [] else c # extract_loop cs)"

text \<open>The characters are collected from the end of the path and then reversed.\<close>

definition extract_name :: "string \<Rightarrow> string" where
  "extract_name path = (let r = rev path in rev (extract_loop (if hd r = CHR ''/'' then tl r else r)))"

definition dirsize_main :: "string \<Rightarrow> (string \<times> fnode) list \<Rightarrow> (string \<times> int) list" where
  "dirsize_main path es = (let (out, ans) = main_loop es 0 in out @ [(extract_name path, ans)])"

subsection \<open>The true sizes\<close>

fun true_size :: "fnode \<Rightarrow> int"
  and true_sizes :: "(string \<times> fnode) list \<Rightarrow> int" where
  "true_size (File r bs) = int (length bs)"
| "true_size (Dir es) = true_sizes es"
| "true_size (Special k) = k"
| "true_sizes [] = 0"
| "true_sizes ((name, t) # es) = (if name = ''.'' \<or> name = ''..'' then 0 else true_size t) + true_sizes es"

fun all_readable :: "fnode \<Rightarrow> bool"
  and entries_readable :: "(string \<times> fnode) list \<Rightarrow> bool" where
  "all_readable (File r bs) \<longleftrightarrow> r"
| "all_readable (Dir es) \<longleftrightarrow> entries_readable es"
| "all_readable (Special k) \<longleftrightarrow> 0 \<le> k"
| "entries_readable [] \<longleftrightarrow> True"
| "entries_readable ((name, t) # es) \<longleftrightarrow> (name = ''.'' \<or> name = ''..'' \<or> all_readable t) \<and> entries_readable es"

lemma true_size_nonneg:
  "all_readable t \<Longrightarrow> 0 \<le> true_size t"
  "entries_readable es \<Longrightarrow> 0 \<le> true_sizes es"
  by (induction t and es rule: true_size_true_sizes.induct) auto

lemma s64_small: "- (2 ^ 63) \<le> i \<Longrightarrow> i < 2 ^ 63 \<Longrightarrow> s64 i = i"
  by (simp add: s64_def)

lemma recurse_size_eq:
  "all_readable t \<Longrightarrow> true_size t < 2 ^ 31 \<Longrightarrow> recurse_size t = true_size t"
  "entries_readable es \<Longrightarrow> 0 \<le> acc \<Longrightarrow> acc + true_sizes es < 2 ^ 31 \<Longrightarrow> size_loop es acc = acc + true_sizes es"
proof (induction t and es acc rule: recurse_size_size_loop.induct)
  case (1 es)
  then show ?case using true_size_nonneg(2) [of es] by (simp add: s32_small)
next
  case (5 name t es acc)
  show ?case
  proof (cases "name = ''.'' \<or> name = ''..''")
    case True
    then show ?thesis using 5 by auto
  next
    case False
    have t: "all_readable t" "entries_readable es" "acc + (true_size t + true_sizes es) < 2 ^ 31"
      using 5(4,6) False by auto
    have nn: "0 \<le> true_size t" "0 \<le> true_sizes es" using t true_size_nonneg by auto
    have rt: "recurse_size t = true_size t" by (rule 5(2) [OF False t(1)]) (use t nn 5(5) in simp)
    have "s64 (acc + true_size t) = acc + true_size t" using t(3) nn 5(5) by (simp add: s64_small)
    then show ?thesis using 5(3) [OF False t(2)] rt t(3) nn 5(5) False by simp
  qed
qed auto

lemma main_loop_eq:
  assumes "entries_readable es" "0 \<le> acc" "acc + true_sizes es < 2 ^ 31"
  shows "main_loop es acc =
    (map (\<lambda>(name, t). (name, true_size t)) (filter (\<lambda>(name, t). name \<noteq> ''.'' \<and> name \<noteq> ''..'' \<and> (\<exists>sub. t = Dir sub)) es),
     acc + true_sizes es)"
  using assms
proof (induction es acc rule: main_loop.induct)
  case (2 name t es ans)
  show ?case
  proof (cases "name = ''.'' \<or> name = ''..''")
    case True
    then show ?thesis using 2 by auto
  next
    case False
    have t: "all_readable t" "entries_readable es" "ans + (true_size t + true_sizes es) < 2 ^ 31"
      using 2(3,5) False by auto
    have nn: "0 \<le> true_size t" "0 \<le> true_sizes es" using t true_size_nonneg by auto
    have rt: "recurse_size t = true_size t" by (rule recurse_size_eq(1) [OF t(1)]) (use t nn 2(4) in simp)
    have s: "s64 (ans + true_size t) = ans + true_size t" using t(3) nn 2(4) by (simp add: s64_small)
    have "main_loop es (ans + true_size t) =
        (map (\<lambda>(name, t). (name, true_size t)) (filter (\<lambda>(name, t). name \<noteq> ''.'' \<and> name \<noteq> ''..'' \<and> (\<exists>sub. t = Dir sub)) es),
         ans + true_size t + true_sizes es)"
      using 2(2) [OF False refl] t(2,3) nn 2(4) rt s by simp
    then show ?thesis using False rt s by (cases t) (auto simp: Let_def)
  qed
qed simp

lemma extract_loop_append: "CHR ''/'' \<notin> set n \<Longrightarrow> extract_loop (n @ CHR ''/'' # p) = n"
  by (induction n) auto

lemma extract_loop_all: "CHR ''/'' \<notin> set n \<Longrightarrow> extract_loop n = n"
  by (induction n) auto

lemma extract_name_eq:
  assumes "CHR ''/'' \<notin> set n" "n \<noteq> []" "pre = [] \<or> last pre = CHR ''/''" "slash = [] \<or> slash = ''/''"
  shows "extract_name (pre @ n @ slash) = n"
proof -
  have "hd (rev n) \<noteq> CHR ''/''" using assms(1,2) by (metis hd_in_set rev_is_Nil_conv set_rev)
  then have "(if hd (rev (pre @ n @ slash)) = CHR ''/'' then tl (rev (pre @ n @ slash)) else rev (pre @ n @ slash)) = rev n @ rev pre"
    using assms(2,4) by (auto simp: hd_append)
  moreover have "extract_loop (rev n @ rev pre) = rev n"
  proof (cases pre rule: rev_cases)
    case Nil
    then show ?thesis using assms(1) by (simp add: extract_loop_all)
  next
    case (snoc q c)
    then show ?thesis using assms(1,3) extract_loop_append [of "rev n" "rev q"] by simp
  qed
  ultimately show ?thesis unfolding extract_name_def Let_def by (simp only: rev_rev_ident)
qed

text \<open>
  For a directory whose files can all be opened and whose total size is below
  \<open>2^31\<close> bytes, the program prints for every sub-directory of the root, in the order of
  \<open>readdir\<close>, its name and the sum of the sizes of all files below it, and at the end
  the last component of the path (with or without a final slash) and the total.
\<close>

theorem dirsize_correct:
  assumes "entries_readable es" "true_sizes es < 2 ^ 31"
    and "CHR ''/'' \<notin> set n" "n \<noteq> []" "pre = [] \<or> last pre = CHR ''/''" "slash = [] \<or> slash = ''/''"
  shows "dirsize_main (pre @ n @ slash) es =
    map (\<lambda>(name, t). (name, true_size t)) (filter (\<lambda>(name, t). name \<noteq> ''.'' \<and> name \<noteq> ''..'' \<and> (\<exists>sub. t = Dir sub)) es) @
    [(n, true_sizes es)]"
  using main_loop_eq [OF assms(1), of 0] assms(2) extract_name_eq [OF assms(3-6)] by (simp add: dirsize_main_def)

theorem dirsize_correct_witness:
  "dirsize_main ''/tmp/r/'' [(''.'', Special 0), (''a'', File True ''abc''), (''d'', Dir [(''b'', File True ''xy'')])] =
    [(''d'', 2), (''r'', 5)]"
  using dirsize_correct [of "[(''.'', Special 0), (''a'', File True ''abc''), (''d'', Dir [(''b'', File True ''xy'')])]"
      "''r''" "''/tmp/''" "''/''"] by simp

text \<open>A sub-directory with a file of \<open>2^31\<close> bytes or more gets the wrong size.\<close>

lemma dirsize_truncates:
  assumes "2 ^ 31 \<le> length bs" "length bs < 2 ^ 32" "f \<noteq> ''.''" "f \<noteq> ''..''"
  shows "recurse_size (Dir [(f, File True bs)]) = int (length bs) - 2 ^ 32"
proof -
  have "s64 (int (length bs)) = int (length bs)" using assms(2) by (simp add: s64_small)
  moreover have "(int (length bs) + 2 ^ 31) mod 2 ^ 32 = (int (length bs) + 2 ^ 31 - 2 ^ 32) mod 2 ^ 32"
    by (rule minus_mod_self2 [symmetric])
  moreover have "\<dots> = int (length bs) + 2 ^ 31 - 2 ^ 32" by (rule mod_pos_pos_trivial) (use assms(1,2) in auto)
  ultimately show ?thesis using assms(3,4) by (simp add: s32_def)
qed

end
