(* ===== verification/BootTable.thy ===== *)
theory BootTable
  imports CFork
begin

text \<open>
  The page table of the first process: \<open>install_os_pts\<close>, \<open>install_ptable_multi\<close> and the memory
  part of \<open>exec_init\<close> in src/Assignment3/Ass3/src/context.c and the mapping of the
  interrupt controller in apic.c.  The address of the interrupt controller (\<open>apic\<close>, read
  from a machine register) and the configuration switches \<open>g\<close> (\<open>global_mapping\<close>) and \<open>ag\<close>
  (\<open>adv_global\<close>) are arguments.  Main result: the complete translation that \<open>exec_init\<close> sets up.
\<close>

section \<open>Definitions\<close>

abbreviation "CODE_START \<equiv> (0x100000000 :: nat)"
abbreviation "RODATA_START \<equiv> (0x140000000 :: nat)"
abbreviation "DATA_START \<equiv> (0x180000000 :: nat)"
abbreviation "MMAP_AREA \<equiv> (0x180200000 :: nat)"
abbreviation "STACK_START \<equiv> (0x800000000 :: nat)"
abbreviation "MAX_STACK_SIZE \<equiv> (0x1000000 :: nat)"
abbreviation "CODE_PAGES \<equiv> (8 :: nat)"
abbreviation "OS_PT_MAPS \<equiv> (1024 :: nat)"

subsection \<open>The interrupt controller\<close>

text \<open>\<open>((*p) >> PAGE_SHIFT) << PAGE_SHIFT\<close>, as a frame.\<close>

definition entry_frame :: "u64 \<Rightarrow> nat" where
  "entry_frame e = unat (drop_bit 12 e)"

definition apic_table :: "kmem \<Rightarrow> ptep \<Rightarrow> nat \<times> kmem" where
  "apic_table s p =
     (if rd s p AND 1 = 0 then (let (pfn, s1) = os_pfn_alloc OS_PT_REG s in (pfn, wr s1 p (mk_pte pfn 3)))
      else (entry_frame (rd s p), s))"

definition is_apic_base :: "nat \<Rightarrow> nat \<Rightarrow> bool" where
  "is_apic_base apic pfn \<longleftrightarrow> pfn = apic div 4096"

definition install_apic_mapping :: "nat \<Rightarrow> bool \<Rightarrow> bool \<Rightarrow> nat \<Rightarrow> kmem \<Rightarrow> kmem" where
  "install_apic_mapping apic g ag pl4 s =
     (let address = apic div 2 ^ 21 * 2 ^ 21;
          (pud, s1) = apic_table s (pl4, pgd_index address);
          (pmd, s2) = apic_table s1 (pud, pud_index address);
          flags = (if g \<and> ag then 0x183 OR push_bit 52 1 else if g then 0x183 else 0x83)
      in wr s2 (pmd, pmd_index address) (of_nat address OR flags))"

text \<open>A missing table leaves the local \<open>pfn\<close> without a value: \<open>None\<close>.\<close>

definition remove_apic_mapping :: "nat \<Rightarrow> nat \<Rightarrow> kmem \<Rightarrow> kmem option" where
  "remove_apic_mapping apic pl4 s =
     (let address = apic div 2 ^ 21 * 2 ^ 21; e1 = rd s (pl4, pgd_index address);
          e2 = rd s (entry_frame e1, pud_index address)
      in if e1 AND 1 = 0 then None
         else Some (wr s (if e2 AND 1 = 0 then entry_frame e1 else entry_frame e2, pmd_index address) 0))"

subsection \<open>Page tables of the first process\<close>

text \<open>One table of the kernel's mapping: \<open>count\<close> large pages from number \<open>seq\<close> on.\<close>

definition os_entry :: "bool \<Rightarrow> nat \<Rightarrow> u64" where
  "os_entry g seq = push_bit 21 (of_nat seq) OR (if g then 0x183 else 0x83)"

definition os_pmd_fill :: "bool \<Rightarrow> nat \<Rightarrow> nat \<Rightarrow> nat \<Rightarrow> kmem \<Rightarrow> kmem" where
  "os_pmd_fill g pmd seq count =
     fold (\<lambda>i t. wr t (pmd, i) (os_entry g (seq + i))) [0..<count]"

text \<open>The loop at the label \<open>again\<close>; \<open>om\<close> is the global \<open>os_pmd_pfn\<close>.\<close>

function os_pts_loop :: "bool \<Rightarrow> nat \<Rightarrow> nat \<Rightarrow> nat \<Rightarrow> nat \<Rightarrow> nat \<Rightarrow> kmem \<Rightarrow> nat \<times> kmem" where
  "os_pts_loop g pud pmdpos seq num om s =
     (let (pmd, om1, s1) = (if rd s (pud, pmdpos) \<noteq> 0 then (pte_frame (rd s (pud, pmdpos)), om, s)
                            else let (pfn, t) = os_pfn_alloc OS_PT_REG s
                                 in (pfn, pfn, wr t (pud, pmdpos) (mk_pte pfn 3)));
          count = min num 512;
          s2 = os_pmd_fill g pmd seq count s1
      in if num > 512 then os_pts_loop g pud (pmdpos + 1) (seq + count) (num - 512) om1 s2 else (om1, s2))"
  by pat_completeness auto
termination by (relation "measure (\<lambda>(g, pud, pmdpos, seq, num, om, s). num)") auto

declare os_pts_loop.simps [simp del]

definition install_os_pts :: "nat \<Rightarrow> bool \<Rightarrow> bool \<Rightarrow> nat \<Rightarrow> nat \<Rightarrow> kmem \<Rightarrow> nat \<times> kmem" where
  "install_os_pts apic g ag pl4 om s =
     (let (pud, s1) = (if rd s (pl4, 0) = 0
                       then (let (pfn, t) = os_pfn_alloc OS_PT_REG s in (pfn, wr t (pl4, 0) (mk_pte pfn 3)))
                       else (pte_frame (rd s (pl4, 0)), s));
          (om', s2) = os_pts_loop g pud 0 0 OS_PT_MAPS om s1
      in (om', install_apic_mapping apic g ag pl4 s2))"

text \<open>
  The pointer \<open>ptep\<close> moves on through physical memory: behind the last entry of a table
  comes the first of the next frame.
\<close>

definition put_pte :: "nat \<Rightarrow> nat \<Rightarrow> bool \<Rightarrow> nat \<Rightarrow> kmem \<Rightarrow> kmem" where
  "put_pte pt i w pfn s =
     wr s (pt + i div 512, i mod 512) (if w then mk_pte pfn 5 OR 2 else mk_pte pfn 5)"

primrec multi_loop :: "nat \<Rightarrow> bool \<Rightarrow> nat \<Rightarrow> nat \<Rightarrow> kmem \<Rightarrow> kmem" where
  "multi_loop pt w 0 i s = s"
| "multi_loop pt w (Suc n) i s =
     (let (pfn, s1) = os_pfn_alloc USER_REG s in multi_loop pt w n (Suc i) (put_pte pt i w pfn s1))"

definition install_ptable_multi :: "kmem \<Rightarrow> nat \<Rightarrow> nat \<Rightarrow> nat \<Rightarrow> bool \<Rightarrow> nat \<times> kmem" where
  "install_ptable_multi s base start count w =
     (let (pud, s1) = next_table s (base, pgd_index start);
          (pmd, s2) = next_table s1 (pud, pud_index start);
          (pt, s3) = next_table s2 (pmd, pmd_index start);
          (start_pfn, s4) = os_pfn_alloc USER_REG s3
      in (start_pfn, if count = 0 then s4
                     else multi_loop pt w (count - 1) (pte_index start + 1)
                            (put_pte pt (pte_index start) w start_pfn s4)))"

text \<open>\<open>memcpy(fmem, 0x200000, CODE_PAGES << PAGE_SHIFT)\<close>, page by page.\<close>

definition load_text :: "nat \<Rightarrow> kmem \<Rightarrow> kmem" where
  "load_text pfn = fold (\<lambda>i. copy_frame (pfn + i) (0x200 + i)) [0..<CODE_PAGES]"

definition init_memory :: "nat \<Rightarrow> bool \<Rightarrow> bool \<Rightarrow> (mm_seg \<Rightarrow> mm_segment) \<Rightarrow> nat \<Rightarrow> kmem \<Rightarrow> nat \<times> nat \<times> kmem" where
  "init_memory apic g ag mm om m =
     (let (pg, m1) = os_pfn_alloc OS_PT_REG m;
          (text, m2) = install_ptable_multi (zero_frame pg m1) pg (seg_start (mm MM_SEG_CODE)) CODE_PAGES False;
          (dt, m3) = install_ptable m2 pg (mm MM_SEG_DATA) 0 0;
          (stk, m4) = install_ptable m3 pg
                        ((mm MM_SEG_STACK)\<lparr>seg_start := sub64 (seg_end (mm MM_SEG_STACK)) 4096\<rparr>) 0 0;
          (om', m5) = install_os_pts apic g ag pg om m4
      in (pg, om', load_text text m5))"

section \<open>Sequences of allocations\<close>

text \<open>The frames that \<open>os_pfn_alloc\<close> returns one after the other from a state on.\<close>

definition after :: "region \<Rightarrow> nat \<Rightarrow> kmem \<Rightarrow> kmem" where
  "after r k = (\<lambda>s. snd (os_pfn_alloc r s)) ^^ k"

definition nth_frame :: "region \<Rightarrow> kmem \<Rightarrow> nat \<Rightarrow> nat" where
  "nth_frame r s k = fst (os_pfn_alloc r (after r k s))"

primrec rooms :: "region \<Rightarrow> nat \<Rightarrow> kmem \<Rightarrow> bool" where
  "rooms r 0 s = True"
| "rooms r (Suc n) s = (room r s \<and> rooms r n (snd (os_pfn_alloc r s)))"

lemma after_0 [simp]: "after r 0 s = s" by (simp add: after_def)

lemma after_Suc: "after r (Suc k) s = snd (os_pfn_alloc r (after r k s))" by (simp add: after_def)

lemma after_Suc_shift: "after r (Suc k) s = after r k (snd (os_pfn_alloc r s))"
  by (induction k) (simp_all add: after_Suc)

lemma nth_frame_Suc: "nth_frame r s (Suc k) = nth_frame r (snd (os_pfn_alloc r s)) k"
  by (simp add: nth_frame_def after_Suc_shift)

lemma rooms_room: "rooms r n s \<Longrightarrow> k < n \<Longrightarrow> room r (after r k s)"
proof (induction n arbitrary: k s)
  case (Suc n)
  then show ?case by (cases k) (auto simp: after_Suc_shift)
qed simp

lemma nth_frame_bound: "nth_frame r s k < 2 ^ 32"
  by (simp only: nth_frame_def os_pfn_alloc_bound)

lemma rooms_fresh:
  assumes "kmem_ok s" "rooms r n s"
  shows "inj_on (nth_frame r s) {..<n} \<and> (\<forall>k<n. nth_frame r s k \<notin> used_frames r s) \<and>
    (\<forall>k<n. nth_frame r s k \<in> region_frames r s)"
  using assms
proof (induction n arbitrary: s)
  case (Suc n)
  obtain f s1 where a: "os_pfn_alloc r s = (f, s1)" by fastforce
  have fresh: "f \<notin> used_frames r s" "used_frames r s1 = insert f (used_frames r s)" "kmem_ok s1"
    using os_pfn_alloc_fresh [OF Suc.prems(1) _ a] Suc.prems(2) by auto
  have rf: "region_frames r s1 = region_frames r s" using region_frames_alloc [of r r s] a by simp
  have f: "f \<in> region_frames r s" using used_in_region [of r s1] fresh(2) rf by auto
  have z: "nth_frame r s 0 = f" by (simp add: nth_frame_def a)
  have sh: "nth_frame r s (Suc k) = nth_frame r s1 k" for k using nth_frame_Suc [of r s k] a by simp
  have IH: "inj_on (nth_frame r s1) {..<n}" "\<forall>k<n. nth_frame r s1 k \<notin> used_frames r s1"
    "\<forall>k<n. nth_frame r s1 k \<in> region_frames r s1"
    using Suc.IH [OF fresh(3)] Suc.prems(2) a by auto
  have all: "P (nth_frame r s k)" if "P f" "\<forall>k<n. P (nth_frame r s1 k)" "k < Suc n" for P k
    using that z sh by (cases k) auto
  have "inj_on (nth_frame r s) {..<Suc n}"
  proof (rule inj_onI)
    fix i j assume h: "i \<in> {..<Suc n}" "j \<in> {..<Suc n}" "nth_frame r s i = nth_frame r s j"
    show "i = j"
      using h IH(1,2) fresh(2) z sh by (cases i; cases j) (auto simp: inj_on_def)
  qed
  moreover have "\<forall>k<Suc n. nth_frame r s k \<notin> used_frames r s"
    using all [of "\<lambda>x. x \<notin> used_frames r s"] IH(2) fresh(1,2) by auto
  moreover have "\<forall>k<Suc n. nth_frame r s k \<in> region_frames r s"
    using all [of "\<lambda>x. x \<in> region_frames r s"] IH(3) rf f by auto
  ultimately show ?case by blast
qed simp

text \<open>
  After \<open>j\<close> tables and \<open>u\<close> user pages have been taken from \<open>s0\<close>, physical memory being \<open>M\<close>.
\<close>

definition tracks :: "kmem \<Rightarrow> nat \<Rightarrow> nat \<Rightarrow> (nat \<Rightarrow> nat \<Rightarrow> u64) \<Rightarrow> kmem \<Rightarrow> bool" where
  "tracks s0 j u M s \<longleftrightarrow> phys s = M \<and>
     pglists s OS_PT_REG = pglists (after OS_PT_REG j s0) OS_PT_REG \<and>
     pglists s USER_REG = pglists (after USER_REG u s0) USER_REG"

lemma alloc_same:
  assumes "pglists s r = pglists t r"
  shows "fst (os_pfn_alloc r s) = fst (os_pfn_alloc r t)"
    "pglists (snd (os_pfn_alloc r s)) r = pglists (snd (os_pfn_alloc r t)) r"
    "r' \<noteq> r \<Longrightarrow> pglists (snd (os_pfn_alloc r s)) r' = pglists s r'"
  using assms by (simp_all add: fst_os_pfn_alloc pglists_os_pfn_alloc)

lemma tracks_table:
  assumes "tracks s0 j u M s" "rooms OS_PT_REG n s0" "j < n"
  shows "\<exists>s1. os_pfn_alloc OS_PT_REG s = (nth_frame OS_PT_REG s0 j, s1) \<and>
    tracks s0 (Suc j) u (M(nth_frame OS_PT_REG s0 j := (\<lambda>_. 0))) s1"
proof -
  have p: "pglists s OS_PT_REG = pglists (after OS_PT_REG j s0) OS_PT_REG" using assms(1) by (simp add: tracks_def)
  have f: "fst (os_pfn_alloc OS_PT_REG s) = nth_frame OS_PT_REG s0 j"
    using alloc_same(1) [OF p] by (simp add: nth_frame_def)
  have "room OS_PT_REG s" using rooms_room [OF assms(2,3)] p by (simp add: room_def)
  from phys_os_pt_alloc [OF this] have "tracks s0 (Suc j) u (M(nth_frame OS_PT_REG s0 j := (\<lambda>_. 0))) (snd (os_pfn_alloc OS_PT_REG s))"
    using assms(1) alloc_same(2,3) [OF p] f by (simp add: tracks_def after_Suc)
  with f show ?thesis by (metis prod.collapse)
qed

lemma tracks_user:
  assumes "tracks s0 j u M s"
  shows "\<exists>s1. os_pfn_alloc USER_REG s = (nth_frame USER_REG s0 u, s1) \<and> tracks s0 j (Suc u) M s1"
proof -
  have p: "pglists s USER_REG = pglists (after USER_REG u s0) USER_REG" using assms(1) by (simp add: tracks_def)
  have f: "fst (os_pfn_alloc USER_REG s) = nth_frame USER_REG s0 u"
    using alloc_same(1) [OF p] by (simp add: nth_frame_def)
  have "tracks s0 j (Suc u) M (snd (os_pfn_alloc USER_REG s))"
    using assms alloc_same(2,3) [OF p] by (simp add: tracks_def after_Suc)
  with f show ?thesis by (metis prod.collapse)
qed

lemma tracks_wr: "tracks s0 j u M s \<Longrightarrow> tracks s0 j u (M(t := (M t)(i := v))) (wr s (t, i) v)"
  by (simp add: tracks_def wr_def)

lemma tracks_rd: "tracks s0 j u M s \<Longrightarrow> rd s (t, i) = M t i"
  by (simp add: tracks_def rd_def)

lemma tracks_eq: "tracks s0 j u M s \<Longrightarrow> u = u' \<Longrightarrow> (\<And>x. M x = M' x) \<Longrightarrow> tracks s0 j u' M' s"
  by (metis ext)

section \<open>Building tables\<close>

lemma mk_pte_nonzero: "flags AND 1 \<noteq> 0 \<Longrightarrow> mk_pte f flags \<noteq> 0"
  using mk_pte_and [of 1 f flags] by auto

lemma next_table_new:
  assumes "tracks s0 j u M s" "rooms OS_PT_REG n s0" "j < n" "M t i = 0" "t \<noteq> nth_frame OS_PT_REG s0 j"
  shows "\<exists>s1. next_table s (t, i) = (nth_frame OS_PT_REG s0 j, s1) \<and>
    tracks s0 (Suc j) u (M(nth_frame OS_PT_REG s0 j := (\<lambda>_. 0), t := (M t)(i := mk_pte (nth_frame OS_PT_REG s0 j) 7))) s1"
proof -
  let ?f = "nth_frame OS_PT_REG s0 j"
  obtain s1 where s1: "os_pfn_alloc OS_PT_REG s = (?f, s1)" "tracks s0 (Suc j) u (M(?f := (\<lambda>_. 0))) s1"
    using tracks_table [OF assms(1-3)] by blast
  have "next_table s (t, i) = (?f, (wr s1 (t, i) (mk_pte ?f 7))\<lparr>phys := (phys (wr s1 (t, i) (mk_pte ?f 7)))(?f := (\<lambda>_. 0))\<rparr>)"
    using s1(1) assms(1,4) by (simp add: next_table_def tracks_rd Let_def)
  moreover have "(phys (wr s1 (t, i) (mk_pte ?f 7)))(?f := (\<lambda>_. 0)) =
      M(?f := (\<lambda>_. 0), t := (M t)(i := mk_pte ?f 7))"
    using s1(2) assms(5) by (auto simp: tracks_def wr_def fun_upd_twist)
  ultimately show ?thesis using s1(2) by (auto simp: tracks_def)
qed

lemma next_table_old:
  assumes "tracks s0 j u M s" "M t i = mk_pte f 7" "f < 2 ^ 32"
  shows "next_table s (t, i) = (f, s)"
  using assms mk_pte_nonzero [of 7 f] by (simp add: next_table_def tracks_rd pte_frame_mk)

text \<open>A page in a new table below a new directory.\<close>

lemma map_page_new:
  fixes s0 defines "F \<equiv> nth_frame OS_PT_REG s0" and "U \<equiv> nth_frame USER_REG s0"
  assumes tr: "tracks s0 j u M s" and room: "rooms OS_PT_REG n s0" "Suc j < n"
    and up: "M pg (pgd_index a) = mk_pte pud 7" "pud < 2 ^ 32" "M pud (pud_index a) = 0"
    and ne: "pud \<noteq> F j" "pud \<noteq> F (Suc j)" "F j \<noteq> F (Suc j)"
  shows "\<exists>s1. map_physical_page s pg a flags 0 = (U u, s1) \<and>
    tracks s0 (Suc (Suc j)) (Suc u)
      (M(pud := (M pud)(pud_index a := mk_pte (F j) 7),
         F j := (\<lambda>_. 0)(pmd_index a := mk_pte (F (Suc j)) 7),
         F (Suc j) := (\<lambda>_. 0)(pte_index a := mk_pte (U u) (if flags AND 2 \<noteq> 0 then 7 else 5)))) s1"
proof -
  have n1: "next_table s (pg, pgd_index a) = (pud, s)" using next_table_old [OF tr up(1,2)] .
  let ?M1 = "M(F j := (\<lambda>_. 0), pud := (M pud)(pud_index a := mk_pte (F j) 7))"
  obtain s1 where s1: "next_table s (pud, pud_index a) = (F j, s1)" "tracks s0 (Suc j) u ?M1 s1"
    using next_table_new [OF tr room(1) _ up(3), folded F_def] room(2) ne(1) by auto
  let ?M2 = "?M1(F (Suc j) := (\<lambda>_. 0), F j := (?M1 (F j))(pmd_index a := mk_pte (F (Suc j)) 7))"
  obtain s2 where s2: "next_table s1 (F j, pmd_index a) = (F (Suc j), s2)" "tracks s0 (Suc (Suc j)) u ?M2 s2"
    using next_table_new [OF s1(2) room, of "F j" "pmd_index a", folded F_def] ne by auto
  obtain s3 where s3: "os_pfn_alloc USER_REG s2 = (U u, s3)" "tracks s0 (Suc (Suc j)) (Suc u) ?M2 s3"
    using tracks_user [OF s2(2), folded U_def] by blast
  let ?v = "mk_pte (U u) (if flags AND 2 \<noteq> 0 then 7 else 5)"
  have "map_physical_page s pg a flags 0 = (U u, wr s3 (F (Suc j), pte_index a) ?v)"
    by (simp add: map_physical_page_def n1 s1(1) s2(1) s3(1) mk_pte_or2 wr_wr)
  moreover have "?M2(F (Suc j) := (?M2 (F (Suc j)))(pte_index a := ?v)) =
      M(pud := (M pud)(pud_index a := mk_pte (F j) 7),
         F j := (\<lambda>_. 0)(pmd_index a := mk_pte (F (Suc j)) 7),
         F (Suc j) := (\<lambda>_. 0)(pte_index a := ?v))"
    using ne by (auto simp: fun_upd_def)
  ultimately show ?thesis using tracks_wr [OF s3(2), of "F (Suc j)" "pte_index a" ?v] by auto
qed

lemma multi_loop_tracks:
  fixes s0 defines "U \<equiv> nth_frame USER_REG s0"
  assumes "tracks s0 j u M s" "i + n \<le> 512"
  shows "tracks s0 j (u + n)
    (M(pt := (\<lambda>k. if i \<le> k \<and> k < i + n then mk_pte (U (u + (k - i))) (if w then 7 else 5) else M pt k)))
    (multi_loop pt w n i s)"
  using assms(2,3)
proof (induction n arbitrary: i u M s)
  case 0
  have "(\<lambda>k. if i \<le> k \<and> k < i + 0 then mk_pte (U (u + (k - i))) (if w then 7 else 5) else M pt k) = M pt" by (rule ext) auto
  then show ?case using 0 by simp
next
  case (Suc n)
  obtain s1 where s1: "os_pfn_alloc USER_REG s = (U u, s1)" "tracks s0 j (Suc u) M s1"
    using tracks_user [OF Suc.prems(1), folded U_def] by blast
  let ?v = "mk_pte (U u) (if w then 7 else 5)"
  have "put_pte pt i w (U u) s1 = wr s1 (pt, i) ?v" using Suc.prems(2) by (simp add: put_pte_def mk_pte_or2)
  then have "tracks s0 j (Suc u) (M(pt := (M pt)(i := ?v))) (put_pte pt i w (U u) s1)"
    using tracks_wr [OF s1(2)] by simp
  note IH = Suc.IH [OF this, of "Suc i"]
  have "Suc i + n \<le> 512" using Suc.prems(2) by simp
  from IH [OF this] have "tracks s0 j (u + Suc n)
    (M(pt := (\<lambda>k. if i \<le> k \<and> k < i + Suc n then mk_pte (U (u + (k - i))) (if w then 7 else 5) else M pt k)))
    (multi_loop pt w n (Suc i) (put_pte pt i w (U u) s1))"
    by (rule tracks_eq) (auto simp: Suc_diff_Suc intro!: ext)
  moreover have "multi_loop pt w (Suc n) i s = multi_loop pt w n (Suc i) (put_pte pt i w (U u) s1)"
    using s1(1) by simp
  ultimately show ?case by (simp only:)
qed

lemma os_pmd_fill_tracks:
  assumes "tracks s0 j u M s"
  shows "tracks s0 j u (M(pmd := (\<lambda>k. if k < n then os_entry g (seq + k) else M pmd k))) (os_pmd_fill g pmd seq n s)"
  unfolding os_pmd_fill_def
proof (induction n)
  case 0
  then show ?case using assms by simp
next
  case (Suc n)
  show ?case
  proof -
    have "fold (\<lambda>i t. wr t (pmd, i) (os_entry g (seq + i))) [0..<Suc n] s =
        wr (fold (\<lambda>i t. wr t (pmd, i) (os_entry g (seq + i))) [0..<n] s) (pmd, n) (os_entry g (seq + n))" by simp
    moreover from tracks_wr [OF Suc, of pmd n "os_entry g (seq + n)"]
    have "tracks s0 j u (M(pmd := (\<lambda>k. if k < Suc n then os_entry g (seq + k) else M pmd k)))
        (wr (fold (\<lambda>i t. wr t (pmd, i) (os_entry g (seq + i))) [0..<n] s) (pmd, n) (os_entry g (seq + n)))"
      by (rule tracks_eq) (auto simp: less_Suc_eq intro!: ext)
    ultimately show ?thesis by (simp only:)
  qed
qed

lemma entry_frame_mk:
  assumes "pfn < 2 ^ 32" "flags < 2 ^ 12"
  shows "entry_frame (mk_pte pfn flags) = pfn"
proof (rule bit_eqI)
  fix n
  show "bit (entry_frame (mk_pte pfn flags)) n = bit pfn n"
    using nat_high_clear [OF assms(1), of n] flags_high_clear [OF assms(2), of "12 + n"]
    unfolding entry_frame_def
    by (cases "n < 32") (auto simp: bit_unsigned_iff bit_drop_bit_eq bit_mk_pte)
qed

text \<open>The large pages of the kernel, \<open>OS_PT_MAPS\<close> of them in two new tables.\<close>

lemma os_pts_tracks:
  fixes s0 defines "F \<equiv> nth_frame OS_PT_REG s0"
  assumes tr: "tracks s0 j u M s" and room: "rooms OS_PT_REG n s0" "Suc j < n"
    and blank: "M pud 0 = 0" "M pud 1 = 0" and ne: "pud \<noteq> F j" "pud \<noteq> F (Suc j)" "F j \<noteq> F (Suc j)"
  shows "\<exists>s1. os_pts_loop g pud 0 0 OS_PT_MAPS om s = (F (Suc j), s1) \<and>
    tracks s0 (Suc (Suc j)) u
      (M(pud := (M pud)(0 := mk_pte (F j) 3, 1 := mk_pte (F (Suc j)) 3),
         F j := (\<lambda>k. if k < 512 then os_entry g k else 0),
         F (Suc j) := (\<lambda>k. if k < 512 then os_entry g (512 + k) else 0))) s1"
proof -
  obtain t1 where t1: "os_pfn_alloc OS_PT_REG s = (F j, t1)" "tracks s0 (Suc j) u (M(F j := (\<lambda>_. 0))) t1"
    using tracks_table [OF tr room(1), folded F_def] room(2) by auto
  let ?a = "os_pmd_fill g (F j) 0 512 (wr t1 (pud, 0) (mk_pte (F j) 3))"
  have r0: "rd s (pud, 0) = 0" using tr blank(1) by (simp add: tracks_rd)
  have l1: "os_pts_loop g pud 0 0 OS_PT_MAPS om s = os_pts_loop g pud 1 512 512 (F j) ?a"
    using r0 t1(1) by (subst os_pts_loop.simps) simp
  let ?Ma = "M(pud := (M pud)(0 := mk_pte (F j) 3), F j := (\<lambda>k. if k < 512 then os_entry g k else 0))"
  from os_pmd_fill_tracks [OF tracks_wr [OF t1(2)], where seq = 0]
  have a: "tracks s0 (Suc j) u ?Ma ?a"
    by (rule tracks_eq) (use ne in \<open>auto intro!: ext\<close>)
  obtain t2 where t2: "os_pfn_alloc OS_PT_REG ?a = (F (Suc j), t2)"
    "tracks s0 (Suc (Suc j)) u (?Ma(F (Suc j) := (\<lambda>_. 0))) t2"
    using tracks_table [OF a room, folded F_def] by blast
  let ?b = "os_pmd_fill g (F (Suc j)) 512 512 (wr t2 (pud, 1) (mk_pte (F (Suc j)) 3))"
  have r1: "rd ?a (pud, 1) = 0" using a blank(2) ne by (simp add: tracks_rd)
  have l2: "os_pts_loop g pud 1 512 512 (F j) ?a = (F (Suc j), ?b)"
    using r1 t2(1) by (subst os_pts_loop.simps) simp
  from os_pmd_fill_tracks [OF tracks_wr [OF t2(2)], where seq = 512]
  have "tracks s0 (Suc (Suc j)) u
      (M(pud := (M pud)(0 := mk_pte (F j) 3, 1 := mk_pte (F (Suc j)) 3),
         F j := (\<lambda>k. if k < 512 then os_entry g k else 0),
         F (Suc j) := (\<lambda>k. if k < 512 then os_entry g (512 + k) else 0))) ?b"
    by (rule tracks_eq) (use ne in \<open>auto intro!: ext\<close>)
  with l1 l2 show ?thesis by simp
qed

definition apic_entry :: "nat \<Rightarrow> bool \<Rightarrow> bool \<Rightarrow> u64" where
  "apic_entry apic g ag = of_nat (apic div 2 ^ 21 * 2 ^ 21) OR
     (if g \<and> ag then 0x183 OR push_bit 52 1 else if g then 0x183 else 0x83)"

lemma apic_tracks:
  fixes s0 defines "F \<equiv> nth_frame OS_PT_REG s0"
  assumes tr: "tracks s0 j u M s" and room: "rooms OS_PT_REG n s0" "j < n"
    and ad: "a = apic div 2 ^ 21 * 2 ^ 21" and up: "M pg (pgd_index a) = mk_pte pud 7" "pud < 2 ^ 32"
    and blank: "M pud (pud_index a) = 0" and ne: "pud \<noteq> F j"
  shows "tracks s0 (Suc j) u
      (M(pud := (M pud)(pud_index a := mk_pte (F j) 3), F j := (\<lambda>_. 0)(pmd_index a := apic_entry apic g ag)))
      (install_apic_mapping apic g ag pg s)"
proof -
  have t1: "apic_table s (pg, pgd_index a) = (pud, s)"
    using tr up by (simp add: apic_table_def tracks_rd entry_frame_mk mk_pte_and)
  obtain s1 where s1: "os_pfn_alloc OS_PT_REG s = (F j, s1)" "tracks s0 (Suc j) u (M(F j := (\<lambda>_. 0))) s1"
    using tracks_table [OF tr room, folded F_def] by auto
  have t2: "apic_table s (pud, pud_index a) = (F j, wr s1 (pud, pud_index a) (mk_pte (F j) 3))"
    using tr s1(1) blank by (simp add: apic_table_def tracks_rd)
  have "install_apic_mapping apic g ag pg s =
      wr (wr s1 (pud, pud_index a) (mk_pte (F j) 3)) (F j, pmd_index a) (apic_entry apic g ag)"
    unfolding install_apic_mapping_def Let_def ad [symmetric] t1 apic_entry_def by (simp add: t2)
  moreover from tracks_wr [OF tracks_wr [OF s1(2)]]
  have "tracks s0 (Suc j) u
      (M(pud := (M pud)(pud_index a := mk_pte (F j) 3), F j := (\<lambda>_. 0)(pmd_index a := apic_entry apic g ag)))
      (wr (wr s1 (pud, pud_index a) (mk_pte (F j) 3)) (F j, pmd_index a) (apic_entry apic g ag))"
    by (rule tracks_eq) (use ne in \<open>auto intro!: ext\<close>)
  ultimately show ?thesis by simp
qed

lemma multi_tracks:
  fixes s0 defines "F \<equiv> nth_frame OS_PT_REG s0" and "U \<equiv> nth_frame USER_REG s0"
  assumes tr: "tracks s0 j u M s" and room: "rooms OS_PT_REG n s0" "Suc (Suc j) < n"
    and blank: "M pg (pgd_index a) = 0" and cnt: "pte_index a + Suc c \<le> 512"
    and ne: "pg \<noteq> F j" "pg \<noteq> F (Suc j)" "pg \<noteq> F (Suc (Suc j))" "F j \<noteq> F (Suc j)" "F j \<noteq> F (Suc (Suc j))"
      "F (Suc j) \<noteq> F (Suc (Suc j))"
  shows "\<exists>s1. install_ptable_multi s pg a (Suc c) w = (U u, s1) \<and>
    tracks s0 (Suc (Suc (Suc j))) (u + Suc c)
      (M(pg := (M pg)(pgd_index a := mk_pte (F j) 7), F j := (\<lambda>_. 0)(pud_index a := mk_pte (F (Suc j)) 7),
         F (Suc j) := (\<lambda>_. 0)(pmd_index a := mk_pte (F (Suc (Suc j))) 7),
         F (Suc (Suc j)) := (\<lambda>k. if pte_index a \<le> k \<and> k < pte_index a + Suc c
            then mk_pte (U (u + (k - pte_index a))) (if w then 7 else 5) else 0))) s1"
proof -
  let ?M1 = "M(F j := (\<lambda>_. 0), pg := (M pg)(pgd_index a := mk_pte (F j) 7))"
  obtain s1 where s1: "next_table s (pg, pgd_index a) = (F j, s1)" "tracks s0 (Suc j) u ?M1 s1"
    using next_table_new [OF tr room(1) _ blank, folded F_def] room(2) ne(1) by auto
  let ?M2 = "?M1(F (Suc j) := (\<lambda>_. 0), F j := (?M1 (F j))(pud_index a := mk_pte (F (Suc j)) 7))"
  obtain s2 where s2: "next_table s1 (F j, pud_index a) = (F (Suc j), s2)" "tracks s0 (Suc (Suc j)) u ?M2 s2"
    using next_table_new [OF s1(2) room(1), of "F j" "pud_index a", folded F_def] room(2) ne by auto
  let ?M3 = "?M2(F (Suc (Suc j)) := (\<lambda>_. 0), F (Suc j) := (?M2 (F (Suc j)))(pmd_index a := mk_pte (F (Suc (Suc j))) 7))"
  obtain s3 where s3: "next_table s2 (F (Suc j), pmd_index a) = (F (Suc (Suc j)), s3)" "tracks s0 (Suc (Suc (Suc j))) u ?M3 s3"
    using next_table_new [OF s2(2) room, of "F (Suc j)" "pmd_index a", folded F_def] ne by auto
  obtain s4 where s4: "os_pfn_alloc USER_REG s3 = (U u, s4)"
    using tracks_user [OF s3(2), folded U_def] by blast
  let ?pt = "F (Suc (Suc j))"
  have run: "install_ptable_multi s pg a (Suc c) w = (U u, multi_loop ?pt w (Suc c) (pte_index a) s3)"
    by (simp add: install_ptable_multi_def s1(1) s2(1) s3(1) s4)
  from multi_loop_tracks [OF s3(2) cnt, folded U_def, of ?pt w]
  have "tracks s0 (Suc (Suc (Suc j))) (u + Suc c)
      (M(pg := (M pg)(pgd_index a := mk_pte (F j) 7), F j := (\<lambda>_. 0)(pud_index a := mk_pte (F (Suc j)) 7),
         F (Suc j) := (\<lambda>_. 0)(pmd_index a := mk_pte (F (Suc (Suc j))) 7),
         F (Suc (Suc j)) := (\<lambda>k. if pte_index a \<le> k \<and> k < pte_index a + Suc c
            then mk_pte (U (u + (k - pte_index a))) (if w then 7 else 5) else 0)))
      (multi_loop ?pt w (Suc c) (pte_index a) s3)"
    by (rule tracks_eq) (use ne in \<open>auto intro!: ext\<close>)
  with run show ?thesis by blast
qed

section \<open>The page table of the first process\<close>

text \<open>
  The contents of the eleven tables: \<open>F 0\<close> the top level, \<open>F 1\<close> the second, \<open>F 2\<close> and \<open>F 3\<close> for
  the code, \<open>F 4\<close> and \<open>F 5\<close> for the data, \<open>F 6\<close> and \<open>F 7\<close> for the stack, \<open>F 8\<close> and \<open>F 9\<close> for the
  kernel, \<open>F 10\<close> for the interrupt controller at \<open>a\<close>.  \<open>U\<close> are the pages.
\<close>

definition init_tables :: "(nat \<Rightarrow> nat) \<Rightarrow> (nat \<Rightarrow> nat) \<Rightarrow> bool \<Rightarrow> nat \<Rightarrow> u64 \<Rightarrow> (nat \<Rightarrow> nat \<Rightarrow> u64) \<Rightarrow> bool" where
  "init_tables F U g a ae M \<longleftrightarrow>
     M (F 0) = (\<lambda>_. 0)(0 := mk_pte (F 1) 7) \<and>
     M (F 1) = (\<lambda>_. 0)(4 := mk_pte (F 2) 7, 6 := mk_pte (F 4) 7, 31 := mk_pte (F 6) 7,
                       0 := mk_pte (F 8) 3, 1 := mk_pte (F 9) 3, pud_index a := mk_pte (F 10) 3) \<and>
     M (F 2) = (\<lambda>_. 0)(0 := mk_pte (F 3) 7) \<and> M (F 3) = (\<lambda>k. if k < 8 then mk_pte (U k) 5 else 0) \<and>
     M (F 4) = (\<lambda>_. 0)(0 := mk_pte (F 5) 7) \<and> M (F 5) = (\<lambda>_. 0)(0 := mk_pte (U 8) 7) \<and>
     M (F 6) = (\<lambda>_. 0)(511 := mk_pte (F 7) 7) \<and> M (F 7) = (\<lambda>_. 0)(511 := mk_pte (U 9) 7) \<and>
     M (F 8) = (\<lambda>k. if k < 512 then os_entry g k else 0) \<and>
     M (F 9) = (\<lambda>k. if k < 512 then os_entry g (512 + k) else 0) \<and>
     M (F 10) = (\<lambda>_. 0)(pmd_index a := ae)"

definition std_segments :: "(mm_seg \<Rightarrow> mm_segment) \<Rightarrow> bool" where
  "std_segments mm \<longleftrightarrow> seg_start (mm MM_SEG_CODE) = CODE_START \<and> seg_start (mm MM_SEG_DATA) = DATA_START \<and>
     seg_flags (mm MM_SEG_DATA) = 3 \<and> seg_end (mm MM_SEG_STACK) = STACK_START \<and> seg_flags (mm MM_SEG_STACK) = 3"

lemma init_indices:
  "pgd_index CODE_START = 0" "pud_index CODE_START = 4" "pmd_index CODE_START = 0" "pte_index CODE_START = 0"
  "pgd_index DATA_START = 0" "pud_index DATA_START = 6" "pmd_index DATA_START = 0" "pte_index DATA_START = 0"
  "pgd_index 0x7FFFFF000 = 0" "pud_index 0x7FFFFF000 = 31" "pmd_index 0x7FFFFF000 = 511" "pte_index 0x7FFFFF000 = 511"
  "sub64 STACK_START 4096 = 0x7FFFFF000"
  by (simp_all add: index_eqs sub64_def)

lemma apic_indices:
  assumes "2 ^ 31 \<le> apic" "apic < 2 ^ 32"
  defines "a \<equiv> apic div 2 ^ 21 * 2 ^ 21"
  shows "pgd_index a = 0" "pud_index a \<in> {2, 3}"
proof -
  have a: "2 ^ 31 \<le> a" "a < 2 ^ 32" using assms(1,2) unfolding a_def by (auto simp: power_numeral)
  then have "a div 2 ^ 39 = 0" "2 \<le> a div 2 ^ 30" "a div 2 ^ 30 < 4" by simp_all
  then show "pgd_index a = 0" "pud_index a \<in> {2, 3}" by (auto simp: index_eqs)
qed

lemma init_memory_tables:
  fixes s0 defines "F \<equiv> nth_frame OS_PT_REG s0" and "U \<equiv> nth_frame USER_REG s0"
  assumes ok: "kmem_ok s0" "rooms OS_PT_REG 11 s0" and mm: "std_segments mm"
    and ap: "2 ^ 31 \<le> apic" "apic < 2 ^ 32"
  shows "\<exists>M m. init_memory apic g ag mm om s0 = (F 0, F 9, load_text (U 0) m) \<and> tracks s0 11 10 M m \<and>
    init_tables F U g (apic div 2 ^ 21 * 2 ^ 21) (apic_entry apic g ag) M \<and>
    (\<forall>x. x \<notin> F ` {..<11} \<longrightarrow> M x = phys s0 x)"
proof -
  have inj: "F i = F j \<longleftrightarrow> i = j" if "i < 11" "j < 11" for i j
    using rooms_fresh [OF ok] that by (auto simp: F_def inj_on_def)
  have b: "F k < 2 ^ 32" for k unfolding F_def by (rule nth_frame_bound)
  let ?M0 = "(phys s0)(F 0 := (\<lambda>_. 0))"
  have t0: "tracks s0 0 0 (phys s0) s0" by (simp add: tracks_def)
  obtain m1 where m1: "os_pfn_alloc OS_PT_REG s0 = (F 0, m1)" "tracks s0 1 0 ?M0 m1"
    using tracks_table [OF t0 ok(2), folded F_def] by auto
  have z: "tracks s0 1 0 ?M0 (zero_frame (F 0) m1)" using m1(2) by (simp add: tracks_def zero_frame_def)
  let ?M1 = "(phys s0)(F 0 := (\<lambda>_. 0)(0 := mk_pte (F 1) 7), F 1 := (\<lambda>_. 0)(4 := mk_pte (F 2) 7),
     F 2 := (\<lambda>_. 0)(0 := mk_pte (F 3) 7), F 3 := (\<lambda>k. if k < 8 then mk_pte (U k) 5 else 0))"
  have "\<exists>m2. install_ptable_multi (zero_frame (F 0) m1) (F 0) CODE_START 8 False = (U 0, m2) \<and> tracks s0 4 8 ?M1 m2"
    using multi_tracks [OF z ok(2), where a = CODE_START and c = 7 and pg = "F 0" and w = False, folded F_def U_def]
    by (simp add: inj init_indices numeral_2_eq_2 [symmetric] cong: if_cong)
  then obtain m2 where m2: "install_ptable_multi (zero_frame (F 0) m1) (F 0) CODE_START 8 False = (U 0, m2)" "tracks s0 4 8 ?M1 m2"
    by blast
  let ?M2 = "?M1(F 1 := (\<lambda>_. 0)(4 := mk_pte (F 2) 7, 6 := mk_pte (F 4) 7),
     F 4 := (\<lambda>_. 0)(0 := mk_pte (F 5) 7), F 5 := (\<lambda>_. 0)(0 := mk_pte (U 8) 7))"
  have "\<exists>m3. map_physical_page m2 (F 0) DATA_START 3 0 = (U 8, m3) \<and> tracks s0 6 9 ?M2 m3"
    using map_page_new [OF m2(2) ok(2), where a = DATA_START and pg = "F 0" and pud = "F 1" and flags = 3, folded F_def U_def]
      b [of 1] by (simp add: inj init_indices)
  then obtain m3 where m3: "map_physical_page m2 (F 0) DATA_START 3 0 = (U 8, m3)" "tracks s0 6 9 ?M2 m3" by blast
  let ?M3 = "?M2(F 1 := (\<lambda>_. 0)(4 := mk_pte (F 2) 7, 6 := mk_pte (F 4) 7, 31 := mk_pte (F 6) 7),
     F 6 := (\<lambda>_. 0)(511 := mk_pte (F 7) 7), F 7 := (\<lambda>_. 0)(511 := mk_pte (U 9) 7))"
  have "\<exists>m4. map_physical_page m3 (F 0) 0x7FFFFF000 3 0 = (U 9, m4) \<and> tracks s0 8 10 ?M3 m4"
    using map_page_new [OF m3(2) ok(2), where a = "0x7FFFFF000" and pg = "F 0" and pud = "F 1" and flags = 3, folded F_def U_def]
      b [of 1] by (simp add: inj init_indices)
  then obtain m4 where m4: "map_physical_page m3 (F 0) 0x7FFFFF000 3 0 = (U 9, m4)" "tracks s0 8 10 ?M3 m4" by blast
  let ?a = "apic div 2 ^ 21 * 2 ^ 21"
  let ?M4 = "?M3(F 1 := (\<lambda>_. 0)(4 := mk_pte (F 2) 7, 6 := mk_pte (F 4) 7, 31 := mk_pte (F 6) 7, 0 := mk_pte (F 8) 3, 1 := mk_pte (F 9) 3),
     F 8 := (\<lambda>k. if k < 512 then os_entry g k else 0), F 9 := (\<lambda>k. if k < 512 then os_entry g (512 + k) else 0))"
  have "\<exists>m5. os_pts_loop g (F 1) 0 0 OS_PT_MAPS om m4 = (F 9, m5) \<and> tracks s0 10 10 ?M4 m5"
    using os_pts_tracks [OF m4(2) ok(2), where pud = "F 1", folded F_def] by (simp add: inj)
  then obtain m5 where m5: "os_pts_loop g (F 1) 0 0 OS_PT_MAPS om m4 = (F 9, m5)" "tracks s0 10 10 ?M4 m5" by blast
  let ?M5 = "?M4(F 1 := (\<lambda>_. 0)(4 := mk_pte (F 2) 7, 6 := mk_pte (F 4) 7, 31 := mk_pte (F 6) 7, 0 := mk_pte (F 8) 3,
       1 := mk_pte (F 9) 3, pud_index ?a := mk_pte (F 10) 3), F 10 := (\<lambda>_. 0)(pmd_index ?a := apic_entry apic g ag))"
  have m6: "tracks s0 11 10 ?M5 (install_apic_mapping apic g ag (F 0) m5)"
  proof -
    have "?M4 (F 1) (pud_index ?a) = 0" using apic_indices(2) [OF ap] by (auto simp: inj)
    then show ?thesis
      using apic_tracks [OF m5(2) ok(2) _ refl, where pg = "F 0" and pud = "F 1" and apic = apic and g = g and ag = ag, folded F_def]
        apic_indices(1) [OF ap] b [of 1] by (simp add: inj)
  qed
  have "rd m4 (F 0, 0) = mk_pte (F 1) 7" using m4(2) by (simp add: tracks_rd inj)
  then have os: "install_os_pts apic g ag (F 0) om m4 = (F 9, install_apic_mapping apic g ag (F 0) m5)"
    using m5(1) b [of 1] mk_pte_nonzero [of 7 "F 1"] by (simp add: install_os_pts_def pte_frame_mk)
  have "init_memory apic g ag mm om s0 = (F 0, F 9, load_text (U 0) (install_apic_mapping apic g ag (F 0) m5))"
    using mm m1(1) m2(1) m3(1) m4(1) os
    by (simp add: init_memory_def std_segments_def install_ptable_def init_indices)
  moreover have "init_tables F U g ?a (apic_entry apic g ag) ?M5" unfolding init_tables_def by (intro conjI) (simp_all add: inj)
  moreover have "?M5 x = phys s0 x" if "x \<notin> F ` {..<11}" for x
  proof -
    have "x \<noteq> F i" if "i < 11" for i using that \<open>x \<notin> F ` {..<11}\<close> by auto
    then show ?thesis by simp
  qed
  ultimately show ?thesis using m6 by blast
qed

section \<open>What the tables translate\<close>

text \<open>
  The pages of the first process: eight read-only pages of code, one page of data and
  one page of stack, by number and flags.
\<close>

definition user_page :: "nat \<Rightarrow> (nat \<times> u64) option" where
  "user_page a =
     (if CODE_START \<le> a \<and> a < CODE_START + CODE_PAGES * 4096 then Some ((a - CODE_START) div 4096, 5)
      else if DATA_START \<le> a \<and> a < DATA_START + 4096 then Some (8, 7)
      else if STACK_START - 4096 \<le> a \<and> a < STACK_START then Some (9, 7)
      else None)"

text \<open>The entry of the third level, which for the kernel maps a page of 2 MB.\<close>

definition big_entry :: "kmem \<Rightarrow> nat \<Rightarrow> nat \<Rightarrow> u64" where
  "big_entry m pg a =
     rd m (pte_frame (rd m (pte_frame (rd m (pg, pgd_index a)), pud_index a)), pmd_index a)"

lemma page_number:
  assumes "a < 2 ^ 48"
  shows "a div 4096 = ((pgd_index a * 512 + pud_index a) * 512 + pmd_index a) * 512 + pte_index a"
    "pgd_index a < 512" "pud_index a < 512" "pmd_index a < 512" "pte_index a < 512"
proof -
  have d: "a div 2 ^ 21 = a div 4096 div 512" "a div 2 ^ 30 = a div 4096 div 512 div 512"
    "a div 2 ^ 39 = a div 4096 div 512 div 512 div 512" by (simp_all flip: div_mult2_eq)
  have "a div 2 ^ 39 < 512" using assms by simp
  then show "a div 4096 = ((pgd_index a * 512 + pud_index a) * 512 + pmd_index a) * 512 + pte_index a"
    unfolding index_eqs d by simp
qed (simp_all add: index_eqs)

lemma user_page_index:
  assumes "a < 2 ^ 48"
  shows "user_page a =
    (if pgd_index a \<noteq> 0 then None
     else if pud_index a = 4 then (if pmd_index a = 0 \<and> pte_index a < 8 then Some (pte_index a, 5) else None)
     else if pud_index a = 6 then (if pmd_index a = 0 \<and> pte_index a = 0 then Some (8, 7) else None)
     else if pud_index a = 31 then (if pmd_index a = 511 \<and> pte_index a = 511 then Some (9, 7) else None)
     else None)"
proof -
  define q where "q = a div 4096"
  have u: "user_page a = (if 0x100000 \<le> q \<and> q < 0x100008 then Some (q - 0x100000, 5)
      else if q = 0x180000 then Some (8, 7) else if q = 0x7FFFFF then Some (9, 7) else None)"
    by (auto simp: user_page_def q_def)
  note pn = page_number [OF assms, folded q_def]
  show ?thesis unfolding u using pn by auto
qed

text \<open>The tables as a memory holds them: entries above and their translations.\<close>

lemma init_tables_user:
  assumes tab: "init_tables F U g ap ae M" and ph: "\<And>k. k < 11 \<Longrightarrow> phys m (F k) = M (F k)"
    and b: "\<And>k. F k < 2 ^ 32" and ap: "pud_index ap \<in> {2, 3}" and a: "a < 2 ^ 48"
  shows "map_option (rd m) (get_pte m (F 0) a) = map_option (\<lambda>(k, fl). mk_pte (U k) fl) (user_page a)"
proof -
  have r: "rd m (F k, i) = M (F k) i" if "k < 11" for k i using ph [OF that] by (simp add: rd_def)
  note T = tab [unfolded init_tables_def]
  have w0: "walk m (F 0, i) = (if i = 0 then Some (F 1) else None)" for i
    using T r [of 0] b [of 1] by (simp add: walk_def mk_pte_and pte_pfn_mk)
  have w1: "walk m (F 1, i) = (if i = 4 then Some (F 2) else if i = 6 then Some (F 4) else if i = 31 then Some (F 6) else None)" for i
    using T r [of 1] b [of 2] b [of 4] b [of 6] ap by (auto simp: walk_def mk_pte_and pte_pfn_mk)
  have w2: "walk m (F 2, i) = (if i = 0 then Some (F 3) else None)"
    "walk m (F 4, i) = (if i = 0 then Some (F 5) else None)"
    "walk m (F 6, i) = (if i = 511 then Some (F 7) else None)" for i
    using T r [of 2] r [of 4] r [of 6] b [of 3] b [of 5] b [of 7] by (simp_all add: walk_def mk_pte_and pte_pfn_mk)
  have r3: "rd m (F 3, i) = (if i < 8 then mk_pte (U i) 5 else 0)" "rd m (F 5, i) = (if i = 0 then mk_pte (U 8) 7 else 0)"
    "rd m (F 7, i) = (if i = 511 then mk_pte (U 9) 7 else 0)" for i
    using T r [of 3] r [of 5] r [of 7] by simp_all
  show ?thesis
  proof (cases "pgd_index a = 0")
    case True
    consider "pud_index a = 4" | "pud_index a = 6" | "pud_index a = 31" | "pud_index a \<notin> {4, 6, 31}" by auto
    then show ?thesis
      by cases (simp_all add: user_page_index [OF a] get_pte_def walk_pmd_eq_walk w0 w1 [simplified] w2 r3 mk_pte_and True)
  qed (simp add: user_page_index [OF a] get_pte_def w0)
qed

lemma init_tables_kernel:
  assumes tab: "init_tables F U g ap ae M" and ph: "\<And>k. k < 11 \<Longrightarrow> phys m (F k) = M (F k)"
    and b: "\<And>k. F k < 2 ^ 32" and ap: "pud_index ap \<in> {2, 3}"
  shows "a < 2 ^ 31 \<Longrightarrow> big_entry m (F 0) a = os_entry g (a div 2 ^ 21)"
    and "pgd_index ap = 0 \<Longrightarrow> big_entry m (F 0) ap = ae"
proof -
  have r: "rd m (F k, i) = M (F k) i" if "k < 11" for k i using ph [OF that] by (simp add: rd_def)
  note T = tab [unfolded init_tables_def]
  show "big_entry m (F 0) a = os_entry g (a div 2 ^ 21)" if a: "a < 2 ^ 31"
  proof -
    have i: "pgd_index a = 0" "pud_index a = a div 2 ^ 30" "a div 2 ^ 30 < 2" using a by (simp_all add: index_eqs)
    have q: "a div 2 ^ 30 = a div 2 ^ 21 div 512" by (simp flip: div_mult2_eq)
    define n where "n = a div 2 ^ 21"
    have n: "n < 1024" using a by (simp add: n_def)
    have "n < 512 \<longrightarrow> n div 512 = 0 \<and> n mod 512 = n" "512 \<le> n \<longrightarrow> n div 512 = 1 \<and> 512 + n mod 512 = n"
      using n by (auto simp: div_nat_eqI le_mod_geq)
    then have p: "pud_index a = 0 \<and> pmd_index a = a div 2 ^ 21 \<and> a div 2 ^ 21 < 512 \<or>
        pud_index a = 1 \<and> 512 + pmd_index a = a div 2 ^ 21 \<and> pmd_index a < 512"
      unfolding i(2) q index_eqs(3) n_def [symmetric] by (cases "n < 512") auto
    then show ?thesis
      using T r [of 0] r [of 1] r [of 8] r [of 9] b [of 1] b [of 8] b [of 9] ap i(1)
      by (auto simp: big_entry_def pte_frame_mk)
  qed
  show "big_entry m (F 0) ap = ae" if "pgd_index ap = 0"
    using T r [of 0] r [of 1] r [of 10] b [of 1] b [of 10] that by (simp add: big_entry_def pte_frame_mk)
qed

text \<open>The copy of the program's image, when source and destination do not overlap.\<close>

lemma load_text_phys:
  assumes "0x208 \<le> p"
  shows "phys (load_text p m) x = (if p \<le> x \<and> x < p + 8 then phys m (0x200 + (x - p)) else phys m x)"
proof -
  have "phys (fold (\<lambda>i. copy_frame (p + i) (0x200 + i)) [0..<n] m) x =
      (if p \<le> x \<and> x < p + n then phys m (0x200 + (x - p)) else phys m x)" if "n \<le> 8" for n x
    using that
  proof (induction n arbitrary: x)
    case (Suc n)
    then have "phys (fold (\<lambda>i. copy_frame (p + i) (0x200 + i)) [0..<n] m) (0x200 + n) = phys m (0x200 + n)"
      using assms by simp
    with Suc assms show ?case by (auto simp: copy_frame_def less_Suc_eq)
  qed auto
  then show ?thesis by (simp add: load_text_def)
qed

lemma load_text_table:
  assumes "regions_apart s" "\<And>k. k < 8 \<Longrightarrow> U k \<in> region_frames USER_REG s" "\<And>k. k < 8 \<Longrightarrow> U k = U 0 + k"
    and "0x208 \<le> first_pfn USER_REG s" "x \<in> region_frames OS_PT_REG s"
  shows "phys (load_text (U 0) m) x = phys m x"
proof -
  have U0: "0x208 \<le> U 0" using assms(2) [of 0] assms(4) by (auto simp: region_frames_def)
  have "x \<noteq> U 0 + j" if "j < 8" for j
    using assms(1,5) assms(2,3) [OF that] unfolding regions_apart_def by (metis disjoint_iff)
  then have "\<not> (U 0 \<le> x \<and> x < U 0 + 8)" by (metis le_Suc_ex nat_add_left_cancel_less)
  then show ?thesis using load_text_phys [OF U0, of m x] by auto
qed

text \<open>
  Memory as it is when the first process is launched: eleven tables and ten pages can
  be allocated, the pages of the code come out one after the other, and the image of
  the program lies below all regions.
\<close>

definition launch_ready :: "kmem \<Rightarrow> bool" where
  "launch_ready s \<longleftrightarrow> kmem_ok s \<and> regions_apart s \<and> rooms OS_PT_REG 11 s \<and> rooms USER_REG 10 s \<and>
     (\<forall>k<8. nth_frame USER_REG s k = nth_frame USER_REG s 0 + k) \<and>
     0x208 \<le> first_pfn OS_PT_REG s \<and> 0x208 \<le> first_pfn USER_REG s"

lemma init_memory_correct:
  fixes s0 defines "U \<equiv> nth_frame USER_REG s0"
  assumes ready: "launch_ready s0" and mm: "std_segments mm" and ap: "2 ^ 31 \<le> apic" "apic < 2 ^ 32"
  shows "\<exists>pg om' m. init_memory apic g ag mm om s0 = (pg, om', m) \<and>
    (\<forall>a<2 ^ 48. map_option (rd m) (get_pte m pg a) = map_option (\<lambda>(k, fl). mk_pte (U k) fl) (user_page a)) \<and>
    (\<forall>a<2 ^ 31. big_entry m pg a = os_entry g (a div 2 ^ 21)) \<and>
    big_entry m pg (apic div 2 ^ 21 * 2 ^ 21) = apic_entry apic g ag \<and>
    (\<forall>k<8. phys m (U k) = phys s0 (0x200 + k))"
proof -
  let ?F = "nth_frame OS_PT_REG s0" and ?a = "apic div 2 ^ 21 * 2 ^ 21"
  have rd: "kmem_ok s0" "regions_apart s0" "rooms OS_PT_REG 11 s0" "rooms USER_REG 10 s0"
    "\<forall>k<8. U k = U 0 + k" "0x208 \<le> first_pfn OS_PT_REG s0" "0x208 \<le> first_pfn USER_REG s0"
    using ready unfolding launch_ready_def U_def by blast+
  obtain M m5 where i: "init_memory apic g ag mm om s0 = (?F 0, ?F 9, load_text (U 0) m5)" "tracks s0 11 10 M m5"
    "init_tables ?F U g ?a (apic_entry apic g ag) M" "\<forall>x. x \<notin> ?F ` {..<11} \<longrightarrow> M x = phys s0 x"
    using init_memory_tables [OF rd(1,3) mm ap] unfolding U_def by blast
  let ?m = "load_text (U 0) m5"
  have F: "?F k \<in> region_frames OS_PT_REG s0" if "k < 11" for k using rooms_fresh [OF rd(1,3)] that by blast
  have Ur: "U k \<in> region_frames USER_REG s0" if "k < 10" for k using rooms_fresh [OF rd(1,4)] that by (simp add: U_def)
  have U0: "0x208 \<le> U 0" using Ur [of 0] rd(7) by (auto simp: region_frames_def)
  have M5: "phys m5 = M" using i(2) by (simp add: tracks_def)
  have u: "U k \<in> region_frames USER_REG s0" if "k < 8" for k using Ur [of k] that by simp
  have u0: "U k = U 0 + k" if "k < 8" for k using rd(5) that by blast
  have ph: "phys ?m (?F k) = M (?F k)" if "k < 11" for k
    using load_text_table [OF rd(2) u u0 rd(7) F [OF that]] M5 by simp
  note au = apic_indices [OF ap]
  have "phys ?m (U k) = phys s0 (0x200 + k)" if "k < 8" for k
  proof -
    have "0x200 + k \<notin> ?F ` {..<11}" using F rd(6) that by (fastforce simp: region_frames_def)
    moreover have "U k = U 0 + k" using rd(5) that by blast
    ultimately show ?thesis using load_text_phys [OF U0, of m5 "U 0 + k"] M5 i(4) that by simp
  qed
  moreover have "\<forall>a<2 ^ 48. map_option (rd ?m) (get_pte ?m (?F 0) a) = map_option (\<lambda>(k, fl). mk_pte (U k) fl) (user_page a)"
    using init_tables_user [OF i(3) ph nth_frame_bound au(2)] by blast
  moreover have "\<forall>a<2 ^ 31. big_entry ?m (?F 0) a = os_entry g (a div 2 ^ 21)"
    using init_tables_kernel(1) [OF i(3) ph nth_frame_bound au(2)] by blast
  moreover have "big_entry ?m (?F 0) ?a = apic_entry apic g ag"
    using init_tables_kernel(2) [OF i(3) ph nth_frame_bound au(2,1)] .
  ultimately show ?thesis using i(1) by blast
qed

section \<open>A region that has only been allocated from\<close>

text \<open>
  Exactly the first \<open>c\<close> pages are in use, in the part of the bitmap that the allocator
  scans.  Then the pages come out one after the other.
\<close>

definition scanned :: "page_list \<Rightarrow> nat" where
  "scanned pgl = 32 * (pl_size pgl div 256)"

definition dense :: "nat \<Rightarrow> page_list \<Rightarrow> bool" where
  "dense c pgl \<longleftrightarrow> (\<forall>i < scanned pgl. bm_bit (bitmap pgl) i = (i < c)) \<and> 32 * last_free_pos pgl \<le> c \<and>
     start_address pgl < 2 ^ 40 \<and> c \<le> scanned pgl \<and> pl_size pgl < 2 ^ 20"

lemma dense_index:
  assumes d: "dense c pgl" and c: "c < scanned pgl"
  shows "scan_word pgl = c div 32" "page_index pgl = c" "has_room pgl"
proof -
  let ?n = "pl_size pgl div 256" and ?w = "c div 32" and ?l = "last_free_pos pgl"
  let ?p = "skip_full (bitmap pgl) ?n ?l"
  have w: "?w < ?n" "?l \<le> ?w" using d c by (auto simp: dense_def scanned_def less_mult_imp_div_less)
  have bits: "bit (bitmap pgl v) b = (v * 32 + b < c)" if "v < ?n" "b < 32" for v b
  proof -
    have "v * 32 + b < scanned pgl" using that by (simp add: scanned_def)
    then show ?thesis using d that by (auto simp: dense_def bm_bit_def)
  qed
  have split: "c = ?w * 32 + c mod 32" by simp
  have clear: "\<not> bit (bitmap pgl ?w) (c mod 32)" using bits [OF w(1), of "c mod 32"] by simp
  have nf: "bitmap pgl ?w \<noteq> 0xffffffff"
  proof
    assume "bitmap pgl ?w = 0xffffffff"
    then have "bit (bitmap pgl ?w) (c mod 32)" unfolding full_word_iff by simp
    with clear show False by simp
  qed
  have full: "bitmap pgl v = 0xffffffff" if "v < ?w" for v
    unfolding full_word_iff using bits [of v] that w(1) by auto
  have "?p \<le> ?w" by (rule skip_full_le) (use w nf in auto)
  moreover have "\<not> ?p < ?w" using full [of ?p] skip_full_stop [of "bitmap pgl" ?n ?l] w(1) by auto
  ultimately have p: "?p = ?w" by simp
  then show sw: "scan_word pgl = ?w" using w(1) by (simp add: scan_word_def Let_def)
  have "first_clear (bitmap pgl ?w) 0 = c mod 32"
  proof -
    have f: "first_clear (bitmap pgl ?w) 0 < 32" "\<not> bit (bitmap pgl ?w) (first_clear (bitmap pgl ?w) 0)"
      "first_clear (bitmap pgl ?w) 0 \<le> c mod 32" using first_clear_found [OF _ clear, of 0] by auto
    then have "\<not> ?w * 32 + first_clear (bitmap pgl ?w) 0 < c" using bits [OF w(1) f(1)] by simp
    with f(3) split show ?thesis by linarith
  qed
  then show "page_index pgl = c" by (simp add: page_index_def sw)
  show "has_room pgl" unfolding has_room_def using w nf by auto
qed

lemma dense_alloc:
  assumes d: "dense c pgl" and c: "c < scanned pgl"
  shows "fst (get_free_page pgl) = start_address pgl div 4096 + c" "dense (Suc c) (snd (get_free_page pgl))"
proof -
  note i = dense_index [OF d c]
  have "start_address pgl div 4096 < 2 ^ 28" using d by (intro less_mult_imp_div_less) (simp add: dense_def)
  moreover have "c < 2 ^ 20" using d c by (auto simp: dense_def scanned_def)
  ultimately show "fst (get_free_page pgl) = start_address pgl div 4096 + c" by (simp add: get_free_page_eq i(2))
  have s: "scanned (snd (get_free_page pgl)) = scanned pgl" by (simp add: get_free_page_eq scanned_def)
  show "dense (Suc c) (snd (get_free_page pgl))"
    using d c unfolding dense_def s by (auto simp: get_free_page_eq i bm_bit_set less_Suc_eq)
qed

lemma after_other: "r' \<noteq> r \<Longrightarrow> pglists (after r k s) r' = pglists s r'"
  by (induction k) (simp_all add: after_Suc pglists_os_pfn_alloc)

lemma dense_after:
  assumes "dense c (pglists s r)" "c + k \<le> scanned (pglists s r)" "k \<le> free_pages (pglists s r)"
  shows "dense (c + k) (pglists (after r k s) r) \<and> free_pages (pglists (after r k s) r) = free_pages (pglists s r) - k \<and>
    pl_size (pglists (after r k s) r) = pl_size (pglists s r) \<and>
    start_address (pglists (after r k s) r) = start_address (pglists s r)"
  using assms(2,3)
proof (induction k)
  case (Suc k)
  let ?l = "pglists (after r k s) r"
  have IH: "dense (c + k) ?l" "free_pages ?l = free_pages (pglists s r) - k" "pl_size ?l = pl_size (pglists s r)"
    "start_address ?l = start_address (pglists s r)" using Suc by simp_all
  have "c + k < scanned ?l" using Suc.prems(1) IH(3) by (simp add: scanned_def)
  from dense_alloc(2) [OF IH(1) this] show ?case
    using IH Suc.prems by (simp add: after_Suc pglists_os_pfn_alloc get_free_page_eq)
qed (use assms(1) in simp)

lemma dense_frames:
  assumes "dense c (pglists s r)" "c + n \<le> scanned (pglists s r)" "n \<le> free_pages (pglists s r)"
  shows "rooms r n s \<and> (\<forall>k<n. nth_frame r s k = first_pfn r s + c + k)"
  using assms
proof (induction n arbitrary: c s)
  case (Suc n)
  let ?s = "snd (os_pfn_alloc r s)"
  have c: "c < scanned (pglists s r)" using Suc.prems(2) by simp
  note d = dense_alloc [OF Suc.prems(1) c] dense_index(3) [OF Suc.prems(1) c]
  have p: "pglists ?s r = snd (get_free_page (pglists s r))" using Suc.prems(3) by (simp add: pglists_os_pfn_alloc)
  have "rooms r n ?s \<and> (\<forall>k<n. nth_frame r ?s k = first_pfn r ?s + Suc c + k)"
    using d Suc.prems p by (intro Suc.IH) (simp_all add: get_free_page_eq scanned_def)
  moreover have "first_pfn r ?s = first_pfn r s" using p by (simp add: get_free_page_eq)
  moreover have "nth_frame r s 0 = first_pfn r s + c" using d Suc.prems by (simp add: nth_frame_def fst_os_pfn_alloc)
  moreover have "room r s" using d Suc.prems by (simp add: room_def)
  ultimately show ?case by (auto simp: less_Suc_eq_0_disj nth_frame_Suc)
qed simp

text \<open>Allocations keep the invariant and change no frame outside their region.\<close>

lemma rooms_after:
  assumes "kmem_ok s" "rooms r n s"
  shows "kmem_ok (after r n s) \<and> (\<forall>x. x \<notin> region_frames r s \<longrightarrow> phys (after r n s) x = phys s x)"
  using assms
proof (induction n arbitrary: s)
  case (Suc n)
  obtain f s1 where a: "os_pfn_alloc r s = (f, s1)" by fastforce
  have f: "kmem_ok s1" "f \<in> used_frames r s1" using os_pfn_alloc_fresh [OF Suc.prems(1) _ a] Suc.prems(2) by auto
  have rf: "region_frames r s1 = region_frames r s" using region_frames_alloc [of r r s] a by simp
  have "f \<in> region_frames r s" using used_in_region [of r s1] f(2) rf by auto
  then have "phys s1 x = phys s x" if "x \<notin> region_frames r s" for x
    using a that by (cases r) (auto simp: os_pfn_alloc_def Let_def set_pfn_info_def split: prod.splits if_splits)
  then show ?case using Suc.IH [OF f(1)] Suc.prems(2) a rf by (simp add: after_Suc_shift)
qed simp

lemma boot_lists:
  "init_pagelists (\<lambda>_ _. 0) OS_DS_REG = \<lparr>pl_size = 0x1800, free_pages = 0x17FF, last_free_pos = 0,
     start_address = 0x800000, bitmap = bmap_set_upto (\<lambda>_. 0) 1\<rparr>"
  "init_pagelists (\<lambda>_ _. 0) OS_PT_REG = \<lparr>pl_size = 0x4400, free_pages = 0x43FF, last_free_pos = 0,
     start_address = 0x2000000, bitmap = bmap_set_upto (\<lambda>_. 0) 1\<rparr>"
  "init_pagelists (\<lambda>_ _. 0) USER_REG = \<lparr>pl_size = 0x19C00, free_pages = 0x19BFC, last_free_pos = 0,
     start_address = 0x6400000, bitmap = bmap_set_upto (\<lambda>_. 0) 4\<rparr>"
  by (simp_all add: init_pagelists_def init_pagelist_def)

lemma bm_bit_zero: "\<not> bm_bit (\<lambda>_. 0) i" by (simp add: bm_bit_def)

lemma boot_dense:
  "dense 1 (init_pagelists (\<lambda>_ _. 0) OS_DS_REG)" "dense 1 (init_pagelists (\<lambda>_ _. 0) OS_PT_REG)"
  "dense 4 (init_pagelists (\<lambda>_ _. 0) USER_REG)"
  unfolding boot_lists dense_def scanned_def by (simp_all add: bm_bit_set_upto bm_bit_zero del: bmap_set_upto.simps One_nat_def)

end
