(* ===== verification/VFork.thy ===== *)
theory VFork
  imports BootTable
begin

text \<open>
  The memory that \<open>vfork_copy_mm\<close> of src/Assignment3/Ass3/src/cfork.c leaves behind.  The child
  of a \<open>vfork\<close> runs on the page tables of its parent, so every page of the copied stack is
  entered into the tree of tables that is being read.  The first part shows that a walk that
  allocates missing tables changes no other translation of the same tree, the second follows
  one page (\<open>move_page\<close>), the third the loop over the stack.
\<close>

section \<open>The tree of page tables\<close>

text \<open>The entry and the frame that the tables of \<open>base\<close> hold for an address.\<close>

definition entry_at :: "kmem \<Rightarrow> nat \<Rightarrow> nat \<Rightarrow> u64 option" where
  "entry_at s base a = map_option (rd s) (get_pte s base a)"

definition frame_at :: "kmem \<Rightarrow> nat \<Rightarrow> nat \<Rightarrow> nat option" where
  "frame_at s base a = map_option pte_frame (entry_at s base a)"

text \<open>
  Every table is reached over one list of indices only and is a used frame of the region of
  page tables.
\<close>

definition tree_ok :: "kmem \<Rightarrow> nat \<Rightarrow> bool" where
  "tree_ok s base \<longleftrightarrow>
     (\<forall>is js q. length is \<le> 3 \<and> length js \<le> 3 \<and> resolve s base is = Some q \<and> resolve s base js = Some q
        \<longrightarrow> is = js) \<and>
     (\<forall>is q. length is \<le> 3 \<and> resolve s base is = Some q \<longrightarrow> q \<in> used_frames OS_PT_REG s)"

text \<open>The upper entries for an address are empty or lead to a table that user code may pass.\<close>

definition clean_path :: "kmem \<Rightarrow> nat \<Rightarrow> nat \<Rightarrow> bool" where
  "clean_path s base a \<longleftrightarrow>
     (\<forall>ks j rs u. levels a = ks @ j # rs \<and> resolve s base ks = Some u
        \<longrightarrow> rd s (u, j) = 0 \<or> walk s (u, j) = Some (pte_frame (rd s (u, j))))"

definition tree :: "kmem \<Rightarrow> nat \<Rightarrow> nat set \<Rightarrow> bool" where
  "tree s base A \<longleftrightarrow> kmem_ok s \<and> regions_apart s \<and> tree_ok s base \<and> (\<forall>a\<in>A. clean_path s base a)"

lemma length_levels [simp]: "length (levels a) = 3"
  by (simp add: levels_def)

lemma resolve_snoc:
  "resolve s t (is @ [i]) = (case resolve s t is of None \<Rightarrow> None | Some q \<Rightarrow> walk s (q, i))"
  by (induction "is" arbitrary: t) (auto split: option.splits)

lemma tree_ok_unique:
  "tree_ok s base \<Longrightarrow> resolve s base is = Some q \<Longrightarrow> resolve s base js = Some q \<Longrightarrow>
   length is \<le> 3 \<Longrightarrow> length js \<le> 3 \<Longrightarrow> is = js"
  unfolding tree_ok_def by blast

lemma tree_ok_used:
  "tree_ok s base \<Longrightarrow> resolve s base is = Some q \<Longrightarrow> length is \<le> 3 \<Longrightarrow> q \<in> used_frames OS_PT_REG s"
  unfolding tree_ok_def by blast

lemma entry_at_eq:
  "entry_at s base a =
     (case resolve s base (levels a) of
        None \<Rightarrow> None
      | Some pt \<Rightarrow> (let e = rd s (pt, pte_index a) in if e AND 1 = 0 \<or> e AND 4 = 0 then None else Some e))"
  by (simp add: entry_at_def get_pte_resolve Let_def split: option.split)

text \<open>An entry that is linked to a new empty table: only this one path becomes longer.\<close>

lemma resolve_link:
  assumes t: "tree_ok s base" "resolve s base is = Some t" "length is < 3" "rd s (t, i) = 0"
    and q: "q \<notin> used_frames OS_PT_REG s" "q < 2 ^ 32"
    and s': "phys s' = (phys s)(q := (\<lambda>_. 0), t := (phys s t)(i := mk_pte q 7))"
    and js: "length js \<le> 3"
  shows "resolve s' base js = (if js = is @ [i] then Some q else resolve s base js)"
  using js
proof (induction js rule: rev_induct)
  case (snoc j ks)
  have tq: "t \<noteq> q" using tree_ok_used [OF t(1,2)] t(3) q(1) by auto
  have w0: "walk s (t, i) = None" using t(4) by (simp add: walk_def)
  have wi: "walk s' (t, i) = Some q"
    using q(2) by (simp add: walk_def rd_def s' mk_pte_and pte_pfn_mk)
  have IH: "resolve s' base ks = (if ks = is @ [i] then Some q else resolve s base ks)"
    using snoc by simp
  show ?case
  proof (cases "ks = is @ [i]")
    case True
    have "walk s' (q, j) = None" using tq by (simp add: walk_def rd_def s')
    moreover have "resolve s' base ks = Some q" using IH True by simp
    moreover have "resolve s base ks = None" unfolding True using w0 t(2) by (simp only: resolve_snoc) simp
    moreover have "ks @ [j] \<noteq> is @ [i]" using True by simp
    ultimately show ?thesis by (simp only: resolve_snoc) simp
  next
    case False
    show ?thesis
    proof (cases "resolve s base ks")
      case None
      with False IH t(2) show ?thesis by (auto simp: resolve_snoc)
    next
      case (Some u)
      have uq: "u \<noteq> q" using tree_ok_used [OF t(1) Some] snoc.prems q(1) by auto
      have eq: "u = t \<longleftrightarrow> ks = is"
        using tree_ok_unique [OF t(1) Some, of "is"] t(2,3) Some snoc.prems by auto
      have "walk s' (u, j) = walk s (u, j)" if "(u, j) \<noteq> (t, i)"
        using that uq by (auto simp: walk_def rd_def s')
      with False IH Some eq wi show ?thesis by (auto simp: resolve_snoc)
    qed
  qed
next
  case Nil
  then show ?case by simp
qed

lemma tree_link:
  assumes t: "tree s base A" "resolve s base is = Some t" "length is < 3" "rd s (t, i) = 0"
    and q: "q \<notin> used_frames OS_PT_REG s" "q < 2 ^ 32" "used_frames OS_PT_REG s' = insert q (used_frames OS_PT_REG s)"
    and s': "phys s' = (phys s)(q := (\<lambda>_. 0), t := (phys s t)(i := mk_pte q 7))"
    and ok: "kmem_ok s'" "regions_apart s'"
  shows "tree s' base A \<and> (\<forall>b. entry_at s' base b = entry_at s base b)"
proof -
  have T: "tree_ok s base" "\<forall>a\<in>A. clean_path s base a" using t(1) by (simp_all add: tree_def)
  have r: "resolve s' base js = (if js = is @ [i] then Some q else resolve s base js)" if "length js \<le> 3" for js
    by (rule resolve_link [OF T(1) t(2,3,4) q(1,2) s' that])
  have tq: "t \<noteq> q" using tree_ok_used [OF T(1) t(2)] t(3) q(1) by auto
  have none: "resolve s base (is @ [i]) = None" using t(2,4) by (simp add: resolve_snoc walk_def)
  have rds: "rd s' (u, j) = rd s (u, j)" if "resolve s base ks = Some u" "length ks \<le> 3" "ks \<noteq> is \<or> j \<noteq> i" for u j ks
  proof -
    have "u \<noteq> q" using tree_ok_used [OF T(1) that(1,2)] q(1) by auto
    moreover have "u = t \<Longrightarrow> ks = is" using tree_ok_unique [OF T(1) that(1), of "is"] t(2,3) that(2) by auto
    ultimately show ?thesis using that(3) by (auto simp: rd_def s')
  qed
  have rq: "rd s' (q, j) = 0" for j using tq by (simp add: rd_def s')
  have used: "u \<in> used_frames OS_PT_REG s" if "resolve s base ks = Some u" "length ks \<le> 3" for ks u
    using tree_ok_used [OF T(1) that] .
  have "tree_ok s' base"
    unfolding tree_ok_def
  proof (intro conjI allI impI; elim conjE)
    fix js ks u assume h: "length js \<le> 3" "length ks \<le> 3" "resolve s' base js = Some u" "resolve s' base ks = Some u"
    then show "js = ks"
      using r [of js] r [of ks] used [of js u] used [of ks u] q(1) tree_ok_unique [OF T(1), of js u ks]
      by (auto split: if_splits)
  next
    fix js u assume "length js \<le> 3" "resolve s' base js = Some u"
    then show "u \<in> used_frames OS_PT_REG s'" using r [of js] used [of js u] q(3) by (auto split: if_splits)
  qed
  moreover have "clean_path s' base a" if "a \<in> A" for a
    unfolding clean_path_def
  proof (intro allI impI; elim conjE)
    fix ks j rs u assume h: "levels a = ks @ j # rs" "resolve s' base ks = Some u"
    have l: "length ks < 3" using arg_cong [OF h(1), of length] by simp
    show "rd s' (u, j) = 0 \<or> walk s' (u, j) = Some (pte_frame (rd s' (u, j)))"
    proof (cases "ks = is @ [i]")
      case True
      with h(2) r [of ks] l rq show ?thesis by simp
    next
      case False
      then have u: "resolve s base ks = Some u" using h(2) r [of ks] l by simp
      show ?thesis
      proof (cases "ks = is \<and> j = i")
        case True
        then have "(u, j) = (t, i)" using u t(2) by simp
        then show ?thesis using q(2) by (simp add: walk_def rd_def s' mk_pte_and pte_pfn_mk pte_frame_mk)
      next
        case False
        then have "rd s' (u, j) = rd s (u, j)" using rds [OF u] l by auto
        moreover have "clean_path s base a" using T(2) that by blast
        then have "rd s (u, j) = 0 \<or> walk s (u, j) = Some (pte_frame (rd s (u, j)))"
          using h(1) u unfolding clean_path_def by blast
        ultimately show ?thesis by (simp add: walk_def)
      qed
    qed
  qed
  moreover have "entry_at s' base b = entry_at s base b" for b
  proof (cases "levels b = is @ [i]")
    case True
    then have "resolve s' base (levels b) = Some q" "resolve s base (levels b) = None"
      using r [of "levels b"] none t(3) by simp_all
    then show ?thesis using rq by (simp add: entry_at_eq)
  next
    case False
    have "levels b \<noteq> is" using arg_cong [of "levels b" "is" length] t(3) by auto
    then show ?thesis using r [of "levels b"] False rds [of "levels b"]
      by (auto simp: entry_at_eq split: option.split)
  qed
  ultimately show ?thesis using ok by (simp add: tree_def)
qed

text \<open>Changes outside of the tables.\<close>

lemma tree_keep:
  assumes "tree s base A" "kmem_ok s'" "regions_apart s'"
    and u: "used_frames OS_PT_REG s' = used_frames OS_PT_REG s"
    and ph: "\<And>x. x \<in> used_frames OS_PT_REG s \<Longrightarrow> phys s' x = phys s x"
  shows "tree s' base A \<and> (\<forall>b. get_pte s' base b = get_pte s base b \<and> entry_at s' base b = entry_at s base b) \<and>
    (\<forall>js. length js \<le> 3 \<longrightarrow> resolve s' base js = resolve s base js)"
proof -
  have T: "tree_ok s base" "\<forall>a\<in>A. clean_path s base a" using assms(1) by (simp_all add: tree_def)
  have rds: "rd s' (u, j) = rd s (u, j)" if "resolve s base ks = Some u" "length ks \<le> 3" for u j ks
    using ph tree_ok_used [OF T(1) that] by (simp add: rd_def)
  have r: "resolve s' base js = resolve s base js" if "length js \<le> 3" for js
    using that
  proof (induction js rule: rev_induct)
    case (snoc j ks)
    then show ?case using rds [of ks] by (auto simp: resolve_snoc walk_def split: option.split)
  qed simp
  have "tree_ok s' base" using T(1) unfolding tree_ok_def u by (auto simp: r)
  moreover have "clean_path s' base a" if "a \<in> A" for a
    unfolding clean_path_def
  proof (intro allI impI; elim conjE)
    fix ks j rs u assume h: "levels a = ks @ j # rs" "resolve s' base ks = Some u"
    have l: "length ks \<le> 3" using arg_cong [OF h(1), of length] by simp
    then have u: "resolve s base ks = Some u" using h(2) r by simp
    have "clean_path s base a" using T(2) that by blast
    then have "rd s (u, j) = 0 \<or> walk s (u, j) = Some (pte_frame (rd s (u, j)))"
      using h(1) u unfolding clean_path_def by blast
    then show "rd s' (u, j) = 0 \<or> walk s' (u, j) = Some (pte_frame (rd s' (u, j)))"
      using rds [OF u l] by (simp add: walk_def)
  qed
  moreover have "entry_at s' base b = entry_at s base b" "get_pte s' base b = get_pte s base b" for b
    using r [of "levels b"] rds [of "levels b"] by (auto simp: entry_at_eq get_pte_resolve split: option.split)
  ultimately show ?thesis using assms(2,3) r by (simp add: tree_def)
qed

text \<open>A write into the lowest table changes one entry.\<close>

lemma tree_leaf:
  assumes "tree s base A" "resolve s base (levels a) = Some pt" "v AND 1 \<noteq> 0" "v AND 4 \<noteq> 0"
  shows "tree (wr s (pt, pte_index a) v) base A \<and>
    (\<forall>b. entry_at (wr s (pt, pte_index a) v) base b =
       (if levels b = levels a \<and> pte_index b = pte_index a then Some v else entry_at s base b))"
proof -
  let ?s = "wr s (pt, pte_index a) v"
  have T: "tree_ok s base" "\<forall>a\<in>A. clean_path s base a" "kmem_ok s" "regions_apart s"
    using assms(1) by (simp_all add: tree_def)
  have u: "used_frames r ?s = used_frames r s" for r by (rule used_frames_cong) simp
  have rds: "rd ?s (u, j) = rd s (u, j)" if "resolve s base ks = Some u" "length ks < 3" for u j ks
  proof -
    have "u \<noteq> pt" using tree_ok_unique [OF T(1) that(1), of "levels a"] assms(2) that(2) by auto
    then show ?thesis by (simp add: rd_wr)
  qed
  have r: "resolve ?s base js = resolve s base js" if "length js \<le> 3" for js
    using that
  proof (induction js rule: rev_induct)
    case (snoc j ks)
    then show ?case using rds [of ks] by (auto simp: resolve_snoc walk_def split: option.split)
  qed simp
  have "tree_ok ?s base" using T(1) unfolding tree_ok_def u by (auto simp: r)
  moreover have "clean_path ?s base c" if "c \<in> A" for c
    unfolding clean_path_def
  proof (intro allI impI; elim conjE)
    fix ks j rs u assume h: "levels c = ks @ j # rs" "resolve ?s base ks = Some u"
    have l: "length ks < 3" using arg_cong [OF h(1), of length] by simp
    then have u: "resolve s base ks = Some u" using h(2) r by simp
    have "clean_path s base c" using T(2) that by blast
    then have "rd s (u, j) = 0 \<or> walk s (u, j) = Some (pte_frame (rd s (u, j)))"
      using h(1) u unfolding clean_path_def by blast
    then show "rd ?s (u, j) = 0 \<or> walk ?s (u, j) = Some (pte_frame (rd ?s (u, j)))"
      using rds [OF u l] by (simp add: walk_def)
  qed
  moreover have "entry_at ?s base b =
      (if levels b = levels a \<and> pte_index b = pte_index a then Some v else entry_at s base b)" for b
  proof -
    have rb: "resolve ?s base (levels b) = resolve s base (levels b)" by (rule r) simp
    show ?thesis
    proof (cases "resolve s base (levels b) = Some pt")
      case True
      then have "levels b = levels a" using tree_ok_unique [OF T(1) _ assms(2)] by simp
      then show ?thesis using assms(3,4) rb True by (simp add: entry_at_eq rd_wr)
    next
      case False
      then have "levels b \<noteq> levels a" using assms(2) by metis
      then show ?thesis using rb False by (auto simp: entry_at_eq rd_wr split: option.split)
    qed
  qed
  moreover have "regions_apart ?s" "kmem_ok ?s"
    using T(3,4) kmem_ok_cong [of ?s s] by (simp_all add: regions_apart_def)
  ultimately show ?thesis by (simp add: tree_def)
qed

section \<open>A walk that allocates\<close>

lemma rooms_cong: "pglists s r = pglists s' r \<Longrightarrow> rooms r n s = rooms r n s'"
proof (induction n arbitrary: s s')
  case (Suc n)
  have "rooms r n (snd (os_pfn_alloc r s)) = rooms r n (snd (os_pfn_alloc r s'))"
    by (rule Suc.IH) (rule alloc_same(2) [OF Suc.prems])
  with Suc.prems show ?case by (simp add: room_def)
qed simp

lemma rooms_mono: "rooms r (m + n) s \<Longrightarrow> rooms r m s"
  by (induction m arbitrary: s) auto

text \<open>What the allocation of page tables does not touch: everything in the region of user pages.\<close>

definition same_user :: "kmem \<Rightarrow> kmem \<Rightarrow> bool" where
  "same_user s s' \<longleftrightarrow> pglists s' USER_REG = pglists s USER_REG \<and>
     (\<forall>x \<in> region_frames USER_REG s. phys s' x = phys s x)"

lemma same_user_refl: "same_user s s"
  by (simp add: same_user_def)

lemma same_user_trans: "same_user s s1 \<Longrightarrow> same_user s1 s2 \<Longrightarrow> same_user s s2"
  by (simp add: same_user_def region_frames_def)

text \<open>All tables that existed are still found at their places.\<close>

definition grows :: "nat \<Rightarrow> kmem \<Rightarrow> kmem \<Rightarrow> bool" where
  "grows base s s' \<longleftrightarrow>
     (\<forall>js u. length js \<le> 3 \<longrightarrow> resolve s base js = Some u \<longrightarrow> resolve s' base js = Some u)"

lemma grows_refl: "grows base s s"
  by (simp add: grows_def)

lemma grows_trans: "grows base s s1 \<Longrightarrow> grows base s1 s2 \<Longrightarrow> grows base s s2"
  by (simp add: grows_def)

lemma grows_entry:
  assumes "grows base s s'" "get_pte s base a = Some p" "entry_at s' base a = entry_at s base a"
  shows "get_pte s' base a = Some p \<and> rd s' p = rd s p"
proof -
  obtain pt where pt: "resolve s base (levels a) = Some pt" "p = (pt, pte_index a)"
    using assms(2) by (auto simp: get_pte_resolve split: option.splits if_splits)
  then have "resolve s' base (levels a) = Some pt" using assms(1) by (simp add: grows_def)
  then show ?thesis using pt assms(2,3)
    by (auto simp: entry_at_def get_pte_resolve Let_def split: if_splits)
qed

lemma next_table_tree:
  assumes t: "tree s base A" "resolve s base is = Some t" "levels a = is @ i # rs" "a \<in> A"
    and room: "rooms OS_PT_REG (Suc n) s" and step: "next_table s (t, i) = (q, s1)"
  shows "tree s1 base A \<and> resolve s1 base (is @ [i]) = Some q \<and> rooms OS_PT_REG n s1 \<and> same_user s s1 \<and>
    grows base s s1 \<and> region_frames r' s1 = region_frames r' s \<and>
    (\<forall>b. entry_at s1 base b = entry_at s base b)"
proof -
  have len: "length is < 3" using arg_cong [OF t(3), of length] by simp
  have T: "tree_ok s base" "clean_path s base a" "kmem_ok s" "regions_apart s" using t(1,4) by (simp_all add: tree_def)
  show ?thesis
  proof (cases "rd s (t, i) = 0")
    case False
    have s: "s1 = s" "q = pte_frame (rd s (t, i))" using step False by (auto simp: next_table_def)
    have "walk s (t, i) = Some (pte_frame (rd s (t, i)))"
      using T(2) t(2,3) False unfolding clean_path_def by blast
    then have "resolve s base (is @ [i]) = Some q" by (simp add: resolve_snoc t(2) s)
    moreover have "rooms OS_PT_REG n s" using rooms_mono [of OS_PT_REG n 1 s] room by simp
    ultimately show ?thesis using t(1) by (simp add: s same_user_refl grows_refl)
  next
    case True
    obtain s2 where a: "os_pfn_alloc OS_PT_REG s = (q, s2)"
      and s1: "s1 = (wr s2 (t, i) (mk_pte q 7))\<lparr>phys := (phys (wr s2 (t, i) (mk_pte q 7)))(q := (\<lambda>_. 0))\<rparr>"
      using step True by (auto simp: next_table_def Let_def split: prod.splits)
    have r: "room OS_PT_REG s" using room by simp
    have fr: "q \<notin> used_frames OS_PT_REG s" "used_frames OS_PT_REG s2 = insert q (used_frames OS_PT_REG s)" "kmem_ok s2"
      using os_pfn_alloc_fresh [OF T(3) r a] by auto
    have p1: "pglists s1 = pglists s2" by (simp add: s1)
    have tu: "t \<in> used_frames OS_PT_REG s" using tree_ok_used [OF T(1) t(2)] len by simp
    then have ne: "t \<noteq> q" using fr(1) by auto
    have ph: "phys s1 = (phys s)(q := (\<lambda>_. 0), t := (phys s t)(i := mk_pte q 7))"
      using phys_os_pt_alloc [OF r] a ne by (simp add: s1 wr_def fun_upd_twist)
    have u1: "used_frames OS_PT_REG s1 = insert q (used_frames OS_PT_REG s)"
      using fr(2) used_frames_cong [OF p1] by simp
    have q32: "q < 2 ^ 32" using os_pfn_alloc_bound [of OS_PT_REG s] a by simp
    have rf: "region_frames r' s1 = region_frames r' s" for r'
      using region_frames_next_table [of r' s "(t, i)"] step by simp
    have ok: "kmem_ok s1" "regions_apart s1"
      using fr(3) kmem_ok_cong [OF p1] T(4) rf by (simp_all add: regions_apart_def)
    note l = tree_link [OF t(1,2) len True fr(1) q32 u1 ph ok]
    have "resolve s1 base (is @ [i]) = Some q"
      using resolve_link [OF T(1) t(2) len True fr(1) q32 ph, of "is @ [i]"] len by simp
    moreover have "rooms OS_PT_REG n s1"
      using room a rooms_cong [of s1 OS_PT_REG s2] p1 by simp
    moreover have "same_user s s1"
    proof -
      have "q \<in> region_frames OS_PT_REG s" "t \<in> region_frames OS_PT_REG s"
        using u1 tu used_in_region [of OS_PT_REG s1] used_in_region [of OS_PT_REG s] rf by auto
      then have "\<forall>x \<in> region_frames USER_REG s. phys s1 x = phys s x"
        using T(4) by (auto simp: regions_apart_def ph)
      moreover have "pglists s1 USER_REG = pglists s USER_REG"
        using pglists_os_pfn_alloc [of OS_PT_REG s] a p1 by simp
      ultimately show ?thesis by (simp add: same_user_def)
    qed
    moreover have "grows base s s1"
      using resolve_link [OF T(1) t(2) len True fr(1) q32 ph] t(2) True
      by (auto simp: grows_def resolve_snoc walk_def)
    ultimately show ?thesis using l rf by simp
  qed
qed

lemma tables_alloc_tree:
  assumes "tree s base A" "resolve s base is = Some t" "levels a = is @ rs" "a \<in> A"
    "rooms OS_PT_REG (length rs + n) s" "tables_alloc s t rs = (q, s1)"
  shows "tree s1 base A \<and> resolve s1 base (levels a) = Some q \<and> rooms OS_PT_REG n s1 \<and> same_user s s1 \<and>
    grows base s s1 \<and> region_frames r' s1 = region_frames r' s \<and>
    (\<forall>b. entry_at s1 base b = entry_at s base b)"
  using assms
proof (induction rs arbitrary: s t "is")
  case Nil
  then show ?case by (simp add: same_user_refl grows_refl)
next
  case (Cons i rs)
  obtain q2 s2 where n: "next_table s (t, i) = (q2, s2)" by fastforce
  have rm: "rooms OS_PT_REG (Suc (length rs + n)) s" using Cons.prems(5) by simp
  note st = next_table_tree [OF Cons.prems(1-4) rm n]
  have "tables_alloc s2 q2 rs = (q, s1)" using Cons.prems(6) n by simp
  with Cons.IH [of s2 "is @ [i]" q2] st Cons.prems(3,4) same_user_trans [of s s2 s1] grows_trans [of base s s2 s1] show ?case by simp
qed

text \<open>Two addresses below \<open>2 ^ 48\<close> have the same entry exactly if they lie in the same page.\<close>

lemma same_slot_iff:
  assumes "a < 2 ^ 48" "b < 2 ^ 48"
  shows "levels a = levels b \<and> pte_index a = pte_index b \<longleftrightarrow> a div 4096 = b div 4096"
proof -
  define p q where "p = a div 4096" and "q = b div 4096"
  have up: "x div 2 ^ 39 = x div 4096 div 512 div 512 div 512" "x div 2 ^ 30 = x div 4096 div 512 div 512"
    "x div 2 ^ 21 = x div 4096 div 512" "x div 2 ^ 12 = x div 4096" for x :: nat
    by (simp_all flip: div_mult2_eq)
  have small: "p div 512 div 512 div 512 < 512" "q div 512 div 512 div 512 < 512"
    using assms by (simp_all add: p_def q_def div_less_iff_less_mult flip: div_mult2_eq)
  have eq: "x = y" if "x mod 512 = y mod 512" "x div 512 = y div 512" for x y :: nat
    using that by (metis div_mult_mod_eq)
  have "levels a = levels b \<and> pte_index a = pte_index b \<longleftrightarrow>
      p div 512 div 512 div 512 = q div 512 div 512 div 512 \<and>
      p div 512 div 512 mod 512 = q div 512 div 512 mod 512 \<and>
      p div 512 mod 512 = q div 512 mod 512 \<and> p mod 512 = q mod 512"
    using small unfolding levels_def index_eqs up p_def [symmetric] q_def [symmetric] by auto
  also have "\<dots> \<longleftrightarrow> p = q" using eq [of "p div 512 div 512" "q div 512 div 512"]
    eq [of "p div 512" "q div 512"] eq [of p q] by blast
  finally show ?thesis by (simp add: p_def q_def)
qed

section \<open>One page of the stack\<close>

definition page_flags :: "u32 \<Rightarrow> u64" where
  "page_flags access = (if access AND 2 \<noteq> 0 then 7 else 5)"

lemma page_flags_small [simp]: "page_flags access < 2 ^ 12"
  by (simp add: page_flags_def)

lemma page_entry [simp]:
  "mk_pte f (page_flags access) AND 1 \<noteq> 0" "mk_pte f (page_flags access) AND 4 \<noteq> 0"
  by (simp_all add: page_flags_def mk_pte_and)

lemma pte_frame_page: "f < 2 ^ 32 \<Longrightarrow> pte_frame (mk_pte f (page_flags access)) = f"
  by (rule pte_frame_mk [OF _ page_flags_small])

lemma map_page_tree:
  assumes t: "tree s base A" "a \<in> A"
    and room: "rooms OS_PT_REG (3 + n) s" "rooms USER_REG (Suc m) s"
    and step: "map_physical_page s base a access 0 = (g, s')"
  shows "tree s' base A" "rooms OS_PT_REG n s'" "rooms USER_REG m s'" "grows base s s'"
    "g \<notin> used_frames USER_REG s" "used_frames USER_REG s' = insert g (used_frames USER_REG s)" "g < 2 ^ 32"
    "region_frames r s' = region_frames r s"
    "\<forall>x \<in> region_frames USER_REG s. phys s' x = phys s x"
    "\<forall>b. entry_at s' base b = (if levels b = levels a \<and> pte_index b = pte_index a
           then Some (mk_pte g (page_flags access)) else entry_at s base b)"
proof -
  obtain pt s3 where ta: "tables_alloc s base (levels a) = (pt, s3)" by fastforce
  obtain s4 where al: "os_pfn_alloc USER_REG s3 = (g, s4)" and
    s': "s' = wr s4 (pt, pte_index a) (mk_pte g (page_flags access))"
    using step ta by (auto simp: map_physical_page_tables page_flags_def Let_def mk_pte_or2 wr_wr split: prod.splits if_splits)
  have "tree s3 base A \<and> resolve s3 base (levels a) = Some pt \<and> rooms OS_PT_REG n s3 \<and> same_user s s3 \<and>
      grows base s s3 \<and> region_frames r' s3 = region_frames r' s \<and> (\<forall>b. entry_at s3 base b = entry_at s base b)" for r'
    using tables_alloc_tree [OF t(1) _ _ t(2) _ ta, of "[]" n r'] room(1) by simp
  then have k: "tree s3 base A" "resolve s3 base (levels a) = Some pt" "rooms OS_PT_REG n s3" "same_user s s3"
    "grows base s s3" "\<And>r'. region_frames r' s3 = region_frames r' s" "\<And>b. entry_at s3 base b = entry_at s base b"
    by blast+
  have T3: "kmem_ok s3" "regions_apart s3" "tree_ok s3 base" using k(1) by (simp_all add: tree_def)
  have pu: "pglists s3 USER_REG = pglists s USER_REG" using k(4) by (simp add: same_user_def)
  have r3: "room USER_REG s3" "rooms USER_REG (Suc m) s3" using room(2) rooms_cong [OF pu, of "Suc m"] by simp_all
  have u3: "used_frames USER_REG s3 = used_frames USER_REG s" using pu by (simp add: used_frames_def)
  note fr = os_pfn_alloc_fresh [OF T3(1) r3(1) al]
  have rf4: "region_frames r' s4 = region_frames r' s" for r'
    using region_frames_alloc [of r' USER_REG s3] al k(6) [of r'] by simp
  have ph4: "phys s4 = phys s3" using os_pfn_alloc_sel(3) [of s3] al by simp
  have "tree s4 base A \<and> (\<forall>b. get_pte s4 base b = get_pte s3 base b \<and> entry_at s4 base b = entry_at s3 base b) \<and>
      (\<forall>js. length js \<le> 3 \<longrightarrow> resolve s4 base js = resolve s3 base js)"
    by (rule tree_keep [OF k(1)]) (use fr T3(2) rf4 k(6) ph4 in \<open>simp_all add: regions_apart_def\<close>)
  then have k4: "tree s4 base A" "\<And>b. entry_at s4 base b = entry_at s base b" "resolve s4 base (levels a) = Some pt"
    "grows base s s4" using k(2,5,7) by (auto simp: grows_def)
  note l = tree_leaf [OF k4(1,3) page_entry [of g access], folded s']
  show "tree s' base A" using l by blast
  show "\<forall>b. entry_at s' base b = (if levels b = levels a \<and> pte_index b = pte_index a
           then Some (mk_pte g (page_flags access)) else entry_at s base b)" using l k4(2) by simp
  have "tree_ok s4 base" using k4(1) by (simp add: tree_def)
  then have "resolve s' base js = resolve s4 base js" if "length js \<le> 3" for js
    using that
  proof (induction js rule: rev_induct)
    case (snoc j ks)
    have "walk s' (u, j) = walk s4 (u, j)" if "resolve s4 base ks = Some u" for u
      using tree_ok_unique [OF snoc.prems(1) that, of "levels a"] k4(3) snoc.prems(2) s'
      by (auto simp: walk_def rd_wr)
    with snoc show ?case by (auto simp: resolve_snoc split: option.split)
  qed simp
  then show "grows base s s'" using k4(4) by (simp add: grows_def)
  have p': "pglists s' = pglists s4" by (simp add: s')
  have "pglists s4 OS_PT_REG = pglists s3 OS_PT_REG" using pglists_os_pfn_alloc [of USER_REG s3] al by simp
  then show "rooms OS_PT_REG n s'" using k(3) rooms_cong [of s' OS_PT_REG s3] p' by simp
  show "rooms USER_REG m s'" using r3(2) al rooms_cong [of s' USER_REG s4] p' by simp
  show "g \<notin> used_frames USER_REG s" "used_frames USER_REG s' = insert g (used_frames USER_REG s)"
    using fr u3 used_frames_cong [OF p'] by simp_all
  show "g < 2 ^ 32" using os_pfn_alloc_bound [of USER_REG s3] al by simp
  show "region_frames r s' = region_frames r s" using rf4 [of r] by (simp add: s')
  have "pt \<in> region_frames OS_PT_REG s"
    using tree_ok_used [OF T3(3) k(2)] used_in_region [of OS_PT_REG s3] k(6) by auto
  then have "pt \<notin> region_frames USER_REG s" using t(1) by (auto simp: tree_def regions_apart_def)
  then show "\<forall>x \<in> region_frames USER_REG s. phys s' x = phys s x"
    using k(4) ph4 by (auto simp: s' wr_def same_user_def)
qed

text \<open>
  The pages in \<open>A\<close> are used frames of their own, and there is room for \<open>n\<close> more pages.
\<close>

definition stack_ok :: "nat \<Rightarrow> kmem \<Rightarrow> nat \<Rightarrow> nat set \<Rightarrow> bool" where
  "stack_ok n s base A \<longleftrightarrow> tree s base A \<and>
     (\<forall>a\<in>A. \<forall>f. frame_at s base a = Some f \<longrightarrow> f \<in> used_frames USER_REG s) \<and>
     inj_on (frame_at s base) {a \<in> A. frame_at s base a \<noteq> None} \<and>
     rooms OS_PT_REG (3 * n) s \<and> rooms USER_REG n s"

text \<open>
  The page at \<open>v\<close>, if there is one, is as before, and the page at \<open>w\<close> is another frame with
  the same content: the frame that was mapped there, or else one that was free, mapped with
  the rights of the segment.
\<close>

definition moved :: "mm_segment \<Rightarrow> nat \<Rightarrow> kmem \<Rightarrow> kmem \<Rightarrow> nat \<Rightarrow> nat \<Rightarrow> bool" where
  "moved seg base s s' v w \<longleftrightarrow>
     (\<forall>f. frame_at s base v = Some f \<longrightarrow>
        entry_at s' base v = entry_at s base v \<and> phys s' f = phys s f \<and>
        (\<exists>g. frame_at s' base w = Some g \<and> g \<noteq> f \<and> phys s' g = phys s f \<and>
             (if frame_at s base w = None
              then g \<notin> used_frames USER_REG s \<and> entry_at s' base w = Some (mk_pte g (page_flags (seg_flags seg)))
              else entry_at s' base w = entry_at s base w)))"

text \<open>Everything else: the entries outside of the pages in \<open>W\<close> and the used frames that are not mapped there.\<close>

definition kept :: "nat \<Rightarrow> kmem \<Rightarrow> kmem \<Rightarrow> nat set \<Rightarrow> bool" where
  "kept base s s' W \<longleftrightarrow>
     (\<forall>b < 2 ^ 48. (\<forall>w\<in>W. b div 4096 \<noteq> w div 4096) \<longrightarrow> entry_at s' base b = entry_at s base b) \<and>
     (\<forall>x \<in> used_frames USER_REG s. (\<forall>w\<in>W. frame_at s base w \<noteq> Some x) \<longrightarrow> phys s' x = phys s x)"

definition aligned :: "nat set \<Rightarrow> bool" where
  "aligned A \<longleftrightarrow> (\<forall>a\<in>A. a mod 4096 = 0 \<and> a < 2 ^ 48)"

lemma aligned_slot:
  "aligned A \<Longrightarrow> a \<in> A \<Longrightarrow> b \<in> A \<Longrightarrow> levels a = levels b \<and> pte_index a = pte_index b \<longleftrightarrow> a = b"
  using same_slot_iff [of a b] by (auto simp: aligned_def) (metis div_mult_mod_eq)

lemma frame_at_cong: "entry_at s' base a = entry_at s base a \<Longrightarrow> frame_at s' base a = frame_at s base a"
  by (simp add: frame_at_def)

lemma stack_ok_less: "stack_ok (Suc n) s base A \<Longrightarrow> stack_ok n s base A"
  using rooms_mono [of OS_PT_REG "3 * n" 3 s] rooms_mono [of USER_REG n 1 s]
  by (simp add: stack_ok_def add.commute)

text \<open>A change of the content of a page that is already mapped.\<close>

lemma set_frame_ok:
  assumes ok: "stack_ok n s base A" and g: "g \<in> used_frames USER_REG s" and s': "s' = s\<lparr>phys := (phys s)(g := c)\<rparr>"
  shows "stack_ok n s' base A \<and> (\<forall>b. entry_at s' base b = entry_at s base b)"
proof -
  have T: "tree s base A" using ok by (simp add: stack_ok_def)
  have pg: "pglists s' = pglists s" by (simp add: s')
  have "g \<notin> used_frames OS_PT_REG s"
    using g T used_in_region [of USER_REG s] used_in_region [of OS_PT_REG s] by (auto simp: tree_def regions_apart_def)
  then have "x \<in> used_frames OS_PT_REG s \<Longrightarrow> phys s' x = phys s x" for x by (auto simp: s')
  moreover have "kmem_ok s'" "regions_apart s'"
    using T kmem_ok_cong [OF pg] by (simp_all add: tree_def regions_apart_def region_frames_def pg)
  ultimately have k: "tree s' base A" "\<forall>b. entry_at s' base b = entry_at s base b"
    using tree_keep [OF T, of s'] used_frames_cong [OF pg] by auto
  then have "frame_at s' base = frame_at s base" by (simp add: frame_at_def fun_eq_iff)
  with k ok show ?thesis
    using used_frames_cong [OF pg] rooms_cong [of s' _ s] pg by (simp add: stack_ok_def)
qed

text \<open>The mapping of a page that was not there.\<close>

lemma map_page_ok:
  assumes ok: "stack_ok (Suc n) s base A" "aligned A" "w \<in> A" "frame_at s base w = None"
    and step: "map_physical_page s base w access 0 = (g, s')"
  shows "stack_ok n s' base A \<and> g \<notin> used_frames USER_REG s \<and> g < 2 ^ 32 \<and>
    used_frames USER_REG s' = insert g (used_frames USER_REG s) \<and>
    (\<forall>x \<in> used_frames USER_REG s. phys s' x = phys s x) \<and> grows base s s' \<and>
    entry_at s' base w = Some (mk_pte g (page_flags access)) \<and>
    (\<forall>b < 2 ^ 48. b div 4096 \<noteq> w div 4096 \<longrightarrow> entry_at s' base b = entry_at s base b)"
proof -
  have T: "tree s base A" "rooms OS_PT_REG (3 + 3 * n) s" "rooms USER_REG (Suc n) s"
    using ok(1) by (simp_all add: stack_ok_def del: rooms.simps)
  note m = map_page_tree [OF T(1) ok(3) T(2,3) step]
  have e: "entry_at s' base a = (if a = w then Some (mk_pte g (page_flags access)) else entry_at s base a)"
    if "a \<in> A" for a
    using m(10) aligned_slot [OF ok(2) that ok(3)] by simp
  then have fr: "frame_at s' base a = (if a = w then Some g else frame_at s base a)" if "a \<in> A" for a
    using that m(7) by (simp add: frame_at_def pte_frame_page)
  have U: "frame_at s base a = Some f \<Longrightarrow> f \<in> used_frames USER_REG s" if "a \<in> A" for a f
    using ok(1) that by (simp add: stack_ok_def)
  have I: "frame_at s base a \<noteq> None \<Longrightarrow> frame_at s base a = frame_at s base b \<Longrightarrow> a = b"
    if "a \<in> A" "b \<in> A" for a b using ok(1) that unfolding stack_ok_def inj_on_def by auto
  have "stack_ok n s' base A"
    unfolding stack_ok_def
  proof (intro conjI ballI allI impI)
    fix a f assume h: "a \<in> A" "frame_at s' base a = Some f"
    then show "f \<in> used_frames USER_REG s'" using fr [of a] U [of a f] m(6) by (auto split: if_splits)
  next
    show "inj_on (frame_at s' base) {a \<in> A. frame_at s' base a \<noteq> None}"
    proof (rule inj_onI)
      fix a b assume h: "a \<in> {a \<in> A. frame_at s' base a \<noteq> None}" "b \<in> {a \<in> A. frame_at s' base a \<noteq> None}"
        "frame_at s' base a = frame_at s' base b"
      then show "a = b" using fr [of a] fr [of b] U [of a g] U [of b g] m(5) I [of a b] by (auto split: if_splits)
    qed
  qed (use m(1-3) in simp_all)
  moreover have "\<forall>b < 2 ^ 48. b div 4096 \<noteq> w div 4096 \<longrightarrow> entry_at s' base b = entry_at s base b"
    using m(10) same_slot_iff [of _ w] ok(2,3) by (simp add: aligned_def)
  ultimately show ?thesis
    using m(4-7,9) e [OF ok(3)] used_in_region [of USER_REG s] by auto
qed

lemma move_page_step:
  assumes ok: "stack_ok (Suc n) s base A" "aligned A" "v \<in> A" "v - off \<in> A" "off < v" "0 < off"
    and s': "s' = move_page base base seg off v s"
  shows "stack_ok n s' base A \<and> used_frames USER_REG s \<subseteq> used_frames USER_REG s' \<and>
    moved seg base s s' v (v - off) \<and> kept base s s' (if frame_at s base v = None then {} else {v - off})"
proof (cases "get_pte s base v")
  case None
  then have f: "frame_at s base v = None" by (simp add: frame_at_def entry_at_def)
  from None have "s' = s" by (simp add: s' move_page_def get_user_pte_def)
  with f stack_ok_less [OF ok(1)] show ?thesis by (simp add: moved_def kept_def)
next
  case (Some p)
  define f where "f = pte_frame (rd s p)"
  let ?w = "v - off"
  have v: "frame_at s base v = Some f" using Some by (simp add: frame_at_def entry_at_def f_def)
  have lt: "v < 2 ^ 48" using ok(2,3) by (simp add: aligned_def)
  then have sub: "sub64 v off = ?w" using ok(5) by (intro sub64_small) auto
  have U: "frame_at s base a = Some x \<Longrightarrow> x \<in> used_frames USER_REG s" if "a \<in> A" for a x
    using ok(1) that by (simp add: stack_ok_def)
  have I: "frame_at s base ?w \<noteq> Some f"
  proof
    assume h: "frame_at s base ?w = Some f"
    have "inj_on (frame_at s base) {a \<in> A. frame_at s base a \<noteq> None}" using ok(1) by (simp add: stack_ok_def)
    with h v ok(3,4) have "v = ?w" by (auto dest: inj_onD [of _ _ v ?w])
    with ok(5,6) show False by simp
  qed
  have page: "v div 4096 \<noteq> ?w div 4096"
  proof -
    have "v mod 4096 = 0" "?w mod 4096 = 0" "v \<noteq> ?w" using ok(2-6) by (auto simp: aligned_def)
    then show ?thesis by (metis div_mult_mod_eq)
  qed
  show ?thesis
  proof (cases "get_pte s base ?w")
    case (Some q)
    define g where "g = pte_frame (rd s q)"
    have w: "frame_at s base ?w = Some g" using Some by (simp add: frame_at_def entry_at_def g_def)
    have eq: "s' = copy_frame g f s" using \<open>get_pte s base v = Some p\<close> Some
      by (simp add: s' move_page_def get_user_pte_def sub f_def g_def)
    have ne: "g \<noteq> f" using I w by auto
    note c = set_frame_ok [OF stack_ok_less [OF ok(1)] U [OF ok(4) w] eq [unfolded copy_frame_def]]
    have "used_frames USER_REG s' = used_frames USER_REG s" by (rule used_frames_cong) (simp add: eq copy_frame_def)
    moreover have "phys s' = (phys s)(g := phys s f)" by (simp add: eq copy_frame_def)
    moreover have "frame_at s' base ?w = Some g" using c w by (simp add: frame_at_def)
    ultimately show ?thesis using c v w ne by (simp add: moved_def kept_def)
  next
    case None
    then have w: "frame_at s base ?w = None" by (simp add: frame_at_def entry_at_def)
    obtain g s1 where m: "map_physical_page s base ?w (seg_flags seg) 0 = (g, s1)" by fastforce
    note k = map_page_ok [OF ok(1,2,4) w m]
    have ev: "entry_at s1 base v = entry_at s base v" using k page lt by simp
    have "rd s1 p = rd s p" using grows_entry [OF _ \<open>get_pte s base v = Some p\<close> ev] k by blast
    moreover have "?w \<noteq> 0" using ok(5) by simp
    ultimately have eq: "s' = copy_frame g f s1" using \<open>get_pte s base v = Some p\<close> None m
      by (simp add: s' move_page_def get_user_pte_def sub f_def install_ptable_def)
    note c = set_frame_ok [OF _ _ eq [unfolded copy_frame_def], of n base A]
    have c1: "stack_ok n s' base A" "\<And>b. entry_at s' base b = entry_at s1 base b" using c k by auto
    have fu: "f \<in> used_frames USER_REG s" using U [OF ok(3) v] .
    then have ne: "g \<noteq> f" using k by auto
    have us: "used_frames USER_REG s' = insert g (used_frames USER_REG s)"
      using k used_frames_cong [of s' s1] by (simp add: eq copy_frame_def)
    have ph: "phys s' = (phys s1)(g := phys s1 f)" by (simp add: eq copy_frame_def)
    have phk: "phys s' x = phys s x" if "x \<in> used_frames USER_REG s" for x
      using that k ph by auto
    have phg: "phys s' g = phys s f" using k ph fu by simp
    have ew: "entry_at s' base ?w = Some (mk_pte g (page_flags (seg_flags seg)))" using k c1(2) by simp
    then have fw: "frame_at s' base ?w = Some g" using k by (simp add: frame_at_def pte_frame_page)
    have "moved seg base s s' v ?w"
      using v w ev c1(2) phk [OF fu] phg ew fw ne k by (simp add: moved_def)
    moreover have "kept base s s' {?w}" using k c1(2) phk by (simp add: kept_def)
    ultimately show ?thesis using c1(1) us v by auto
  qed
qed

section \<open>The loop over the stack\<close>

lemma kept_entry:
  assumes "kept base s s' W" "aligned A" "W \<subseteq> A" "a \<in> A" "a \<notin> W"
  shows "entry_at s' base a = entry_at s base a"
proof -
  have "a div 4096 \<noteq> w div 4096" if "w \<in> W" for w
  proof -
    have "a mod 4096 = 0" "w mod 4096 = 0" "a \<noteq> w" using that assms(2-5) by (auto simp: aligned_def)
    then show ?thesis by (metis div_mult_mod_eq)
  qed
  then show ?thesis using assms(1,2,4) by (simp add: kept_def aligned_def)
qed

lemma kept_page:
  assumes "kept base s s' W" "stack_ok n s base A" "W \<subseteq> A" "a \<in> A" "a \<notin> W" "frame_at s base a = Some f"
  shows "phys s' f = phys s f"
proof -
  have "frame_at s base w \<noteq> Some f" if "w \<in> W" for w
  proof
    assume h: "frame_at s base w = Some f"
    have "inj_on (frame_at s base) {a \<in> A. frame_at s base a \<noteq> None}" using assms(2) by (simp add: stack_ok_def)
    with h that assms(3-6) have "a = w" by (auto dest: inj_onD [of _ _ a w])
    with that assms(5) show False by simp
  qed
  moreover have "f \<in> used_frames USER_REG s" using assms(2,4,6) by (simp add: stack_ok_def)
  ultimately show ?thesis using assms(1) by (simp add: kept_def)
qed

lemma moved_kept:
  assumes m: "moved seg base s s1 v w" and k: "kept base s1 s' W" "stack_ok n s1 base A" "aligned A" "W \<subseteq> A"
    and a: "v \<in> A" "v \<notin> W" "w \<in> A" "w \<notin> W"
  shows "moved seg base s s' v w"
  unfolding moved_def
proof (intro allI impI)
  fix f assume f: "frame_at s base v = Some f"
  then obtain g where g: "entry_at s1 base v = entry_at s base v" "phys s1 f = phys s f"
    "frame_at s1 base w = Some g" "g \<noteq> f" "phys s1 g = phys s f"
    "if frame_at s base w = None
     then g \<notin> used_frames USER_REG s \<and> entry_at s1 base w = Some (mk_pte g (page_flags (seg_flags seg)))
     else entry_at s1 base w = entry_at s base w"
    using m unfolding moved_def by blast
  have e: "entry_at s' base v = entry_at s1 base v" "entry_at s' base w = entry_at s1 base w"
    using kept_entry [OF k(1,3,4)] a by auto
  have "frame_at s1 base v = Some f" using f g(1) frame_at_cong by metis
  then have "phys s' f = phys s1 f" "phys s' g = phys s1 g"
    using kept_page [OF k(1,2,4)] a g(3) by auto
  with e g frame_at_cong [OF e(2)]
  show "entry_at s' base v = entry_at s base v \<and> phys s' f = phys s f \<and>
    (\<exists>g. frame_at s' base w = Some g \<and> g \<noteq> f \<and> phys s' g = phys s f \<and>
       (if frame_at s base w = None
        then g \<notin> used_frames USER_REG s \<and> entry_at s' base w = Some (mk_pte g (page_flags (seg_flags seg)))
        else entry_at s' base w = entry_at s base w))"
    by simp
qed

lemma kept_moved:
  assumes k: "kept base s s1 W" "stack_ok n s base A" "aligned A" "W \<subseteq> A"
    and u: "used_frames USER_REG s \<subseteq> used_frames USER_REG s1" and m: "moved seg base s1 s' v w"
    and a: "v \<in> A" "v \<notin> W" "w \<in> A" "w \<notin> W"
  shows "moved seg base s s' v w"
proof -
  have e: "entry_at s1 base v = entry_at s base v" "entry_at s1 base w = entry_at s base w"
    using kept_entry [OF k(1,3,4)] a by auto
  have f: "frame_at s1 base v = frame_at s base v" "frame_at s1 base w = frame_at s base w"
    using e by (simp_all add: frame_at_def)
  have "frame_at s base v = Some f \<Longrightarrow> phys s1 f = phys s f" for f
    using kept_page [OF k(1,2,4) a(1,2)] .
  then show ?thesis using m u unfolding moved_def e f by (fastforce split: if_splits)
qed

lemma kept_trans:
  assumes k: "kept base s s1 W" "kept base s1 s' W'" "aligned A" "W \<subseteq> A" "W' \<subseteq> A - W"
    and u: "used_frames USER_REG s \<subseteq> used_frames USER_REG s1"
  shows "kept base s s' (W \<union> W')"
proof -
  have f: "frame_at s1 base w = frame_at s base w" if "w \<in> W'" for w
    using kept_entry [OF k(1,3,4), of w] that k(5) by (auto intro: frame_at_cong)
  have "phys s' x = phys s x" if "x \<in> used_frames USER_REG s" "\<forall>w \<in> W \<union> W'. frame_at s base w \<noteq> Some x" for x
  proof -
    have "phys s1 x = phys s x" using k(1) that by (simp add: kept_def)
    moreover have "phys s' x = phys s1 x" using k(2) that f u by (auto simp: kept_def)
    ultimately show ?thesis by simp
  qed
  moreover have "entry_at s' base b = entry_at s base b"
    if "b < 2 ^ 48" "\<forall>w \<in> W \<union> W'. b div 4096 \<noteq> w div 4096" for b
    using k(1,2) that by (simp add: kept_def)
  ultimately show ?thesis by (simp add: kept_def)
qed

lemma move_pages:
  assumes "stack_ok (length vs) s base A" "aligned A" "distinct vs" "0 < off"
    and "\<forall>v \<in> set vs. v \<in> A \<and> v - off \<in> A \<and> off < v" "\<forall>v \<in> set vs. v - off \<notin> set vs"
    and "s' = fold (move_page base base seg off) vs s"
  shows "(\<forall>v \<in> set vs. moved seg base s s' v (v - off)) \<and>
    kept base s s' ((\<lambda>v. v - off) ` {v \<in> set vs. frame_at s base v \<noteq> None})"
  using assms
proof (induction vs arbitrary: s)
  case Nil
  then show ?case by (simp add: kept_def)
next
  case (Cons v vs)
  define s1 where "s1 = move_page base base seg off v s"
  define W where "W = (if frame_at s base v = None then {} else {v - off})"
  define W' where "W' = (\<lambda>v. v - off) ` {u \<in> set vs. frame_at s1 base u \<noteq> None}"
  have A: "v \<in> A" "v - off \<in> A" "off < v" "\<forall>u \<in> set vs. u \<in> A \<and> u - off \<in> A \<and> off < u"
    using Cons.prems(5) by auto
  have ok: "stack_ok (Suc (length vs)) s base A" using Cons.prems(1) by simp
  have st: "stack_ok (length vs) s1 base A" "used_frames USER_REG s \<subseteq> used_frames USER_REG s1"
    "moved seg base s s1 v (v - off)" "kept base s s1 W"
    using move_page_step [OF ok Cons.prems(2) A(1-3) Cons.prems(4) s1_def] by (simp_all add: W_def)
  have "(\<forall>u \<in> set vs. moved seg base s1 s' u (u - off)) \<and> kept base s1 s' W'"
    unfolding W'_def by (rule Cons.IH [OF st(1) Cons.prems(2)]) (use Cons.prems in \<open>auto simp: s1_def\<close>)
  then have IH: "\<And>u. u \<in> set vs \<Longrightarrow> moved seg base s1 s' u (u - off)" "kept base s1 s' W'" by auto
  have sub: "u - off \<noteq> v - off" if "u \<in> set vs" for u
  proof -
    have "u \<noteq> v" "off < u" using that A(4) Cons.prems(3) by auto
    then show ?thesis using A(3) by simp
  qed
  have in': "W \<subseteq> A" "W' \<subseteq> A - W" "W' \<subseteq> A" using A(2,4) sub by (auto simp: W_def W'_def)
  have apart: "\<And>u. u \<in> set vs \<Longrightarrow> u \<notin> W" "v \<notin> W'" "v - off \<notin> W'" "\<And>u. u \<in> set vs \<Longrightarrow> u - off \<notin> W"
    using Cons.prems(6) sub by (auto simp: W_def W'_def) (metis sub)
  have hd: "moved seg base s s' v (v - off)"
    by (rule moved_kept [OF st(3) IH(2) st(1) Cons.prems(2) in'(3) A(1) apart(2) A(2) apart(3)])
  have tl: "moved seg base s s' u (u - off)" if "u \<in> set vs" for u
    using kept_moved [OF st(4) ok Cons.prems(2) in'(1) st(2) IH(1) [OF that]] A(4) apart(1,4) that by blast
  have "frame_at s1 base u = frame_at s base u" if "u \<in> set vs" for u
    using kept_entry [OF st(4) Cons.prems(2) in'(1)] A(4) apart(1) that by (auto intro: frame_at_cong)
  then have "W \<union> W' = (\<lambda>v. v - off) ` {u \<in> set (v # vs). frame_at s base u \<noteq> None}"
    by (auto simp: W_def W'_def)
  with kept_trans [OF st(4) IH(2) Cons.prems(2) in'(1,2) st(2)] hd tl show ?case by simp
qed

lemma pages_down_stack:
  assumes "4096 \<le> lo"
  shows "pages_down (lo + k * 4096 - 4096) lo = map (\<lambda>i. lo + i * 4096) (rev [0..<k])"
proof (induction k)
  case 0
  have "\<not> lo \<le> lo - 4096" using assms by simp
  then show ?case by (simp add: pages_down.simps [of "lo - 4096" lo])
next
  case (Suc k)
  with assms show ?case by (simp add: pages_down.simps [of "lo + k * 4096" lo])
qed

lemma stack_pages_set:
  assumes "next_free seg mod 4096 = 0" "seg_end seg mod 4096 = 0" "4096 \<le> next_free seg" "next_free seg \<le> seg_end seg"
  shows "distinct (stack_pages seg)"
    "set (stack_pages seg) = {v. next_free seg \<le> v \<and> v < seg_end seg \<and> v mod 4096 = 0}"
proof -
  have "seg_end seg mod 4096 = next_free seg mod 4096" using assms(1,2) by simp
  then have "4096 dvd seg_end seg - next_free seg" using assms(4) by (simp add: mod_eq_dvd_iff_nat)
  then obtain k where "seg_end seg - next_free seg = k * 4096" by (auto elim: dvdE)
  then have k: "seg_end seg = next_free seg + k * 4096" using assms(4) by simp
  have p: "stack_pages seg = map (\<lambda>i. next_free seg + i * 4096) (rev [0..<k])"
    unfolding stack_pages_def k by (rule pages_down_stack [OF assms(3)])
  show "distinct (stack_pages seg)" by (auto simp: p distinct_map inj_on_def)
  have "v \<in> set (stack_pages seg)" if v: "next_free seg \<le> v" "v < seg_end seg" "v mod 4096 = 0" for v
  proof -
    have "4096 dvd v - next_free seg" using v(1,3) assms(1) by (simp add: dvd_diff_nat mod_eq_0_iff_dvd)
    then obtain i where "v - next_free seg = i * 4096" by (auto elim: dvdE)
    then have "v = next_free seg + i * 4096" "i < k" using v(1,2) k by auto
    then show ?thesis by (simp add: p)
  qed
  moreover have "set (stack_pages seg) \<subseteq> {v. next_free seg \<le> v \<and> v < seg_end seg \<and> v mod 4096 = 0}"
  proof
    fix v assume "v \<in> set (stack_pages seg)"
    then obtain i where "i < k" "v = next_free seg + i * 4096" by (auto simp: p)
    then show "v \<in> {v. next_free seg \<le> v \<and> v < seg_end seg \<and> v mod 4096 = 0}" using assms(1) by (simp add: k)
  qed
  ultimately show "set (stack_pages seg) = {v. next_free seg \<le> v \<and> v < seg_end seg \<and> v mod 4096 = 0}"
    by (intro subset_antisym subsetI) (simp_all only: mem_Collect_eq subset_iff)
qed

section \<open>Properties\<close>

text \<open>
  C14. The stack of a \<open>vfork\<close> child.  For a page-aligned stack the offset is the size of the
  parent's used stack and one page, so that the child's stack ends one page below the lowest
  used page of the parent's.  In the page tables that both run on, every mapped page of the
  parent's stack keeps its entry and its content, and the page one offset below it is another
  frame with the same content: the frame that was mapped there or else a frame that was free,
  mapped with the rights of the stack segment.  No other entry of the tables and no other used
  frame of the user region changes.  The child's stack pointers are the parent's moved by the
  offset; the parent waits.  (The tables form a tree of page-table frames, the pages in question
  are frames of their own, and there is room for the copies.)
\<close>

theorem vfork_copy_mm_stack:
  assumes "vfork_copy_mm s child parent = (child', parent', s')" "pgd child = pgd parent"
    and "seg = mms child MM_SEG_STACK" "next_free seg mod 4096 = 0" "seg_end seg mod 4096 = 0"
    and "next_free seg \<le> seg_end seg" "seg_end seg \<le> 2 ^ 48"
    and "off = seg_end seg - next_free seg + 4096" "off < next_free seg"
    and "V = {v. next_free seg \<le> v \<and> v < seg_end seg \<and> v mod 4096 = 0}"
    and "stack_ok (card V) s (pgd parent) (V \<union> (\<lambda>v. v - off) ` V)"
  shows "(\<forall>v\<in>V. moved seg (pgd parent) s s' v (v - off)) \<and>
         kept (pgd parent) s s' ((\<lambda>v. v - off) ` {v\<in>V. frame_at s (pgd parent) v \<noteq> None}) \<and>
         entry_rsp (regs child') = entry_rsp (regs parent) - of_nat off \<and>
         rbp (regs child') = rbp (regs parent) - of_nat off \<and>
         next_free (mms child' MM_SEG_STACK) = next_free seg - off \<and>
         seg_end seg - off + 4096 = next_free seg \<and>
         pgd child' = pgd parent \<and> ctx_state parent' = WAITING"
proof -
  let ?base = "pgd parent" and ?A = "V \<union> (\<lambda>v. v - off) ` V"
  have nf: "4096 \<le> next_free seg" using assms(8,9) by simp
  have al: "(seg_end seg - next_free seg) mod 4096 = 0"
    using assms(4-6) by (simp add: dvd_diff_nat mod_eq_0_iff_dvd)
  have so: "stack_offset seg = off" using stack_offset_eq [OF assms(6) al nf] assms(8) by simp
  note sp = stack_pages_set [OF assms(4,5) nf assms(6), folded assms(10)]
  have len: "length (stack_pages seg) = card V" using distinct_card [OF sp(1)] sp(2) by simp
  have om: "off mod 4096 = 0" using al assms(8) by simp
  have up: "off < v" "v - off < next_free seg" "v < 2 ^ 48" "v mod 4096 = 0" if "v \<in> V" for v
    using that assms(7-10) by auto
  then have "aligned ?A" using om
    by (auto simp: aligned_def dvd_diff_nat mod_eq_0_iff_dvd intro: le_less_trans [OF diff_le_self])
  moreover have "v - off \<notin> V" if "v \<in> V" for v using up(2) [OF that] assms(10) by auto
  moreover have "s' = fold (move_page ?base ?base seg off) (stack_pages seg) s"
    using assms(1,2,3) so by (auto simp: vfork_copy_mm_def Let_def)
  ultimately have "(\<forall>v\<in>V. moved seg ?base s s' v (v - off)) \<and>
      kept ?base s s' ((\<lambda>v. v - off) ` {v\<in>V. frame_at s ?base v \<noteq> None})"
    using move_pages [of "stack_pages seg" s ?base ?A off s' seg] assms(8,11) sp len up(1) by simp
  moreover have "sub64 (next_free seg) off = next_free seg - off"
    using assms(6,7,9) by (intro sub64_small) auto
  ultimately show ?thesis using assms so nf by (auto simp: vfork_copy_mm_def Let_def)
qed

text \<open>A parent with a stack of two pages of which the upper one is mapped and holds the words 42.\<close>

definition vfork_mem :: kmem where
  "vfork_mem =
     (case map_physical_page pt_mem pt_base 0x7FFFFF000 3 0 of
        (g, s) \<Rightarrow> s\<lparr>phys := (phys s)(g := (\<lambda>_. 42))\<rparr>)"

abbreviation "vfork_ctx \<equiv> stack_ctx\<lparr>pgd := pt_base\<rparr>"

lemma blank_tree:
  assumes "kmem_ok s" "regions_apart s" "base \<in> used_frames OS_PT_REG s" "\<And>j. rd s (base, j) = 0"
  shows "tree s base A" "entry_at s base a = None"
proof -
  have r: "resolve s base is = (if is = [] then Some base else None)" for "is"
    using assms(4) by (cases "is") (simp_all add: walk_def)
  then have "tree_ok s base" using assms(3) by (simp add: tree_ok_def)
  moreover have "clean_path s base a" for a
    using assms(4) by (auto simp: clean_path_def r split: if_splits)
  ultimately show "tree s base A" using assms(1,2) by (simp add: tree_def)
  have "resolve s base (levels a) = None" unfolding r by (simp add: levels_def)
  then show "entry_at s base a = None" by (simp add: entry_at_eq)
qed

lemma pt_mem_stack:
  "stack_ok 3 pt_mem pt_base A" "frame_at pt_mem pt_base a = None"
proof -
  have l: "pglists boot_mem = init_pagelists (\<lambda>_ _. 0)" by (simp add: boot_mem_def)
  have "rooms OS_PT_REG 10 boot_mem"
    using dense_frames [of 1 boot_mem OS_PT_REG 10] boot_dense(2) by (simp add: l boot_lists scanned_def)
  then have r: "room OS_PT_REG boot_mem" "rooms OS_PT_REG 9 pt_mem"
    using rooms.simps(2) [of OS_PT_REG 9 boot_mem] by (simp_all add: pt_mem_def)
  have "rooms USER_REG 3 boot_mem"
    using dense_frames [of 4 boot_mem USER_REG 3] boot_dense(3) by (simp add: l boot_lists scanned_def)
  then have u: "rooms USER_REG 3 pt_mem"
    using rooms_cong [of pt_mem USER_REG boot_mem 3] by (simp add: pt_mem_def pglists_os_pfn_alloc)
  note fr = os_pfn_alloc_fresh [OF boot_mem_ok r(1) prod.collapse [symmetric], folded pt_mem_def pt_base_def]
  have z: "rd pt_mem (pt_base, j) = 0" for j
    using phys_os_pt_alloc [OF r(1)] by (simp add: pt_mem_def pt_base_def rd_def)
  have ra: "regions_apart pt_mem" using boot_regions_apart region_frames_alloc [of _ OS_PT_REG boot_mem]
    by (simp add: regions_apart_def pt_mem_def)
  have b: "tree pt_mem pt_base A" "entry_at pt_mem pt_base a = None" for A a
    using blank_tree [of pt_mem pt_base] fr ra z by simp_all
  then show fa: "frame_at pt_mem pt_base a = None" for a by (simp add: frame_at_def)
  then show "stack_ok 3 pt_mem pt_base A" using b r(2) u by (simp add: stack_ok_def)
qed

lemma vfork_mem_props:
  assumes "aligned A" "0x7FFFFF000 \<in> A"
  shows "stack_ok 2 vfork_mem pt_base A"
    "\<exists>f. frame_at vfork_mem pt_base 0x7FFFFF000 = Some f \<and> phys vfork_mem f = (\<lambda>_. 42)"
    "a \<in> A \<Longrightarrow> a \<noteq> 0x7FFFFF000 \<Longrightarrow> frame_at vfork_mem pt_base a = None"
proof -
  obtain g s where m: "map_physical_page pt_mem pt_base 0x7FFFFF000 3 0 = (g, s)" by fastforce
  have s: "vfork_mem = s\<lparr>phys := (phys s)(g := (\<lambda>_. 42))\<rparr>" by (simp add: vfork_mem_def m)
  have ok3: "stack_ok (Suc 2) pt_mem pt_base A" using pt_mem_stack(1) [of A] by simp
  note k = map_page_ok [OF ok3 assms pt_mem_stack(2) m]
  have c: "stack_ok 2 vfork_mem pt_base A" "\<And>b. entry_at vfork_mem pt_base b = entry_at s pt_base b"
    using set_frame_ok [OF _ _ s] k by auto
  show "stack_ok 2 vfork_mem pt_base A" by (rule c(1))
  have "frame_at vfork_mem pt_base 0x7FFFFF000 = Some g" using k c(2) by (simp add: frame_at_def pte_frame_page)
  then show "\<exists>f. frame_at vfork_mem pt_base 0x7FFFFF000 = Some f \<and> phys vfork_mem f = (\<lambda>_. 42)"
    by (simp add: s)
  assume a: "a \<in> A" "a \<noteq> 0x7FFFFF000"
  have "kept pt_base pt_mem s {0x7FFFFF000}" using k by (simp add: kept_def)
  from kept_entry [OF this assms(1) _ a(1)] a assms(2) have "entry_at s pt_base a = entry_at pt_mem pt_base a" by simp
  with c(2) pt_mem_stack(2) [of a] show "frame_at vfork_mem pt_base a = None" by (simp add: frame_at_def)
qed

lemma two_pages:
  "{v. 0x7FFFFE000 \<le> v \<and> v < 0x800000000 \<and> v mod 4096 = 0} = {0x7FFFFE000, 0x7FFFFF000 :: nat}"
proof -
  have "v = 0x7FFFFE000 \<or> v = 0x7FFFFF000" if h: "0x7FFFFE000 \<le> v" "v < 0x800000000" "v mod 4096 = 0" for v :: nat
  proof -
    obtain k where "v = 4096 * k" using h(3) by auto
    with h(1,2) show ?thesis by simp linarith
  qed
  then show ?thesis by auto
qed

theorem vfork_copy_mm_stack_witness:
  "\<exists>c p s' f g. vfork_copy_mm vfork_mem vfork_ctx vfork_ctx = (c, p, s') \<and>
     frame_at s' pt_base 0x7FFFFF000 = Some f \<and> phys s' f = (\<lambda>_. 42) \<and>
     frame_at s' pt_base 0x7FFFFC000 = Some g \<and> phys s' g = (\<lambda>_. 42) \<and> f \<noteq> g \<and>
     frame_at s' pt_base 0x7FFFFB000 = None \<and>
     entry_rsp (regs c) = 0x7FFFFB800 \<and> next_free (mms c MM_SEG_STACK) = 0x7FFFFB000 \<and> ctx_state p = WAITING"
proof -
  let ?V = "{0x7FFFFE000, 0x7FFFFF000 :: nat}"
  let ?A = "?V \<union> (\<lambda>v. v - 0x3000) ` ?V" and ?seg = "mms stack_ctx MM_SEG_STACK"
  obtain c p s' where v: "vfork_copy_mm vfork_mem vfork_ctx vfork_ctx = (c, p, s')" by (metis prod_cases3)
  have e: "regs stack_ctx = zero_regs\<lparr>entry_rsp := 0x7FFFFE800\<rparr>"
    "?seg = \<lparr>seg_start = 0x7ff000000, seg_end = 0x800000000, next_free = 0x7FFFFE000, seg_flags = 3\<rparr>"
    by (simp_all add: stack_ctx_def)
  have al: "aligned ?A" by (simp add: aligned_def)
  have so: "stack_ok (card ?V) vfork_mem pt_base ?A" using vfork_mem_props(1) [OF al] by (simp add: numeral_2_eq_2)
  obtain f where f: "frame_at vfork_mem pt_base 0x7FFFFF000 = Some f" "phys vfork_mem f = (\<lambda>_. 42)"
    using vfork_mem_props(2) [OF al] by auto
  have n: "frame_at vfork_mem pt_base a = None" if "a \<in> ?A" "a \<noteq> 0x7FFFFF000" for a
    using vfork_mem_props(3) [OF al _ that] by simp
  note th = vfork_copy_mm_stack [OF v refl refl, of "0x3000" ?V]
  have r: "(\<forall>v\<in>?V. moved ?seg pt_base vfork_mem s' v (v - 0x3000))"
    "kept pt_base vfork_mem s' ((\<lambda>v. v - 0x3000) ` {v\<in>?V. frame_at vfork_mem pt_base v \<noteq> None})"
    "entry_rsp (regs c) = 0x7FFFFB800" "next_free (mms c MM_SEG_STACK) = 0x7FFFFB000" "ctx_state p = WAITING"
    using th so by (simp_all add: e two_pages)
  have W: "{v\<in>?V. frame_at vfork_mem pt_base v \<noteq> None} = {0x7FFFFF000}" using n f(1) by auto
  have "moved ?seg pt_base vfork_mem s' 0x7FFFFF000 0x7FFFFC000" using r(1) by simp
  then obtain g where g: "entry_at s' pt_base 0x7FFFFF000 = entry_at vfork_mem pt_base 0x7FFFFF000"
    "phys s' f = phys vfork_mem f" "frame_at s' pt_base 0x7FFFFC000 = Some g" "g \<noteq> f" "phys s' g = phys vfork_mem f"
    using f(1) unfolding moved_def by blast
  have k: "kept pt_base vfork_mem s' {0x7FFFFC000}" using r(2) unfolding W by simp
  have "entry_at s' pt_base 0x7FFFFB000 = entry_at vfork_mem pt_base 0x7FFFFB000"
    using kept_entry [OF k al] by simp
  then have "frame_at s' pt_base 0x7FFFFB000 = None" using n [of "0x7FFFFB000"] by (simp add: frame_at_def)
  moreover have "frame_at s' pt_base 0x7FFFFF000 = Some f" using frame_at_cong [OF g(1)] f(1) by simp
  ultimately show ?thesis using v g(2-5) f(2) r(3-5)
    by (intro exI [of _ c] exI [of _ p] exI [of _ s'] exI [of _ f] exI [of _ g]) simp
qed

end
