(* ===== verification/Printf.thy ===== *)
theory Printf
  imports Prelude "HOL-Library.Signed_Division"
begin

text \<open>
  The formatted output of gemOS (src/Assignment3/Ass3/src/lib.c): \<open>vprintf\<close> with its
  conversions, and \<open>sprintf\<close>, \<open>sprintk\<close> and \<open>printk\<close> on it.  An argument is a number or a
  pointer to a string; \<open>None\<close> stands for a missing argument or one of the other kind, and
  for reading or writing outside an array.  The reference is the usual decimal and
  hexadecimal notation.
\<close>

subsection \<open>The code\<close>

datatype varg = Num int | Str "string option"

text \<open>The digit loops; \<open>/\<close> and \<open>%\<close> of C truncate towards zero.  The last digit comes first.\<close>

definition digit_char :: "int \<Rightarrow> int \<Rightarrow> char" where
  "digit_char base r = char_of (nat ((if base = 16 \<and> r > 9 then 65 + (r - 10) else 48 + r) mod 256))"

lemma sdiv_less: "tmp \<noteq> 0 \<Longrightarrow> \<not> base \<le> 1 \<Longrightarrow> \<bar>tmp sdiv base\<bar> < \<bar>tmp :: int\<bar>"
proof -
  assume t: "tmp \<noteq> 0" and b: "\<not> (base :: int) \<le> 1"
  then have "0 \<le> \<bar>tmp\<bar> div base" by (simp add: pos_imp_zdiv_nonneg_iff)
  then have "\<bar>tmp sdiv base\<bar> = \<bar>tmp\<bar> div base" using t b by (simp add: signed_divide_int_def abs_mult)
  moreover have "\<bar>tmp\<bar> div base < \<bar>tmp\<bar>" using t b by (intro int_div_less_self) auto
  ultimately show ?thesis by simp
qed

function digits :: "int \<Rightarrow> int \<Rightarrow> string" where
  "digits base tmp = (if tmp = 0 \<or> base \<le> 1 then [] else digit_char base (tmp smod base) # digits base (tmp sdiv base))"
  by pat_completeness auto
termination by (relation "measure (\<lambda>(base, tmp). nat \<bar>tmp\<bar>)") (auto intro: sdiv_less)

declare digits.simps [simp del]

definition s64w :: "int \<Rightarrow> int" where
  "s64w i = (i + 2 ^ 63) mod 2 ^ 64 - 2 ^ 63"

definition print_d :: "int \<Rightarrow> string" where
  "print_d num =
    (if num = 0 then ''0''
     else (if num < 0 then ''-'' else []) @ rev (digits 10 (if num < 0 then s32 (- num) else num)))"

definition print_x :: "int \<Rightarrow> string" where
  "print_x num =
    (if num < 0 then ''-'' else []) @ ''0x'' @
    (if num = 0 then ''0'' else rev (digits 16 (if num < 0 then s64w (- num) else num)))"

fun vprintf :: "string \<Rightarrow> varg list \<Rightarrow> string option" where
  "vprintf [] args = Some []"
| "vprintf (ch # fmt) args =
    (if ch \<noteq> CHR ''%'' then map_option ((#) ch) (vprintf fmt args)
     else (case fmt of [] \<Rightarrow> None
       | c # fmt' \<Rightarrow>
         if c = CHR ''c'' then
           (case args of Num n # as \<Rightarrow> map_option ((#) (char_of (nat (n mod 256)))) (vprintf fmt' as) | _ \<Rightarrow> None)
         else if c = CHR ''d'' \<or> c = CHR ''u'' then
           (case args of Num n # as \<Rightarrow> map_option ((@) (print_d (s32 n))) (vprintf fmt' as) | _ \<Rightarrow> None)
         else if c = CHR ''x'' then
           (case args of Num n # as \<Rightarrow> map_option ((@) (print_x (s64w n))) (vprintf fmt' as) | _ \<Rightarrow> None)
         else if c = CHR ''s'' then
           (case args of Str (Some t) # as \<Rightarrow> map_option ((@) t) (vprintf fmt' as)
            | Str None # as \<Rightarrow> vprintf fmt' as | _ \<Rightarrow> None)
         else map_option ((#) c) (vprintf fmt' args)))"

text \<open>\<open>sprintf\<close> and \<open>sprintk\<close> have the same body: the characters stored, with the final null byte, and the result.\<close>

definition sprintf :: "string \<Rightarrow> varg list \<Rightarrow> (int \<times> string) option" where
  "sprintf fmt args = map_option (\<lambda>s. (int (length s), s @ [CHR 0x00])) (vprintf fmt args)"

text \<open>The buffer of \<open>printk\<close> has 4096 bytes; \<open>serial_write\<close> stops at a null byte.\<close>

definition printk :: "string \<Rightarrow> varg list \<Rightarrow> (int \<times> string) option" where
  "printk fmt args =
    (case vprintf fmt args of None \<Rightarrow> None
     | Some s \<Rightarrow> if 4096 \<le> length s then None else Some (int (length s), takeWhile (\<lambda>c. c \<noteq> CHR 0x00) s))"

subsection \<open>Reference\<close>

definition dig :: "nat \<Rightarrow> char" where
  "dig d = char_of (if d < 10 then 48 + d else 55 + d)"

fun numeral_of :: "nat \<Rightarrow> nat \<Rightarrow> string" where
  "numeral_of b n = (if b \<le> 1 \<or> n < b then [dig n] else numeral_of b (n div b) @ [dig (n mod b)])"

declare numeral_of.simps [simp del]

definition undig :: "char \<Rightarrow> nat" where
  "undig c = (if of_char c < (58 :: nat) then of_char c - 48 else of_char c - 55)"

definition value_of :: "nat \<Rightarrow> string \<Rightarrow> nat" where
  "value_of b s = foldl (\<lambda>a c. a * b + undig c) 0 s"

text \<open>The pieces of a format and what each prints.\<close>

datatype piece = Text char | D | U | X | S | C

fun render :: "piece list \<Rightarrow> string" where
  "render [] = []"
| "render (Text c # ps) = (if c = CHR ''%'' then ''%%'' else [c]) @ render ps"
| "render (D # ps) = ''%d'' @ render ps"
| "render (U # ps) = ''%u'' @ render ps"
| "render (X # ps) = ''%x'' @ render ps"
| "render (S # ps) = ''%s'' @ render ps"
| "render (C # ps) = ''%c'' @ render ps"

definition signed :: "string \<Rightarrow> nat \<Rightarrow> int \<Rightarrow> string" where
  "signed pre b n = (if n < 0 then ''-'' else []) @ pre @ numeral_of b (nat \<bar>n\<bar>)"

fun prints :: "piece list \<Rightarrow> varg list \<Rightarrow> string" where
  "prints (Text c # ps) as = c # prints ps as"
| "prints (D # ps) (Num n # as) = signed [] 10 n @ prints ps as"
| "prints (U # ps) (Num n # as) = signed [] 10 n @ prints ps as"
| "prints (X # ps) (Num n # as) = signed ''0x'' 16 n @ prints ps as"
| "prints (S # ps) (Str (Some t) # as) = t @ prints ps as"
| "prints (S # ps) (Str None # as) = prints ps as"
| "prints (C # ps) (Num n # as) = char_of (nat (n mod 256)) # prints ps as"
| "prints _ _ = []"

text \<open>The arguments fit the format, and no number is the least of its type.\<close>

fun fits :: "piece list \<Rightarrow> varg list \<Rightarrow> bool" where
  "fits [] as \<longleftrightarrow> True"
| "fits (Text c # ps) as \<longleftrightarrow> fits ps as"
| "fits (D # ps) (Num n # as) \<longleftrightarrow> - (2 ^ 31) < n \<and> n < 2 ^ 31 \<and> fits ps as"
| "fits (U # ps) (Num n # as) \<longleftrightarrow> - (2 ^ 31) < n \<and> n < 2 ^ 31 \<and> fits ps as"
| "fits (X # ps) (Num n # as) \<longleftrightarrow> - (2 ^ 63) < n \<and> n < 2 ^ 63 \<and> fits ps as"
| "fits (S # ps) (Str t # as) \<longleftrightarrow> fits ps as"
| "fits (C # ps) (Num n # as) \<longleftrightarrow> fits ps as"
| "fits _ _ \<longleftrightarrow> False"

subsection \<open>Correctness\<close>

lemma digit_char_dig: "0 \<le> r \<Longrightarrow> r < base \<Longrightarrow> base \<in> {10, 16} \<Longrightarrow> digit_char base r = dig (nat r)"
  by (auto simp: digit_char_def dig_def nat_add_distrib nat_diff_distrib)

lemma digits_numeral:
  assumes "base \<in> {10, 16}" "0 < n"
  shows "rev (digits (int base) (int n)) = numeral_of base n"
  using assms
proof (induction n rule: less_induct)
  case (less n)
  have b: "1 < base" using less.prems by auto
  have d: "int n sdiv int base = int (n div base)" "int n smod int base = int (n mod base)"
    using less.prems b by (simp_all add: signed_divide_int_def signed_modulo_int_def zdiv_int zmod_int minus_div_mult_eq_mod
        flip: of_nat_mult of_nat_diff)
  have e: "rev (digits (int base) (int n)) = rev (digits (int base) (int (n div base))) @ [dig (n mod base)]"
    using less.prems b d digit_char_dig [of "int (n mod base)" "int base"]
    by (subst digits.simps) auto
  show ?case
  proof (cases "n < base")
    case True
    then show ?thesis using e b by (simp add: numeral_of.simps [of base n] digits.simps [of _ 0])
  next
    case False
    then have "rev (digits (int base) (int (n div base))) = numeral_of base (n div base)"
      using less b by (intro less.IH) (auto simp: div_greater_zero_iff)
    then show ?thesis using e False b by (simp add: numeral_of.simps [of base n])
  qed
qed

lemma print_d_eq: "- (2 ^ 31) < n \<Longrightarrow> n < 2 ^ 31 \<Longrightarrow> print_d n = signed [] 10 n"
proof -
  assume n: "- (2 ^ 31) < n" "n < 2 ^ 31"
  have z: "numeral_of 10 0 = ''0''" by (simp add: numeral_of.simps dig_def char_of_eq_iff)
  have "rev (digits 10 \<bar>n\<bar>) = numeral_of 10 (nat \<bar>n\<bar>)" if "n \<noteq> 0"
    using digits_numeral [of 10 "nat \<bar>n\<bar>"] that by simp
  moreover have "s32 (- n) = - n" using n by (simp add: s32_small)
  ultimately show ?thesis using z by (auto simp: print_d_def signed_def)
qed

lemma print_x_eq: "- (2 ^ 63) < n \<Longrightarrow> n < 2 ^ 63 \<Longrightarrow> print_x n = signed ''0x'' 16 n"
proof -
  assume n: "- (2 ^ 63) < n" "n < 2 ^ 63"
  have z: "numeral_of 16 0 = ''0''" by (simp add: numeral_of.simps dig_def char_of_eq_iff)
  have "rev (digits 16 \<bar>n\<bar>) = numeral_of 16 (nat \<bar>n\<bar>)" if "n \<noteq> 0"
    using digits_numeral [of 16 "nat \<bar>n\<bar>"] that by simp
  moreover have "s64w (- n) = - n" using n by (simp add: s64w_def)
  ultimately show ?thesis using z by (auto simp: print_x_def signed_def)
qed

lemma vprintf_render: "fits ps as \<Longrightarrow> vprintf (render ps) as = Some (prints ps as)"
  by (induction ps as rule: fits.induct)
     (auto simp: print_d_eq print_x_eq s32_small s64w_def split: option.splits)

lemma undig_dig: "d < 16 \<Longrightarrow> undig (dig d) = d"
  by (simp add: undig_def dig_def of_char_of)

lemma value_numeral: "1 < b \<Longrightarrow> b \<le> 16 \<Longrightarrow> value_of b (numeral_of b n) = n"
proof (induction b n rule: numeral_of.induct)
  case (1 b n)
  show ?case
  proof (cases "n < b")
    case True
    then show ?thesis using 1 by (simp add: numeral_of.simps [of b n] value_of_def undig_dig)
  next
    case False
    have "n mod b < 16" using 1(2,3) by (meson less_le_trans mod_less_divisor less_trans zero_less_one)
    then show ?thesis using 1 False by (simp add: numeral_of.simps [of b n] value_of_def undig_dig)
  qed
qed

lemma numeral_length: "1 < b \<Longrightarrow> 0 < k \<Longrightarrow> n < b ^ k \<Longrightarrow> length (numeral_of b n) \<le> k"
proof (induction b n arbitrary: k rule: numeral_of.induct)
  case (1 b n)
  show ?case
  proof (cases "n < b")
    case True
    then show ?thesis using 1 by (simp add: numeral_of.simps [of b n])
  next
    case False
    then obtain j where j: "k = Suc j" "0 < j" using 1(3,4) by (cases k) (auto simp: Suc_lessI, metis neq0_conv power_0 mult_1_right)
    have "n div b < b ^ j" using 1(2,4) j by (simp add: less_mult_imp_div_less mult.commute)
    then have "length (numeral_of b (n div b)) \<le> j" using 1(1) [of j] 1(2) j False by auto
    then show ?thesis using 1(2) False j by (simp add: numeral_of.simps [of b n])
  qed
qed

lemma digits_neg:
  assumes "b \<in> {10, 16}"
  shows "length (digits (int b) (- n)) = length (digits (int b) n)"
proof (induction "nat \<bar>n\<bar>" arbitrary: n rule: less_induct)
  case less
  have d: "- n sdiv int b = - (n sdiv int b)" by (simp add: signed_divide_int_def)
  show ?case
  proof (cases "n = 0")
    case False
    then have "length (digits (int b) (- (n sdiv int b))) = length (digits (int b) (n sdiv int b))"
      using sdiv_less [of n "int b"] assms by (intro less) auto
    then show ?thesis using assms d by (subst (1 2) digits.simps) auto
  qed simp
qed

lemma digits_length:
  assumes "b \<in> {10, 16}" "\<bar>n\<bar> < int b ^ k" "0 < k"
  shows "length (digits (int b) n) \<le> k"
proof -
  have "length (digits (int b) (int (nat \<bar>n\<bar>))) \<le> k"
  proof (cases "n = 0")
    case True
    then show ?thesis by (simp add: digits.simps)
  next
    case False
    then have "length (rev (digits (int b) (int (nat \<bar>n\<bar>)))) \<le> k"
      using assms by (subst digits_numeral) (auto intro!: numeral_length simp: nat_less_iff)
    then show ?thesis by simp
  qed
  then show ?thesis using digits_neg [OF assms(1), of n] by (cases "0 \<le> n") auto
qed

text \<open>
  C38. Formatted output: for every format and fitting arguments \<open>vprintf\<close> ends and
  stores the text with every conversion replaced by its argument, numbers in
  decimal or hexadecimal notation that denotes the number, and \<open>sprintf\<close> returns its
  length and adds the null byte.  The digits of an \<open>int\<close> or a \<open>long\<close> fit into the local
  array of 20 characters.
\<close>

theorem vprintf_correct:
  assumes "fits ps as"
  shows "vprintf (render ps) as = Some (prints ps as) \<and>
    sprintf (render ps) as = Some (int (length (prints ps as)), prints ps as @ [CHR 0x00]) \<and>
    (\<forall>b n. b \<in> {10, 16} \<longrightarrow> value_of b (numeral_of b n) = n) \<and>
    (\<forall>n. \<bar>n\<bar> < 2 ^ 31 \<longrightarrow> length (digits 10 n) \<le> 10) \<and> (\<forall>n. \<bar>n\<bar> < 2 ^ 63 \<longrightarrow> length (digits 16 n) \<le> 16)"
proof -
  have "length (digits 10 n) \<le> 10" if "\<bar>n\<bar> < 2 ^ 31" for n
    using digits_length [of 10 n 10] that by simp
  moreover have "length (digits 16 n) \<le> 16" if "\<bar>n\<bar> < 2 ^ 63" for n
    using digits_length [of 16 n 16] that by simp
  ultimately show ?thesis using vprintf_render [OF assms] value_numeral by (auto simp: sprintf_def)
qed

theorem vprintf_correct_witness:
  "vprintf ''pid=%d %x'' [Num (- 42), Num 255] = Some ''pid=-42 0xFF''"
proof -
  let ?ps = "[Text CHR ''p'', Text CHR ''i'', Text CHR ''d'', Text CHR ''='', D, Text CHR '' '', X]"
  have "fits ?ps [Num (- 42), Num 255]" by simp
  from vprintf_correct [OF this] show ?thesis
    by (simp add: signed_def numeral_of.simps dig_def char_of_eq_iff)
qed

text \<open>The least \<open>int\<close> has no positive counterpart: its digits come out below \<open>0\<close>.\<close>

lemma print_d_min: "print_d (- (2 ^ 31)) = ''-./,),(-*,(''"
proof -
  have "s32 (2 ^ 31) = - (2 ^ 31)" by (simp add: s32_def)
  then show ?thesis
    by (simp add: print_d_def digits.simps digit_char_def signed_divide_int_def signed_modulo_int_def char_of_eq_iff)
qed

end
