(* ===== verification/OsAlloc.thy ===== *)
theory OsAlloc
  imports PhysMem
begin

text \<open>
  The allocator of small objects of gemOS (\<open>os_alloc\<close>, \<open>os_free\<close> and the pool of list
  nodes in src/Assignment3/Ass3/src/memory.c) and the lists it uses
  (\<open>enqueue_tail\<close>, \<open>dequeue_front\<close> in lib.c).  A pointer to a node is its index in the pool
  plus 1, a null pointer is 0.  The fields \<open>next\<close> and \<open>prev\<close> of a node are the same word.
  \<open>None\<close> stands for following a null pointer and for leaving the pool.  The bitmap of a
  chunk class is only written and has no counterpart.
\<close>

subsection \<open>The code\<close>

record lnode =
  n_value :: nat
  n_next :: nat

record klist =
  l_head :: nat
  l_tail :: nat
  l_size :: nat

record chunk =
  ck_size :: nat
  ck_pos :: nat
  ck_pfn :: nat
  ck_list :: klist

record pool =
  p_nodes :: "nat \<Rightarrow> lnode"
  p_next :: nat
  p_free :: nat

record osm =
  om_km :: kmem
  om_pool :: pool
  om_ck :: "nat \<Rightarrow> chunk"

text \<open>100 pages of nodes of 16 bytes; the pages after the first are counted in \<open>num_free\<close>.\<close>

definition NODES :: nat where "NODES = 25600"

definition init_list :: klist where
  "init_list = \<lparr>l_head = 0, l_tail = 0, l_size = 0\<rparr>"

primrec init_chunks :: "nat \<Rightarrow> osm \<Rightarrow> osm" where
  "init_chunks 0 s = s"
| "init_chunks (Suc n) s =
    (let s1 = init_chunks n s; (pfn, k) = os_pfn_alloc OS_DS_REG (om_km s1)
     in s1\<lparr>om_km := k, om_ck := (om_ck s1)(n := \<lparr>ck_size = 2 ^ (n + 5), ck_pos = 0, ck_pfn = pfn, ck_list = init_list\<rparr>)\<rparr>)"

definition init_osalloc_chunks :: "osm \<Rightarrow> osm" where
  "init_osalloc_chunks s = init_chunks 7 (s\<lparr>om_km := snd (os_pfn_alloc OS_DS_REG (om_km s))\<rparr>)"

definition init_nodealloc_memory :: "osm \<Rightarrow> osm" where
  "init_nodealloc_memory s =
    s\<lparr>om_km := ((\<lambda>k. snd (os_pfn_alloc OS_DS_REG k)) ^^ 100) (om_km s),
      om_pool := (om_pool s)\<lparr>p_next := 0, p_free := p_free (om_pool s) + 99 * 256\<rparr>\<rparr>"

text \<open>
  One page and then \<open>NUM_PAGES / 4096 + 1\<close> more for the reference counts, which the model keeps
  in the field \<open>refcount\<close>; \<open>init_mems\<close> sets up all of memory, \<open>bms\<close> being what the bitmaps hold before.
\<close>

definition init_pfn_info_alloc_memory :: "osm \<Rightarrow> osm" where
  "init_pfn_info_alloc_memory s =
    s\<lparr>om_km := ((\<lambda>k. snd (os_pfn_alloc OS_PT_REG k)) ^^ (0x80000 div 4096 + 1)) (snd (os_pfn_alloc OS_PT_REG (om_km s)))\<rparr>"

definition init_mems :: "(region \<Rightarrow> nat \<Rightarrow> u32) \<Rightarrow> osm \<Rightarrow> osm" where
  "init_mems bms s = init_pfn_info_alloc_memory (init_nodealloc_memory (init_osalloc_chunks
    (s\<lparr>om_km := (om_km s)\<lparr>pglists := init_pagelists bms\<rparr>\<rparr>)))"

definition take_node :: "nat \<Rightarrow> pool \<Rightarrow> nat \<times> pool" where
  "take_node i m = (i + 1, m\<lparr>p_next := i + 1, p_free := p_free m - 1\<rparr>)"

definition node_alloc :: "pool \<Rightarrow> (nat \<times> pool) option" where
  "node_alloc m =
    (if p_free m = 0 then Some (0, m)
     else if NODES \<le> p_next m then None
     else (case find (\<lambda>i. n_next (p_nodes m i) = 0) [p_next m..<NODES] of
             Some i \<Rightarrow> Some (take_node i m)
           | None \<Rightarrow> (case find (\<lambda>i. n_next (p_nodes m i) = 0) [0..<NODES] of
                       Some i \<Rightarrow> Some (take_node i m) | None \<Rightarrow> None)))"

definition set_next :: "nat \<Rightarrow> nat \<Rightarrow> pool \<Rightarrow> pool" where
  "set_next p v m = m\<lparr>p_nodes := (p_nodes m)(p - 1 := (p_nodes m (p - 1))\<lparr>n_next := v\<rparr>)\<rparr>"

definition next_of :: "nat \<Rightarrow> pool \<Rightarrow> nat" where
  "next_of p m = n_next (p_nodes m (p - 1))"

definition value_at :: "nat \<Rightarrow> pool \<Rightarrow> nat" where
  "value_at p m = n_value (p_nodes m (p - 1))"

definition node_free :: "nat \<Rightarrow> pool \<Rightarrow> pool" where
  "node_free p m = set_next p 0 (m\<lparr>p_free := p_free m + 1\<rparr>)"

definition new_node :: "nat \<Rightarrow> pool \<Rightarrow> (nat \<times> pool) option" where
  "new_node item m =
    (case node_alloc m of None \<Rightarrow> None
     | Some (n, m1) \<Rightarrow> if n = 0 then None
         else Some (n, m1\<lparr>p_nodes := (p_nodes m1)(n - 1 := \<lparr>n_value = item, n_next = 0\<rparr>)\<rparr>))"

definition list_ends :: "klist \<Rightarrow> pool \<Rightarrow> (klist \<times> pool) option" where
  "list_ends l m =
    (if l_head l \<noteq> 0 then Some (l, m)
     else (case node_alloc m of None \<Rightarrow> None
       | Some (h, m1) \<Rightarrow> (case node_alloc m1 of None \<Rightarrow> None
         | Some (t, m2) \<Rightarrow> Some (l\<lparr>l_head := h, l_tail := t\<rparr>, m2))))"

definition enqueue_tail :: "klist \<Rightarrow> nat \<Rightarrow> pool \<Rightarrow> (nat \<times> klist \<times> pool) option" where
  "enqueue_tail l item m =
    (case new_node item m of None \<Rightarrow> None
     | Some (n, m1) \<Rightarrow>
       if l_size l = 0 then
         (case list_ends l m1 of None \<Rightarrow> None
          | Some (l1, m2) \<Rightarrow>
            if l_head l1 = 0 \<or> l_tail l1 = 0 then None
            else Some (l_size l + 1, l1\<lparr>l_size := l_size l + 1\<rparr>,
                       set_next n (l_tail l1) (set_next (l_tail l1) n (set_next (l_head l1) n m2))))
       else if l_tail l = 0 \<or> next_of (l_tail l) m1 = 0 then None
       else Some (l_size l + 1, l\<lparr>l_size := l_size l + 1\<rparr>,
                  set_next (l_tail l) n (set_next (next_of (l_tail l) m1) n m1)))"

definition dequeue_front :: "klist \<Rightarrow> pool \<Rightarrow> (nat \<times> klist \<times> pool) option" where
  "dequeue_front l m =
    (if l_size l = 0 then Some (0, l, m)
     else if l_head l = 0 then None
     else let n = next_of (l_head l) m
       in if n = 0 then None
          else Some (n, l\<lparr>l_size := l_size l - 1\<rparr>, set_next (l_head l) (next_of n m) m))"

text \<open>\<open>for(i=11; i>5; --i) if(is_set(size, i)) break;\<close>\<close>

definition top_bit :: "nat \<Rightarrow> nat" where
  "top_bit sz = (case find (\<lambda>i. bit sz i) [11, 10, 9, 8, 7, 6] of Some i \<Rightarrow> i | None \<Rightarrow> 5)"

definition os_alloc :: "nat \<Rightarrow> osm \<Rightarrow> (nat \<times> osm) option" where
  "os_alloc sz s =
    (if sz = 0 \<or> sz > 2048 then Some (0, s)
     else
       let i = (if 2 ^ top_bit sz \<noteq> sz then top_bit sz + 1 else top_bit sz);
           ck = om_ck s (i - 5) in
       if l_size (ck_list ck) \<noteq> 0 then
         (case dequeue_front (ck_list ck) (om_pool s) of None \<Rightarrow> None
          | Some (n, l, m) \<Rightarrow>
            Some (value_at n m, s\<lparr>om_pool := node_free n m, om_ck := (om_ck s)(i - 5 := ck\<lparr>ck_list := l\<rparr>)\<rparr>))
       else
         (let (pfn, pos, k) = (if ck_pos ck > 4096 div 2 ^ i
                               then (let (q, k) = os_pfn_alloc OS_DS_REG (om_km s) in (q, 0, k))
                               else (ck_pfn ck, ck_pos ck, om_km s))
          in Some (pfn * 4096 + pos * 2 ^ i,
              s\<lparr>om_km := k, om_ck := (om_ck s)(i - 5 := ck\<lparr>ck_pfn := pfn, ck_pos := (pos + 1) mod 2 ^ 16\<rparr>)\<rparr>)))"

definition os_free :: "nat \<Rightarrow> nat \<Rightarrow> osm \<Rightarrow> osm option" where
  "os_free ptr sz s =
    (if sz = 0 \<or> sz > 2048 then Some s
     else let ck = om_ck s (top_bit sz - 5) in
       (case enqueue_tail (ck_list ck) ptr (om_pool s) of None \<Rightarrow> None
        | Some (n, l, m) \<Rightarrow> Some (s\<lparr>om_pool := m, om_ck := (om_ck s)(top_bit sz - 5 := ck\<lparr>ck_list := l\<rparr>)\<rparr>)))"

subsection \<open>Lists\<close>

text \<open>
  The nodes \<open>ps\<close> hang one behind the other; the word \<open>next\<close> of the last is arbitrary.
\<close>

fun chain :: "pool \<Rightarrow> nat \<Rightarrow> nat list \<Rightarrow> bool" where
  "chain m p [] \<longleftrightarrow> True"
| "chain m p (q # ps) \<longleftrightarrow> next_of p m = q \<and> chain m q ps"

text \<open>
  A list with the nodes \<open>ps\<close>, while the pool has not been used up: all nodes lie below
  \<open>next_free\<close> and all words behind it are clear.
\<close>

definition list_ok :: "klist \<Rightarrow> pool \<Rightarrow> nat list \<Rightarrow> bool" where
  "list_ok l m ps \<longleftrightarrow> l_size l = length ps \<and> (l_head l = 0 \<longleftrightarrow> l_tail l = 0) \<and>
     (ps \<noteq> [] \<longrightarrow> l_head l \<noteq> 0 \<and> next_of (l_tail l) m = last ps) \<and> chain m (l_head l) ps \<and>
     distinct ps \<and> 0 \<notin> set ps \<and> (l_head l \<noteq> 0 \<longrightarrow> l_head l \<noteq> l_tail l \<and> l_head l \<notin> set ps \<and> l_tail l \<notin> set ps) \<and>
     (\<forall>p\<in>set ps \<union> {l_head l, l_tail l}. p \<le> p_next m) \<and>
     (\<forall>i. p_next m \<le> i \<and> i < NODES \<longrightarrow> n_next (p_nodes m i) = 0)"

definition pool_room :: "pool \<Rightarrow> bool" where
  "pool_room m \<longleftrightarrow> p_next m + 3 \<le> NODES \<and> 3 \<le> p_free m"

lemma next_of_set_next [simp]:
  "p \<noteq> 0 \<Longrightarrow> q \<noteq> 0 \<Longrightarrow> next_of q (set_next p v m) = (if q = p then v else next_of q m)"
  by (auto simp: next_of_def set_next_def)

lemma value_at_set_next [simp]: "value_at q (set_next p v m) = value_at q m"
  by (simp add: value_at_def set_next_def)

lemma set_next_sel [simp]: "p_next (set_next p v m) = p_next m" "p_free (set_next p v m) = p_free m"
  by (simp_all add: set_next_def)

lemma node_alloc_fresh:
  assumes "p_next m < NODES" "n_next (p_nodes m (p_next m)) = 0" "p_free m \<noteq> 0"
  shows "node_alloc m = Some (p_next m + 1, m\<lparr>p_next := p_next m + 1, p_free := p_free m - 1\<rparr>)"
proof -
  have "find (\<lambda>i. n_next (p_nodes m i) = 0) [p_next m..<NODES] = Some (p_next m)"
    using assms(1,2) by (simp add: upt_conv_Cons)
  then show ?thesis using assms by (simp add: node_alloc_def take_node_def)
qed

lemma chain_set_next:
  "p \<noteq> 0 \<Longrightarrow> x \<noteq> 0 \<Longrightarrow> 0 \<notin> set ps \<Longrightarrow> x \<noteq> p \<Longrightarrow> x \<notin> set (butlast ps) \<Longrightarrow> chain (set_next x v m) p ps = chain m p ps"
  by (induction ps arbitrary: p) (auto split: if_splits)

lemma chain_append: "chain m p (ps @ [n]) \<longleftrightarrow> chain m p ps \<and> next_of (last (p # ps)) m = n"
  by (induction ps arbitrary: p) auto

lemma chain_cong: "(\<And>q. q \<in> set (p # ps) \<Longrightarrow> next_of q m' = next_of q m) \<Longrightarrow> chain m' p ps = chain m p ps"
  by (induction ps arbitrary: p) auto

text \<open>What the laws below say about a list is all that its users need.\<close>

definition same_values :: "nat list \<Rightarrow> pool \<Rightarrow> pool \<Rightarrow> bool" where
  "same_values ps m m' \<longleftrightarrow> (\<forall>p\<in>set ps. value_at p m' = value_at p m)"

lemma new_node_ok:
  fixes item :: nat
  assumes ok: "list_ok l m ps" and r: "pool_room m"
  defines "n \<equiv> p_next m + 1"
  defines "m1 \<equiv> m\<lparr>p_next := n, p_free := p_free m - 1, p_nodes := (p_nodes m)(n - 1 := \<lparr>n_value = item, n_next = 0\<rparr>)\<rparr>"
  shows "new_node item m = Some (n, m1) \<and> n \<notin> set ps \<and> n \<noteq> 0 \<and> n \<noteq> l_head l \<and> n \<noteq> l_tail l \<and> value_at n m1 = item \<and>
    (\<forall>p. p \<noteq> 0 \<and> p \<noteq> n \<longrightarrow> next_of p m1 = next_of p m \<and> value_at p m1 = value_at p m) \<and> next_of n m1 = 0 \<and>
    list_ok l m1 ps"
proof -
  have z: "n_next (p_nodes m (p_next m)) = 0" "p_next m < NODES" "p_free m \<noteq> 0"
    using ok r by (auto simp: list_ok_def pool_room_def)
  have a: "new_node item m = Some (n, m1)"
    using node_alloc_fresh [OF z(2,1,3)] by (simp add: new_node_def n_def m1_def)
  have f: "n \<notin> set ps" "n \<noteq> l_head l" "n \<noteq> l_tail l" using ok by (auto simp: list_ok_def n_def)
  have nx: "next_of p m1 = next_of p m" "value_at p m1 = value_at p m" if "p \<noteq> 0" "p \<noteq> n" for p
    using that by (auto simp: next_of_def value_at_def m1_def n_def)
  have "chain m1 (l_head l) ps"
  proof (cases "ps = []")
    case False
    then have h: "l_head l \<noteq> 0" "0 \<notin> set ps" using ok by (auto simp: list_ok_def)
    have "q \<noteq> 0 \<and> q \<noteq> n" if "q \<in> set (l_head l # ps)" for q using that h f by (cases "q = 0") auto
    then have "chain m1 (l_head l) ps = chain m (l_head l) ps" using nx(1) by (intro chain_cong) blast
    then show ?thesis using ok by (simp add: list_ok_def)
  qed simp
  moreover have "ps \<noteq> [] \<longrightarrow> next_of (l_tail l) m1 = last ps" using ok nx [of "l_tail l"] f by (auto simp: list_ok_def)
  moreover have "p_next m1 = n" "\<And>i. n \<le> i \<Longrightarrow> p_nodes m1 i = p_nodes m i" by (auto simp: m1_def n_def)
  ultimately have "list_ok l m1 ps" using ok unfolding list_ok_def by (auto simp: n_def)
  then show ?thesis using a f nx by (simp add: n_def value_at_def next_of_def m1_def)
qed

lemma enqueue_nonempty:
  assumes ok: "list_ok l m ps" and r: "pool_room m" and ne: "ps \<noteq> []"
  shows "\<exists>l' m' n. enqueue_tail l item m = Some (length ps + 1, l', m') \<and> list_ok l' m' (ps @ [n]) \<and>
    value_at n m' = item \<and> same_values ps m m'"
proof -
  define n where "n = p_next m + 1"
  obtain m1 where m1: "new_node item m = Some (n, m1)" "n \<notin> set ps" "n \<noteq> 0" "n \<noteq> l_head l" "n \<noteq> l_tail l"
    "value_at n m1 = item" "\<And>p. p \<noteq> 0 \<Longrightarrow> p \<noteq> n \<Longrightarrow> value_at p m1 = value_at p m" "list_ok l m1 ps" "p_next m1 = n"
    using new_node_ok [OF ok r, of item] by (auto simp: n_def)
  let ?t = "l_tail l" and ?m = "set_next (l_tail l) n (set_next (last ps) n m1)"
  have t: "l_head l \<noteq> 0" "?t \<noteq> 0" "?t \<noteq> l_head l" "next_of ?t m1 = last ps" "0 \<notin> set ps" "?t \<notin> set ps" "l_head l \<notin> set ps"
    "distinct ps" "chain m1 (l_head l) ps" "l_size l = length ps"
    using m1(8) ne by (auto simp: list_ok_def)
  have lp: "last ps \<in> set ps" using ne by simp
  then have l0: "last ps \<noteq> 0" using t(5) by metis
  have run: "enqueue_tail l item m = Some (length ps + 1, l\<lparr>l_size := length ps + 1\<rparr>, ?m)"
    using m1(1) t(2,4,10) l0 ne by (simp add: enqueue_tail_def)
  have bl: "last ps \<notin> set (butlast ps)" using t(8) ne by (metis append_butlast_last_id distinct_append IntI empty_iff list.set_intros(1))
  have bt: "?t \<notin> set (butlast ps)" using t(6) by (meson in_set_butlastD)
  have "chain ?m (l_head l) ps"
    using chain_set_next [OF t(1,2,5)] chain_set_next [OF t(1) l0 t(5)] t(3,7,9) lp bl bt by metis
  moreover have "next_of (last ps) ?m = n" using lp l0 t(2,6) by auto
  ultimately have ch: "chain ?m (l_head l) (ps @ [n])" using ne by (simp add: chain_append)
  have clear: "n_next (p_nodes ?m i) = 0" if "n \<le> i" "i < NODES" for i
  proof -
    have "n_next (p_nodes m1 i) = 0" using m1(8,9) that by (auto simp: list_ok_def)
    moreover have "?t - 1 < n" "last ps - 1 < n" using m1(8,9) lp by (auto simp: list_ok_def)
    ultimately show ?thesis using that by (auto simp: set_next_def)
  qed
  have "list_ok (l\<lparr>l_size := length ps + 1\<rparr>) ?m (ps @ [n])"
    using ch clear m1 t lp l0 by (auto simp: list_ok_def)
  moreover have "q \<noteq> 0 \<and> q \<noteq> n" if "q \<in> set ps" for q using that t(5) m1(2) by metis
  then have "same_values ps m ?m" using m1(7) by (simp add: same_values_def)
  ultimately show ?thesis using run m1(6) by auto
qed

lemma enqueue_empty:
  assumes ok: "list_ok l m []" and r: "pool_room m"
  shows "\<exists>l' m' n. enqueue_tail l item m = Some (1, l', m') \<and> list_ok l' m' [n] \<and> value_at n m' = item"
proof -
  define n where "n = p_next m + 1"
  obtain m1 where m1: "new_node item m = Some (n, m1)" "n \<noteq> 0" "n \<noteq> l_head l" "n \<noteq> l_tail l"
    "value_at n m1 = item" "next_of n m1 = 0" "list_ok l m1 []" "p_next m1 = n" "p_free m1 = p_free m - 1"
    using new_node_ok [OF ok r, of item] by (auto simp: n_def)
  have sz: "l_size l = 0" using ok by (simp add: list_ok_def)
  obtain l1 m2 where e: "list_ends l m1 = Some (l1, m2)" "l_head l1 \<noteq> 0" "l_tail l1 \<noteq> 0" "l_head l1 \<noteq> l_tail l1"
    "n \<noteq> l_head l1" "n \<noteq> l_tail l1" "p_nodes m2 = p_nodes m1" "n \<le> p_next m2" "l_head l1 \<le> p_next m2" "l_tail l1 \<le> p_next m2"
  proof (cases "l_head l = 0")
    case False
    then show ?thesis using that [of l m1] m1 by (auto simp: list_ends_def list_ok_def)
  next
    case True
    have c: "n_next (p_nodes m1 i) = 0" if "n \<le> i" "i < NODES" for i using m1(7,8) that by (simp add: list_ok_def)
    have b: "n + 2 \<le> NODES" "2 \<le> p_free m1" using r m1(9) by (auto simp: pool_room_def n_def)
    have "node_alloc m1 = Some (n + 1, m1\<lparr>p_next := n + 1, p_free := p_free m1 - 1\<rparr>)"
      using node_alloc_fresh [of m1] c [of n] b m1(8) by simp
    moreover have "node_alloc (m1\<lparr>p_next := n + 1, p_free := p_free m1 - 1\<rparr>) =
        Some (n + 2, m1\<lparr>p_next := n + 2, p_free := p_free m1 - 2\<rparr>)"
      using node_alloc_fresh [of "m1\<lparr>p_next := n + 1, p_free := p_free m1 - 1\<rparr>"] c [of "n + 1"] b
      by (simp add: numeral_2_eq_2)
    ultimately have "list_ends l m1 = Some (l\<lparr>l_head := n + 1, l_tail := n + 2\<rparr>, m1\<lparr>p_next := n + 2, p_free := p_free m1 - 2\<rparr>)"
      using True by (simp add: list_ends_def)
    then show ?thesis using that by fastforce
  qed
  let ?m = "set_next n (l_tail l1) (set_next (l_tail l1) n (set_next (l_head l1) n m2))"
  have run: "enqueue_tail l item m = Some (1, l1\<lparr>l_size := 1\<rparr>, ?m)"
    using m1(1) sz e(1-3) by (simp add: enqueue_tail_def)
  have clear: "n_next (p_nodes ?m i) = 0" if "p_next m2 \<le> i" "i < NODES" for i
  proof -
    have "n_next (p_nodes m1 i) = 0" using m1(7,8) e(8) that by (auto simp: list_ok_def)
    then show ?thesis using that e m1(2) by (auto simp: set_next_def)
  qed
  have "list_ok (l1\<lparr>l_size := 1\<rparr>) ?m [n]" using clear e m1(2) by (auto simp: list_ok_def)
  moreover have "value_at n m2 = value_at n m1" using e(7) by (simp add: value_at_def)
  then have "value_at n ?m = item" using m1(5) by simp
  ultimately show ?thesis using run by blast
qed

lemma enqueue_ok:
  assumes "list_ok l m ps" "pool_room m"
  shows "\<exists>l' m' n. enqueue_tail l item m = Some (length ps + 1, l', m') \<and> list_ok l' m' (ps @ [n]) \<and>
    value_at n m' = item \<and> same_values ps m m'"
proof (cases "ps = []")
  case True
  then show ?thesis using enqueue_empty [of l m item] assms by (auto simp: same_values_def)
next
  case False
  then show ?thesis using enqueue_nonempty assms by blast
qed

lemma dequeue_ok:
  assumes ok: "list_ok l m (p # ps)"
  shows "\<exists>l' m'. dequeue_front l m = Some (p, l', m') \<and> list_ok l' (node_free p m') ps \<and>
    value_at p m' = value_at p m \<and> same_values ps m (node_free p m')"
proof -
  let ?h = "l_head l" and ?t = "l_tail l"
  let ?m' = "set_next (l_head l) (next_of p m) m"
  have f: "?h \<noteq> 0" "?t \<noteq> 0" "?h \<noteq> ?t" "next_of ?t m = last (p # ps)" "next_of ?h m = p" "chain m p ps" "p \<noteq> 0" "p \<notin> set ps"
    "0 \<notin> set ps" "distinct ps" "?h \<noteq> p" "?t \<noteq> p" "?h \<notin> set ps" "?t \<notin> set ps" "l_size l = Suc (length ps)"
    using ok by (auto simp: list_ok_def)
  have run: "dequeue_front l m = Some (p, l\<lparr>l_size := length ps\<rparr>, ?m')"
    using f(1,5,7,15) by (simp add: dequeue_front_def)
  let ?m = "node_free p ?m'"
  have nx: "next_of q ?m = next_of q m" if "q \<noteq> 0" "q \<noteq> p" "q \<noteq> ?h" for q
    using that f(1,7) by (simp add: node_free_def) (simp add: next_of_def set_next_def)
  have "chain ?m ?h ps"
  proof (cases ps)
    case (Cons q qs)
    have "next_of ?h ?m = q" using f Cons by (simp add: node_free_def) (simp add: next_of_def set_next_def)
    moreover have "x \<noteq> 0 \<and> x \<noteq> p \<and> x \<noteq> ?h" if "x \<in> set (q # qs)" for x using that f(8,9,13) Cons by metis
    then have "chain ?m q qs = chain m q qs" using nx by (intro chain_cong) blast
    ultimately show ?thesis using f(6) Cons by simp
  qed simp
  moreover have "ps \<noteq> [] \<longrightarrow> next_of ?t ?m = last ps" using nx [of ?t] f(2,3,4,12) by auto
  moreover have "n_next (p_nodes ?m i) = 0" if "p_next m \<le> i" "i < NODES" for i
    using ok that by (auto simp: list_ok_def node_free_def set_next_def)
  ultimately have "list_ok (l\<lparr>l_size := length ps\<rparr>) ?m ps"
    using ok f by (auto simp: list_ok_def node_free_def)
  moreover have "value_at q ?m = value_at q m" for q by (simp add: node_free_def) (simp add: value_at_def set_next_def)
  ultimately show ?thesis using run by (auto simp: same_values_def)
qed

subsection \<open>A queue of numbers\<close>

text \<open>
  The contract of a list: its items leave in the order in which they came.
\<close>

locale num_queue =
  fixes put :: "nat \<Rightarrow> 'q \<Rightarrow> 'q option"
    and get :: "'q \<Rightarrow> (nat \<times> 'q) option"
    and holds :: "'q \<Rightarrow> nat list \<Rightarrow> bool"
    and ready :: "'q \<Rightarrow> bool"
  assumes put_law: "holds q xs \<Longrightarrow> ready q \<Longrightarrow> \<exists>q'. put x q = Some q' \<and> holds q' (xs @ [x])"
    and get_law: "holds q (x # xs) \<Longrightarrow> \<exists>q'. get q = Some (x, q') \<and> holds q' xs"
begin

text \<open>An item that is put in comes out after everything that was there before.\<close>

lemma put_get:
  assumes "holds q xs" "ready q"
  shows "\<exists>q1 q2. put x q = Some q1 \<and> get q1 = Some (hd (xs @ [x]), q2) \<and> holds q2 (tl (xs @ [x]))"
proof -
  obtain q1 where q1: "put x q = Some q1" "holds q1 (xs @ [x])" using put_law [OF assms] by blast
  have "xs @ [x] = hd (xs @ [x]) # tl (xs @ [x])" by simp
  then show ?thesis using q1 get_law [of q1 "hd (xs @ [x])" "tl (xs @ [x])"] by auto
qed

end

text \<open>The free list of a class \<open>c\<close> holds these addresses.\<close>

definition free_list :: "nat \<Rightarrow> osm \<Rightarrow> nat list \<Rightarrow> bool" where
  "free_list c s vs \<longleftrightarrow> (\<exists>ps. list_ok (ck_list (om_ck s c)) (om_pool s) ps \<and> map (\<lambda>p. value_at p (om_pool s)) ps = vs)"

lemma top_bit_power:
  assumes "c \<le> 6"
  shows "top_bit (2 ^ (c + 5)) = c + 5"
proof -
  have "c \<in> {0, 1, 2, 3, 4, 5, 6}" using assms by auto
  then show ?thesis by (auto simp: top_bit_def bit_simps)
qed

lemma power_range: "c \<le> 6 \<Longrightarrow> (2 :: nat) ^ (c + 5) \<le> 2048"
  using power_increasing [of "c + 5" 11 "2 :: nat"] by simp

lemma os_free_class:
  assumes "c \<le> 6"
  shows "os_free ptr (2 ^ (c + 5)) s =
    (case enqueue_tail (ck_list (om_ck s c)) ptr (om_pool s) of None \<Rightarrow> None
     | Some (n, l, m) \<Rightarrow> Some (s\<lparr>om_pool := m, om_ck := (om_ck s)(c := (om_ck s c)\<lparr>ck_list := l\<rparr>)\<rparr>))"
  using power_range [OF assms] unfolding os_free_def top_bit_power [OF assms] Let_def by (simp split: option.splits)

lemma os_alloc_class:
  assumes "c \<le> 6" "l_size (ck_list (om_ck s c)) \<noteq> 0"
  shows "os_alloc (2 ^ (c + 5)) s =
    (case dequeue_front (ck_list (om_ck s c)) (om_pool s) of None \<Rightarrow> None
     | Some (n, l, m) \<Rightarrow>
       Some (value_at n m, s\<lparr>om_pool := node_free n m, om_ck := (om_ck s)(c := (om_ck s c)\<lparr>ck_list := l\<rparr>)\<rparr>))"
  using power_range [OF assms(1)] assms(2)
  unfolding os_alloc_def top_bit_power [OF assms(1)] Let_def by (simp split: option.splits)

interpretation os_chunks: num_queue "\<lambda>ptr. os_free ptr (2 ^ (min c 6 + 5))" "os_alloc (2 ^ (min c 6 + 5))"
  "free_list (min c 6)" "\<lambda>s. pool_room (om_pool s)" for c
proof
  fix s vs ptr
  let ?c = "min c 6"
  assume "free_list ?c s vs" and r: "pool_room (om_pool s)"
  then obtain ps where ps: "list_ok (ck_list (om_ck s ?c)) (om_pool s) ps" "map (\<lambda>p. value_at p (om_pool s)) ps = vs"
    by (auto simp: free_list_def)
  obtain l m n where e: "enqueue_tail (ck_list (om_ck s ?c)) ptr (om_pool s) = Some (length ps + 1, l, m)"
    "list_ok l m (ps @ [n])" "value_at n m = ptr" "same_values ps (om_pool s) m"
    using enqueue_ok [OF ps(1) r] by blast
  then show "\<exists>s'. os_free ptr (2 ^ (?c + 5)) s = Some s' \<and> free_list ?c s' (vs @ [ptr])"
    using ps(2) by (auto simp: os_free_class free_list_def same_values_def intro!: exI [of _ "ps @ [n]"])
next
  fix s x vs
  let ?c = "min c 6"
  assume "free_list ?c s (x # vs)"
  then obtain ps' where "list_ok (ck_list (om_ck s ?c)) (om_pool s) ps'" "map (\<lambda>p. value_at p (om_pool s)) ps' = x # vs"
    by (auto simp: free_list_def)
  then obtain p ps where ps: "list_ok (ck_list (om_ck s ?c)) (om_pool s) (p # ps)" "value_at p (om_pool s) = x"
    "map (\<lambda>p. value_at p (om_pool s)) ps = vs" by (cases ps') auto
  obtain l m where d: "dequeue_front (ck_list (om_ck s ?c)) (om_pool s) = Some (p, l, m)" "list_ok l (node_free p m) ps"
    "value_at p m = x" "same_values ps (om_pool s) (node_free p m)" using dequeue_ok [OF ps(1)] ps(2) by metis
  have "l_size (ck_list (om_ck s ?c)) \<noteq> 0" using ps(1) by (auto simp: list_ok_def)
  from os_alloc_class [OF _ this] d ps(3) show "\<exists>s'. os_alloc (2 ^ (?c + 5)) s = Some (x, s') \<and> free_list ?c s' vs"
    by (auto simp: free_list_def same_values_def intro!: exI [of _ ps])
qed

lemma top_bit_range:
  assumes "2 ^ k \<le> sz" "sz < 2 ^ Suc k" "5 \<le> k" "k \<le> 11"
  shows "top_bit sz = k"
proof -
  have hi: "\<not> bit sz j" if "k < j" for j
  proof -
    have "sz < 2 ^ j" using assms(2) power_increasing [of "Suc k" j "2 :: nat"] that by simp
    then show ?thesis by (simp add: bit_iff_odd)
  qed
  have "sz div 2 ^ k = 1" using assms(1,2) by (intro div_nat_eqI) simp_all
  then have "bit sz k" by (simp add: bit_iff_odd)
  moreover have "k \<in> {5, 6, 7, 8, 9, 10, 11}" using assms(3,4) by auto
  ultimately show ?thesis using hi by (auto simp: top_bit_def)
qed

text \<open>The class in which \<open>os_free\<close> puts a chunk: that of the highest bit of the size, 32 for all sizes below 64.\<close>

lemma top_bit_class:
  assumes "0 < sz" "sz \<le> 2048" "sz < 2 ^ (c + 6)" "c = 0 \<or> 2 ^ (c + 5) \<le> sz"
  shows "c \<le> 6 \<and> top_bit sz = c + 5"
proof (cases "c = 0")
  case True
  have "\<not> bit sz j" if "6 \<le> j" for j
  proof -
    have "sz < 2 ^ j" using assms(3) True power_increasing [of 6 j "2 :: nat"] that by simp
    then show ?thesis by (simp add: bit_iff_odd)
  qed
  then show ?thesis using True by (simp add: top_bit_def)
next
  case False
  then have lo: "2 ^ (c + 5) \<le> sz" using assms(4) by simp
  have "c \<le> 6"
  proof (rule ccontr)
    assume "\<not> c \<le> 6"
    then have "(2 :: nat) ^ 12 \<le> 2 ^ (c + 5)" by (intro power_increasing) auto
    with lo assms(2) show False by simp
  qed
  then show ?thesis using top_bit_range [of "c + 5" sz] lo assms(3) by (simp add: eval_nat_numeral)
qed

text \<open>
  C39. Freed chunks.  For every size from 1 to 2048, \<open>os_free\<close> appends the chunk to the free
  list of the class of the highest bit of the size (the class of 32 bytes for all
  sizes below 64), as long as the pool of list nodes is not used up.  If the size is
  exactly that of this class, one of 32, 64, up to 2048, then \<open>os_alloc\<close> of this size
  returns the chunk that has been in the list for the longest time (the freed one if
  the list was empty), and the list keeps the others in order.  For every other size,
  in particular for every size below 32, \<open>os_alloc\<close> of the same size does not look at
  this list: it takes its chunk from the next larger class and the freed chunk stays
  where it is.
\<close>

theorem os_free_alloc:
  assumes sz: "0 < sz" "sz \<le> 2048" "sz < 2 ^ (c + 6)" "c = 0 \<or> 2 ^ (c + 5) \<le> sz"
    and fl: "free_list c s vs" "pool_room (om_pool s)"
  shows "\<exists>s1. os_free ptr sz s = Some s1 \<and> free_list c s1 (vs @ [ptr]) \<and>
    (if sz = 2 ^ (c + 5)
     then \<exists>s2. os_alloc sz s1 = Some (hd (vs @ [ptr]), s2) \<and> free_list c s2 (tl (vs @ [ptr]))
     else \<forall>a s2. os_alloc sz s1 = Some (a, s2) \<longrightarrow> om_ck s2 c = om_ck s1 c)"
proof -
  have c: "c \<le> 6" "top_bit sz = c + 5" using top_bit_class [OF sz] by auto
  then have m: "min c 6 = c" by simp
  have "os_free ptr sz s = os_free ptr (2 ^ (c + 5)) s"
    using sz(1,2) power_range [OF c(1)] unfolding os_free_def c(2) top_bit_power [OF c(1)] by simp
  then obtain s1 where s1: "os_free ptr sz s = Some s1" "free_list c s1 (vs @ [ptr])"
    using os_chunks.put_law [of c s vs ptr, unfolded m] fl by auto
  have "\<exists>s2. os_alloc sz s1 = Some (hd (vs @ [ptr]), s2) \<and> free_list c s2 (tl (vs @ [ptr]))" if "sz = 2 ^ (c + 5)"
    using os_chunks.get_law [of c s1 "hd (vs @ [ptr])" "tl (vs @ [ptr])", unfolded m] s1(2) that by simp
  moreover have "om_ck s2 c = om_ck s1 c" if "sz \<noteq> 2 ^ (c + 5)" "os_alloc sz s1 = Some (a, s2)" for a s2
    using that sz(1,2) by (auto simp: os_alloc_def c(2) Let_def split: if_splits option.splits prod.splits)
  ultimately show ?thesis using s1 by auto
qed

definition boot_osm :: osm where
  "boot_osm = \<lparr>om_km = boot_mem, om_pool = \<lparr>p_nodes = (\<lambda>_. \<lparr>n_value = 0, n_next = 0\<rparr>), p_next = 0, p_free = 25344\<rparr>,
     om_ck = (\<lambda>c. \<lparr>ck_size = 2 ^ (c + 5), ck_pos = 128, ck_pfn = 0x900, ck_list = init_list\<rparr>)\<rparr>"

lemma boot_free_list: "free_list c boot_osm []"
  by (simp add: free_list_def boot_osm_def list_ok_def init_list_def)

theorem os_free_alloc_witness:
  "\<exists>s1 s2 t1. os_free 0x901000 32 boot_osm = Some s1 \<and> os_alloc 32 s1 = Some (0x901000, s2) \<and> free_list 0 s2 [] \<and>
     os_free 0x901000 16 boot_osm = Some t1 \<and> (\<forall>a t2. os_alloc 16 t1 = Some (a, t2) \<longrightarrow> om_ck t2 0 = om_ck t1 0)"
proof -
  have r: "pool_room (om_pool boot_osm)" by (simp add: boot_osm_def pool_room_def NODES_def)
  have "\<exists>s1 s2. os_free 0x901000 32 boot_osm = Some s1 \<and> os_alloc 32 s1 = Some (0x901000, s2) \<and> free_list 0 s2 []"
    using os_free_alloc [OF _ _ _ _ boot_free_list r, of 32 0 "0x901000"] by auto
  moreover have "\<exists>t1. os_free 0x901000 16 boot_osm = Some t1 \<and> (\<forall>a t2. os_alloc 16 t1 = Some (a, t2) \<longrightarrow> om_ck t2 0 = om_ck t1 0)"
    using os_free_alloc [OF _ _ _ _ boot_free_list r, of 16 0 "0x901000"] by auto
  ultimately show ?thesis by blast
qed

text \<open>From 32 bytes on, the class in which \<open>os_alloc\<close> looks is the smallest that fits; below, it is that of 64 bytes.\<close>

lemma size_class:
  assumes "c \<le> 6" "sz \<le> 2 ^ (c + 5)" "2 ^ (c + 4) < sz" "32 \<le> sz"
  shows "(if 2 ^ top_bit sz \<noteq> sz then top_bit sz + 1 else top_bit sz) = c + 5"
proof (cases "sz = 2 ^ (c + 5)")
  case True
  then show ?thesis using top_bit_power [OF assms(1)] by simp
next
  case False
  then have "c \<noteq> 0" using assms(2,4) by (cases c) auto
  moreover have "top_bit sz = c + 4"
  proof (rule top_bit_range)
    have "sz < 2 ^ (c + 5)" using assms(2) False by (rule le_neq_implies_less)
    then show "sz < 2 ^ Suc (c + 4)" by (simp add: add.commute)
  qed (use assms calculation in simp_all)
  ultimately show ?thesis using assms(3) by simp
qed

lemma size_class_below:
  assumes "0 < sz" "sz < 32"
  shows "(if 2 ^ top_bit sz \<noteq> sz then top_bit sz + 1 else top_bit sz) = 6"
  using top_bit_class [of sz 0] assms by simp

text \<open>
  C40. Chunks that are cut from a page, for every size from 1 to 2048.  The class is the
  smallest that fits for 32 bytes and more; for less than 32 bytes it is that of 64
  bytes, although a chunk of 32 would do.  With an empty free list, \<open>os_alloc\<close> returns the
  next chunk of the current page of the class; it is at least as large as requested
  and lies inside the page as long as the position is below the number of chunks of
  a page.  But the test for the end of the page is off by one: at the position that
  equals the number of chunks the chunk returned begins behind the page, where
  another object lives.
\<close>

theorem os_alloc_fresh:
  assumes sz: "0 < sz" "sz \<le> 2048" "sz < 32 \<and> c = 1 \<or> 32 \<le> sz \<and> sz \<le> 2 ^ (c + 5) \<and> 2 ^ (c + 4) < sz"
    and ck: "l_size (ck_list (om_ck s c)) = 0" "ck_pos (om_ck s c) \<le> 4096 div 2 ^ (c + 5)"
  defines "base \<equiv> ck_pfn (om_ck s c) * 4096"
  shows "\<exists>a s'. os_alloc sz s = Some (a, s') \<and> a = base + ck_pos (om_ck s c) * 2 ^ (c + 5) \<and>
    ck_pos (om_ck s' c) = ck_pos (om_ck s c) + 1 \<and>
    (ck_pos (om_ck s c) < 4096 div 2 ^ (c + 5) \<longrightarrow> a + sz \<le> base + 4096) \<and>
    (ck_pos (om_ck s c) = 4096 div 2 ^ (c + 5) \<longrightarrow> a = base + 4096)"
proof -
  let ?pos = "ck_pos (om_ck s c)" and ?a = "base + ck_pos (om_ck s c) * 2 ^ (c + 5)"
  have c6: "c \<le> 6"
  proof (rule ccontr)
    assume "\<not> c \<le> 6"
    then have "(2 :: nat) ^ 11 \<le> 2 ^ (c + 4)" by (intro power_increasing) auto
    with sz \<open>\<not> c \<le> 6\<close> show False by auto
  qed
  then have c: "c \<in> {0, 1, 2, 3, 4, 5, 6}" by auto
  have le: "sz \<le> 2 ^ (c + 5)" using sz(3) by auto
  have cl: "(if 2 ^ top_bit sz \<noteq> sz then top_bit sz + 1 else top_bit sz) = c + 5"
    using sz(3)
  proof
    assume "sz < 32 \<and> c = 1"
    then show ?thesis using size_class_below [OF sz(1)] by simp
  next
    assume "32 \<le> sz \<and> sz \<le> 2 ^ (c + 5) \<and> 2 ^ (c + 4) < sz"
    then show ?thesis using size_class [OF c6] by blast
  qed
  have b: "?pos \<le> 128" using c ck(2) by auto
  have "c + 5 - 5 = c" by simp
  then have "\<exists>s'. os_alloc sz s = Some (?a, s') \<and> ck_pos (om_ck s' c) = ?pos + 1"
    using sz(1,2) ck b unfolding os_alloc_def Let_def cl by (simp add: base_def)
  moreover have d: "4096 div 2 ^ (c + 5) * 2 ^ (c + 5) = (4096 :: nat)" using c by auto
  moreover have "?a + sz \<le> base + 4096" if "?pos < 4096 div 2 ^ (c + 5)"
    using mult_le_mono1 [of "Suc ?pos" "4096 div 2 ^ (c + 5)" "2 ^ (c + 5)"] that d le by simp
  moreover have "?a = base + 4096" if "?pos = 4096 div 2 ^ (c + 5)" using that d by simp
  ultimately show ?thesis by blast
qed

theorem os_alloc_fresh_witness:
  "(\<exists>s'. os_alloc 32 boot_osm = Some (0x900000 + 4096, s')) \<and>
   (\<exists>s'. os_alloc 20 (boot_osm\<lparr>om_ck := (om_ck boot_osm)(1 := (om_ck boot_osm 1)\<lparr>ck_pos := 3\<rparr>)\<rparr>) = Some (0x900000 + 3 * 64, s'))"
  using os_alloc_fresh [of 32 0 boot_osm]
    os_alloc_fresh [of 20 1 "boot_osm\<lparr>om_ck := (om_ck boot_osm)(1 := (om_ck boot_osm 1)\<lparr>ck_pos := 3\<rparr>)\<rparr>"]
  by (auto simp: boot_osm_def init_list_def)

end
