(* ===== verification/Boot.thy ===== *)
theory Boot
  imports Syscall BootTable OsAlloc
begin

text \<open>
  Launching the first process: \<open>init_swapper\<close>, \<open>create_context\<close>, \<open>exec_init\<close> and the
  construction of its page table in src/Assignment3/Ass3/src/context.c, the mapping of
  the interrupt controller in apic.c, the command \<open>init\<close> of shell.c, and the release of
  everything in \<open>do_cleanup\<close>.  The address of the interrupt controller (\<open>apic\<close>, read from a
  machine register), the configuration switches \<open>g\<close> (\<open>global_mapping\<close>) and \<open>ag\<close>
  (\<open>adv_global\<close>) and the register values that the inline assembly reads are arguments.
\<close>

section \<open>Definitions\<close>

subsection \<open>Contexts\<close>

text \<open>
  The page of the process table is cleared; \<open>task\<close> is the address of \<open>swapper_task\<close>.
\<close>

definition init_swapper :: "u64 \<Rightarrow> u64 \<Rightarrow> u64 \<Rightarrow> u64 \<Rightarrow> os \<Rightarrow> os" where
  "init_swapper task ss cs rflags s =
     (let (ctx_l, m1) = os_pfn_alloc OS_PT_REG (mem s);
          (stk, m2) = os_pfn_alloc OS_PT_REG m1;
          rsp = stk * 4096 + 4096
      in s\<lparr>mem := m2, ctxs := (\<lambda>_. zero_ctx)(0 := zero_ctx
           \<lparr>ctx_state := READY, pgd := 0x70, ctx_name := ''swapper'', os_stack_pfn := stk, os_rsp := rsp,
            regs := zero_regs\<lparr>entry_rip := task, entry_rsp := of_nat rsp, entry_ss := ss,
                              entry_rflags := rflags, entry_cs := cs\<rparr>\<rparr>)\<rparr>)"

text \<open>
  \<open>memcpy(ctx->name, name, strlen(name))\<close> does not write the final zero, so the end of a
  longer name stays.  Everything that is not assigned keeps the value that the last
  process in this slot left.
\<close>

definition init_segments :: "(mm_seg \<Rightarrow> mm_segment) \<Rightarrow> mm_seg \<Rightarrow> mm_segment" where
  "init_segments mm =
     mm(MM_SEG_CODE := (mm MM_SEG_CODE)\<lparr>seg_start := CODE_START, seg_end := RODATA_START - 1, seg_flags := 5\<rparr>,
        MM_SEG_RODATA := (mm MM_SEG_RODATA)\<lparr>seg_start := RODATA_START, next_free := RODATA_START,
                                           seg_end := DATA_START - 1, seg_flags := 1\<rparr>,
        MM_SEG_DATA := (mm MM_SEG_DATA)\<lparr>seg_start := DATA_START, seg_end := MMAP_AREA - 1, seg_flags := 3\<rparr>,
        MM_SEG_STACK := (mm MM_SEG_STACK)\<lparr>seg_start := STACK_START - MAX_STACK_SIZE,
                                         seg_end := STACK_START, seg_flags := 3\<rparr>)"

definition create_context :: "string \<Rightarrow> nat \<Rightarrow> os \<Rightarrow> (nat \<times> os) option" where
  "create_context name ty s =
     (case get_new_ctx s of None \<Rightarrow> None
      | Some (n, s1) \<Rightarrow>
          (let (stk, m) = os_pfn_alloc OS_PT_REG (mem s1)
           in Some (n, upd_ctx n (\<lambda>c. c\<lparr>ctx_state := NEW, ctx_type := ty, used_mem := 0, pgd := 0,
                os_stack_pfn := stk, os_rsp := (stk + 1) * 4096,
                ctx_name := name @ drop (length name) (ctx_name c),
                mms := init_segments (mms c)\<rparr>) (s1\<lparr>mem := m\<rparr>))))"

subsection \<open>The first process\<close>

record init_args =
  arg_rdi :: u64
  arg_rsi :: u64
  arg_rcx :: u64
  arg_rdx :: u64
  arg_r8 :: u64

text \<open>
  \<open>install_os_pts\<close> always returns 0.  The assembly at the end loads the registers and
  enters user mode with interrupts on; \<open>rf\<close> is the flags register.
\<close>

definition exec_init :: "nat \<Rightarrow> bool \<Rightarrow> bool \<Rightarrow> u64 \<Rightarrow> init_args \<Rightarrow> nat \<Rightarrow> nat \<Rightarrow> os \<Rightarrow> nat \<times> os" where
  "exec_init apic g ag rf args n om s =
     (let mm = mms (ctxs s n);
          (pg, om', m) = init_memory apic g ag mm om (mem s);
          mm' = mm(MM_SEG_CODE := (mm MM_SEG_CODE)
                     \<lparr>next_free := add64 (seg_start (mm MM_SEG_CODE)) (CODE_PAGES * 4096)\<rparr>,
                   MM_SEG_DATA := (mm MM_SEG_DATA)\<lparr>next_free := add64 (seg_start (mm MM_SEG_DATA)) 4096\<rparr>,
                   MM_SEG_STACK := (mm MM_SEG_STACK)\<lparr>next_free := sub64 (seg_end (mm MM_SEG_STACK)) 4096\<rparr>);
          s1 = upd_ctx n (\<lambda>c. c\<lparr>pgd := pg, mms := mm', ctx_state := RUNNING\<rparr>) s
      in (om', s1\<lparr>mem := m, cur := n, st_num_processes := add64 (st_num_processes s) 1,
            cpu := (cpu s)\<lparr>entry_rip := of_nat CODE_START, entry_rsp := of_nat STACK_START,
                    entry_ss := 0x2b, entry_cs := 0x23, entry_rflags := rf OR 0x200,
                    rdi := arg_rdi args, rsi := arg_rsi args, rcx := arg_rcx args,
                    rdx := arg_rdx args, r8 := arg_r8 args\<rparr>\<rparr>))"

text \<open>The command \<open>init\<close> of the shell.\<close>

definition shell_init :: "nat \<Rightarrow> bool \<Rightarrow> bool \<Rightarrow> u64 \<Rightarrow> init_args \<Rightarrow> nat \<Rightarrow> os \<Rightarrow> (nat \<times> os) option" where
  "shell_init apic g ag rf args om s =
     (case create_context ''init'' 2 s of None \<Rightarrow> None
      | Some (n, s1) \<Rightarrow> Some (exec_init apic g ag rf args n om s1))"

text \<open>\<open>set_process_state\<close>, with the states in the order of schedule.h.\<close>

definition set_process_state :: "nat \<Rightarrow> nat \<Rightarrow> os \<Rightarrow> int \<times> os" where
  "set_process_state n st s =
     (if st \<ge> 6 then (-1, s) else (0, set_state n ([UNUSED, NEW, READY, RUNNING, WAITING, EXITING] ! st) s))"

text \<open>
  \<open>setup_gdt_tss\<close>: the descriptors (8 bytes each) in the table at frame \<open>gf\<close>, of which \<open>n\<close> exist;
  the fields of a descriptor are written one after the other.  Then one page for the
  task state segment and one for the interrupt stack, whose end goes to the field \<open>ist1\<close>
  (bytes 36 to 43).
\<close>

definition gdt_desc :: "u64 \<Rightarrow> u64 \<Rightarrow> u64 \<Rightarrow> u64 \<Rightarrow> u64 \<Rightarrow> u64" where
  "gdt_desc limit_low base ac_byte limit_high flags =
     limit_low OR push_bit 16 (base AND 0xffffff) OR push_bit 40 ac_byte OR
     push_bit 48 limit_high OR push_bit 52 flags OR push_bit 56 (drop_bit 24 base AND 0xff)"

definition set_lo32 :: "u64 \<Rightarrow> u64 \<Rightarrow> u64" where
  "set_lo32 w v = (w AND 0xffffffff00000000) OR (v AND 0xffffffff)"

definition set_hi32 :: "u64 \<Rightarrow> u64 \<Rightarrow> u64" where
  "set_hi32 w v = (w AND 0xffffffff) OR push_bit 32 (v AND 0xffffffff)"

definition setup_gdt_tss :: "nat \<Rightarrow> nat \<Rightarrow> kmem \<Rightarrow> kmem" where
  "setup_gdt_tss gf n s =
     (let s1 = fold (\<lambda>i t. wr t (gf, i) (rd t (gf, i) OR 0xffff)) [0..<n] s;
          s2 = wr s1 (gf, n) (gdt_desc 0xffff 0 0xfa 0xf 0xa);
          s3 = wr s2 (gf, n + 1) (gdt_desc 0xffff 0 0xf2 0xf 0xa);
          (tss, s4) = os_pfn_alloc OS_PT_REG s3;
          tss_page = of_nat (tss * 4096);
          s5 = wr (zero_frame tss s4) (gf, n + 2) (gdt_desc 1 tss_page 0xe9 0 8);
          s6 = wr s5 (gf, n + 3) (drop_bit 32 tss_page);
          (irq, s7) = os_pfn_alloc OS_PT_REG s6;
          irq_stack = of_nat ((irq + 1) * 4096);
          s8 = wr s7 (tss, 4) (set_hi32 (rd s7 (tss, 4)) irq_stack)
      in wr s8 (tss, 5) (set_lo32 (rd s8 (tss, 5)) (drop_bit 32 irq_stack)))"

text \<open>
  \<open>setup_idt\<close>: a page with 256 gates of 16 bytes.  The addresses of the handlers come from
  the assembly files.
\<close>

record handlers =
  handle_div_by_zero :: u64
  handle_page_fault :: u64
  handle_gp :: u64
  handle_syscall :: u64
  handle_irq :: u64

definition create_idt :: "u64 \<Rightarrow> u64 \<Rightarrow> u64 \<Rightarrow> u64 \<times> u64" where
  "create_idt type callback ist =
     ((callback AND 0xffff) OR push_bit 16 8 OR push_bit 32 ist OR push_bit 40 type OR
        push_bit 48 (drop_bit 16 callback AND 0xffff),
      drop_bit 32 callback)"

definition idt_gate :: "handlers \<Rightarrow> nat \<Rightarrow> (u64 \<times> u64) option" where
  "idt_gate h i =
     (if i = 0 then Some (create_idt 0xEE (handle_div_by_zero h) 0)
      else if i = 0xE then Some (create_idt 0xEE (handle_page_fault h) 0)
      else if i = 0xD then Some (create_idt 0xEE (handle_gp h) 0)
      else if i = 0x80 then Some (create_idt 0xEE (handle_syscall h) 0)
      else if i = 255 \<or> i = 32 then Some (create_idt 0x8E (handle_irq h) 1)
      else None)"

definition put_gate :: "handlers \<Rightarrow> nat \<Rightarrow> nat \<Rightarrow> kmem \<Rightarrow> kmem" where
  "put_gate h t i s =
     (case idt_gate h i of
        Some (lo, hi) \<Rightarrow> wr (wr s (t, 2 * i) lo) (t, 2 * i + 1) hi
      | None \<Rightarrow> wr s (t, 2 * i) (rd s (t, 2 * i) AND 0xffff00ffffffffff))"

definition setup_idt :: "handlers \<Rightarrow> kmem \<Rightarrow> kmem" where
  "setup_idt h s = (let (t, s1) = os_pfn_alloc OS_PT_REG s in fold (put_gate h t) [0..<256] s1)"

text \<open>
  \<open>kmain\<close> up to the shell: memory, the tables of the processor, two flags of the first entry of
  the page table that the machine starts with (at frame \<open>cr3\<close>), the swapper, the records
  \<open>stats\<close> (12 numbers) and \<open>config\<close> (4) from the allocator of small objects.  The registers of
  the interrupt controller, which \<open>init_apic\<close> writes, and the instructions that load table
  registers are not part of the state; nor is the stack pointer in the task state
  segment that \<open>set_tss_stack_ptr\<close> replaces at every switch of processes.
\<close>

definition clear_stats :: "kmem \<Rightarrow> kmem" where
  "clear_stats m = m\<lparr>user_reg_pages := 0, num_vm_area := 0\<rparr>"

definition kmain ::
  "(region \<Rightarrow> nat \<Rightarrow> u32) \<Rightarrow> nat \<Rightarrow> handlers \<Rightarrow> u64 \<Rightarrow> u64 \<Rightarrow> u64 \<Rightarrow> u64 \<Rightarrow> osm \<Rightarrow> os \<Rightarrow> (osm \<times> os) option" where
  "kmain bms cr3 h task ss cs rflags o0 s0 =
     (let o1 = init_mems bms o0;
          m1 = setup_idt h (setup_gdt_tss 0x76 ((31 + 1) div 8) (om_km o1));
          m2 = wr m1 (cr3, 0) (rd m1 (cr3, 0) AND 0xfffffffffffffff3);
          s1 = init_swapper task ss cs rflags (s0\<lparr>mem := m2\<rparr>)
      in case os_alloc 96 (o1\<lparr>om_km := mem s1\<rparr>) of None \<Rightarrow> None
         | Some (st, o2) \<Rightarrow>
             (case os_alloc 32 o2 of None \<Rightarrow> None
              | Some (cf, o3) \<Rightarrow>
                  Some (o3, s1\<lparr>mem := clear_stats (om_km o3), st_syscalls := 0, st_ticks := 0, st_context_switches := 0,
                    st_num_processes := 0, st_page_faults := 0, st_cow_page_faults := 0, st_mmap_page_faults := 0\<rparr>)))"

subsection \<open>Release\<close>

text \<open>
  \<open>None\<close>: the page of the interrupt controller is found as a leaf, and its registers
  would be taken for table entries.
\<close>

primrec pt_cleanup :: "nat \<Rightarrow> nat \<Rightarrow> nat \<Rightarrow> kmem \<Rightarrow> kmem option" where
  "pt_cleanup apic 0 =
     (\<lambda>pfn s. if is_apic_base apic pfn then None else Some (os_pfn_free USER_REG pfn s))"
| "pt_cleanup apic (Suc l) =
     (\<lambda>pfn s.
        case fold (\<lambda>i r. case r of None \<Rightarrow> None
                | Some t \<Rightarrow> (if rd t (pfn, i) AND 1 = 0 then Some t
                     else (case pt_cleanup apic l (entry_frame (rd t (pfn, i))) t of None \<Rightarrow> None
                           | Some t' \<Rightarrow> Some (wr t' (pfn, i) 0))))
             [(if Suc l = 3 then 2 else 0)..<512] (Some s) of
          None \<Rightarrow> None
        | Some s' \<Rightarrow> Some (if is_apic_base apic pfn then s' else os_pfn_free OS_PT_REG pfn s'))"

definition do_cleanup :: "nat \<Rightarrow> nat \<Rightarrow> os \<Rightarrow> os option" where
  "do_cleanup apic om s =
     (let c = ctxs s (cur s); m1 = os_pfn_free OS_PT_REG (os_stack_pfn c) (mem s)
      in case remove_apic_mapping apic (pgd c) m1 of None \<Rightarrow> None
         | Some m2 \<Rightarrow>
             (case pt_cleanup apic 4 (pgd c) m2 of None \<Rightarrow> None
              | Some m3 \<Rightarrow> Some (set_state (cur s) UNUSED (s\<lparr>mem := os_pfn_free OS_PT_REG om m3\<rparr>))))"

section \<open>Properties\<close>

lemma init_segments_std: "std_segments (init_segments mm)"
  by (simp add: std_segments_def init_segments_def)

text \<open>
  A new context: the first unused slot, a kernel stack, the four segments.  The list of
  mapped areas, the signal handlers, the alarm and a remaining name of the process that
  had the slot before are taken over.
\<close>

lemma create_context_eq:
  assumes "\<exists>n<MAX_PROCESSES. state_of s n = UNUSED"
  shows "\<exists>n s'. create_context name ty s = Some (n, s') \<and> n < MAX_PROCESSES \<and> state_of s n = UNUSED \<and>
    mem s' = snd (os_pfn_alloc OS_PT_REG (mem s)) \<and> cur s' = cur s \<and> cpu s' = cpu s \<and>
    ctxs s' = (ctxs s)(n := (ctxs s n)\<lparr>pid := n, ctx_state := NEW, ctx_type := ty, used_mem := 0, pgd := 0,
      os_stack_pfn := fst (os_pfn_alloc OS_PT_REG (mem s)),
      os_rsp := (fst (os_pfn_alloc OS_PT_REG (mem s)) + 1) * 4096,
      ctx_name := name @ drop (length name) (ctx_name (ctxs s n)), mms := init_segments (mms (ctxs s n))\<rparr>)"
proof -
  let ?free = "filter (\<lambda>n. state_of s n = UNUSED) [0..<MAX_PROCESSES]"
  have "?free \<noteq> []" using assms by (auto simp: filter_empty_conv)
  then obtain n ns where f: "?free = n # ns" by (cases ?free) auto
  then have n: "n \<in> set ?free" by simp
  then have "n < MAX_PROCESSES" "state_of s n = UNUSED" by auto
  then show ?thesis
    using f by (simp add: create_context_def get_new_ctx_def upd_ctx_def split: prod.split)
qed

text \<open>
  Launching a process from a state in which nothing runs and memory is ready: the
  process is in a slot of its own, about to execute the first address of the code with
  its arguments in the registers; user mode sees exactly the pages of \<open>user_page\<close>, the code
  pages hold the image, and the kernel sees the first 2 GB at their physical addresses.
\<close>

lemma shell_init_run:
  fixes s :: os
  defines "m0 \<equiv> snd (os_pfn_alloc OS_PT_REG (mem s))"
  assumes idle: "idle_inv s" and free: "\<exists>n<MAX_PROCESSES. state_of s n = UNUSED"
    and ready: "launch_ready m0" and ap: "2 ^ 31 \<le> apic" "apic < 2 ^ 32"
  shows "\<exists>om' s'. shell_init apic g ag rf args om s = Some (om', s') \<and> os_inv s' \<and> cur s' \<noteq> 0 \<and>
    entry_rip (cpu s') = of_nat CODE_START \<and> entry_rsp (cpu s') = of_nat STACK_START \<and>
    rdi (cpu s') = arg_rdi args \<and> rsi (cpu s') = arg_rsi args \<and> rcx (cpu s') = arg_rcx args \<and>
    rdx (cpu s') = arg_rdx args \<and> r8 (cpu s') = arg_r8 args \<and>
    (\<forall>a<2 ^ 48. map_option (rd (mem s')) (get_pte (mem s') (pgd (ctxs s' (cur s'))) a) =
        map_option (\<lambda>(k, fl). mk_pte (nth_frame USER_REG m0 k) fl) (user_page a)) \<and>
    (\<forall>a<2 ^ 31. big_entry (mem s') (pgd (ctxs s' (cur s'))) a = os_entry g (a div 2 ^ 21)) \<and>
    (\<forall>k<8. phys (mem s') (nth_frame USER_REG m0 k) = phys m0 (0x200 + k))"
proof -
  obtain n s1 where c: "create_context ''init'' 2 s = Some (n, s1)" "n < MAX_PROCESSES" "state_of s n = UNUSED"
    "mem s1 = m0" "pid (ctxs s1 n) = n" "mms (ctxs s1 n) = init_segments (mms (ctxs s n))"
    "\<And>k. k \<noteq> n \<Longrightarrow> ctxs s1 k = ctxs s k" "cpu s1 = cpu s"
    using create_context_eq [OF free, of "''init''" 2] unfolding m0_def by fastforce
  have n0: "n \<noteq> 0" using c(3) idle by (cases n) (auto simp: idle_inv_def)
  obtain pg om' m where im: "init_memory apic g ag (mms (ctxs s1 n)) om (mem s1) = (pg, om', m)"
    "\<forall>a<2 ^ 48. map_option (rd m) (get_pte m pg a) = map_option (\<lambda>(k, fl). mk_pte (nth_frame USER_REG m0 k) fl) (user_page a)"
    "\<forall>a<2 ^ 31. big_entry m pg a = os_entry g (a div 2 ^ 21)"
    "\<forall>k<8. phys m (nth_frame USER_REG m0 k) = phys m0 (0x200 + k)"
    using init_memory_correct [OF ready init_segments_std ap, of g ag "mms (ctxs s n)" om] unfolding c(4,6) by blast
  obtain x s' where x: "exec_init apic g ag rf args n om s1 = (x, s')" by fastforce
  then have e: "exec_init apic g ag rf args n om s1 = (om', s')" "mem s' = m" "cur s' = n"
    "entry_rip (cpu s') = of_nat CODE_START" "entry_rsp (cpu s') = of_nat STACK_START"
    "pgd (ctxs s' n) = pg" "ctx_state (ctxs s' n) = RUNNING" "pid (ctxs s' n) = n" "\<And>k. k \<noteq> n \<Longrightarrow> ctxs s' k = ctxs s k"
    "rdi (cpu s') = arg_rdi args" "rsi (cpu s') = arg_rsi args" "rcx (cpu s') = arg_rcx args"
    "rdx (cpu s') = arg_rdx args" "r8 (cpu s') = arg_r8 args"
    using im(1) c(5,7) by (auto simp: exec_init_def upd_ctx_def Let_def)
  have "pid (ctxs s' k) < MAX_PROCESSES \<and> (ctx_state (ctxs s' k) = RUNNING \<longrightarrow> k = n)" if "k < MAX_PROCESSES" for k
    using idle c(2) e(8,9) that by (cases "k = n") (auto simp: idle_inv_def state_of_def)
  moreover have "ctx_state (ctxs s' 0) = READY" using idle e(9) [of 0] n0 by (simp add: idle_inv_def state_of_def)
  ultimately have "os_inv s'" using c(2) e(7) unfolding os_inv_def state_of_def e(3) by blast
  moreover have "shell_init apic g ag rf args om s = Some (om', s')" using c(1) e(1) by (simp add: shell_init_def)
  moreover have "\<forall>a<2 ^ 48. map_option (rd (mem s')) (get_pte (mem s') (pgd (ctxs s' (cur s'))) a) =
        map_option (\<lambda>(k, fl). mk_pte (nth_frame USER_REG m0 k) fl) (user_page a)"
    unfolding e(2,3) e(6) by (rule im(2))
  moreover have "\<forall>a<2 ^ 31. big_entry (mem s') (pgd (ctxs s' (cur s'))) a = os_entry g (a div 2 ^ 21)"
    unfolding e(2,3) e(6) by (rule im(3))
  moreover have "\<forall>k<8. phys (mem s') (nth_frame USER_REG m0 k) = phys m0 (0x200 + k)"
    unfolding e(2) by (rule im(4))
  moreover have "cur s' \<noteq> 0" using e(3) n0 by simp
  ultimately show ?thesis using e(4,5,10-14) by blast
qed

lemma init_swapper_idle: "idle_inv (init_swapper task ss cs rf s)"
  by (simp add: init_swapper_def idle_inv_def state_of_def zero_ctx_def split: prod.split)

lemma init_swapper_unused: "0 < n \<Longrightarrow> state_of (init_swapper task ss cs rf s) n = UNUSED"
  by (simp add: init_swapper_def state_of_def zero_ctx_def split: prod.split)

lemma init_swapper_ctxs:
  "pgd (ctxs (init_swapper task ss cs rf s) 0) = 0x70 \<and> (\<forall>n>0. ctxs (init_swapper task ss cs rf s) n = zero_ctx)"
  by (simp add: init_swapper_def split: prod.split)

lemma init_swapper_mem: "mem (init_swapper task ss cs rf s) = after OS_PT_REG 2 (mem s)"
  by (simp add: init_swapper_def after_def numeral_2_eq_2 split: prod.split)

subsection \<open>The end of the last process\<close>

text \<open>
  A page that is freed twice is counted twice: the bitmap does not change any more, but
  the number of free pages does.
\<close>

lemma free_twice:
  assumes ok: "kmem_ok s" and f: "f \<in> used_frames r s" "f \<noteq> first_pfn r s"
  defines "pgl \<equiv> pglists (os_pfn_free r f (os_pfn_free r f s)) r"
  shows "free_pages pgl + card (in_use pgl) = pl_size pgl + 1"
proof -
  from f obtain i where i: "f = first_pfn r s + i" "i \<in> in_use (pglists s r)" "0 < i" by (auto simp: used_frames_def)
  let ?s1 = "os_pfn_free r f s"
  have sz: "i < pl_size (pglists s r)" using i(2) by (simp add: in_use_def)
  have p1: "pglists ?s1 = (pglists s)(r := (pglists s r)\<lparr>bitmap := pgl_bmap_clear (bitmap (pglists s r)) i,
      free_pages := free_pages (pglists s r) + 1\<rparr>)"
    using os_page_free_index [of s r i] ok i sz by (simp add: kmem_ok_def)
  have ok1: "pgl_ok (pglists ?s1 r)" using os_pfn_free_used [OF ok f] by (simp add: kmem_ok_def)
  have f1: "f = first_pfn r ?s1 + i" and sz1: "i < pl_size (pglists ?s1 r)" using i(1) sz p1 by simp_all
  have "pglists (os_pfn_free r f ?s1) = (pglists ?s1)(r := (pglists ?s1 r)
      \<lparr>bitmap := pgl_bmap_clear (bitmap (pglists ?s1 r)) i, free_pages := free_pages (pglists ?s1 r) + 1\<rparr>)"
    using os_page_free_index [OF ok1 i(3) sz1, folded f1] .
  then have "free_pages pgl = free_pages (pglists s r) + 2" "pl_size pgl = pl_size (pglists s r)"
    "in_use pgl = in_use (pglists s r) - {i}"
    by (auto simp: pgl_def p1 in_use_def bm_bit_clear)
  moreover have "card (in_use (pglists s r)) = Suc (card (in_use (pglists s r) - {i}))"
    using i(2) by (intro card.remove) simp_all
  moreover have "free_pages (pglists s r) + card (in_use (pglists s r)) = pl_size (pglists s r)"
    using ok by (simp add: kmem_ok_def pgl_ok_def)
  ultimately show ?thesis by simp
qed

text \<open>
  The last process exits: \<open>do_exit\<close> frees its kernel stack, and \<open>do_cleanup\<close>, which it
  calls then, begins by freeing the same page again.  Afterwards the allocator counts one
  page more than there are.
\<close>

theorem exit_counts_page_twice:
  assumes "do_exit s = Halt s1" "kmem_ok (mem s)"
    and "os_stack_pfn (ctxs s (cur s)) \<in> used_frames OS_PT_REG (mem s)"
    and "os_stack_pfn (ctxs s (cur s)) \<noteq> first_pfn OS_PT_REG (mem s)"
  defines "m \<equiv> os_pfn_free OS_PT_REG (os_stack_pfn (ctxs s1 (cur s1))) (mem s1)"
  shows "free_pages (pglists m OS_PT_REG) + card (in_use (pglists m OS_PT_REG)) = pl_size (pglists m OS_PT_REG) + 1"
proof -
  let ?f = "os_stack_pfn (ctxs s (cur s))"
  have keep: "os_stack_pfn (vfork_exit_handle c d) = os_stack_pfn d" for c d
    by (simp add: vfork_exit_handle_def Let_def)
  have "mem s1 = os_pfn_free OS_PT_REG ?f (mem s)" "os_stack_pfn (ctxs s1 (cur s1)) = ?f"
    using assms(1)
    by (auto simp: do_exit_def Let_def upd_ctx_def set_state_def keep split: option.splits if_splits)
  then have m: "m = os_pfn_free OS_PT_REG ?f (os_pfn_free OS_PT_REG ?f (mem s))" by (simp add: m_def)
  show ?thesis unfolding m by (rule free_twice [OF assms(2-4)])
qed

section \<open>From the start of the kernel\<close>

lemma init_osalloc_mem:
  "om_km (init_osalloc_chunks s) = after OS_DS_REG 8 (om_km s) \<and> (\<forall>c<7. ck_list (om_ck (init_osalloc_chunks s) c) = init_list \<and>
     ck_pos (om_ck (init_osalloc_chunks s) c) = 0)"
proof -
  have "om_km (init_chunks n s) = after OS_DS_REG n (om_km s) \<and>
      (\<forall>c<n. ck_list (om_ck (init_chunks n s) c) = init_list \<and> ck_pos (om_ck (init_chunks n s) c) = 0)" for n s
    by (induction n) (auto simp: Let_def after_Suc less_Suc_eq split: prod.splits)
  then show ?thesis by (simp add: init_osalloc_chunks_def flip: after_Suc_shift)
qed

lemma after_add: "after r k (after r j x) = after r (k + j) x"
  by (simp add: after_def funpow_add)

text \<open>Allocations in one region and then in another; both are sequences of their own.\<close>

lemma init_mems_eq:
  fixes o0 bms defines "m \<equiv> (om_km o0)\<lparr>pglists := init_pagelists bms\<rparr>"
  shows "om_km (init_mems bms o0) = after OS_PT_REG 130 (after OS_DS_REG 108 m) \<and>
    (\<forall>c<7. l_size (ck_list (om_ck (init_mems bms o0) c)) = 0 \<and> ck_pos (om_ck (init_mems bms o0) c) = 0)"
proof -
  have s: "(\<lambda>k. snd (os_pfn_alloc r k)) ^^ n = after r n" for r n by (simp add: after_def)
  let ?o = "o0\<lparr>om_km := m\<rparr>"
  have o: "om_km (init_osalloc_chunks ?o) = after OS_DS_REG 8 m"
    "\<forall>c<7. l_size (ck_list (om_ck (init_osalloc_chunks ?o) c)) = 0 \<and> ck_pos (om_ck (init_osalloc_chunks ?o) c) = 0"
    using init_osalloc_mem [of ?o] by (simp_all add: init_list_def)
  have one: "snd (os_pfn_alloc r x) = after r 1 x" for r x by (simp add: after_def)
  show ?thesis
    using o unfolding init_mems_def m_def [symmetric] init_nodealloc_memory_def init_pfn_info_alloc_memory_def s
    unfolding one by (simp add: after_add)
qed

text \<open>
  The page lists are those after the allocations of \<open>init_mems\<close> in the data region and \<open>k\<close>
  allocations in the page-table region.
\<close>

definition booted :: "kmem \<Rightarrow> nat \<Rightarrow> kmem \<Rightarrow> bool" where
  "booted m k x \<longleftrightarrow> pglists x = pglists (after OS_PT_REG k (after OS_DS_REG 108 m))"

lemma boot_memory:
  assumes z: "pglists m = init_pagelists (\<lambda>_ _. 0)" and b: "booted m k x" and k: "k \<le> 200"
  shows "kmem_ok x" "regions_apart x" "rooms OS_PT_REG 11 x" "rooms USER_REG 10 x"
    "\<And>j. j < 10 \<Longrightarrow> nth_frame USER_REG x j = 0x6404 + j" "first_pfn OS_PT_REG x = 0x2000"
    "\<And>j. j < 11 \<Longrightarrow> nth_frame OS_PT_REG x j = 0x2001 + k + j" "first_pfn USER_REG x = 0x6400"
proof -
  let ?d = "after OS_DS_REG 108 m"
  have okm: "kmem_ok m" using boot_mem_ok z by (simp add: kmem_ok_def boot_mem_def)
  have rd: "rooms OS_DS_REG 108 m" using dense_frames [of 1 m OS_DS_REG 108] boot_dense(1) by (simp add: z boot_lists scanned_def)
  have okd: "kmem_ok ?d" using rooms_after [OF okm rd] by auto
  have p: "pglists ?d OS_PT_REG = init_pagelists (\<lambda>_ _. 0) OS_PT_REG" "pglists x USER_REG = init_pagelists (\<lambda>_ _. 0) USER_REG"
    using z b by (simp_all add: booted_def after_other)
  have x: "pglists x OS_PT_REG = pglists (after OS_PT_REG k ?d) OS_PT_REG" using b by (simp add: booted_def)
  have da: "dense (1 + k) (pglists x OS_PT_REG)" "free_pages (pglists x OS_PT_REG) = 0x43FF - k"
    "pl_size (pglists x OS_PT_REG) = 0x4400" "start_address (pglists x OS_PT_REG) = 0x2000000"
    using dense_after [of 1 ?d OS_PT_REG k] boot_dense(2) k unfolding x p(1) by (simp_all add: boot_lists scanned_def)
  have "rooms OS_PT_REG k ?d" using dense_frames [of 1 ?d OS_PT_REG k] boot_dense(2) k by (simp add: p(1) boot_lists scanned_def)
  from rooms_after [OF okd this] show "kmem_ok x" using b by (simp add: kmem_ok_def booted_def)
  have pt: "rooms OS_PT_REG 11 x \<and> (\<forall>j<11. nth_frame OS_PT_REG x j = 0x2001 + k + j)"
    using dense_frames [OF da(1), of 11] da(2-4) k by (simp add: scanned_def)
  have us: "rooms USER_REG 10 x \<and> (\<forall>j<10. nth_frame USER_REG x j = 0x6404 + j)"
    using dense_frames [of 4 x USER_REG 10] boot_dense(3) by (simp add: p(2) boot_lists scanned_def)
  show "rooms OS_PT_REG 11 x" "rooms USER_REG 10 x" using pt us by blast+
  show "nth_frame OS_PT_REG x j = 0x2001 + k + j" if "j < 11" for j using pt that by blast
  show "nth_frame USER_REG x j = 0x6404 + j" if "j < 10" for j using us that by blast
  show "regions_apart x" using da(3,4) by (auto simp: regions_apart_def region_frames_def p(2) boot_lists)
  show "first_pfn OS_PT_REG x = 0x2000" "first_pfn USER_REG x = 0x6400" using da(4) by (simp_all add: p(2) boot_lists)
qed

text \<open>One more page for the kernel: the next in line.  Outside the region nothing changes.\<close>

lemma booted_alloc:
  assumes "pglists m = init_pagelists (\<lambda>_ _. 0)" "booted m k x" "k \<le> 200"
  shows "\<exists>y. os_pfn_alloc OS_PT_REG x = (0x2001 + k, y) \<and> booted m (Suc k) y \<and> phys y = (phys x)(0x2001 + k := (\<lambda>_. 0))"
proof -
  have f: "fst (os_pfn_alloc OS_PT_REG x) = 0x2001 + k"
    using boot_memory(7) [OF assms, of 0] by (simp add: nth_frame_def)
  have "booted m (Suc k) (snd (os_pfn_alloc OS_PT_REG x))"
    using assms(2) by (simp add: booted_def after_Suc pglists_os_pfn_alloc)
  moreover have "room OS_PT_REG x" using rooms_room [OF boot_memory(3) [OF assms], of 0] by simp
  from phys_os_pt_alloc [OF this] f have "phys (snd (os_pfn_alloc OS_PT_REG x)) = (phys x)(0x2001 + k := (\<lambda>_. 0))" by simp
  ultimately show ?thesis using f by (metis prod.collapse)
qed

lemma booted_cong: "pglists y = pglists x \<Longrightarrow> booted m k y = booted m k x"
  by (simp add: booted_def)

text \<open>Memory below the regions, where the image of the first program is.\<close>

lemma boot_image:
  assumes z: "pglists m = init_pagelists (\<lambda>_ _. 0)" and x: "x < 0x800"
  shows "phys (after OS_PT_REG 130 (after OS_DS_REG 108 m)) x = phys m x"
proof -
  let ?d = "after OS_DS_REG 108 m"
  have okm: "kmem_ok m" using boot_mem_ok z by (simp add: kmem_ok_def boot_mem_def)
  have rd: "rooms OS_DS_REG 108 m" using dense_frames [of 1 m OS_DS_REG 108] boot_dense(1) by (simp add: z boot_lists scanned_def)
  have okd: "kmem_ok ?d" using rooms_after [OF okm rd] by auto
  have p: "pglists ?d OS_PT_REG = init_pagelists (\<lambda>_ _. 0) OS_PT_REG" using z by (simp add: after_other)
  have rk: "rooms OS_PT_REG 130 ?d" using dense_frames [of 1 ?d OS_PT_REG 130] boot_dense(2) by (simp add: p boot_lists scanned_def)
  have "x \<notin> region_frames OS_PT_REG ?d" "x \<notin> region_frames OS_DS_REG m"
    using x by (auto simp: region_frames_def p z boot_lists)
  then show ?thesis using rooms_after [OF okd rk] rooms_after [OF okm rd] by simp
qed

lemma pglists_fold_wr: "pglists (fold (\<lambda>i t. wr t (p i) (v i t)) is s) = pglists s"
  by (induction "is" arbitrary: s) simp_all

lemma phys_fold_wr:
  "(\<And>i. x \<noteq> fst (p i)) \<Longrightarrow> phys (fold (\<lambda>i t. wr t (p i) (v i t)) is s) x = phys s x"
  by (induction "is" arbitrary: s) (simp_all add: wr_def)

lemma fold_put_gate:
  "pglists (fold (put_gate h t) is s) = pglists s" "x \<noteq> t \<Longrightarrow> phys (fold (put_gate h t) is s) x = phys s x"
  by (induction "is" arbitrary: s) (auto simp: put_gate_def wr_def split: option.splits)

lemma setup_tables:
  assumes z: "pglists m = init_pagelists (\<lambda>_ _. 0)" and b: "booted m k x" "k < 190"
  shows "booted m (k + 3) (setup_idt h (setup_gdt_tss gf n x))"
    "y < 0x2000 \<Longrightarrow> y \<noteq> gf \<Longrightarrow> phys (setup_idt h (setup_gdt_tss gf n x)) y = phys x y"
proof -
  define s1 where "s1 = fold (\<lambda>i t. wr t (gf, i) (rd t (gf, i) OR 0xffff)) [0..<n] x"
  define s3 where "s3 = wr (wr s1 (gf, n) (gdt_desc 0xffff 0 0xfa 0xf 0xa)) (gf, n + 1) (gdt_desc 0xffff 0 0xf2 0xf 0xa)"
  have "booted m k s3" using b(1) pglists_fold_wr [of "\<lambda>i. (gf, i)"] by (simp add: booted_def s3_def s1_def)
  then obtain s4 where s4: "os_pfn_alloc OS_PT_REG s3 = (0x2001 + k, s4)" "booted m (Suc k) s4"
    "phys s4 = (phys s3)(0x2001 + k := (\<lambda>_. 0))" using booted_alloc [OF z] b(2) by fastforce
  define t where "t = (of_nat ((0x2001 + k) * 4096) :: u64)"
  define s6 where "s6 = wr (wr (zero_frame (0x2001 + k) s4) (gf, n + 2) (gdt_desc 1 t 0xe9 0 8)) (gf, n + 3) (drop_bit 32 t)"
  have "booted m (Suc k) s6" using s4(2) booted_cong [of s6 s4] by (simp add: zero_frame_def s6_def)
  then obtain s7 where s7: "os_pfn_alloc OS_PT_REG s6 = (0x2001 + Suc k, s7)" "booted m (Suc (Suc k)) s7"
    "phys s7 = (phys s6)(0x2001 + Suc k := (\<lambda>_. 0))" using booted_alloc [OF z] b(2) by fastforce
  define s9 where "s9 = setup_gdt_tss gf n x"
  obtain v w where s9: "s9 = wr (wr s7 (0x2001 + k, 4) v) (0x2001 + k, 5) w"
    unfolding s9_def setup_gdt_tss_def Let_def s1_def [symmetric] s3_def [symmetric] s4(1) prod.case
      t_def [symmetric] s6_def [symmetric] s7(1) by blast
  have "booted m (Suc (Suc k)) s9" using s7(2) booted_cong [of s9 s7] by (simp add: s9)
  then obtain s10 where s10: "os_pfn_alloc OS_PT_REG s9 = (0x2001 + Suc (Suc k), s10)" "booted m (Suc (Suc (Suc k))) s10"
    "phys s10 = (phys s9)(0x2001 + Suc (Suc k) := (\<lambda>_. 0))" using booted_alloc [OF z] b(2) by fastforce
  have e: "setup_idt h s9 = fold (put_gate h (0x2001 + Suc (Suc k))) [0..<256] s10"
    unfolding setup_idt_def s10(1) Let_def prod.case ..
  have p: "pglists (setup_idt h s9) = pglists s10" unfolding e by (rule fold_put_gate)
  show "booted m (k + 3) (setup_idt h (setup_gdt_tss gf n x))"
    using s10(2) booted_cong [OF p] unfolding s9_def by (simp add: numeral_3_eq_3)
  show "phys (setup_idt h (setup_gdt_tss gf n x)) y = phys x y" if y: "y < 0x2000" "y \<noteq> gf"
  proof -
    have "phys (setup_idt h s9) y = phys s10 y" unfolding e by (rule fold_put_gate(2)) (use y in simp)
    also have "\<dots> = phys s9 y" using s10(3) y by simp
    also have "\<dots> = phys s6 y" using s7(3) y by (simp add: s9 wr_def)
    also have "\<dots> = phys s3 y" using s4(3) y by (simp add: s6_def wr_def zero_frame_def)
    also have "\<dots> = phys x y" using y(2) phys_fold_wr [of y "\<lambda>i. (gf, i)"] by (simp add: s3_def s1_def wr_def)
    finally show ?thesis by (simp add: s9_def)
  qed
qed

lemma os_alloc_small:
  assumes "c \<le> 6" "l_size (ck_list (om_ck s c)) = 0" "ck_pos (om_ck s c) = 0" "sz \<le> 2 ^ (c + 5)" "2 ^ (c + 4) < sz" "32 \<le> sz"
  shows "\<exists>a s'. os_alloc sz s = Some (a, s') \<and> om_km s' = om_km s \<and>
    (\<forall>c'. c' \<noteq> c \<longrightarrow> om_ck s' c' = om_ck s c')"
proof -
  have sz: "\<not> (sz = 0 \<or> sz > 2048)" using assms(4,6) power_range [OF assms(1)] by auto
  have "c + 5 - 5 = c" by simp
  then show ?thesis
    using sz assms(2,3) unfolding os_alloc_def Let_def size_class [OF assms(1,4-6)] by simp
qed

lemma kmain_ready:
  fixes o0 defines "m \<equiv> (om_km o0)\<lparr>pglists := init_pagelists (\<lambda>_ _. 0)\<rparr>"
  shows "\<exists>o3 s. kmain (\<lambda>_ _. 0) cr3 h task ss cs rf o0 s0 = Some (o3, s) \<and> idle_inv s \<and> state_of s 1 = UNUSED \<and>
    booted m 135 (mem s) \<and> (cr3 < 0x200 \<longrightarrow> (\<forall>j<8. phys (mem s) (0x200 + j) = phys (om_km o0) (0x200 + j))) \<and>
    pgd (ctxs s 0) = 0x70 \<and> (\<forall>n>0. ctxs s n = zero_ctx)"
proof -
  let ?o1 = "init_mems (\<lambda>_ _. 0) o0"
  have z: "pglists m = init_pagelists (\<lambda>_ _. 0)" by (simp add: m_def)
  note im = init_mems_eq [of "\<lambda>_ _. 0" o0, folded m_def]
  have b1: "booted m 130 (om_km ?o1)" using im by (simp add: booted_def)
  define m1 where "m1 = setup_idt h (setup_gdt_tss 0x76 4 (om_km ?o1))"
  have st: "booted m 133 m1" "\<And>y. y < 0x2000 \<Longrightarrow> y \<noteq> 0x76 \<Longrightarrow> phys m1 y = phys (om_km ?o1) y"
    using setup_tables [OF z b1] by (simp_all add: m1_def)
  define m2 where "m2 = wr m1 (cr3, 0) (rd m1 (cr3, 0) AND 0xfffffffffffffff3)"
  have b2: "booted m 133 m2" using st(1) booted_cong [of m2 m1] by (simp add: m2_def)
  let ?s1 = "init_swapper task ss cs rf (s0\<lparr>mem := m2\<rparr>)"
  obtain m3 where a1: "os_pfn_alloc OS_PT_REG m2 = (0x2001 + 133, m3)" "booted m (Suc 133) m3"
    "phys m3 = (phys m2)(0x2001 + 133 := (\<lambda>_. 0))" using booted_alloc [OF z b2] by auto
  obtain m4 where a2: "os_pfn_alloc OS_PT_REG m3 = (0x2001 + Suc 133, m4)" "booted m (Suc (Suc 133)) m4"
    "phys m4 = (phys m3)(0x2001 + Suc 133 := (\<lambda>_. 0))" using booted_alloc [OF z a1(2)] by auto
  have m3: "mem ?s1 = m4" using a1(1) a2(1) by (simp add: init_swapper_def)
  have b3: "booted m 135 (mem ?s1)" using a2(2) by (simp add: m3)
  have img: "phys (mem ?s1) (0x200 + j) = phys (om_km o0) (0x200 + j)" if "j < 8" "cr3 < 0x200" for j
  proof -
    have "phys (mem ?s1) (0x200 + j) = phys m2 (0x200 + j)" using a1(3) a2(3) that by (simp add: m3)
    also have "\<dots> = phys (om_km ?o1) (0x200 + j)" using st(2) [of "0x200 + j"] that by (simp add: m2_def wr_def)
    also have "\<dots> = phys (om_km o0) (0x200 + j)" using boot_image [OF z, of "0x200 + j"] im that by (simp add: m_def)
    finally show ?thesis .
  qed
  obtain a o2 where o2: "os_alloc 96 (?o1\<lparr>om_km := mem ?s1\<rparr>) = Some (a, o2)" "om_km o2 = mem ?s1" "om_ck o2 0 = om_ck ?o1 0"
    using os_alloc_small [of 2 "?o1\<lparr>om_km := mem ?s1\<rparr>" 96] im by auto
  obtain a' o3 where o3: "os_alloc 32 o2 = Some (a', o3)" "om_km o3 = mem ?s1"
    using os_alloc_small [of 0 o2 32] im o2(2,3) by auto
  have cs: "pglists (clear_stats x) = pglists x" "phys (clear_stats x) = phys x" for x by (simp_all add: clear_stats_def)
  have "kmain (\<lambda>_ _. 0) cr3 h task ss cs rf o0 s0 = Some (o3, ?s1\<lparr>mem := clear_stats (om_km o3), st_syscalls := 0, st_ticks := 0,
      st_context_switches := 0, st_num_processes := 0, st_page_faults := 0, st_cow_page_faults := 0, st_mmap_page_faults := 0\<rparr>)"
    using o2(1) o3(1) by (simp add: kmain_def Let_def m1_def [symmetric] m2_def [symmetric])
  then show ?thesis
    using b3 img o3(2) init_swapper_idle [of task ss cs rf "s0\<lparr>mem := m2\<rparr>"]
      init_swapper_unused [of 1 task ss cs rf "s0\<lparr>mem := m2\<rparr>"]
      init_swapper_ctxs [of task ss cs rf "s0\<lparr>mem := m2\<rparr>"] booted_cong [OF cs(1)]
    by (simp add: idle_inv_def state_of_def cs)
qed

end
