(* ===== verification/Shell.thy ===== *)
theory Shell
  imports Boot Printf
begin

text \<open>
  The shell of gemOS (src/Assignment3/Ass3/src/shell.c): reading a line from the serial
  line (\<open>serial_read\<close> of serial.c), recognising the command and parsing the arguments of
  \<open>init\<close>.  The buffer of the line has 1024 bytes; \<open>None\<close> stands for reading or writing outside
  it or outside the five arguments, and for a line that never ends.
\<close>

section \<open>Definitions\<close>

type_synonym buffer = "nat \<Rightarrow> char"

abbreviation "NUL \<equiv> CHR 0x00"
abbreviation "CR \<equiv> CHR 0x0D"
abbreviation "LF \<equiv> CHR 0x0A"

fun read_line :: "string \<Rightarrow> nat \<Rightarrow> buffer \<Rightarrow> (string \<times> buffer) option" where
  "read_line [] ctr b = None"
| "read_line (ch # inp) ctr b =
     (if 1024 \<le> ctr then None
      else if ch = CR then Some (inp, b(ctr := NUL))
      else read_line inp (ctr + 1) (b(ctr := ch)))"

fun skip_lf :: "string \<Rightarrow> string option" where
  "skip_lf [] = None"
| "skip_lf (ch # inp) = (if ch = LF then Some inp else skip_lf inp)"

definition serial_read :: "string \<Rightarrow> buffer \<Rightarrow> (string \<times> buffer) option" where
  "serial_read inp b =
     (case read_line inp 0 b of None \<Rightarrow> None
      | Some (inp1, b1) \<Rightarrow> (case skip_lf inp1 of None \<Rightarrow> None | Some inp2 \<Rightarrow> Some (inp2, b1)))"

text \<open>\<open>strcmp\<close> and \<open>memcmp\<close> of the buffer with a literal, from position \<open>ctr\<close> on.\<close>

fun strcmp_lit :: "buffer \<Rightarrow> nat \<Rightarrow> string \<Rightarrow> int" where
  "strcmp_lit s ctr [] = (if s ctr = NUL then 0 else -1)"
| "strcmp_lit s ctr (c # d) = (if s ctr \<noteq> NUL \<and> s ctr = c then strcmp_lit s (ctr + 1) d else -1)"

text \<open>A \<open>char\<close> is signed.\<close>

definition schar :: "char \<Rightarrow> int" where
  "schar c = (if (of_char c :: nat) < 128 then int (of_char c) else int (of_char c) - 256)"

fun memcmp_lit :: "buffer \<Rightarrow> nat \<Rightarrow> string \<Rightarrow> int" where
  "memcmp_lit s ctr [] = 0"
| "memcmp_lit s ctr (c # d) = (if s ctr = c then memcmp_lit s (ctr + 1) d else schar (s ctr) - schar c)"

definition blank :: "char \<Rightarrow> bool" where
  "blank c \<longleftrightarrow> c = CHR 0x20 \<or> c = CHR 0x09"

text \<open>\<open>while(cmd[ctr] == 32 || cmd[ctr] == '\t') ++ctr;\<close>\<close>

function skip_blanks :: "buffer \<Rightarrow> nat \<Rightarrow> nat option" where
  "skip_blanks cmd ctr =
     (if 1024 \<le> ctr then None else if blank (cmd ctr) then skip_blanks cmd (ctr + 1) else Some ctr)"
  by pat_completeness auto
termination by (relation "measure (\<lambda>(cmd, ctr). 1024 - ctr)") auto

declare skip_blanks.simps [simp del]

definition add_digit :: "u64 \<Rightarrow> char \<Rightarrow> u64" where
  "add_digit v c = v * 10 + of_int (schar c - 48)"

lemma skip_blanks_le: "skip_blanks cmd ctr = Some c \<Longrightarrow> ctr \<le> c \<and> c < 1024"
  by (induction cmd ctr rule: skip_blanks.induct) (subst (asm) (2) skip_blanks.simps, auto split: if_splits)

text \<open>
  The loop of \<open>parse_init\<close>.  The character behind the blanks is taken as a digit without a
  test for the end of the line.
\<close>

function parse_loop :: "buffer \<Rightarrow> nat \<Rightarrow> u64 \<Rightarrow> nat \<Rightarrow> (nat \<Rightarrow> u64) \<Rightarrow> (nat \<Rightarrow> u64) option" where
  "parse_loop cmd ctr v num args =
     (if 1024 \<le> ctr then None
      else if cmd ctr = NUL then (if num < 5 then Some (args(num := v)) else None)
      else if blank (cmd ctr) then
        (if 5 \<le> num then None
         else case skip_blanks cmd ctr of None \<Rightarrow> None
              | Some c \<Rightarrow> parse_loop cmd (c + 1) (add_digit 0 (cmd c)) (num + 1) (args(num := v)))
      else parse_loop cmd (ctr + 1) (add_digit v (cmd ctr)) num args)"
  by pat_completeness auto
termination by (relation "measure (\<lambda>(cmd, ctr, v, num, args). 1024 - ctr)") (auto dest: skip_blanks_le)

declare parse_loop.simps [simp del]

definition parse_init :: "buffer \<Rightarrow> (nat \<Rightarrow> u64) \<Rightarrow> (nat \<Rightarrow> u64) option" where
  "parse_init cmd args = parse_loop cmd 5 0 0 args"

text \<open>
  One round of \<open>invoke_dsh\<close>: what the line asks for.  The structure \<open>args\<close> lives outside the
  loop, so arguments that are not given keep the values of the last \<open>init\<close>.
\<close>

datatype command = C_empty | C_help | C_clear | C_exit | C_init "nat \<Rightarrow> u64" | C_stats | C_invalid

definition shell_dispatch :: "buffer \<Rightarrow> (nat \<Rightarrow> u64) \<Rightarrow> command option" where
  "shell_dispatch b args =
     (if b 0 = NUL then Some C_empty
      else if strcmp_lit b 0 ''help'' = 0 then Some C_help
      else if strcmp_lit b 0 ''clear'' = 0 then Some C_clear
      else if strcmp_lit b 0 ''exit'' = 0 \<or> strcmp_lit b 0 ''shutdown'' = 0 then Some C_exit
      else if memcmp_lit b 0 ''init'' = 0 then map_option C_init (parse_init b args)
      else if strcmp_lit b 0 ''stats'' = 0 then Some C_stats
      else Some C_invalid)"

definition to_args :: "(nat \<Rightarrow> u64) \<Rightarrow> init_args" where
  "to_args a = \<lparr>arg_rdi = a 0, arg_rsi = a 1, arg_rcx = a 2, arg_rdx = a 3, arg_r8 = a 4\<rparr>"

lemma serial_read_shorter: "serial_read inp b = Some (inp', b') \<Longrightarrow> length inp' < length inp"
proof -
  have r: "read_line inp ctr b = Some (i1, b1) \<Longrightarrow> length i1 < length inp" for ctr i1 b1 and b :: buffer
    by (induction inp ctr b rule: read_line.induct) (auto split: if_splits)
  have l: "skip_lf i1 = Some i2 \<Longrightarrow> length i2 < length i1" for i1 i2
    by (induction i1 rule: skip_lf.induct) (auto split: if_splits)
  assume "serial_read inp b = Some (inp', b')"
  then show ?thesis using r l by (fastforce simp: serial_read_def split: option.splits)
qed

text \<open>The lines up to the one that launches a process; \<open>None\<close> also for the command \<open>exit\<close>.\<close>

function invoke_dsh :: "nat \<Rightarrow> bool \<Rightarrow> bool \<Rightarrow> u64 \<Rightarrow> nat \<Rightarrow> os \<Rightarrow> string \<Rightarrow> buffer \<Rightarrow> (nat \<Rightarrow> u64) \<Rightarrow> (nat \<times> os) option" where
  "invoke_dsh apic g ag rf om s inp b args =
     (case serial_read inp b of None \<Rightarrow> None
      | Some (inp', b') \<Rightarrow>
          (case shell_dispatch b' args of None \<Rightarrow> None
           | Some C_exit \<Rightarrow> None
           | Some (C_init a) \<Rightarrow> shell_init apic g ag rf (to_args a) om s
           | Some _ \<Rightarrow> invoke_dsh apic g ag rf om s inp' b' args))"
  by pat_completeness auto
termination
  by (relation "measure (\<lambda>(apic, g, ag, rf, om, s, inp, b, args). length inp)") (auto dest: serial_read_shorter)

declare invoke_dsh.simps [simp del]

section \<open>Parsing\<close>

definition holds :: "buffer \<Rightarrow> nat \<Rightarrow> string \<Rightarrow> bool" where
  "holds b k l \<longleftrightarrow> (\<forall>i<length l. b (k + i) = l ! i)"

lemma holds_Nil [simp]: "holds b k []" by (simp add: holds_def)

lemma holds_Cons [simp]: "holds b k (c # l) \<longleftrightarrow> b k = c \<and> holds b (Suc k) l"
  by (auto simp: holds_def nth_Cons less_Suc_eq_0_disj split: nat.splits)

lemma holds_append [simp]: "holds b k (l @ l') \<longleftrightarrow> holds b k l \<and> holds b (k + length l) l'"
  by (induction l arbitrary: k) (auto simp: add.commute add.left_commute)

lemma read_line_holds:
  assumes "CR \<notin> set l" "ctr + length l < 1024"
  shows "\<exists>b'. read_line (l @ CR # rest) ctr b = Some (rest, b') \<and> holds b' ctr (l @ [NUL]) \<and> (\<forall>i<ctr. b' i = b i)"
  using assms
proof (induction l arbitrary: ctr b)
  case (Cons c l)
  have p: "CR \<notin> set l" "ctr + 1 + length l < 1024" using Cons.prems by auto
  obtain b' where "read_line (l @ CR # rest) (ctr + 1) (b(ctr := c)) = Some (rest, b')"
    "holds b' (ctr + 1) (l @ [NUL])" "\<forall>i<ctr + 1. b' i = (b(ctr := c)) i"
    using Cons.IH [OF p, of "b(ctr := c)"] by blast
  then show ?case using Cons.prems by (intro exI [of _ b']) auto
qed simp

lemma digit_facts:
  assumes "d < 10"
  shows "dig d \<noteq> NUL" "\<not> blank (dig d)" "schar (dig d) - 48 = int d" "dig d \<noteq> CR"
proof -
  have "d \<in> {0, 1, 2, 3, 4, 5, 6, 7, 8, 9}" using assms by auto
  then show "dig d \<noteq> NUL" "\<not> blank (dig d)" "schar (dig d) - 48 = int d" "dig d \<noteq> CR"
    by (auto simp: dig_def blank_def schar_def char_of_eq_iff of_char_of)
qed

lemma numeral_chars: "set (numeral_of 10 n) \<subseteq> dig ` {..<10}" "numeral_of 10 n \<noteq> []"
proof -
  show "set (numeral_of 10 n) \<subseteq> dig ` {..<10}"
  proof (induction n rule: less_induct)
    case (less n)
    then show ?case by (cases "n < 10") (auto simp: numeral_of.simps [of 10 n])
  qed
  show "numeral_of 10 n \<noteq> []" by (simp add: numeral_of.simps [of 10 n])
qed

lemma parse_digits:
  assumes "holds cmd ctr ds" "set ds \<subseteq> dig ` {..<10}" "ctr + length ds < 1024"
  shows "parse_loop cmd ctr v num args = parse_loop cmd (ctr + length ds) (foldl add_digit v ds) num args"
  using assms
proof (induction ds arbitrary: ctr v)
  case (Cons c ds)
  obtain d where d: "c = dig d" "d < 10" using Cons.prems(2) by auto
  have "parse_loop cmd ctr v num args = parse_loop cmd (ctr + 1) (add_digit v c) num args"
    using Cons.prems digit_facts [OF d(2)] d(1) by (subst parse_loop.simps) simp
  also have "\<dots> = parse_loop cmd (ctr + 1 + length ds) (foldl add_digit (add_digit v c) ds) num args"
    using Cons.prems by (intro Cons.IH) auto
  finally show ?case by simp
qed simp

lemma foldl_add_digit:
  assumes "set ds \<subseteq> dig ` {..<10}"
  shows "foldl add_digit (of_nat v) ds = of_nat (foldl (\<lambda>a c. a * 10 + undig c) v ds)"
  using assms
proof (induction ds arbitrary: v)
  case (Cons c ds)
  obtain d where d: "c = dig d" "d < 10" using Cons.prems by auto
  have "add_digit (of_nat v) c = of_nat (v * 10 + undig c)"
    using digit_facts(3) [OF d(2)] d undig_dig [of d] by (simp add: add_digit_def)
  then show ?case using Cons.IH [of "v * 10 + undig c"] Cons.prems by simp
qed simp

lemma parse_number:
  assumes "holds cmd ctr (numeral_of 10 n)" "ctr + length (numeral_of 10 n) < 1024"
  shows "parse_loop cmd ctr 0 num args = parse_loop cmd (ctr + length (numeral_of 10 n)) (of_nat n) num args"
proof -
  have "foldl add_digit 0 (numeral_of 10 n) = of_nat n"
    using foldl_add_digit [OF numeral_chars(1), of 0] value_numeral [of 10 n] by (simp add: value_of_def)
  then show ?thesis using parse_digits [OF assms(1) numeral_chars(1) assms(2)] by simp
qed

text \<open>After a blank, the next number begins.\<close>

lemma parse_blank:
  assumes "cmd ctr = CHR 0x20" "holds cmd (ctr + 1) (numeral_of 10 n)" "ctr + 1 + length (numeral_of 10 n) < 1024" "num < 5"
  shows "parse_loop cmd ctr v num args = parse_loop cmd (ctr + 1) 0 (num + 1) (args(num := v))"
proof -
  obtain c ds where n: "numeral_of 10 n = c # ds" using numeral_chars(2) [of n] by (cases "numeral_of 10 n") auto
  then obtain d where d: "c = dig d" "d < 10" using numeral_chars(1) [of n] by auto
  have c: "cmd (ctr + 1) = c" "ctr + 1 < 1024" using assms(2,3) n by auto
  have "skip_blanks cmd (ctr + 1) = Some (ctr + 1)"
    using c digit_facts(2) [OF d(2)] d(1) by (subst skip_blanks.simps) simp
  then have "skip_blanks cmd ctr = Some (ctr + 1)" using assms(1) c(2) by (subst skip_blanks.simps) (simp add: blank_def)
  then have "parse_loop cmd ctr v num args = parse_loop cmd (ctr + 2) (add_digit 0 c) (num + 1) (args(num := v))"
    using assms(1,4) c by (subst parse_loop.simps) (simp add: blank_def)
  also have "\<dots> = parse_loop cmd (ctr + 1) 0 (num + 1) (args(num := v))"
    using c digit_facts [OF d(2)] d(1) by (subst (2) parse_loop.simps) simp
  finally show ?thesis .
qed

text \<open>The arguments as a user types them, separated by single blanks.\<close>

fun show_args :: "nat list \<Rightarrow> string" where
  "show_args [] = []"
| "show_args [x] = numeral_of 10 x"
| "show_args (x # y # ys) = numeral_of 10 x @ CHR 0x20 # show_args (y # ys)"

lemma show_args_hd: "\<exists>l. show_args (x # xs) = numeral_of 10 x @ l"
  by (cases xs) auto

lemma parse_args:
  assumes "holds cmd ctr (show_args (x # xs) @ [NUL])" "ctr + length (show_args (x # xs)) < 1024" "num + length xs < 5"
  shows "parse_loop cmd ctr 0 num args =
    Some (\<lambda>i. if num \<le> i \<and> i \<le> num + length xs then of_nat ((x # xs) ! (i - num)) else args i)"
  using assms
proof (induction xs arbitrary: x ctr num args)
  case Nil
  let ?e = "ctr + length (numeral_of 10 x)"
  have "parse_loop cmd ctr 0 num args = parse_loop cmd ?e (of_nat x) num args"
    using Nil.prems by (intro parse_number) auto
  also have "\<dots> = Some (args(num := of_nat x))" using Nil.prems by (subst parse_loop.simps) simp
  finally show ?case by (auto intro!: ext)
next
  case (Cons y ys)
  let ?e = "ctr + length (numeral_of 10 x)"
  obtain l where l: "show_args (y # ys) = numeral_of 10 y @ l" using show_args_hd by blast
  have h: "holds cmd ctr (numeral_of 10 x)" "cmd ?e = CHR 0x20" "holds cmd (?e + 1) (show_args (y # ys) @ [NUL])"
    using Cons.prems(1) by (simp_all add: add.commute add.left_commute)
  have len: "?e + 1 + length (show_args (y # ys)) < 1024" using Cons.prems(2) by simp
  have "parse_loop cmd ctr 0 num args = parse_loop cmd ?e (of_nat x) num args"
    using h(1) len by (intro parse_number) auto
  also have "\<dots> = parse_loop cmd (?e + 1) 0 (num + 1) (args(num := of_nat x))"
    using h(2,3) len l Cons.prems(3) by (intro parse_blank [of _ _ y]) simp_all
  also have "\<dots> = Some (\<lambda>i. if num + 1 \<le> i \<and> i \<le> num + 1 + length ys then of_nat ((y # ys) ! (i - (num + 1)))
      else (args(num := of_nat x)) i)"
    using h(3) len Cons.prems(3) by (intro Cons.IH) simp_all
  also have "\<dots> = Some (\<lambda>i. if num \<le> i \<and> i \<le> num + length (y # ys) then of_nat ((x # y # ys) ! (i - num)) else args i)"
  proof -
    have "i - num = Suc (i - (num + 1))" if "num + 1 \<le> i" for i using that by simp
    then show ?thesis by (auto intro!: ext)
  qed
  finally show ?case .
qed

lemma show_args_no_cr: "CR \<notin> set (show_args xs)"
proof -
  have "CR \<notin> set (numeral_of 10 x)" for x
  proof
    assume "CR \<in> set (numeral_of 10 x)"
    then obtain d where "CR = dig d" "d < 10" using numeral_chars(1) [of x] by blast
    then show False using digit_facts(4) by metis
  qed
  then show ?thesis by (induction xs rule: show_args.induct) auto
qed

lemma init_line_dispatch:
  assumes "holds b 0 (''init '' @ l)"
  shows "shell_dispatch b args = map_option C_init (parse_init b args)"
  using assms by (simp add: shell_dispatch_def numeral_eq_Suc)

text \<open>
  The arguments of \<open>init\<close> reach the process.  When the user types \<open>init\<close> followed by
  one to five numbers in decimal notation, the shell reads exactly this
  line and parses these numbers (modulo 2 to the power 64), whatever the buffer held before; arguments that are
  not given keep their values.  Then the process is launched with them.
\<close>

lemma shell_line_roundtrip:
  fixes args :: "nat \<Rightarrow> u64" and x :: nat and xs :: "nat list"
  assumes "length xs < 5" "5 + length (show_args (x # xs)) < 1024"
  defines "line \<equiv> ''init '' @ show_args (x # xs)"
  defines "a \<equiv> \<lambda>i. if i \<le> length xs then of_nat ((x # xs) ! i) else args i"
  shows "(\<exists>b'. serial_read (line @ [CR, LF] @ rest) b = Some (rest, b') \<and> shell_dispatch b' args = Some (C_init a)) \<and>
    invoke_dsh apic g ag rf om s (line @ [CR, LF] @ rest) b args = shell_init apic g ag rf (to_args a) om s"
proof -
  have no: "CR \<notin> set line" using show_args_no_cr by (simp add: line_def)
  obtain b' where b': "read_line (line @ CR # LF # rest) 0 b = Some (LF # rest, b')" "holds b' 0 (line @ [NUL])"
    using read_line_holds [OF no, of 0 "LF # rest" b] assms(2) by (auto simp: line_def)
  have rd: "serial_read (line @ [CR, LF] @ rest) b = Some (rest, b')" using b'(1) by (simp add: serial_read_def)
  have "holds b' 5 (show_args (x # xs) @ [NUL])"
    using b'(2) unfolding line_def append_assoc holds_append by (simp add: numeral_eq_Suc)
  then have "parse_init b' args = Some a"
    using parse_args [of b' 5 x xs 0 args] assms(1,2) by (simp add: parse_init_def a_def cong: if_cong)
  moreover have "shell_dispatch b' args = map_option C_init (parse_init b' args)"
    using b'(2) init_line_dispatch [of b' "show_args (x # xs) @ [NUL]"] by (simp add: line_def)
  ultimately have d: "shell_dispatch b' args = Some (C_init a)" by simp
  then have "invoke_dsh apic g ag rf om s (line @ [CR, LF] @ rest) b args = shell_init apic g ag rf (to_args a) om s"
    using rd by (subst invoke_dsh.simps) simp
  with rd d show ?thesis by blast
qed

end
