(* ===== verification/Cleanup.thy ===== *)
theory Cleanup
  imports Boot
begin

text \<open>
  The release of an address space: \<open>pt_cleanup\<close> and \<open>do_cleanup\<close> of
  src/Assignment3/Ass3/src/context.c.  A table is released when its entries have been,
  and the sets of frames that a subtree gives back are determined level by level.  The
  lemmas do not assume that the number of free pages is right, because the exit of the
  last process spoils it.  Main result: what is left when the first process has been
  launched and has exited.
\<close>

section \<open>Giving frames back\<close>

text \<open>The bounds of a list of pages, and the sum that freeing a used page keeps.\<close>

definition sane :: "kmem \<Rightarrow> bool" where
  "sane s \<longleftrightarrow> (\<forall>r\<in>{OS_PT_REG, USER_REG}. pl_size (pglists s r) < 2 ^ 20 \<and>
     start_address (pglists s r) < 2 ^ 40 \<and> start_address (pglists s r) mod 4096 = 0)"

definition page_sum :: "region \<Rightarrow> kmem \<Rightarrow> nat" where
  "page_sum r s = free_pages (pglists s r) + card (in_use (pglists s r))"

text \<open>From \<open>s\<close> to \<open>s'\<close> the page-table frames \<open>T\<close> and the user frames \<open>P\<close> are given back, nothing else.\<close>

definition released :: "kmem \<Rightarrow> kmem \<Rightarrow> nat set \<Rightarrow> nat set \<Rightarrow> bool" where
  "released s s' T P \<longleftrightarrow> sane s' \<and>
     used_frames OS_PT_REG s' = used_frames OS_PT_REG s - T \<and> used_frames USER_REG s' = used_frames USER_REG s - P \<and>
     (\<forall>r\<in>{OS_PT_REG, USER_REG}. first_pfn r s' = first_pfn r s \<and> page_sum r s' = page_sum r s)"

definition held :: "region \<Rightarrow> kmem \<Rightarrow> nat set" where
  "held r s = used_frames r s - {first_pfn r s}"

lemma released_refl: "sane s \<Longrightarrow> released s s {} {}" by (simp add: released_def)

lemma released_trans: "released s s1 T P \<Longrightarrow> released s1 s2 T' P' \<Longrightarrow> released s s2 (T \<union> T') (P \<union> P')"
  by (auto simp: released_def)

lemma released_sane: "released s s' T P \<Longrightarrow> sane s'" by (simp add: released_def)

lemma released_held:
  assumes "released s s' T P"
  shows "held OS_PT_REG s' = held OS_PT_REG s - T" "held USER_REG s' = held USER_REG s - P"
  using assms by (auto simp: released_def held_def)

lemma pglists_cong:
  assumes "pglists s' = pglists s"
  shows "released x s' T P = released x s T P" "sane s' = sane s" "held r s' = held r s"
  using assms by (simp_all add: released_def sane_def held_def used_frames_def page_sum_def)

lemma os_pfn_free_phys [simp]: "phys (os_pfn_free r f s) = phys s"
  by (simp add: os_pfn_free_def os_page_free_def reset_pfn_info_def set_pfn_info_def Let_def)

lemma free_held:
  assumes s: "sane s" and r: "r \<in> {OS_PT_REG, USER_REG}" and f: "f \<in> held r s"
  shows "released s (os_pfn_free r f s) (if r = OS_PT_REG then {f} else {}) (if r = OS_PT_REG then {} else {f})"
proof -
  let ?pgl = "pglists s r"
  obtain i where i: "f = first_pfn r s + i" "i \<in> in_use ?pgl" "0 < i" using f by (auto simp: held_def used_frames_def)
  let ?pgl' = "?pgl\<lparr>bitmap := pgl_bmap_clear (bitmap ?pgl) i, free_pages := free_pages ?pgl + 1\<rparr>"
  have p: "pglists (os_pfn_free r f s) = (pglists s)(r := ?pgl')"
    using os_page_free_at [of s r i] i s r by (auto simp: sane_def in_use_def)
  have use: "in_use ?pgl' = in_use ?pgl - {i}" by (auto simp: in_use_def bm_bit_clear)
  have "card (in_use ?pgl) = Suc (card (in_use ?pgl - {i}))" using i(2) by (intro card.remove) simp_all
  then have "page_sum r (os_pfn_free r f s) = page_sum r s" using p use by (simp add: page_sum_def)
  moreover have "used_frames r (os_pfn_free r f s) = used_frames r s - {f}"
  proof -
    have "used_frames r (os_pfn_free r f s) = (\<lambda>j. first_pfn r s + j) ` (in_use ?pgl - {i})"
      using p use by (simp add: used_frames_def)
    then show ?thesis using i(1) by (auto simp: used_frames_def)
  qed
  moreover have "used_frames r' (os_pfn_free r f s) = used_frames r' s" "page_sum r' (os_pfn_free r f s) = page_sum r' s"
    if "r' \<noteq> r" for r' using p that by (simp_all add: used_frames_def page_sum_def)
  moreover have "sane (os_pfn_free r f s)" "first_pfn r' (os_pfn_free r f s) = first_pfn r' s" for r'
    using p s by (auto simp: sane_def)
  ultimately show ?thesis using r by (auto simp: released_def)
qed

section \<open>Releasing a tree\<close>

text \<open>
  The subtree of level \<open>l\<close> below frame \<open>c\<close> has the tables \<open>T\<close> with the contents \<open>M\<close> and the pages \<open>P\<close>;
  cleaning it up gives back exactly these frames and changes no other.
\<close>

definition cleans :: "nat \<Rightarrow> (nat \<Rightarrow> nat \<Rightarrow> u64) \<Rightarrow> nat \<Rightarrow> nat \<Rightarrow> nat set \<Rightarrow> nat set \<Rightarrow> bool" where
  "cleans apic M l c T P \<longleftrightarrow>
     (\<forall>s. sane s \<and> (\<forall>x\<in>T. phys s x = M x) \<and> T \<subseteq> held OS_PT_REG s \<and> P \<subseteq> held USER_REG s \<longrightarrow>
        (\<exists>s'. pt_cleanup apic l c s = Some s' \<and> released s s' T P \<and> (\<forall>x. x \<notin> T \<longrightarrow> phys s' x = phys s x)))"

lemma cleansD:
  assumes "cleans apic M l c T P" "sane s" "\<forall>x\<in>T. phys s x = M x" "T \<subseteq> held OS_PT_REG s" "P \<subseteq> held USER_REG s"
  shows "\<exists>s'. pt_cleanup apic l c s = Some s' \<and> released s s' T P \<and> (\<forall>x. x \<notin> T \<longrightarrow> phys s' x = phys s x)"
  using assms unfolding cleans_def by blast

lemma cleans_leaf:
  assumes "\<not> is_apic_base apic c"
  shows "cleans apic M 0 c {} {c}"
  using assms free_held [of _ USER_REG c] by (auto simp: cleans_def)

text \<open>One entry of a table, and a table from entry \<open>lo\<close> on.\<close>

definition clean_entry :: "nat \<Rightarrow> nat \<Rightarrow> nat \<Rightarrow> nat \<Rightarrow> kmem option \<Rightarrow> kmem option" where
  "clean_entry apic l pfn i r =
     (case r of None \<Rightarrow> None
      | Some t \<Rightarrow> (if rd t (pfn, i) AND 1 = 0 then Some t
           else (case pt_cleanup apic l (entry_frame (rd t (pfn, i))) t of None \<Rightarrow> None
                 | Some t' \<Rightarrow> Some (wr t' (pfn, i) 0))))"

definition clean_lo :: "nat \<Rightarrow> nat" where "clean_lo l = (if Suc l = 3 then 2 else 0)"

lemma pt_cleanup_Suc:
  "pt_cleanup apic (Suc l) pfn s =
     (case fold (clean_entry apic l pfn) [clean_lo l..<512] (Some s) of None \<Rightarrow> None
      | Some s' \<Rightarrow> Some (if is_apic_base apic pfn then s' else os_pfn_free OS_PT_REG pfn s'))"
  by (simp add: clean_entry_def [abs_def] clean_lo_def)

text \<open>What a table of level \<open>Suc l\<close> needs of its entries: entry \<open>i\<close> has the tables \<open>T i\<close> and the pages \<open>P i\<close>.\<close>

definition entries_clean ::
  "nat \<Rightarrow> (nat \<Rightarrow> nat \<Rightarrow> u64) \<Rightarrow> nat \<Rightarrow> nat \<Rightarrow> (nat \<Rightarrow> nat set) \<Rightarrow> (nat \<Rightarrow> nat set) \<Rightarrow> bool" where
  "entries_clean apic M l t T P \<longleftrightarrow>
     (\<forall>i\<in>{clean_lo l..<512}. M t i AND 1 = 0 \<and> T i = {} \<and> P i = {} \<or>
        M t i AND 1 \<noteq> 0 \<and> cleans apic M l (entry_frame (M t i)) (T i) (P i) \<and> t \<notin> T i) \<and>
     (\<forall>i j. i < j \<longrightarrow> T i \<inter> T j = {} \<and> P i \<inter> P j = {})"

lemma clean_entry_step:
  assumes c: "M t n AND 1 = 0 \<and> T = {} \<and> P = {} \<or>
      M t n AND 1 \<noteq> 0 \<and> cleans apic M l (entry_frame (M t n)) T P \<and> t \<notin> T"
    and s: "sane s" "\<forall>x\<in>T. phys s x = M x" "T \<subseteq> held OS_PT_REG s" "P \<subseteq> held USER_REG s" "phys s t n = M t n"
  shows "\<exists>s'. clean_entry apic l t n (Some s) = Some s' \<and> released s s' T P \<and>
    (\<forall>x. x \<notin> insert t T \<longrightarrow> phys s' x = phys s x) \<and> (\<forall>j>n. phys s' t j = phys s t j)"
proof (cases "M t n AND 1 = 0")
  case True
  then show ?thesis using c s released_refl by (auto simp: clean_entry_def rd_def)
next
  case False
  then obtain s2 where s2: "pt_cleanup apic l (entry_frame (M t n)) s = Some s2" "released s s2 T P"
    "\<forall>x. x \<notin> T \<longrightarrow> phys s2 x = phys s x" "t \<notin> T"
    using c cleansD [OF _ s(1-4)] by blast
  have "released s (wr s2 (t, n) 0) T P" using s2(2) pglists_cong(1) [of "wr s2 (t, n) 0" s2] by simp
  with False s2 s(5) show ?thesis
    by (intro exI [of _ "wr s2 (t, n) 0"]) (auto simp: clean_entry_def rd_def wr_def)
qed

lemma fold_clean:
  fixes T P :: "nat \<Rightarrow> nat set" and l :: nat
  defines "TT \<equiv> \<lambda>n. \<Union>i\<in>{clean_lo l..<n}. T i" and "PP \<equiv> \<lambda>n. \<Union>i\<in>{clean_lo l..<n}. P i"
  assumes e: "entries_clean apic M l t T P"
    and s: "sane s" "phys s t = M t" "\<forall>x\<in>TT 512. phys s x = M x" "TT 512 \<subseteq> held OS_PT_REG s" "PP 512 \<subseteq> held USER_REG s"
  shows "clean_lo l \<le> n \<Longrightarrow> n \<le> 512 \<Longrightarrow>
    \<exists>s'. fold (clean_entry apic l t) [clean_lo l..<n] (Some s) = Some s' \<and> released s s' (TT n) (PP n) \<and>
      (\<forall>x. x \<notin> insert t (TT n) \<longrightarrow> phys s' x = phys s x) \<and> (\<forall>j\<ge>n. phys s' t j = M t j)"
proof (induction n)
  case 0
  then show ?case using s released_refl by (simp add: TT_def PP_def)
next
  case (Suc n)
  show ?case
  proof (cases "clean_lo l = Suc n")
    case True
    then show ?thesis using s released_refl by (simp add: TT_def PP_def)
  next
    case False
    then have le: "clean_lo l \<le> n" "n < 512" using Suc.prems by auto
    obtain s1 where s1: "fold (clean_entry apic l t) [clean_lo l..<n] (Some s) = Some s1" "released s s1 (TT n) (PP n)"
      "\<forall>x. x \<notin> insert t (TT n) \<longrightarrow> phys s1 x = phys s x" "\<forall>j\<ge>n. phys s1 t j = M t j"
      using Suc.IH le by auto
    have U: "TT (Suc n) = TT n \<union> T n" "PP (Suc n) = PP n \<union> P n" using le by (auto simp: TT_def PP_def atLeastLessThanSuc)
    have inn: "T n \<subseteq> TT 512" "P n \<subseteq> PP 512" using le by (auto simp: TT_def PP_def)
    have dis: "T n \<inter> TT n = {}" "P n \<inter> PP n = {}" using e unfolding entries_clean_def TT_def PP_def by fastforce+
    have c: "M t n AND 1 = 0 \<and> T n = {} \<and> P n = {} \<or>
        M t n AND 1 \<noteq> 0 \<and> cleans apic M l (entry_frame (M t n)) (T n) (P n) \<and> t \<notin> T n"
      using e le unfolding entries_clean_def by simp
    then have "t \<notin> T n" by auto
    then have ph: "\<forall>x\<in>T n. phys s1 x = M x" using s(3) s1(3) dis(1) inn(1) by (metis disjoint_iff insertE subsetD)
    have h: "T n \<subseteq> held OS_PT_REG s1" "P n \<subseteq> held USER_REG s1"
      using s(4,5) inn dis released_held [OF s1(2)] by auto
    obtain s2 where s2: "clean_entry apic l t n (Some s1) = Some s2" "released s1 s2 (T n) (P n)"
      "\<forall>x. x \<notin> insert t (T n) \<longrightarrow> phys s2 x = phys s1 x" "\<forall>j>n. phys s2 t j = phys s1 t j"
      using clean_entry_step [OF c released_sane [OF s1(2)] ph h] s1(4) by auto
    have "released s s2 (TT (Suc n)) (PP (Suc n))" unfolding U by (rule released_trans [OF s1(2) s2(2)])
    moreover have "fold (clean_entry apic l t) [clean_lo l..<Suc n] (Some s) = Some s2" using le s1(1) s2(1) by simp
    ultimately show ?thesis using s1(3,4) s2(3,4) U(1) by (intro exI [of _ s2]) simp
  qed
qed

lemma cleans_table:
  assumes e: "entries_clean apic M l t T P" and ap: "\<not> is_apic_base apic t"
  shows "cleans apic M (Suc l) t (insert t (\<Union>i\<in>{clean_lo l..<512}. T i)) (\<Union>i\<in>{clean_lo l..<512}. P i)"
  unfolding cleans_def
proof (intro allI impI, elim conjE)
  let ?T = "\<Union>i\<in>{clean_lo l..<512}. T i" and ?P = "\<Union>i\<in>{clean_lo l..<512}. P i"
  fix s assume s: "sane s" "\<forall>x\<in>insert t ?T. phys s x = M x" "insert t ?T \<subseteq> held OS_PT_REG s" "?P \<subseteq> held USER_REG s"
  have "t \<notin> T i" if "i \<in> {clean_lo l..<512}" for i using e that unfolding entries_clean_def by (metis empty_iff)
  then have t: "t \<notin> ?T" by simp
  have lo: "clean_lo l \<le> 512" by (simp add: clean_lo_def)
  obtain s1 where s1: "fold (clean_entry apic l t) [clean_lo l..<512] (Some s) = Some s1" "released s s1 ?T ?P"
    "\<forall>x. x \<notin> insert t ?T \<longrightarrow> phys s1 x = phys s x"
    using fold_clean [OF e s(1) _ _ _ s(4) lo order_refl] s(2,3) by auto
  have "t \<in> held OS_PT_REG s1" using s(3) t released_held [OF s1(2)] by simp
  from free_held [OF released_sane [OF s1(2)] _ this]
  have "released s1 (os_pfn_free OS_PT_REG t s1) {t} {}" by simp
  from released_trans [OF s1(2) this] have "released s (os_pfn_free OS_PT_REG t s1) (insert t ?T) ?P" by simp
  moreover have "pt_cleanup apic (Suc l) t s = Some (os_pfn_free OS_PT_REG t s1)"
    unfolding pt_cleanup_Suc s1(1) using ap by simp
  moreover have "\<forall>x. x \<notin> insert t ?T \<longrightarrow> phys (os_pfn_free OS_PT_REG t s1) x = phys s x"
    unfolding os_pfn_free_phys by (rule s1(3))
  ultimately show "\<exists>s'. pt_cleanup apic (Suc l) t s = Some s' \<and> released s s' (insert t ?T) ?P \<and>
      (\<forall>x. x \<notin> insert t ?T \<longrightarrow> phys s' x = phys s x)" by blast
qed

text \<open>A table with one entry, and one with none.\<close>

lemma cleans_single:
  assumes "M t = (\<lambda>_. 0)(i := mk_pte c fl)" "fl AND 1 \<noteq> 0" "fl < 2 ^ 12" "c < 2 ^ 32" "clean_lo l \<le> i" "i < 512"
    and "cleans apic M l c T P" "t \<notin> T" "\<not> is_apic_base apic t"
  shows "cleans apic M (Suc l) t (insert t T) P"
proof -
  let ?T = "\<lambda>j. if j = i then T else {}" and ?P = "\<lambda>j. if j = i then P else {}"
  have "entries_clean apic M l t ?T ?P"
    using assms by (auto simp: entries_clean_def mk_pte_and entry_frame_mk)
  from cleans_table [OF this assms(9)] show ?thesis using assms(5,6) by (simp add: UN_extend_simps cong: if_cong)
qed

lemma cleans_blank:
  assumes "M t = (\<lambda>_. 0)" "\<not> is_apic_base apic t"
  shows "cleans apic M (Suc l) t {t} {}"
proof -
  have "entries_clean apic M l t (\<lambda>_. {}) (\<lambda>_. {})" using assms by (simp add: entries_clean_def)
  from cleans_table [OF this assms(2)] show ?thesis by simp
qed

section \<open>The tables of the first process\<close>

text \<open>The table of the code pages.\<close>

lemma cleans_pages:
  assumes M: "M t = (\<lambda>i. if i < n then mk_pte (U i) fl else 0)" "fl AND 1 \<noteq> 0" "fl < 2 ^ 12" "n \<le> 512"
    and U: "inj_on U {..<n}" "\<And>i. i < n \<Longrightarrow> U i < 2 ^ 32 \<and> \<not> is_apic_base apic (U i)" and ap: "\<not> is_apic_base apic t"
  shows "cleans apic M 1 t {t} (U ` {..<n})"
proof -
  let ?P = "\<lambda>i. if i < n then {U i} else {}"
  have "entries_clean apic M 0 t (\<lambda>_. {}) ?P"
    using M U cleans_leaf by (auto simp: entries_clean_def mk_pte_and entry_frame_mk inj_on_def)
  from cleans_table [OF this ap] have "cleans apic M 1 t {t} (\<Union>i\<in>{0..<512}. ?P i)" by (simp add: clean_lo_def)
  moreover have "{0..<512} \<inter> {i. i < n} = {..<n}" using M(4) by auto
  then have "(\<Union>i\<in>{0..<512}. ?P i) = U ` {..<n}" by auto
  ultimately show ?thesis by simp
qed

text \<open>The whole tree, the mapping of the interrupt controller being removed: all tables but the two of the kernel.\<close>

lemma cleans_init:
  assumes tab: "init_tables F U g ap ae M0" and M: "M = M0(F 10 := (\<lambda>_. 0))" and ap: "pud_index ap \<in> {2, 3}"
    and F: "\<And>i j. i < 11 \<Longrightarrow> j < 11 \<Longrightarrow> F i = F j \<longleftrightarrow> i = j" "\<And>k. k < 11 \<Longrightarrow> F k < 2 ^ 32 \<and> \<not> is_apic_base apic (F k)"
    and U: "inj_on U {..<10}" "\<And>k. k < 10 \<Longrightarrow> U k < 2 ^ 32 \<and> \<not> is_apic_base apic (U k)"
  shows "cleans apic M 4 (F 0) (F ` ({..<11} - {8, 9})) (U ` {..<10})"
proof -
  note T = tab [unfolded init_tables_def]
  have e: "M (F k) = M0 (F k)" if "k < 10" for k using F(1) [of k 10] that by (simp add: M)
  have single: "cleans apic M (Suc l) (F k) (insert (F k) Ts) P"
    if "M0 (F k) = (\<lambda>_. 0)(i := mk_pte c 7)" "k < 10" "c < 2 ^ 32" "clean_lo l \<le> i" "i < 512" "cleans apic M l c Ts P" "F k \<notin> Ts"
    for k l i c Ts P
    using cleans_single [of M "F k" i c 7 l apic Ts P] that e F(2) [of k] by simp
  have code: "cleans apic M 1 (F 3) {F 3} (U ` {..<8})"
    using T e [of 3] U F(2) [of 3] by (intro cleans_pages) (auto simp: inj_on_def)
  have leaf: "cleans apic M 0 (U k) {} {U k}" if "k < 10" for k using U(2) [OF that] cleans_leaf by blast
  have c5: "cleans apic M 1 (F 5) {F 5} {U 8}"
    using single [of 5 0 "U 8" 0 "{}" "{U 8}"] T leaf [of 8] U(2) [of 8] by (simp add: clean_lo_def)
  have c7: "cleans apic M 1 (F 7) {F 7} {U 9}"
    using single [of 7 511 "U 9" 0 "{}" "{U 9}"] T leaf [of 9] U(2) [of 9] by (simp add: clean_lo_def)
  have c2: "cleans apic M 2 (F 2) {F 2, F 3} (U ` {..<8})"
    using single [of 2 0 "F 3" 1 "{F 3}" "U ` {..<8}"] T code F(1) [of 2 3] F(2) [of 3] by (simp add: clean_lo_def numeral_2_eq_2)
  have c4: "cleans apic M 2 (F 4) {F 4, F 5} {U 8}"
    using single [of 4 0 "F 5" 1 "{F 5}" "{U 8}"] T c5 F(1) [of 4 5] F(2) [of 5] by (simp add: clean_lo_def numeral_2_eq_2)
  have c6: "cleans apic M 2 (F 6) {F 6, F 7} {U 9}"
    using single [of 6 511 "F 7" 1 "{F 7}" "{U 9}"] T c7 F(1) [of 6 7] F(2) [of 7] by (simp add: clean_lo_def numeral_2_eq_2)
  have c10: "cleans apic M 2 (F 10) {F 10} {}"
    using cleans_blank [of M "F 10" apic 1] F(2) [of 10] by (simp add: M numeral_2_eq_2)
  let ?T = "(\<lambda>_. {})(4 := {F 2, F 3}, 6 := {F 4, F 5}, 31 := {F 6, F 7}, pud_index ap := {F 10})"
  let ?P = "(\<lambda>_ :: nat. {})(4 := U ` {..<8}, 6 := {U 8}, 31 := {U 9})"
  have M1: "M (F 1) = (\<lambda>_. 0)(4 := mk_pte (F 2) 7, 6 := mk_pte (F 4) 7, 31 := mk_pte (F 6) 7,
                       0 := mk_pte (F 8) 3, 1 := mk_pte (F 9) 3, pud_index ap := mk_pte (F 10) 3)" using T e [of 1] by simp
  have Udis: "U ` {..<8} \<inter> {U 8} = {}" "U ` {..<8} \<inter> {U 9} = {}" "U 8 \<noteq> U 9"
    using inj_on_eq_iff [OF U(1)] by auto
  have "entries_clean apic M 2 (F 1) ?T ?P"
    unfolding entries_clean_def M1
    using c2 c4 c6 c10 ap F Udis by (auto simp: clean_lo_def mk_pte_and entry_frame_mk)
  moreover have "\<not> is_apic_base apic (F 1)" using F(2) [of 1] by simp
  moreover have lo: "clean_lo 2 = 2" "Suc 2 = 3" by (simp_all add: clean_lo_def)
  ultimately have "cleans apic M 3 (F 1) (insert (F 1) (\<Union>i\<in>{2..<512}. ?T i)) (\<Union>i\<in>{2..<512}. ?P i)"
    using cleans_table [of apic M 2 "F 1" ?T ?P, unfolded lo] by blast
  moreover have "(\<Union>i\<in>{2..<512}. ?T i) = {F 2, F 3, F 4, F 5, F 6, F 7, F 10}" using ap by (auto split: if_splits)
  moreover have "(\<Union>i\<in>{2..<512}. ?P i) = insert (U 9) (insert (U 8) (U ` {..<8}))" by (auto split: if_splits)
  moreover have "{..<10 :: nat} = insert 9 (insert 8 {..<8})" by auto
  ultimately have c1: "cleans apic M 3 (F 1) {F 1, F 2, F 3, F 4, F 5, F 6, F 7, F 10} (U ` {..<10})"
    by (simp only: image_insert)
  have "cleans apic M 4 (F 0) {F 0, F 1, F 2, F 3, F 4, F 5, F 6, F 7, F 10} (U ` {..<10})"
    using single [of 0 0 "F 1" 3 "{F 1, F 2, F 3, F 4, F 5, F 6, F 7, F 10}" "U ` {..<10}"] T c1 F(2) [of 1]
    by (simp add: clean_lo_def F(1))
  moreover have "{..<11} - {8, 9 :: nat} = {0, 1, 2, 3, 4, 5, 6, 7, 10}" by (auto; presburger)
  ultimately show ?thesis by (simp only: image_insert image_empty)
qed

lemma init_release:
  fixes apic :: nat defines "a \<equiv> apic div 2 ^ 21 * 2 ^ 21"
  assumes tab: "init_tables F U g a ae M0" and ap: "2 ^ 31 \<le> apic" "apic < 2 ^ 32"
    and ph: "\<And>k. k < 11 \<Longrightarrow> phys m (F k) = M0 (F k)" and sane: "sane m"
    and held: "F ` {..<11} \<subseteq> held OS_PT_REG m" "U ` {..<10} \<subseteq> held USER_REG m"
    and F: "\<And>i j. i < 11 \<Longrightarrow> j < 11 \<Longrightarrow> F i = F j \<longleftrightarrow> i = j" "\<And>k. k < 11 \<Longrightarrow> F k < 2 ^ 19"
    and U: "inj_on U {..<10}" "\<And>k. k < 10 \<Longrightarrow> U k < 2 ^ 19"
  shows "\<exists>m2 m3. remove_apic_mapping apic (F 0) m = Some m2 \<and> pt_cleanup apic 4 (F 0) m2 = Some m3 \<and>
    released m (os_pfn_free OS_PT_REG (F 9) m3) (F ` ({..<11} - {8})) (U ` {..<10})"
proof -
  note T = tab [unfolded init_tables_def] and i = apic_indices [OF ap, folded a_def]
  let ?M = "M0(F 10 := (\<lambda>_. 0))" and ?m2 = "wr m (F 10, pmd_index a) 0"
  have hi: "2 ^ 19 \<le> apic div 4096" using ap(1) by simp
  have nap: "x < 2 ^ 32 \<and> \<not> is_apic_base apic x" if "x < 2 ^ 19" for x using hi that by (auto simp: is_apic_base_def)
  have r: "rd m (F k, j) = M0 (F k) j" if "k < 11" for k j using ph [OF that] by (simp add: rd_def)
  have rm: "remove_apic_mapping apic (F 0) m = Some ?m2"
    unfolding remove_apic_mapping_def Let_def a_def [symmetric]
    using T i(1) r [of 0] r [of 1] nap [OF F(2) [of 1]] nap [OF F(2) [of 10]] by (simp add: mk_pte_and entry_frame_mk)
  have ph2: "phys ?m2 (F k) = ?M (F k)" if "k < 11" for k
    using T ph [OF that] F(1) [OF that, of 10] by (auto simp: wr_def)
  have sub: "F ` ({..<11} - {8, 9}) \<subseteq> F ` {..<11}" by auto
  have "cleans apic ?M 4 (F 0) (F ` ({..<11} - {8, 9})) (U ` {..<10})"
    using cleans_init [OF tab refl i(2) F(1) _ U(1)] nap F(2) U(2) by blast
  note cl = cleansD [OF this]
  have m2: "sane ?m2" "held r ?m2 = held r m" "released x ?m2 T P = released x m T P" for r x T P
    using pglists_cong [of ?m2 m] sane by auto
  have "\<forall>x\<in>F ` ({..<11} - {8, 9}). phys ?m2 x = ?M x" using ph2 by auto
  then obtain m3 where m3: "pt_cleanup apic 4 (F 0) ?m2 = Some m3"
    "released ?m2 m3 (F ` ({..<11} - {8, 9})) (U ` {..<10})"
    using cl [OF m2(1)] held sub unfolding m2(2) by blast
  have "released m ?m2 {} {}" unfolding m2(3) by (rule released_refl [OF sane])
  from released_trans [OF this m3(2)] have rel: "released m m3 (F ` ({..<11} - {8, 9})) (U ` {..<10})" by simp
  have "F 9 \<in> held OS_PT_REG m3" using held(1) released_held(1) [OF rel] F(1) by auto
  from free_held [OF released_sane [OF rel] _ this]
  have "released m3 (os_pfn_free OS_PT_REG (F 9) m3) {F 9} {}" by simp
  from released_trans [OF rel this]
  have "released m (os_pfn_free OS_PT_REG (F 9) m3) (F ` ({..<11} - {8, 9}) \<union> {F 9}) (U ` {..<10})" by simp
  moreover have "F ` ({..<11} - {8, 9}) \<union> {F 9} = F ` ({..<11} - {8})" by auto
  ultimately show ?thesis using rm m3(1) by auto
qed

section \<open>The exit of the first process\<close>

text \<open>Freeing a frame that is free only counts it.\<close>

lemma free_again:
  assumes s: "sane s" and f: "f \<notin> used_frames OS_PT_REG s" "f \<in> region_frames OS_PT_REG s" "f \<noteq> first_pfn OS_PT_REG s"
  defines "s' \<equiv> os_pfn_free OS_PT_REG f s"
  shows "sane s'" "used_frames r s' = used_frames r s" "first_pfn r s' = first_pfn r s"
    "page_sum OS_PT_REG s' = Suc (page_sum OS_PT_REG s)" "page_sum USER_REG s' = page_sum USER_REG s"
proof -
  let ?pgl = "pglists s OS_PT_REG"
  obtain i where i: "f = first_pfn OS_PT_REG s + i" "i < pl_size ?pgl" "0 < i" "i \<notin> in_use ?pgl"
    using f by (auto simp: region_frames_def used_frames_def)
  let ?pgl' = "?pgl\<lparr>bitmap := pgl_bmap_clear (bitmap ?pgl) i, free_pages := free_pages ?pgl + 1\<rparr>"
  have p: "pglists s' = (pglists s)(OS_PT_REG := ?pgl')"
    using os_page_free_at [of s OS_PT_REG i] i s by (auto simp: sane_def s'_def)
  have "in_use ?pgl' = in_use ?pgl" using i(4) by (auto simp: in_use_def bm_bit_clear)
  then have use: "in_use (pglists s' r) = in_use (pglists s r)" for r using p by simp
  show "sane s'" using s p by (simp add: sane_def)
  show fp: "first_pfn r s' = first_pfn r s" using p by simp
  show "used_frames r s' = used_frames r s" using use fp by (simp add: used_frames_def)
  show "page_sum OS_PT_REG s' = Suc (page_sum OS_PT_REG s)" "page_sum USER_REG s' = page_sum USER_REG s"
    unfolding page_sum_def use using p by simp_all
qed

lemma freed_region: "region_frames r (os_pfn_free r' f s) = region_frames r s"
  by (simp add: region_frames_def pglists_os_pfn_free os_page_free_def Let_def)

lemma rooms_used:
  assumes "kmem_ok s" "rooms r n s"
  shows "used_frames r (after r n s) = used_frames r s \<union> nth_frame r s ` {..<n}"
  using assms
proof (induction n arbitrary: s)
  case (Suc n)
  obtain f s1 where a: "os_pfn_alloc r s = (f, s1)" by fastforce
  have f: "kmem_ok s1" "used_frames r s1 = insert f (used_frames r s)"
    using os_pfn_alloc_fresh [OF Suc.prems(1) _ a] Suc.prems(2) by auto
  have "used_frames r (after r (Suc n) s) = insert f (used_frames r s) \<union> nth_frame r s1 ` {..<n}"
    using Suc.IH [OF f(1)] Suc.prems(2) a f(2) by (simp add: after_Suc_shift)
  moreover have "nth_frame r s 0 = f" "nth_frame r s (Suc k) = nth_frame r s1 k" for k
    using a nth_frame_Suc [of r s k] by (simp_all add: nth_frame_def)
  then have "nth_frame r s ` {..<Suc n} = insert f (nth_frame r s1 ` {..<n})"
    by (simp add: lessThan_Suc_eq_insert_0 image_image)
  ultimately show ?case by auto
qed simp

lemma after_bounds:
  "pl_size (pglists (after r n s) r) = pl_size (pglists s r) \<and> start_address (pglists (after r n s) r) = start_address (pglists s r)"
  by (induction n) (simp_all add: after_Suc pglists_os_pfn_alloc get_free_page_eq)

lemma launched_lists:
  assumes ok: "kmem_ok b" "rooms r n b" and p: "pglists m r = pglists (after r n b) r"
  shows "used_frames r m = used_frames r b \<union> nth_frame r b ` {..<n}" "first_pfn r m = first_pfn r b"
    "page_sum r m = page_sum r b" "pl_size (pglists m r) = pl_size (pglists b r)" "pgl_ok (pglists m r)"
proof -
  have ka: "kmem_ok (after r n b)" using rooms_after [OF ok] by blast
  show "used_frames r m = used_frames r b \<union> nth_frame r b ` {..<n}" using rooms_used [OF ok] p by (simp add: used_frames_def)
  show "first_pfn r m = first_pfn r b" "pl_size (pglists m r) = pl_size (pglists b r)" using p by (simp_all add: after_bounds)
  show "pgl_ok (pglists m r)" using ka p by (simp add: kmem_ok_def)
  then show "page_sum r m = page_sum r b" using ok(1) p by (simp add: kmem_ok_def pgl_ok_def page_sum_def after_bounds)
qed

lemma load_text_lists [simp]: "pglists (load_text p m) = pglists m"
proof -
  have "pglists (fold (\<lambda>i. copy_frame (p + i) (0x200 + i)) is m) = pglists m" for "is"
    by (induction "is" arbitrary: m) (simp_all add: copy_frame_def)
  then show ?thesis by (simp add: load_text_def)
qed

lemma shell_init_exit:
  fixes s :: os
  defines "m0 \<equiv> snd (os_pfn_alloc OS_PT_REG (mem s))" and "stk \<equiv> fst (os_pfn_alloc OS_PT_REG (mem s))"
  assumes idle: "idle_inv s" and fresh: "\<And>n. 0 < n \<Longrightarrow> ctxs s n = zero_ctx"
    and im: "init_memory apic g ag (init_segments (mms zero_ctx)) om m0 = (pg, om', m)" and pg: "pgd (ctxs s 0) \<noteq> pg"
  shows "\<exists>s' s1. shell_init apic g ag rf args om s = Some (om', s') \<and> do_exit s' = Halt s1 \<and>
    mem s1 = os_pfn_free OS_PT_REG stk m \<and> pgd (ctxs s1 (cur s1)) = pg \<and> os_stack_pfn (ctxs s1 (cur s1)) = stk \<and>
    (\<forall>n. 0 < n \<longrightarrow> state_of s1 n = UNUSED)"
proof -
  have "state_of s 1 = UNUSED" using fresh [of 1] by (simp add: state_of_def zero_ctx_def)
  then have free: "\<exists>n<MAX_PROCESSES. state_of s n = UNUSED" by (intro exI [of _ 1]) simp
  obtain n s1 where c: "create_context ''init'' 2 s = Some (n, s1)" "n < MAX_PROCESSES" "state_of s n = UNUSED" "mem s1 = m0"
    "\<And>k. k \<noteq> n \<Longrightarrow> ctxs s1 k = ctxs s k" "os_stack_pfn (ctxs s1 n) = stk" "ppid (ctxs s1 n) = ppid (ctxs s n)"
    "mms (ctxs s1 n) = init_segments (mms (ctxs s n))"
    using create_context_eq [OF free, of "''init''" 2] unfolding m0_def stk_def by fastforce
  have n0: "n \<noteq> 0" using c(3) idle by (cases n) (auto simp: idle_inv_def)
  have z: "ppid (ctxs s1 n) = 0" "mms (ctxs s1 n) = init_segments (mms zero_ctx)" using fresh n0 c(7,8) by (auto simp: zero_ctx_def)
  obtain x s' where x: "exec_init apic g ag rf args n om s1 = (x, s')" by fastforce
  then have e: "x = om'" "mem s' = m" "cur s' = n" "pgd (ctxs s' n) = pg" "os_stack_pfn (ctxs s' n) = stk" "ppid (ctxs s' n) = 0"
    "\<And>k. k \<noteq> n \<Longrightarrow> ctxs s' k = ctxs s k"
    using im c(4-6) z by (auto simp: exec_init_def upd_ctx_def Let_def)
  have keep: "vfork_exit_handle (ctxs s' n) (ctxs s' 0) = ctxs s' 0"
    using e(4) e(7) [of 0] n0 pg by (simp add: vfork_exit_handle_def)
  let ?s3 = "set_state n UNUSED (s'\<lparr>mem := os_pfn_free OS_PT_REG stk m\<rparr>)"
  define s4 where "s4 = ?s3\<lparr>st_num_processes := sub64 (st_num_processes ?s3) 1\<rparr>"
  have u: "upd_ctx 0 (vfork_exit_handle (ctxs s' n)) s' = s'" using keep by (simp add: upd_ctx_def)
  have un: "state_of s4 k = UNUSED" if "0 < k" for k
    using e(7) fresh that by (cases "k = n") (simp_all add: s4_def state_of_def set_state_def upd_ctx_def zero_ctx_def)
  have s4: "mem s4 = os_pfn_free OS_PT_REG stk m" "cur s4 = n" "pgd (ctxs s4 n) = pg" "os_stack_pfn (ctxs s4 n) = stk"
    using e by (simp_all add: s4_def set_state_def upd_ctx_def)
  have "list_all (\<lambda>n. state_of s4 n = UNUSED) [1..<MAX_PROCESSES]" using un by (simp add: list_all_iff)
  then have "do_exit s' = Halt s4"
    using e u by (simp add: do_exit_def get_ctx_by_pid_def Let_def s4_def)
  moreover have "shell_init apic g ag rf args om s = Some (om', s')" using c(1) x e(1) by (simp add: shell_init_def)
  ultimately show ?thesis using s4 un by (intro exI [of _ s'] exI [of _ s4]) simp
qed

text \<open>The memory of the first process, given back by \<open>do_exit\<close> and \<open>do_cleanup\<close>: \<open>b\<close> is the memory before the launch.\<close>

lemma init_memory_release:
  fixes b :: kmem
  defines "F \<equiv> nth_frame OS_PT_REG b" and "U \<equiv> nth_frame USER_REG b"
  assumes ready: "launch_ready b" and ap: "2 ^ 31 \<le> apic" "apic < 2 ^ 32" and mm: "std_segments mm"
    and stk: "stk \<in> held OS_PT_REG b" "stk < 2 ^ 19"
    and F: "\<And>k. k < 11 \<Longrightarrow> F k < 2 ^ 19 \<and> F k \<noteq> first_pfn OS_PT_REG b"
    and U: "\<And>k. k < 10 \<Longrightarrow> U k < 2 ^ 19 \<and> U k \<noteq> first_pfn USER_REG b"
  shows "\<exists>m m2 m3 m4. init_memory apic g ag mm om b = (F 0, F 9, m) \<and>
    remove_apic_mapping apic (F 0) (os_pfn_free OS_PT_REG stk (os_pfn_free OS_PT_REG stk m)) = Some m2 \<and>
    pt_cleanup apic 4 (F 0) m2 = Some m3 \<and> m4 = os_pfn_free OS_PT_REG (F 9) m3 \<and>
    used_frames USER_REG m4 = used_frames USER_REG b \<and>
    used_frames OS_PT_REG m4 = insert (F 8) (used_frames OS_PT_REG b - {stk}) \<and>
    page_sum USER_REG m4 = page_sum USER_REG b \<and> page_sum OS_PT_REG m4 = Suc (page_sum OS_PT_REG b)"
proof -
  have rd: "kmem_ok b" "regions_apart b" "rooms OS_PT_REG 11 b" "rooms USER_REG 10 b" "\<forall>k<8. U k = U 0 + k"
    "0x208 \<le> first_pfn USER_REG b" using ready unfolding launch_ready_def U_def by blast+
  obtain M m5 where i: "init_memory apic g ag mm om b = (F 0, F 9, load_text (U 0) m5)" "tracks b 11 10 M m5"
    "init_tables F U g (apic div 2 ^ 21 * 2 ^ 21) (apic_entry apic g ag) M"
    using init_memory_tables [OF rd(1,3) mm ap] unfolding F_def U_def by blast
  let ?m = "load_text (U 0) m5"
  have fr: "inj_on F {..<11}" "\<And>k. k < 11 \<Longrightarrow> F k \<notin> used_frames OS_PT_REG b" "\<And>k. k < 11 \<Longrightarrow> F k \<in> region_frames OS_PT_REG b"
    "inj_on U {..<10}" "\<And>k. k < 10 \<Longrightarrow> U k \<notin> used_frames USER_REG b" "\<And>k. k < 10 \<Longrightarrow> U k \<in> region_frames USER_REG b"
    using rooms_fresh [OF rd(1,3)] rooms_fresh [OF rd(1,4)] unfolding F_def U_def by auto
  have p: "pglists ?m OS_PT_REG = pglists (after OS_PT_REG 11 b) OS_PT_REG" "pglists ?m USER_REG = pglists (after USER_REG 10 b) USER_REG"
    using i(2) by (simp_all add: tracks_def)
  note m = launched_lists [OF rd(1,3) p(1)] launched_lists [OF rd(1,4) p(2)]
  have sm: "sane ?m" using m(5,10) by (simp add: sane_def pgl_ok_def)
  have sF: "stk \<noteq> F k" if "k < 11" for k using fr(2) [OF that] stk(1) by (auto simp: held_def)
  have nF: "first_pfn OS_PT_REG b \<notin> F ` {..<11}" "first_pfn USER_REG b \<notin> U ` {..<10}"
    using F U by (metis imageE lessThan_iff)+
  have hm: "held OS_PT_REG ?m = held OS_PT_REG b \<union> F ` {..<11}" "held USER_REG ?m = held USER_REG b \<union> U ` {..<10}"
    using m(1,2,6,7) nF unfolding held_def F_def U_def by auto
  let ?m1 = "os_pfn_free OS_PT_REG stk ?m"
  have r1: "released ?m ?m1 {stk} {}" using free_held [OF sm, of OS_PT_REG stk] stk(1) hm(1) by simp
  have st1: "stk \<notin> used_frames OS_PT_REG ?m1" "stk \<noteq> first_pfn OS_PT_REG ?m1" "stk \<in> region_frames OS_PT_REG ?m1"
    using r1 stk(1) m(2) freed_region [of OS_PT_REG OS_PT_REG stk ?m] used_in_region [of OS_PT_REG b] m(2,4)
    by (auto simp: released_def held_def region_frames_def)
  let ?m1' = "os_pfn_free OS_PT_REG stk ?m1"
  note fa = free_again [OF released_sane [OF r1] st1(1,3,2)]
  have h1: "held OS_PT_REG ?m1' = held OS_PT_REG ?m - {stk}" "held USER_REG ?m1' = held USER_REG ?m"
    using released_held [OF r1] fa(2,3) by (simp_all add: held_def)
  have M5: "phys m5 = M" using i(2) by (simp only: tracks_def)
  have u: "U k \<in> region_frames USER_REG b" if "k < 8" for k using fr(6) [of k] that by simp
  have u0: "U k = U 0 + k" if "k < 8" for k using rd(5) that by blast
  have ph: "phys ?m1' (F k) = M (F k)" if "k < 11" for k
    unfolding os_pfn_free_phys M5 [symmetric] by (rule load_text_table [OF rd(2) u u0 rd(6) fr(3) [OF that]])
  have h: "F ` {..<11} \<subseteq> held OS_PT_REG ?m1'" "U ` {..<10} \<subseteq> held USER_REG ?m1'"
    unfolding h1 hm using sF by blast+
  have iF: "F i = F j \<longleftrightarrow> i = j" if "i < 11" "j < 11" for i j using inj_on_eq_iff [OF fr(1)] that by simp
  obtain m2 m3 where c: "remove_apic_mapping apic (F 0) ?m1' = Some m2" "pt_cleanup apic 4 (F 0) m2 = Some m3"
    "released ?m1' (os_pfn_free OS_PT_REG (F 9) m3) (F ` ({..<11} - {8})) (U ` {..<10})"
    using init_release [OF i(3) ap ph fa(1) h iF _ fr(4)] F U by blast
  let ?m4 = "os_pfn_free OS_PT_REG (F 9) m3"
  have "used_frames USER_REG ?m4 = used_frames USER_REG b"
    using c(3) fa(2) r1 m(6) fr(5) by (auto simp: released_def U_def)
  moreover have "used_frames OS_PT_REG ?m4 = insert (F 8) (used_frames OS_PT_REG b - {stk})"
  proof -
    have "used_frames OS_PT_REG ?m4 = used_frames OS_PT_REG b \<union> F ` {..<11} - {stk} - F ` ({..<11} - {8})"
      using c(3) fa(2) r1 m(1) by (simp add: released_def F_def)
    moreover have "F ` {..<11} = insert (F 8) (F ` ({..<11} - {8}))" by auto
    moreover have "F 8 \<notin> F ` ({..<11} - {8})" using fr(1) by (auto simp: inj_on_def)
    moreover have "F ` ({..<11} - {8}) \<inter> used_frames OS_PT_REG b = {}" using fr(2) by auto
    ultimately show ?thesis using sF [of 8] by auto
  qed
  moreover have "page_sum USER_REG ?m4 = page_sum USER_REG b" "page_sum OS_PT_REG ?m4 = Suc (page_sum OS_PT_REG b)"
    using c(3) fa(4,5) r1 m(3,8) by (simp_all add: released_def)
  ultimately show ?thesis using i(1) c(1,2) by blast
qed

lemma free_pages_sum: "get_free_pages_region r s = page_sum r s - card (used_frames r s)"
proof -
  have "card (used_frames r s) = card (in_use (pglists s r))" unfolding used_frames_def by (intro card_image) simp
  then show ?thesis by (simp add: get_free_pages_region_def page_sum_def)
qed

lemma finite_used [simp]: "finite (used_frames r s)"
  by (simp add: used_frames_def in_use_def)

text \<open>The page of the kernel stack, which is allocated before the page table.\<close>

lemma stack_page:
  assumes ok: "kmem_ok s" "room OS_PT_REG s"
  defines "b \<equiv> snd (os_pfn_alloc OS_PT_REG s)" and "f \<equiv> fst (os_pfn_alloc OS_PT_REG s)"
  shows "used_frames OS_PT_REG b = insert f (used_frames OS_PT_REG s)" "f \<notin> used_frames OS_PT_REG s"
    "used_frames USER_REG b = used_frames USER_REG s" "page_sum r b = page_sum r s"
proof -
  have a: "os_pfn_alloc OS_PT_REG s = (f, b)" by (simp add: b_def f_def)
  from os_pfn_alloc_fresh [OF ok this]
  show "used_frames OS_PT_REG b = insert f (used_frames OS_PT_REG s)" "f \<notin> used_frames OS_PT_REG s"
    "used_frames USER_REG b = used_frames USER_REG s" and "page_sum r b = page_sum r s"
    using ok(1) after_bounds [of OS_PT_REG 1 s] after_other [of r OS_PT_REG 1 s]
    by (cases "r = OS_PT_REG"; simp add: kmem_ok_def pgl_ok_def page_sum_def after_def b_def)+
qed

text \<open>Some addresses of handlers, for examples.\<close>

definition boot_handlers :: handlers where
  "boot_handlers = \<lparr>handle_div_by_zero = 0x101000, handle_page_fault = 0x101100, handle_gp = 0x101200,
     handle_syscall = 0x101300, handle_irq = 0x101400\<rparr>"

text \<open>
  C8. What is left of the first process.  The kernel starts, \<open>init\<close> is launched and
  exits; it is the last process, so \<open>do_exit\<close> ends in \<open>do_cleanup\<close>.  The release of the page
  table ends without a fault (the registers of the interrupt controller are not taken
  for a table).  Every user page is free again, every slot of the process table is
  unused, and of the twelve pages for the kernel stack and the tables exactly one stays
  allocated: the first of the two tables that map the kernel.  The number of free pages
  does not show this, it is what it was before the launch, because the stack has been
  freed twice.
\<close>

theorem init_exit_leaves_one_table:
  assumes ap: "2 ^ 31 \<le> apic" "apic < 2 ^ 32"
  shows "\<exists>o3 s om' s' s1 s2. kmain (\<lambda>_ _. 0) cr3 h task ss cs rf0 o0 s0 = Some (o3, s) \<and>
    shell_init apic g ag rf args om s = Some (om', s') \<and> do_exit s' = Halt s1 \<and> do_cleanup apic om' s1 = Some s2 \<and>
    (\<forall>n>0. state_of s2 n = UNUSED) \<and>
    used_frames USER_REG (mem s2) = used_frames USER_REG (mem s) \<and>
    used_frames OS_PT_REG (mem s2) = insert 0x2091 (used_frames OS_PT_REG (mem s)) \<and> 0x2091 \<notin> used_frames OS_PT_REG (mem s) \<and>
    get_free_pages_region USER_REG (mem s2) = get_free_pages_region USER_REG (mem s) \<and>
    get_free_pages_region OS_PT_REG (mem s2) = get_free_pages_region OS_PT_REG (mem s)"
proof -
  let ?m = "(om_km o0)\<lparr>pglists := init_pagelists (\<lambda>_ _. 0)\<rparr>"
  obtain o3 s where k: "kmain (\<lambda>_ _. 0) cr3 h task ss cs rf0 o0 s0 = Some (o3, s)" "idle_inv s"
    "booted ?m 135 (mem s)" "pgd (ctxs s 0) = 0x70" "\<forall>n>0. ctxs s n = zero_ctx"
    using kmain_ready by blast
  define b where "b = snd (os_pfn_alloc OS_PT_REG (mem s))"
  define stk where "stk = fst (os_pfn_alloc OS_PT_REG (mem s))"
  have z: "pglists ?m = init_pagelists (\<lambda>_ _. 0)" by simp
  have b: "booted ?m 136 b" using booted_alloc [OF z k(3)] by (auto simp: b_def)
  note bm = boot_memory [OF z k(3), simplified] and bb = boot_memory [OF z b, simplified]
  have B: "kmem_ok (mem s)" "room OS_PT_REG (mem s)" "nth_frame OS_PT_REG (mem s) 0 = 0x2088"
    using bm(1,7) rooms_room [OF bm(3), of 0] by simp_all
  have stk: "stk = 0x2088" using B(3) by (simp add: stk_def nth_frame_def)
  have C: "launch_ready b" "\<And>j. j < 11 \<Longrightarrow> nth_frame OS_PT_REG b j = 0x2089 + j" "\<And>j. j < 10 \<Longrightarrow> nth_frame USER_REG b j = 0x6404 + j"
    "first_pfn OS_PT_REG b = 0x2000" "first_pfn USER_REG b = 0x6400"
    using bb unfolding launch_ready_def by simp_all
  note sp = stack_page [OF B(1,2), folded b_def stk_def]
  have "stk \<in> held OS_PT_REG b" using sp(1) stk C(4) by (simp add: held_def)
  then obtain m m2 m3 m4 where r: "init_memory apic g ag (init_segments (mms zero_ctx)) om b = (0x2089, 0x2092, m)"
    "remove_apic_mapping apic 0x2089 (os_pfn_free OS_PT_REG stk (os_pfn_free OS_PT_REG stk m)) = Some m2"
    "pt_cleanup apic 4 0x2089 m2 = Some m3" "m4 = os_pfn_free OS_PT_REG 0x2092 m3"
    "used_frames USER_REG m4 = used_frames USER_REG b"
    "used_frames OS_PT_REG m4 = insert 0x2091 (used_frames OS_PT_REG b - {stk})"
    "page_sum USER_REG m4 = page_sum USER_REG b" "page_sum OS_PT_REG m4 = Suc (page_sum OS_PT_REG b)"
    using init_memory_release [OF C(1) ap init_segments_std, of stk g ag "mms zero_ctx" om] C(2-5) stk by auto
  obtain s' s1 where e: "shell_init apic g ag rf args om s = Some (0x2092, s')" "do_exit s' = Halt s1"
    "mem s1 = os_pfn_free OS_PT_REG stk m" "pgd (ctxs s1 (cur s1)) = 0x2089" "os_stack_pfn (ctxs s1 (cur s1)) = stk"
    "\<forall>n>0. state_of s1 n = UNUSED"
    using shell_init_exit [OF k(2), of apic g ag om "0x2089" "0x2092" m rf args] k(4,5) r(1) unfolding b_def stk_def by auto
  define s2 where "s2 = set_state (cur s1) UNUSED (s1\<lparr>mem := m4\<rparr>)"
  have d: "do_cleanup apic 0x2092 s1 = Some s2"
    unfolding do_cleanup_def Let_def e(3-5) r(2) option.case r(3) s2_def r(4) by (rule refl)
  have d2: "mem s2 = m4" by (simp add: s2_def)
  have un: "\<forall>n>0. state_of s2 n = UNUSED" using e(6) by (simp add: s2_def state_of_def set_state_def upd_ctx_def)
  have "kmem_ok b" "rooms OS_PT_REG 11 b" using C(1) unfolding launch_ready_def by blast+
  from rooms_fresh [OF this] have "nth_frame OS_PT_REG b 8 \<notin> used_frames OS_PT_REG b" by simp
  then have "0x2091 \<notin> used_frames OS_PT_REG b" using C(2) [of 8] by simp
  then have new: "0x2091 \<notin> used_frames OS_PT_REG (mem s)" using sp(1) by simp
  have u: "used_frames USER_REG m4 = used_frames USER_REG (mem s)"
    "used_frames OS_PT_REG m4 = insert 0x2091 (used_frames OS_PT_REG (mem s))" using r(5,6) sp(1-3) by simp_all
  have "get_free_pages_region USER_REG m4 = get_free_pages_region USER_REG (mem s)"
    "get_free_pages_region OS_PT_REG m4 = get_free_pages_region OS_PT_REG (mem s)"
    unfolding free_pages_sum u using r(7,8) sp(4) new by simp_all
  with k(1) e(1,2) d un u new show ?thesis unfolding d2 [symmetric] by blast
qed

theorem init_exit_leaves_one_table_witness:
  "\<exists>o3 s om' s' s1 s2. kmain (\<lambda>_ _. 0) 0x70 boot_handlers 0x100000 0x10 0x8 0x2 boot_osm sleep_os = Some (o3, s) \<and>
    shell_init 0xfee00000 False False 0x2 \<lparr>arg_rdi = 1, arg_rsi = 0, arg_rcx = 0, arg_rdx = 0, arg_r8 = 0\<rparr> 0 s = Some (om', s') \<and>
    do_exit s' = Halt s1 \<and> do_cleanup 0xfee00000 om' s1 = Some s2 \<and>
    used_frames USER_REG (mem s2) = used_frames USER_REG (mem s) \<and>
    used_frames OS_PT_REG (mem s2) = insert 0x2091 (used_frames OS_PT_REG (mem s))"
  using init_exit_leaves_one_table [of "0xfee00000" "0x70" boot_handlers "0x100000" "0x10" "0x8" "0x2" boot_osm sleep_os False False "0x2"
    "\<lparr>arg_rdi = 1, arg_rsi = 0, arg_rcx = 0, arg_rdx = 0, arg_r8 = 0\<rparr>" 0]
  by auto

end
