(* ===== verification/InputGen.thy ===== *)
theory InputGen
  imports HashSerial
begin

text \<open>
  The main program of inputgen.c (Assignment 4, part 3), which writes a random sequence
  of requests to a binary file and the same requests to a text file, and its
  composition with the programs that read the file.  The values of \<open>rand()\<close> and of
  /dev/urandom are arguments (\<open>rs\<close> and \<open>us\<close>); \<open>g_r\<close> and \<open>g_u\<close> count how many have been used.
  The theorems hold for all of them.
\<close>

section \<open>Definitions\<close>

record gen =
  g_bin :: "u8 list"
  g_txt :: "u8 list"
  g_keys :: "u64 list"
  g_id :: u64
  g_r :: nat
  g_u :: nat

datatype gen_error = Outside_array | Assertion_failed

text \<open>\<open>%lu\<close> and \<open>%u\<close>.\<close>

fun udec :: "nat \<Rightarrow> u8 list" where
  "udec n = (if n < 10 then [48 + of_nat n] else udec (n div 10) @ [48 + of_nat (n mod 10)])"

declare udec.simps [simp del]

definition put_text :: "u64 \<Rightarrow> u64 \<Rightarrow> u8 list \<Rightarrow> u8 list" where
  "put_text i k tx =
     udec (unat i) @ [32] @ udec (unat k) @ [32] @ udec (unat op_PUT) @ [32] @ udec (length tx) @ [32] @ tx @ [10]"

definition get_del_text :: "u64 \<Rightarrow> u64 \<Rightarrow> u32 \<Rightarrow> u8 list" where
  "get_del_text i k t = udec (unat i) @ [32] @ udec (unat k) @ [32] @ udec (unat t) @ [32] @ [10]"

text \<open>\<open>create_put(id, binfd, txtfd, key); ++id;\<close> and the same for GET and DEL.\<close>

definition emit_put :: "(nat \<Rightarrow> nat) \<Rightarrow> u64 \<Rightarrow> gen \<Rightarrow> gen" where
  "emit_put rs k g =
     (let r = rs (g_r g); cs = (\<lambda>i. rs (g_r g + 1 + i))
      in g\<lparr>g_bin := g_bin g @ create_put (g_id g) k r cs, g_txt := g_txt g @ put_text (g_id g) k (rand_text r cs),
           g_id := g_id g + 1, g_r := g_r g + 1 + (8 + r mod 25)\<rparr>)"

definition emit :: "u32 \<Rightarrow> u64 \<Rightarrow> gen \<Rightarrow> gen" where
  "emit t k g =
     g\<lparr>g_bin := g_bin g @ create_get_del (g_id g) k t, g_txt := g_txt g @ get_del_text (g_id g) k t, g_id := g_id g + 1\<rparr>"

text \<open>\<open>read_random_u64(&key)\<close> and \<open>key = unique_keys[rand() % unique_ctr]\<close>.\<close>

definition fresh_key :: "(nat \<Rightarrow> u64) \<Rightarrow> gen \<Rightarrow> u64 \<times> gen" where
  "fresh_key us g = (us (g_u g), g\<lparr>g_u := g_u g + 1\<rparr>)"

definition known_key :: "(nat \<Rightarrow> nat) \<Rightarrow> gen \<Rightarrow> u64 \<times> gen" where
  "known_key rs g = (g_keys g ! (rs (g_r g) mod length (g_keys g)), g\<lparr>g_r := g_r g + 1\<rparr>)"

text \<open>The array \<open>unique_keys\<close> has \<open>mx\<close> elements; it is written before the assertion.\<close>

primrec mandatory_puts :: "(nat \<Rightarrow> nat) \<Rightarrow> (nat \<Rightarrow> u64) \<Rightarrow> nat \<Rightarrow> nat \<Rightarrow> gen \<Rightarrow> gen_error + gen" where
  "mandatory_puts rs us mx 0 g = Inr g"
| "mandatory_puts rs us mx (Suc n) g =
     (let (k, g1) = fresh_key us g
      in if mx \<le> length (g_keys g) then Inl Outside_array
         else mandatory_puts rs us mx n (emit_put rs k (g1\<lparr>g_keys := g_keys g1 @ [k]\<rparr>)))"

definition random_op :: "(nat \<Rightarrow> nat) \<Rightarrow> (nat \<Rightarrow> u64) \<Rightarrow> nat \<Rightarrow> gen \<Rightarrow> gen_error + gen" where
  "random_op rs us mx g0 =
     (let prob = rs (g_r g0) mod 10000; g = g0\<lparr>g_r := g_r g0 + 1\<rparr> in
      if prob < 2000 then
        (let (k, g1) = fresh_key us g in
         if mx \<le> length (g_keys g1) then Inl Outside_array
         else if mx \<le> length (g_keys g1) + 1 then Inl Assertion_failed
         else Inr (emit_put rs k (g1\<lparr>g_keys := g_keys g1 @ [k]\<rparr>)))
      else if prob < 3000 then (let (k, g1) = known_key rs g in Inr (emit_put rs k g1))
      else if prob < 8000 then (let (k, g1) = known_key rs g in Inr (emit op_GET k g1))
      else if prob < 9000 then (let (k, g1) = fresh_key us g in Inr (emit op_GET k g1))
      else if prob < 9700 then (let (k, g1) = known_key rs g in Inr (emit op_DEL k g1))
      else (let (k, g1) = fresh_key us g in Inr (emit op_DEL k g1)))"

primrec op_loop :: "(nat \<Rightarrow> nat) \<Rightarrow> (nat \<Rightarrow> u64) \<Rightarrow> nat \<Rightarrow> nat \<Rightarrow> gen \<Rightarrow> gen_error + gen" where
  "op_loop rs us mx 0 g = Inr g"
| "op_loop rs us mx (Suc n) g =
     (case random_op rs us mx g of Inl e \<Rightarrow> Inl e | Inr g' \<Rightarrow> op_loop rs us mx n g')"

text \<open>\<open>totalops\<close> is unsigned: with fewer than 100 operations the subtraction wraps.\<close>

definition inputgen :: "(nat \<Rightarrow> nat) \<Rightarrow> (nat \<Rightarrow> u64) \<Rightarrow> nat \<Rightarrow> nat \<Rightarrow> gen_error + gen" where
  "inputgen rs us totalops mx =
     (case mandatory_puts rs us mx 100 \<lparr>g_bin = [], g_txt = [], g_keys = [], g_id = 1, g_r = 0, g_u = 0\<rparr> of
        Inl e \<Rightarrow> Inl e
      | Inr g \<Rightarrow> op_loop rs us mx (sub64 totalops 100) g)"

section \<open>What the files hold\<close>

text \<open>The line of a request in the text file.\<close>

fun text_line :: "req \<Rightarrow> u8 list" where
  "text_line (Put i k tx) = put_text i k tx"
| "text_line (Get i k) = get_del_text i k op_GET"
| "text_line (Del i k) = get_del_text i k op_DEL"

fun text_len :: "req \<Rightarrow> nat" where
  "text_len (Put i k tx) = length tx"
| "text_len r = 8"

text \<open>
  Both files hold the requests \<open>qs\<close>, numbered from 1 on; all keys are random numbers;
  the known keys are those that have been put.
\<close>

definition wrote :: "(nat \<Rightarrow> u64) \<Rightarrow> req list \<Rightarrow> gen \<Rightarrow> bool" where
  "wrote us qs g \<longleftrightarrow>
     g_bin g = concat (map encode qs) \<and> g_txt g = concat (map text_line qs) \<and>
     map req_id qs = map (\<lambda>i. of_nat (i + 1)) [0..<length qs] \<and> g_id g = of_nat (length qs + 1) \<and>
     (\<forall>q\<in>set qs. req_key q \<in> range us \<and> 8 \<le> text_len q \<and> text_len q < 33) \<and>
     set (g_keys g) \<subseteq> range us \<and> (\<forall>k\<in>set (g_keys g). \<exists>i tx. Put i k tx \<in> set qs)"

lemma wrote_next:
  assumes "wrote us qs g" "req_id q = g_id g" "req_key q \<in> range us" "8 \<le> text_len q" "text_len q < 33"
    and "g_bin g' = g_bin g @ encode q" "g_txt g' = g_txt g @ text_line q" "g_id g' = g_id g + 1"
    and "set (g_keys g') \<subseteq> range us" "\<forall>k\<in>set (g_keys g'). k \<in> set (g_keys g) \<or> (\<exists>i tx. q = Put i k tx)"
  shows "wrote us (qs @ [q]) g'"
proof -
  have "\<exists>i tx. Put i k tx \<in> set (qs @ [q])" if "k \<in> set (g_keys g')" for k
    using assms(1,10) that unfolding wrote_def by fastforce
  with assms show ?thesis by (simp add: wrote_def)
qed

lemma emit_put_wrote:
  assumes "wrote us qs (g\<lparr>g_keys := ks\<rparr>)" "k \<in> range us" "set (g_keys g) \<subseteq> insert k (set ks)"
  shows "\<exists>q. wrote us (qs @ [q]) (emit_put rs k g)"
proof -
  let ?tx = "rand_text (rs (g_r g)) (\<lambda>i. rs (g_r g + 1 + i))"
  have l: "8 \<le> length ?tx" "length ?tx < 33" by (simp_all add: rand_text_def)
  have "set ks \<subseteq> range us" using assms(1) by (simp add: wrote_def)
  then have "wrote us (qs @ [Put (g_id g) k ?tx]) (emit_put rs k g)"
    using assms l by (intro wrote_next [OF assms(1)])
      (auto simp: emit_put_def Let_def create_put_encode simp del: encode.simps)
  then show ?thesis by blast
qed

lemma emit_wrote:
  assumes "wrote us qs g" "k \<in> range us" "t = op_GET \<or> t = op_DEL"
  shows "\<exists>q. wrote us (qs @ [q]) (emit t k g)"
proof -
  have "set (g_keys g) \<subseteq> range us" using assms(1) by (simp add: wrote_def)
  then have "wrote us (qs @ [if t = op_GET then Get (g_id g) k else Del (g_id g) k]) (emit t k g)"
    using assms by (intro wrote_next [OF assms(1)]) (auto simp: emit_def)
  then show ?thesis by blast
qed

lemma known_key_range:
  assumes "wrote us qs g" "g_keys g \<noteq> []"
  shows "g_keys g ! (r mod length (g_keys g)) \<in> range us"
proof -
  have "r mod length (g_keys g) < length (g_keys g)" using assms(2) by simp
  then have "g_keys g ! (r mod length (g_keys g)) \<in> set (g_keys g)" by (rule nth_mem)
  then show ?thesis using assms(1) unfolding wrote_def by blast
qed

lemma wrote_upd [simp]:
  "wrote us qs (g\<lparr>g_r := a\<rparr>) = wrote us qs g" "wrote us qs (g\<lparr>g_u := a\<rparr>) = wrote us qs g"
  by (simp_all add: wrote_def)

lemma emit_put_fresh:
  assumes "wrote us qs g" "k \<in> range us"
  shows "\<exists>q. wrote us (qs @ [q]) (emit_put rs k (g\<lparr>g_keys := g_keys g @ [k]\<rparr>))"
  using assms by (intro emit_put_wrote [where ks = "g_keys g"]) auto

lemma emit_put_known:
  assumes "wrote us qs g" "k \<in> range us"
  shows "\<exists>q. wrote us (qs @ [q]) (emit_put rs k g)"
  using assms by (intro emit_put_wrote [where ks = "g_keys g"]) auto

lemma emit_sel [simp]:
  "g_keys (emit_put rs k g) = g_keys g" "g_keys (emit t k g) = g_keys g"
  by (simp_all add: emit_put_def emit_def Let_def)

lemma random_op_wrote:
  assumes w: "wrote us qs g" "g_keys g \<noteq> []" and op: "random_op rs us mx g = Inr g'"
  shows "\<exists>q. wrote us (qs @ [q]) g' \<and> g_keys g' \<noteq> []"
proof -
  let ?g = "g\<lparr>g_r := g_r g + 1\<rparr>"
  have w1: "wrote us qs (?g\<lparr>g_u := a\<rparr>)" "wrote us qs (?g\<lparr>g_r := a\<rparr>)" for a using w(1) by simp_all
  have k: "g_keys g ! (r mod length (g_keys g)) \<in> range us" for r by (rule known_key_range [OF w])
  let ?f = "?g\<lparr>g_u := g_u g + 1\<rparr>" and ?h = "?g\<lparr>g_r := g_r g + 2\<rparr>" and ?u = "us (g_u g)"
  let ?k = "g_keys g ! (rs (g_r g + 1) mod length (g_keys g))"
  have put: "\<exists>q. wrote us (qs @ [q]) (emit_put rs ?u (?f\<lparr>g_keys := g_keys g @ [?u]\<rparr>))"
    using emit_put_fresh [OF w1(1) rangeI, of rs "g_u g" "g_u g + 1"] by simp
  have over: "\<exists>q. wrote us (qs @ [q]) (emit_put rs ?k ?h)" by (rule emit_put_known [OF w1(2) k])
  have req: "\<exists>q. wrote us (qs @ [q]) (emit t ?k ?h)" "\<exists>q. wrote us (qs @ [q]) (emit t ?u ?f)" if "t = op_GET \<or> t = op_DEL" for t
    using emit_wrote [OF w1(2) k that] emit_wrote [OF w1(1) rangeI that] by blast+
  from op have "g_keys g' \<noteq> []"
    using w(2) by (auto simp: random_op_def Let_def fresh_key_def known_key_def split: if_splits)
  moreover from op have "\<exists>q. wrote us (qs @ [q]) g'"
    using put over req [of op_GET] req [of op_DEL]
    by (auto simp: random_op_def Let_def fresh_key_def known_key_def split: if_splits)
  ultimately show ?thesis by blast
qed

lemma op_loop_wrote:
  "wrote us qs g \<Longrightarrow> g_keys g \<noteq> [] \<Longrightarrow> op_loop rs us mx n g = Inr g' \<Longrightarrow>
    \<exists>qs'. wrote us (qs @ qs') g' \<and> length qs' = n"
proof (induction n arbitrary: qs g)
  case (Suc n)
  obtain g1 where g1: "random_op rs us mx g = Inr g1" "op_loop rs us mx n g1 = Inr g'"
    using Suc.prems(3) by (auto split: sum.splits)
  obtain q where q: "wrote us (qs @ [q]) g1" "g_keys g1 \<noteq> []" using random_op_wrote [OF Suc.prems(1,2) g1(1)] by blast
  obtain qs' where "wrote us ((qs @ [q]) @ qs') g'" "length qs' = n" using Suc.IH [OF q g1(2)] by blast
  then show ?case by (intro exI [of _ "q # qs'"]) simp
qed auto

lemma mandatory_wrote:
  "wrote us qs g \<Longrightarrow> mandatory_puts rs us mx n g = Inr g' \<Longrightarrow>
    \<exists>qs'. wrote us (qs @ qs') g' \<and> length qs' = n \<and> length (g_keys g') = length (g_keys g) + n"
proof (induction n arbitrary: qs g)
  case (Suc n)
  let ?g = "g\<lparr>g_u := g_u g + 1\<rparr>" and ?k = "us (g_u g)"
  let ?g1 = "emit_put rs ?k (?g\<lparr>g_keys := g_keys g @ [?k]\<rparr>)"
  have m: "mandatory_puts rs us mx n ?g1 = Inr g'"
    using Suc.prems(2) by (simp add: fresh_key_def split: if_splits)
  have "wrote us qs ?g" using Suc.prems(1) by simp
  from emit_put_fresh [OF this rangeI, of rs "g_u g"] obtain q where q: "wrote us (qs @ [q]) ?g1" by auto
  obtain qs' where "wrote us ((qs @ [q]) @ qs') g'" "length qs' = n" "length (g_keys g') = length (g_keys ?g1) + n"
    using Suc.IH [OF q m] by blast
  then show ?case by (intro exI [of _ "q # qs'"]) simp
qed auto

lemma inputgen_wrote:
  assumes "inputgen rs us tot mx = Inr g" "100 \<le> tot" "tot < 2 ^ 64"
  shows "\<exists>qs. wrote us qs g \<and> length qs = tot"
proof -
  let ?g0 = "\<lparr>g_bin = [], g_txt = [], g_keys = [], g_id = 1, g_r = 0, g_u = 0\<rparr>"
  obtain g1 where g1: "mandatory_puts rs us mx 100 ?g0 = Inr g1" "op_loop rs us mx (tot - 100) g1 = Inr g"
    using assms by (auto simp: inputgen_def sub64_small split: sum.splits)
  have "wrote us [] ?g0" by (simp add: wrote_def)
  from mandatory_wrote [OF this g1(1)] obtain ms where m: "wrote us ms g1" "length ms = 100" "length (g_keys g1) = 100" by auto
  then have "g_keys g1 \<noteq> []" by auto
  from op_loop_wrote [OF m(1) this g1(2)] m(2) assms(2) show ?thesis by auto
qed

text \<open>The numbers of the requests increase as long as they fit 64 bits.\<close>

lemma wrote_ids:
  assumes "wrote us qs g" "length qs < 2 ^ 64 - 1"
  shows "sorted_wrt (\<lambda>q q'. req_id q < req_id q') qs"
proof -
  have i: "req_id (qs ! i) = of_nat (i + 1)" if "i < length qs" for i
    using assms(1) that unfolding wrote_def by (metis (no_types, lifting) nth_map nth_map_upt add_0 diff_zero length_map length_upt)
  have u: "unat (of_nat m :: u64) = m" if "m < 2 ^ 64" for m
    using that by (simp add: unsigned_of_nat take_bit_nat_eq_self)
  have "req_id (qs ! i) < req_id (qs ! j)" if "i < j" "j < length qs" for i j
  proof -
    have "i + 1 < 2 ^ 64" "j + 1 < 2 ^ 64" using that assms(2) by auto
    with i [of i] i [of j] that show ?thesis unfolding word_less_nat_alt by (simp only: u)
  qed
  then show ?thesis by (simp add: sorted_wrt_iff_nth_less)
qed

lemma wrote_ok:
  assumes "wrote us qs g" "\<forall>i. us i \<noteq> 0"
  shows "list_all req_ok qs"
proof -
  have "req_ok q" if "q \<in> set qs" for q
  proof -
    have "req_key q \<noteq> 0" "text_len q < 33" using assms that by (fastforce simp: wrote_def)+
    then show ?thesis by (cases q) auto
  qed
  then show ?thesis by (simp add: list_all_iff)
qed

section \<open>Composition with the hash programs\<close>

text \<open>
  C17. The generator and the programs that read its file fit together.  If inputgen
  ends without a failed assertion, whatever the random numbers were (none of the keys
  being 0), the binary file holds exactly as many requests as ordered, numbered from 1
  on, with texts of 8 to 32 bytes, and the text file describes the same requests; every
  key that a GET, a DEL or an overwriting PUT takes from the list of known keys has been
  put before.  On this file the serial program ends without a failed assertion, with the log and
  the table of a finite map, and the parallel program meets what its theorems assume,
  for a table with more entries than there are requests, at most 32 threads and a file
  whose last page has room for a header.
\<close>

theorem generated_run_correct:
  assumes gen: "inputgen rs us tot mx = Inr g" and tot: "100 \<le> tot" "tot < n" "n \<le> 100000001"
    and keys: "\<forall>i. us i \<noteq> 0" and room: "tail_room (g_bin g)" and T: "T \<le> 32"
  shows "\<exists>qs h'. length qs = tot \<and> g_bin g = concat (map encode qs) \<and> g_txt g = concat (map text_line qs) \<and>
    map req_id qs = map (\<lambda>i. of_nat (i + 1)) [0..<tot] \<and> (\<forall>q\<in>set qs. 8 \<le> text_len q \<and> text_len q \<le> 32) \<and>
    (\<forall>k\<in>set (g_keys g). \<exists>i tx. Put i k tx \<in> set qs) \<and>
    process (exec_op lookup insert_update purge_key) (init_hashtable a n) \<lparr>in_data = g_bin g, in_curr = 0\<rparr> x [] =
      Some (Inr (spec_log Map.empty qs, h')) \<and>
    dump_hash_table h' \<and> store_of (g_bin g) (hash_map (h_table h')) = foldl apply_req Map.empty qs \<and>
    par_pre (g_bin g) qs T n"
proof -
  have "tot < 2 ^ 64" using tot by simp
  from inputgen_wrote [OF gen tot(1) this] obtain qs where w: "wrote us qs g" "length qs = tot" by blast
  then have f: "g_bin g = concat (map encode qs)" by (simp add: wrote_def)
  note ok = wrote_ok [OF w(1) keys]
  have ids: "sorted_wrt (\<lambda>q q'. req_id q < req_id q') qs" using wrote_ids [OF w(1)] w(2) tot by simp
  have puts: "puts qs < n" using length_filter_le [of _ qs] w(2) tot(2) unfolding puts_def by (metis order_le_less_trans)
  have n: "0 < n" "n < 2 ^ 32" using tot by auto
  note init = init_hashtable_ok [OF n, of a]
  have u: "puts qs \<le> unused (h_table (init_hashtable a n)) - 1" using init(3) puts by simp
  from serial.process_refines [OF room [unfolded f] at_input_start ok init(1) u, of x "[]"]
  obtain h' where h: "process (exec_op lookup insert_update purge_key) (init_hashtable a n)
      \<lparr>in_data = g_bin g, in_curr = 0\<rparr> x [] = Some (Inr (spec_log Map.empty qs, h'))"
    "dump_hash_table h'" "store_of (g_bin g) (hash_map (h_table h')) = foldl apply_req Map.empty qs"
    using dump_live by (auto simp: init(2) f)
  have "par_pre (g_bin g) qs T n" using f room ok ids T n tot(3) puts by (simp add: par_pre_def)
  then show ?thesis using w f h unfolding wrote_def by (intro exI [of _ qs] exI [of _ h']) (auto simp: less_Suc_eq_le)
qed

text \<open>
  When does inputgen end?  The array of known keys must have room for the mandatory
  PUTs and stay larger than the number of keys; this is so when it has more elements than
  there are requests.
\<close>

lemma mandatory_returns:
  assumes "length (g_keys g) + n \<le> mx"
  shows "\<exists>g'. mandatory_puts rs us mx n g = Inr g' \<and> length (g_keys g') = length (g_keys g) + n \<and>
    ((\<forall>i. rs i = 0) \<longrightarrow> length (g_bin g') = length (g_bin g) + 32 * n)"
  using assms
proof (induction n arbitrary: g)
  case (Suc n)
  let ?k = "us (g_u g)"
  let ?g1 = "emit_put rs ?k (g\<lparr>g_u := g_u g + 1, g_keys := g_keys g @ [?k]\<rparr>)"
  have "mandatory_puts rs us mx (Suc n) g = mandatory_puts rs us mx n ?g1"
    using Suc.prems by (simp add: fresh_key_def)
  moreover have "length (g_keys ?g1) = length (g_keys g) + 1" by simp
  moreover have "(\<forall>i. rs i = 0) \<longrightarrow> length (g_bin ?g1) = length (g_bin g) + 32"
    by (simp add: emit_put_def create_put_def generate_rand_text_def rand_text_def)
  ultimately show ?case using Suc.IH [of ?g1] Suc.prems by fastforce
qed simp

lemma op_loop_returns:
  "length (g_keys g) + n < mx \<Longrightarrow> \<exists>g'. op_loop rs us mx n g = Inr g'"
proof (induction n arbitrary: g)
  case (Suc n)
  have "\<exists>g1. random_op rs us mx g = Inr g1 \<and> length (g_keys g1) \<le> length (g_keys g) + 1"
    using Suc.prems by (auto simp: random_op_def Let_def fresh_key_def known_key_def)
  then obtain g1 where "random_op rs us mx g = Inr g1" "length (g_keys g1) + n < mx" using Suc.prems by force
  then show ?case using Suc.IH [of g1] by auto
qed simp

lemma inputgen_returns:
  assumes "100 \<le> tot" "tot < mx" "tot < 2 ^ 64"
  shows "\<exists>g. inputgen rs us tot mx = Inr g"
proof -
  obtain g1 where "mandatory_puts rs us mx 100 \<lparr>g_bin = [], g_txt = [], g_keys = [], g_id = 1, g_r = 0, g_u = 0\<rparr> = Inr g1"
    "length (g_keys g1) = 100" using mandatory_returns [of "\<lparr>g_bin = [], g_txt = [], g_keys = [], g_id = 1, g_r = 0, g_u = 0\<rparr>" 100 mx rs us] assms by auto
  then show ?thesis using op_loop_returns [of g1 "tot - 100" mx rs us] assms by (simp add: inputgen_def sub64_small)
qed

theorem generated_run_correct_witness:
  "\<exists>g qs h'. inputgen (\<lambda>_. 0) (\<lambda>i. 1) 100 101 = Inr g \<and> length qs = 100 \<and>
    process (exec_op lookup insert_update purge_key) (init_hashtable 4096 200) \<lparr>in_data = g_bin g, in_curr = 0\<rparr>
      \<lparr>op_id = 0, op_key = 0, op_type = 0, op_datalen = 0, op_data = 0\<rparr> [] = Some (Inr (spec_log Map.empty qs, h'))"
proof -
  obtain g where g: "inputgen (\<lambda>_. 0) (\<lambda>i. 1) 100 101 = Inr g" "length (g_bin g) = 3200"
    using mandatory_returns [of "\<lparr>g_bin = [], g_txt = [], g_keys = [], g_id = 1, g_r = 0, g_u = 0\<rparr>" 100 101 "\<lambda>_. 0" "\<lambda>i. 1"]
    by (auto simp: inputgen_def sub64_small)
  have "tail_room (g_bin g)" using g(2) by (simp add: tail_room_def)
  from generated_run_correct [OF g(1) _ _ _ _ this, of 200 1 4096 "\<lparr>op_id = 0, op_key = 0, op_type = 0, op_datalen = 0, op_data = 0\<rparr>"]
  obtain qs h' where "length qs = 100" "process (exec_op lookup insert_update purge_key) (init_hashtable 4096 200)
      \<lparr>in_data = g_bin g, in_curr = 0\<rparr> \<lparr>op_id = 0, op_key = 0, op_type = 0, op_datalen = 0, op_data = 0\<rparr> [] =
      Some (Inr (spec_log Map.empty qs, h'))" by auto
  with g(1) show ?thesis by blast
qed

end
