(* ===== verification/Spec2Isabelle.thy ===== *)
theory Spec2Isabelle
  imports Syscall VMSystem HashSerial RWLock BlockHash FileSys TextSearch DirTools VFork Printf OsAlloc Shell Cleanup InputGen
begin

text \<open>
  A verification of the programs in this repository of operating-system
  assignments: the memory management, processes and scheduler of the teaching
  kernel gemOS (src/Assignment3/Ass3/src), the files and pipes of its earlier version
  (src/Assignment2, gemOS/src) and the three multi-threaded programs of
  src/Assignment4/ass4; also two programs of src/Assignment1 that walk directories.

  \<^bold>\<open>The kernel\<close> (Assignment 3).  A process is an execution context with its
  memory segments, a list of mapped areas and a page table; the system calls
  change them, the page-fault handlers fill the page table on demand from the
  allocator of page frames, and the timer interrupt switches between contexts.

  \<^item> Prelude: machine integers, wrap-around, shared lemmas.
  \<^item> VMArea: the list of \<open>struct vm_area\<close> as the handlers of mmap.c change it
    (placement of a new area with and without a hint, splitting, merging,
    protection changes), with the invariant that the list is sorted, disjoint and
    inside the region, and the address map a list stands for.
  \<^item> PhysMem: memory.c and page.c, the bitmaps of the three regions, \<open>os_pfn_alloc\<close>
    and \<open>os_pfn_free\<close>, reference counts.  The locale \<open>frame_allocator\<close> is what the
    page-table code uses; it is interpreted on these definitions.
  \<^item> PageTable and MapPage: four-level page tables in physical memory, walks,
    installation and removal of entries; the tables form a tree, and writing one
    entry leaves every other translation as it was.
  \<^item> ExecCtx: \<open>struct exec_context\<close>.
  \<^item> Mmap: the system calls mmap, munmap, mprotect and the fault handler of
    mmap.c on list and page table together.
  \<^item> VMSystem: an abstract address space and the refinement of it by every
    sequence of calls.
  \<^item> CFork: fork, cfork, vfork and copy-on-write faults (context.c, cfork.c).
  \<^item> VFork: the memory after \<open>vfork_copy_mm\<close>, where the copy of the stack is entered into the
    page tables that parent and child share.
  \<^item> Sched: process slots, the scheduler loop, timer tick, sleep and alarm.
  \<^item> Syscall: the handlers of entry.c and \<open>do_syscall\<close>; a step relation of the
    whole system with its invariant.

  \<^item> BootTable, Boot, Shell, Cleanup: the start of the kernel and its return to the shell.
    BootTable has the page table that \<open>exec_init\<close> builds (code, data, stack, the kernel's own mapping, the interrupt
    controller) and the lemmas on sequences of allocations that determine it for every
    address; Boot has \<open>kmain\<close> with the tables of segments and interrupts (\<open>setup_gdt_tss\<close>, \<open>setup_idt\<close>), \<open>init_swapper\<close>, \<open>create_context\<close>, \<open>exec_init\<close> and \<open>do_cleanup\<close>; Shell has
    \<open>serial_read\<close>, \<open>parse_init\<close> and \<open>invoke_dsh\<close>.  The theorem at the end of this theory joins
    them: from clear bitmaps to the first process.  Cleanup proves level by level which
    frames \<open>pt_cleanup\<close> gives back, and what is left when the first process has exited.

  \<^bold>\<open>Files and pipes\<close> (Assignment 2).  Descriptors of a process refer to shared file
  objects with reference counts; a file object refers to an inode of a flat file
  system or to one end of a pipe.  Objects, pipes and buffers are pages of the
  frame allocator of theory PhysMem.

  \<^item> Pipe: the buffer of a pipe (pipe.c).  The locale \<open>byte_queue\<close> states that it is a
    first-in-first-out queue.
  \<^item> FlatFS: fs.c, the directory of 32 inodes and their storage.  The locale \<open>byte_file\<close>
    states what reading and writing promise; boot gives every inode its own page.
  \<^item> FileTable: file.c, the rest of pipe.c and the handlers of entry.c.
  \<^item> FileInv and FileCalls: the invariant (reference counts, ownership of pages, open
    ends of pipes) and that every call keeps it.
  \<^item> FileSys: sequences of calls by all processes, nothing freed too early and nothing
    lost; bytes written through a descriptor are read back.

  \<^bold>\<open>The threaded programs\<close> (Assignment 4).  Each is a step relation over an
  explicit state, one step for each critical section or atomic instruction, so
  that the theorems hold for every interleaving.

  \<^item> Bytes, HashTable, HashInput, HashRun: part 3, sequentially.  The table with
    linear probing and tombstones (serial\_hash.c and the operations of
    parallel\_hash.c), the format of the input file (inputgen.c, \<open>read_op\<close>) and the
    loop of main.c.  The locale \<open>kv_store\<close> is the interface between the loop and
    the table; both implementations interpret it and the loop is verified in it.
  \<^item> InputGen: the main program of inputgen.c for all random numbers, and that the
    programs run correctly on its file.
  \<^item> HashConc and HashSerial: part 3 with threads.  Every schedule of at most 32
    threads ends and is equivalent to the sequential run.
  \<^item> RWLock: part 2, the reader-writer lock built on one 64-bit counter, with the
    test program as its client.
  \<^item> BlockHash: part 1, blocks of a file hashed by several threads.

  \<^bold>\<open>Smaller parts.\<close>

  \<^item> Printf: \<open>vprintf\<close> and its callers in lib.c of the kernel.
  \<^item> OsAlloc: the allocator of small objects in memory.c with its pool of list nodes, and
    the lists of lib.c.  The locale \<open>num_queue\<close> is the contract of a list; the free lists of
    the seven chunk classes interpret it.
  \<^item> TextSearch: the text search of Assignment 1, part 1, over a tree with symbolic links
    and with the working directory that the program changes.
  \<^item> DirTools: the directory sizes of Assignment 1, part 3.

  \<^bold>\<open>Correspondence.\<close>  Structures are records with the fields of the source,
  functions keep their names where possible, loops are recursive functions or
  partial functions whose results are proved to exist, failed assertions, null
  pointers and accesses outside a mapping are error values.  C integers are words
  where bits or wrap-around matter and naturals or integers with the reduction
  written out elsewhere.  Pointers into one object are indices or offsets;
  physical memory is a function from frame and index to a word.

  \<^bold>\<open>Bounds.\<close>  No theorem limits the number of calls, requests or steps.  The
  parallel hash program is limited to 32 threads (the code scans 32 slots) and
  to as many PUT requests as the table has entries (tombstones are not reused);
  the lock to 64 threads (\<open>MAX_THREADS\<close>, which keeps the counter in range).
  Threads are interleaved at the granularity of critical sections and atomic
  instructions, under sequential consistency.

  \<^bold>\<open>Not modelled.\<close>  Device access, the instructions that load table registers, the
  stack pointer in the task state segment (\<open>set_tss_stack_ptr\<close>), interrupt entry in assembly, and what the shell of gemOS prints; the failure of \<open>os_alloc\<close> in the
  handlers that take their nodes from it (its own model is in theory OsAlloc); TLB
  invalidation; opening and mapping of files.  Of Assignment 2 the parts that Assignment 3
  contains in a later version (memory, processes, scheduler) are not modelled a second time.  The file
  calls are verified for callers that respect what the source does not test (theory
  FileSys, \<open>legal_call\<close>) and while pages can be allocated; what happens otherwise is in
  the definitions.  Part 2 of Assignment 1 (pipelines of commands) consists of calls
  of the host system.
\<close>

section \<open>From the start of the kernel to the first process\<close>

lemma user_page_less: "user_page a = Some (k, fl) \<Longrightarrow> k < 10"
  by (auto simp: user_page_def split: if_splits)

lemma boot_launch_ready:
  assumes "pglists m = init_pagelists (\<lambda>_ _. 0)" "booted m 136 b"
  shows "launch_ready b" "\<And>k. k < 10 \<Longrightarrow> nth_frame USER_REG b k = 0x6404 + k"
  using boot_memory [OF assms] by (simp_all add: launch_ready_def)

text \<open>
  C7. The kernel starts and launches the first process.  From any state of the memory
  in which the bitmaps of the allocator are clear, and with the page table of the
  machine below the image of the first program, \<open>kmain\<close> reaches the shell.  When the
  user types \<open>init\<close> with one to five numbers, the shell reads and parses the line and the
  process runs: in a slot of its own, in a state from which the invariant of the system
  holds, about to execute the first address of the code with the stack pointer at the
  top of the stack and the numbers in its registers.  Its page table gives user mode
  exactly ten pages (eight read-only pages of code that hold the image of the program,
  a writable page of data, a writable page of stack) in ten consecutive frames; every
  other address is unmapped for user mode.  The kernel sees the first 2 GB at their
  physical addresses in pages of 2 MB.
\<close>

theorem kernel_launches_init:
  fixes args :: "nat \<Rightarrow> u64" and x :: nat and xs :: "nat list"
  assumes "2 ^ 31 \<le> apic" "apic < 2 ^ 32" "length xs < 5" "5 + length (show_args (x # xs)) < 1024"
    and "cr3 < 0x200"
  defines "v \<equiv> \<lambda>i. if i \<le> length xs then of_nat ((x # xs) ! i) else args i"
  shows "\<exists>o3 s om' s'. kmain (\<lambda>_ _. 0) cr3 h task ss cs rf0 o0 s0 = Some (o3, s) \<and>
    invoke_dsh apic g ag rf om s ((''init '' @ show_args (x # xs)) @ [CR, LF] @ rest) b args = Some (om', s') \<and>
    os_inv s' \<and> cur s' \<noteq> 0 \<and> entry_rip (cpu s') = of_nat CODE_START \<and> entry_rsp (cpu s') = of_nat STACK_START \<and>
    rdi (cpu s') = v 0 \<and> rsi (cpu s') = v 1 \<and> rcx (cpu s') = v 2 \<and> rdx (cpu s') = v 3 \<and> r8 (cpu s') = v 4 \<and>
    (\<forall>a<2 ^ 48. map_option (rd (mem s')) (get_pte (mem s') (pgd (ctxs s' (cur s'))) a) =
        map_option (\<lambda>(k, fl). mk_pte (0x6404 + k) fl) (user_page a)) \<and>
    (\<forall>a<2 ^ 31. big_entry (mem s') (pgd (ctxs s' (cur s'))) a = os_entry g (a div 2 ^ 21)) \<and>
    (\<forall>k<8. phys (mem s') (0x6404 + k) = phys (om_km o0) (0x200 + k))"
proof -
  let ?m = "(om_km o0)\<lparr>pglists := init_pagelists (\<lambda>_ _. 0)\<rparr>"
  obtain o3 s where k: "kmain (\<lambda>_ _. 0) cr3 h task ss cs rf0 o0 s0 = Some (o3, s)" "idle_inv s" "state_of s 1 = UNUSED"
    "booted ?m 135 (mem s)" "\<forall>j<8. phys (mem s) (0x200 + j) = phys (om_km o0) (0x200 + j)"
    using kmain_ready assms(5) by blast
  have z: "pglists ?m = init_pagelists (\<lambda>_ _. 0)" by simp
  obtain b' where b': "snd (os_pfn_alloc OS_PT_REG (mem s)) = b'" "booted ?m 136 b'" "phys b' = (phys (mem s))(0x2088 := (\<lambda>_. 0))"
    using booted_alloc [OF z k(4)] by auto
  note r = boot_launch_ready [OF z b'(2)]
  have ph: "\<And>k. k < 8 \<Longrightarrow> phys b' (0x200 + k) = phys (om_km o0) (0x200 + k)" using b'(3) k(5) by simp
  have free: "\<exists>n<MAX_PROCESSES. state_of s n = UNUSED" using k(3) by (intro exI [of _ 1]) simp
  note run = shell_init_run [OF k(2) free, unfolded b'(1), OF r(1) assms(1,2), of g ag rf "to_args v" om]
  have line: "invoke_dsh apic g ag rf om s ((''init '' @ show_args (x # xs)) @ [CR, LF] @ rest) b args =
      shell_init apic g ag rf (to_args v) om s"
    using shell_line_roundtrip [OF assms(3,4), of rest b args apic g ag rf om s] unfolding v_def by blast
  have pages: "map_option (\<lambda>(k, fl). mk_pte (nth_frame USER_REG b' k) fl) (user_page a) =
      map_option (\<lambda>(k, fl). mk_pte (0x6404 + k) fl) (user_page a)" for a
    using r(2) user_page_less [of a] by (cases "user_page a") auto
  have img: "(\<forall>k<8. phys m (nth_frame USER_REG b' k) = phys b' (0x200 + k)) \<longleftrightarrow>
      (\<forall>k<8. phys m (0x6404 + k) = phys (om_km o0) (0x200 + k))" for m
    using r(2) ph by simp
  have v: "arg_rdi (to_args v) = v 0" "arg_rsi (to_args v) = v 1" "arg_rcx (to_args v) = v 2"
    "arg_rdx (to_args v) = v 3" "arg_r8 (to_args v) = v 4" by (simp_all add: to_args_def)
  show ?thesis using k(1) run [unfolded pages img v, folded line] by blast
qed

theorem kernel_launches_init_witness:
  "\<exists>o3 s om' s'. kmain (\<lambda>_ _. 0) 0x70 boot_handlers 0x100000 0x10 0x8 0x2 boot_osm sleep_os = Some (o3, s) \<and>
    invoke_dsh 0xfee00000 False False 0x2 0 s ((''init '' @ show_args [7, 42]) @ [CR, LF] @ []) (\<lambda>_. CHR ''9'') (\<lambda>_. 0) =
      Some (om', s') \<and> os_inv s' \<and> rdi (cpu s') = 7 \<and> rsi (cpu s') = 42 \<and>
    map_option (rd (mem s')) (get_pte (mem s') (pgd (ctxs s' (cur s'))) CODE_START) = Some (mk_pte 0x6404 5)"
proof -
  have n: "numeral_of 10 7 = ''7''" "numeral_of 10 42 = ''42''"
    by (simp_all add: numeral_of.simps dig_def char_of_eq_iff)
  then have len: "5 + length (show_args [7, 42]) < 1024" by simp
  have r: "2 ^ 31 \<le> (0xfee00000 :: nat)" "(0xfee00000 :: nat) < 2 ^ 32" "length [42 :: nat] < 5" by simp_all
  obtain o3 s om' s' where w: "kmain (\<lambda>_ _. 0) 0x70 boot_handlers 0x100000 0x10 0x8 0x2 boot_osm sleep_os = Some (o3, s)"
    "invoke_dsh 0xfee00000 False False 0x2 0 s ((''init '' @ show_args [7, 42]) @ [CR, LF] @ []) (\<lambda>_. CHR ''9'') (\<lambda>_. 0) = Some (om', s')"
    "os_inv s'" "rdi (cpu s') = 7" "rsi (cpu s') = 42"
    "\<forall>a<2 ^ 48. map_option (rd (mem s')) (get_pte (mem s') (pgd (ctxs s' (cur s'))) a) =
        map_option (\<lambda>(k, fl). mk_pte (0x6404 + k) fl) (user_page a)"
    using kernel_launches_init [OF r len, of "0x70" boot_handlers "0x100000" "0x10" "0x8" "0x2" boot_osm sleep_os False False "0x2" 0 "[]" "\<lambda>_. CHR ''9''" "\<lambda>_. 0"]
    by auto
  have "user_page CODE_START = Some (0, 5)" by (simp add: user_page_def)
  with w(6) have "map_option (rd (mem s')) (get_pte (mem s') (pgd (ctxs s' (cur s'))) CODE_START) = Some (mk_pte 0x6404 5)"
    by (simp add: spec [of _ CODE_START])
  with w(1-5) show ?thesis by blast
qed

end
